(* ===== verification/Voyager_Prelude.thy ===== *)
theory Voyager_Prelude
  imports Main "HOL-Library.Word" "HOL-Library.Sublist"
begin

unbundle bit_operations_syntax

text \<open>
  Shared vocabulary of the development: the machine types of the C++ sources, the faults a
  run can end in, the result type of fallible operations with its bind, the view of a C++
  \<^verbatim>\<open>char\<close> as an unsigned byte, bounded writes into a vector, and the list lemmas that
  several components use. The collections \<open>res_simps\<close> and \<open>seg_simps\<close> carry the
  component proofs.
\<close>

section \<open>Machine types\<close>

type_synonym byte = "8 word"
type_synonym u16 = "16 word"
type_synonym u32 = "32 word"
type_synonym u64 = "64 word"

section \<open>Faults and results\<close>

text \<open>
  What ends a run of the code abnormally: a failed \<^verbatim>\<open>assert\<close>, an access outside an array
  or a vector, a null pointer, a \<^verbatim>\<open>VOYAGER_LOG(FATAL)\<close>, which aborts, a deleted object that is
  used again. A fallible operation returns \<open>Inl\<close> of the fault or \<open>Inr\<close> of its result.
\<close>

datatype fault = AssertionFailed | OutOfBounds | NullPointer | Fatal | UseAfterFree

type_synonym 'a res = "fault + 'a"

named_theorems res_simps \<open>evaluation of the result type\<close>
named_theorems seg_simps \<open>segments of lists and bounded writes\<close>

definition rbind :: "'a res \<Rightarrow> ('a \<Rightarrow> 'b res) \<Rightarrow> 'b res" where
  "rbind m f = (case m of Inl e \<Rightarrow> Inl e | Inr x \<Rightarrow> f x)"

definition guard :: "fault \<Rightarrow> bool \<Rightarrow> 'a res \<Rightarrow> 'a res" where
  "guard e b k = (if b then k else Inl e)"

lemma rbind_simps [simp, res_simps]:
  "rbind (Inl e) f = Inl e"
  "rbind (Inr x) f = f x"
  by (simp_all add: rbind_def)

lemma guard_simps [simp, res_simps]:
  "guard e True k = k"
  "guard e False k = Inl e"
  by (simp_all add: guard_def)

lemma rbind_eq_Inr: "rbind m f = Inr y \<longleftrightarrow> (\<exists>x. m = Inr x \<and> f x = Inr y)"
  by (cases m) auto

lemma guard_eq_Inr: "guard e b k = Inr y \<longleftrightarrow> b \<and> k = Inr y"
  by (simp add: guard_def)

lemma rbind_cong [fundef_cong]:
  "m = m' \<Longrightarrow> (\<And>x. m' = Inr x \<Longrightarrow> f x = f' x) \<Longrightarrow> rbind m f = rbind m' f'"
  by (cases m') auto

lemma guard_cong [fundef_cong]:
  "b = b' \<Longrightarrow> (b' \<Longrightarrow> k = k') \<Longrightarrow> guard e b k = guard e b' k'"
  by (simp add: guard_def)

lemmas res_elims = rbind_eq_Inr guard_eq_Inr

section \<open>Characters as bytes\<close>

text \<open>
  A C++ \<^verbatim>\<open>char\<close> is one byte. Text is a HOL \<^typ>\<open>string\<close>; where the code reads a
  \<^verbatim>\<open>char\<close> through \<^verbatim>\<open>unsigned char\<close> or \<^verbatim>\<open>uint8_t\<close>, the model goes through
  \<open>byte_of_char\<close>, and back through \<open>char_of_byte\<close>.
\<close>

definition byte_of_char :: "char \<Rightarrow> byte" where
  "byte_of_char c = of_nat (of_char c)"

definition char_of_byte :: "byte \<Rightarrow> char" where
  "char_of_byte b = char_of (unat b)"

lemma of_char_less_256 [simp]: "(of_char c :: nat) < 256"
  by (metis nat_of_char_less_256)

lemma unat_byte_of_char: "unat (byte_of_char c) = of_char c"
  by (simp add: byte_of_char_def unat_of_nat)

lemma char_of_byte_of_char [simp]: "char_of_byte (byte_of_char c) = c"
  by (simp add: char_of_byte_def unat_byte_of_char)

lemma byte_of_char_of_byte [simp]: "byte_of_char (char_of_byte b) = b"
proof -
  have "unat b < 256" using unsigned_less [of b, where ?'a = nat] by simp
  then have "(of_char (char_of (unat b)) :: nat) = unat b" by (simp add: of_char_of)
  then show ?thesis by (simp add: byte_of_char_def char_of_byte_def)
qed

definition bytes_of_string :: "string \<Rightarrow> byte list" where
  "bytes_of_string s = map byte_of_char s"

definition string_of_bytes :: "byte list \<Rightarrow> string" where
  "string_of_bytes bs = map char_of_byte bs"

lemma string_of_bytes_of_string [simp]: "string_of_bytes (bytes_of_string s) = s"
  by (simp add: string_of_bytes_def bytes_of_string_def o_def)

lemma bytes_of_string_of_bytes [simp]: "bytes_of_string (string_of_bytes bs) = bs"
  by (simp add: string_of_bytes_def bytes_of_string_def o_def)

lemma length_bytes_of_string [simp]: "length (bytes_of_string s) = length s"
  by (simp add: bytes_of_string_def)

lemma length_string_of_bytes [simp]: "length (string_of_bytes bs) = length bs"
  by (simp add: string_of_bytes_def)

lemma bytes_of_string_append [simp]:
  "bytes_of_string (s @ t) = bytes_of_string s @ bytes_of_string t"
  by (simp add: bytes_of_string_def)

lemma string_of_bytes_append [simp]:
  "string_of_bytes (s @ t) = string_of_bytes s @ string_of_bytes t"
  by (simp add: string_of_bytes_def)

lemma bytes_of_string_drop: "bytes_of_string (drop n s) = drop n (bytes_of_string s)"
  by (simp add: bytes_of_string_def drop_map)

section \<open>Segments of a vector\<close>

text \<open>
  \<open>segment i j xs\<close> is the range \<open>[i, j)\<close> of a vector. \<open>write_at i ys xs\<close> is the vector after
  \<^verbatim>\<open>std::copy\<close> or \<^verbatim>\<open>memcpy\<close> of \<open>ys\<close> to offset \<open>i\<close>; \<open>vec_copy\<close> is the same write, which
  faults when it does not fit: the C++ would write past the end.
\<close>

definition segment :: "nat \<Rightarrow> nat \<Rightarrow> 'a list \<Rightarrow> 'a list" where
  "segment i j xs = take (j - i) (drop i xs)"

definition write_at :: "nat \<Rightarrow> 'a list \<Rightarrow> 'a list \<Rightarrow> 'a list" where
  "write_at i ys xs = take i xs @ ys @ drop (i + length ys) xs"

definition vec_copy :: "nat \<Rightarrow> 'a list \<Rightarrow> 'a list \<Rightarrow> 'a list res" where
  "vec_copy i ys xs = guard OutOfBounds (i + length ys \<le> length xs) (Inr (write_at i ys xs))"

text \<open>\<^verbatim>\<open>std::vector::resize\<close>: cut, or extend with value-initialised elements.\<close>

definition vec_resize :: "'a \<Rightarrow> nat \<Rightarrow> 'a list \<Rightarrow> 'a list" where
  "vec_resize z n xs = take n xs @ replicate (n - length xs) z"

lemma length_vec_resize [simp]: "length (vec_resize z n xs) = n"
  by (simp add: vec_resize_def)

lemma length_segment [simp]: "j \<le> length xs \<Longrightarrow> length (segment i j xs) = j - i"
  by (simp add: segment_def)

lemma segment_empty [simp]: "segment i i xs = []"
  by (simp add: segment_def)

lemma length_write_at [simp]:
  "i + length ys \<le> length xs \<Longrightarrow> length (write_at i ys xs) = length xs"
  by (simp add: write_at_def)

lemma take_segment_le: "n \<le> m \<Longrightarrow> take n (take m xs @ ys) = take n xs" if "m \<le> length xs"
  using that by (simp add: min_def)

lemma segment_prefix:
  assumes "j \<le> k" and "k \<le> length xs"
  shows "segment i j (take k xs @ ys) = segment i j xs"
proof -
  have "segment i j zs = drop i (take j zs)" for zs :: "'a list"
    by (cases "i \<le> j") (simp_all add: segment_def drop_take)
  moreover have "take j (take k xs @ ys) = take j xs"
    using assms by (rule take_segment_le [rotated])
  ultimately show ?thesis by simp
qed

lemma segment_write_at_before [seg_simps]:
  "j \<le> k \<Longrightarrow> k \<le> length xs \<Longrightarrow> segment i j (write_at k ys xs) = segment i j xs"
  by (simp add: write_at_def segment_prefix)

lemma segment_write_at [seg_simps]:
  "k + length ys \<le> length xs \<Longrightarrow> segment k (k + length ys) (write_at k ys xs) = ys"
  by (simp add: segment_def write_at_def)

lemma segment_append:
  "i \<le> j \<Longrightarrow> j \<le> k \<Longrightarrow> segment i j xs @ segment j k xs = segment i k xs"
proof -
  assume "i \<le> j" and "j \<le> k"
  then have "take (k - i) (drop i xs)
    = take (j - i) (drop i xs) @ take (k - j) (drop (j - i) (drop i xs))"
    using take_add [of "j - i" "k - j" "drop i xs"] by simp
  with \<open>i \<le> j\<close> show ?thesis by (simp add: segment_def)
qed

lemma segment_vec_resize [seg_simps]:
  "j \<le> length xs \<Longrightarrow> length xs \<le> n \<Longrightarrow> segment i j (vec_resize z n xs) = segment i j xs"
  using segment_prefix [of j "length xs" xs i "replicate (n - length xs) z"]
  by (simp add: vec_resize_def)

lemma drop_segment [seg_simps]: "drop n (segment i j xs) = segment (i + n) j xs"
  by (simp add: segment_def drop_take add.commute)

lemma take_segment [seg_simps]: "i + n \<le> j \<Longrightarrow> take n (segment i j xs) = segment i (i + n) xs"
  by (simp add: segment_def min_def)

end
