(* ===== verification/Buffer.thy ===== *)
theory Buffer
  imports Voyager_Prelude
begin

text \<open>
  The byte buffer of \<^verbatim>\<open>voyager/core/buffer.h\<close> and \<^verbatim>\<open>buffer.cc\<close>: a vector with a read and
  a write index. A pointer into the vector is modelled by its offset from \<^verbatim>\<open>buf.begin()\<close>.
  The operations are proved to implement a plain byte queue (locale \<open>byte_queue\<close>), which
  is how the connection, the HTTP parsers and the protobuf codec use them.
\<close>

section \<open>The class and its operations\<close>

record buffer =
  buf :: string
  read_index :: nat
  write_index :: nat

definition kInitBufferSize :: nat where
  "kInitBufferSize = 1024"

definition kBackupBufferSize :: nat where
  "kBackupBufferSize = 65536"

definition kCRLF :: string where
  "kCRLF = [CHR 0x0D, CHR 0x0A]"

definition new_Buffer :: "nat \<Rightarrow> buffer" where
  "new_Buffer init_size =
     \<lparr>buf = replicate init_size (CHR 0x00), read_index = 0, write_index = 0\<rparr>"

definition copy_Buffer :: "buffer \<Rightarrow> buffer" where
  "copy_Buffer other =
     \<lparr>buf = buf other, read_index = read_index other, write_index = write_index other\<rparr>"

text \<open>The move constructor returns the new buffer and the state the source is left in:
  \<^verbatim>\<open>std::move\<close> empties the vector of \<^verbatim>\<open>other\<close>, its two indices keep their values.\<close>

definition move_Buffer :: "buffer \<Rightarrow> buffer \<times> buffer" where
  "move_Buffer other =
     (\<lparr>buf = buf other, read_index = read_index other, write_index = write_index other\<rparr>,
      other\<lparr>buf := []\<rparr>)"

text \<open>The two assignments, between the buffers of a store, where source and destination may be one object.\<close>

definition assign_Buffer :: "'k \<Rightarrow> 'k \<Rightarrow> ('k \<Rightarrow> buffer) \<Rightarrow> ('k \<Rightarrow> buffer)" where
  "assign_Buffer this other st = (if this \<noteq> other then st(this := copy_Buffer (st other)) else st)"

definition move_assign_Buffer :: "'k \<Rightarrow> 'k \<Rightarrow> ('k \<Rightarrow> buffer) \<Rightarrow> ('k \<Rightarrow> buffer)" where
  "move_assign_Buffer this other st =
     (if this \<noteq> other then st(this := fst (move_Buffer (st other)), other := snd (move_Buffer (st other))) else st)"

definition ReadableSize :: "buffer \<Rightarrow> nat" where
  "ReadableSize b = write_index b - read_index b"

definition WritableSize :: "buffer \<Rightarrow> nat" where
  "WritableSize b = length (buf b) - write_index b"

definition MakeSpace :: "nat \<Rightarrow> buffer \<Rightarrow> buffer res" where
  "MakeSpace sz b =
     (if WritableSize b + read_index b < sz
      then Inr (b\<lparr>buf := vec_resize (CHR 0x00) (write_index b + sz) (buf b)\<rparr>)
      else let readable_size = ReadableSize b in
        rbind (vec_copy 0 (segment (read_index b) (write_index b) (buf b)) (buf b))
          (\<lambda>v. let b' = b\<lparr>buf := v, read_index := 0, write_index := 0 + readable_size\<rparr> in
             guard AssertionFailed (readable_size = ReadableSize b') (Inr b')))"

definition Append :: "string \<Rightarrow> buffer \<Rightarrow> buffer res" where
  "Append data b =
     rbind (if WritableSize b < length data then MakeSpace (length data) b else Inr b)
       (\<lambda>b. rbind (vec_copy (write_index b) data (buf b))
         (\<lambda>v. Inr (b\<lparr>buf := v, write_index := write_index b + length data\<rparr>)))"

text \<open>What the bytes from \<^verbatim>\<open>Peek()\<close> up to the write index are.\<close>

definition Peek :: "buffer \<Rightarrow> string" where
  "Peek b = segment (read_index b) (write_index b) (buf b)"

text \<open>\<^verbatim>\<open>std::search\<close> for a pattern: the offset of its first occurrence.\<close>

fun search_from :: "string \<Rightarrow> string \<Rightarrow> nat option" where
  "search_from pat [] = (if pat = [] then Some 0 else None)"
| "search_from pat (c # cs) =
     (if prefix pat (c # cs) then Some 0 else map_option Suc (search_from pat cs))"

text \<open>The offset of the result from \<^verbatim>\<open>Peek()\<close>, \<open>None\<close> for \<^verbatim>\<open>nullptr\<close>.\<close>

definition FindCRLF :: "buffer \<Rightarrow> nat option" where
  "FindCRLF b = search_from kCRLF (Peek b)"

definition RetrieveAll :: "buffer \<Rightarrow> buffer" where
  "RetrieveAll b = b\<lparr>read_index := 0, write_index := 0\<rparr>"

definition Retrieve :: "nat \<Rightarrow> buffer \<Rightarrow> buffer res" where
  "Retrieve sz b =
     guard AssertionFailed (sz \<le> ReadableSize b)
       (if sz < ReadableSize b
        then Inr (b\<lparr>read_index := read_index b + sz\<rparr>)
        else Inr (RetrieveAll b))"

text \<open>\<open>RetrieveUntil e\<close>: \<open>e\<close> is the offset of the end pointer from \<^verbatim>\<open>Peek()\<close>; an offset
  is not negative, which is the first assertion.\<close>

definition RetrieveUntil :: "nat \<Rightarrow> buffer \<Rightarrow> buffer res" where
  "RetrieveUntil e b =
     guard AssertionFailed (read_index b + e \<le> write_index b) (Retrieve e b)"

definition RetrieveAsString :: "nat \<Rightarrow> buffer \<Rightarrow> (string \<times> buffer) res" where
  "RetrieveAsString sz b =
     guard AssertionFailed (sz \<le> ReadableSize b)
       (rbind (Retrieve sz b) (\<lambda>b'. Inr (take sz (Peek b), b')))"

definition RetrieveAllAsString :: "buffer \<Rightarrow> (string \<times> buffer) res" where
  "RetrieveAllAsString b = RetrieveAsString (ReadableSize b) b"

definition ShrinkToFit :: "buffer \<Rightarrow> buffer" where
  "ShrinkToFit b = b\<lparr>read_index := 0, write_index := length (buf b)\<rparr>"

text \<open>
  \<^verbatim>\<open>ReadV\<close>: \<^verbatim>\<open>readv\<close> is given the writable tail of the vector and, when that tail is
  smaller than the backup array, the backup array. Its outcome is a parameter: \<open>None\<close> for
  \<^verbatim>\<open>-1\<close>, or the bytes it delivered, which fill the two areas in order.
\<close>

definition readv_capacity :: "buffer \<Rightarrow> nat" where
  "readv_capacity b =
     (if WritableSize b < kBackupBufferSize then WritableSize b + kBackupBufferSize
      else WritableSize b)"

definition ReadV :: "string option \<Rightarrow> buffer \<Rightarrow> (int \<times> buffer) res" where
  "ReadV r b =
     (case r of
        None \<Rightarrow> Inr (-1, b)
      | Some data \<Rightarrow>
          (let writable_size = WritableSize b; n = length data in
           rbind (vec_copy (write_index b) (take writable_size data) (buf b))
             (\<lambda>v. let b = b\<lparr>buf := v\<rparr>; backup_buf = drop writable_size data in
                if n \<le> writable_size
                then Inr (int n, b\<lparr>write_index := write_index b + n\<rparr>)
                else rbind (Append (take (n - writable_size) backup_buf)
                              (b\<lparr>write_index := length (buf b)\<rparr>))
                       (\<lambda>b'. Inr (int n, b')))))"

section \<open>Invariant and behaviour\<close>

definition buffer_ok :: "buffer \<Rightarrow> bool" where
  "buffer_ok b \<longleftrightarrow> read_index b \<le> write_index b \<and> write_index b \<le> length (buf b)"

lemmas buffer_defs = ReadableSize_def WritableSize_def Peek_def buffer_ok_def

lemma length_Peek [simp]: "buffer_ok b \<Longrightarrow> length (Peek b) = ReadableSize b"
  by (simp add: buffer_defs)

lemma new_Buffer_ok [simp]: "buffer_ok (new_Buffer n)" and Peek_new_Buffer [simp]: "Peek (new_Buffer n) = []"
  by (simp_all add: buffer_defs new_Buffer_def)

lemma buf_new_Buffer [simp]: "buf (new_Buffer n) = replicate n (CHR 0x00)"
  by (simp add: new_Buffer_def)

lemma copy_Buffer_id [simp]: "copy_Buffer b = b"
  by (simp add: copy_Buffer_def)

text \<open>An assigned buffer has the bytes of its source, also when it is its own source. A source that was moved
  from has lost its bytes but reports as many as before.\<close>

lemma assigned_buffer:
  "Peek (assign_Buffer this other st this) = Peek (st other)"
  "this \<noteq> other \<Longrightarrow> assign_Buffer this other st other = st other"
  "Peek (move_assign_Buffer this other st this) = Peek (st other)"
  "this \<noteq> other \<Longrightarrow> ReadableSize (move_assign_Buffer this other st other) = ReadableSize (st other)"
  "this \<noteq> other \<Longrightarrow> Peek (move_assign_Buffer this other st other) = []"
  "this \<noteq> other \<Longrightarrow> buffer_ok (move_assign_Buffer this other st other) \<Longrightarrow> ReadableSize (st other) = 0"
  by (auto simp: assign_Buffer_def move_assign_Buffer_def move_Buffer_def buffer_defs segment_def)

lemma MakeSpace_ok:
  assumes "buffer_ok b" and "WritableSize b < sz"
  obtains b' where "MakeSpace sz b = Inr b'" "buffer_ok b'" "Peek b' = Peek b"
    "write_index b' + sz \<le> length (buf b')"
proof (cases "WritableSize b + read_index b < sz")
  case True
  with assms show ?thesis
    by (intro that [of "b\<lparr>buf := vec_resize (CHR 0x00) (write_index b + sz) (buf b)\<rparr>"])
      (auto simp: MakeSpace_def buffer_defs seg_simps)
next
  case False
  let ?seg = "segment (read_index b) (write_index b) (buf b)"
  let ?b = "b\<lparr>buf := write_at 0 ?seg (buf b), read_index := 0,
    write_index := write_index b - read_index b\<rparr>"
  have len: "length ?seg = write_index b - read_index b"
    using assms by (simp add: buffer_defs)
  have "segment 0 (0 + length ?seg) (write_at 0 ?seg (buf b)) = ?seg"
    using assms by (intro segment_write_at) (auto simp: buffer_defs)
  then show ?thesis
    using assms False len diff_le_self [of "write_index b" "read_index b"]
    by (intro that [of ?b]) (auto simp: MakeSpace_def buffer_defs vec_copy_def guard_def Let_def)
qed

text \<open>\<^verbatim>\<open>Append\<close> never faults on a well-formed buffer and puts the data after the readable bytes.\<close>

lemma Append_ok:
  assumes "buffer_ok b"
  obtains b' where "Append data b = Inr b'" "buffer_ok b'" "Peek b' = Peek b @ data"
proof -
  obtain b1 where b1: "(if WritableSize b < length data then MakeSpace (length data) b else Inr b) = Inr b1"
    "buffer_ok b1" "Peek b1 = Peek b" "write_index b1 + length data \<le> length (buf b1)"
  proof (cases "WritableSize b < length data")
    case True
    with assms that show ?thesis by (auto elim: MakeSpace_ok)
  next
    case False
    with assms show ?thesis by (intro that [of b]) (auto simp: buffer_defs)
  qed
  let ?v = "write_at (write_index b1) data (buf b1)"
  have "segment (read_index b1) (write_index b1 + length data) ?v
    = segment (read_index b1) (write_index b1) ?v
      @ segment (write_index b1) (write_index b1 + length data) ?v"
    using b1(2) by (intro segment_append [symmetric]) (auto simp: buffer_defs)
  then show ?thesis
    using b1
    by (intro that [of "b1\<lparr>buf := ?v, write_index := write_index b1 + length data\<rparr>"])
      (auto simp: Append_def vec_copy_def buffer_defs seg_simps)
qed

lemma Retrieve_ok:
  assumes "buffer_ok b" and "sz \<le> ReadableSize b"
  obtains b' where "Retrieve sz b = Inr b'" "buffer_ok b'" "Peek b' = drop sz (Peek b)"
proof (cases "sz < ReadableSize b")
  case True
  with assms show ?thesis
    by (intro that [of "b\<lparr>read_index := read_index b + sz\<rparr>"])
      (auto simp: Retrieve_def buffer_defs seg_simps)
next
  case False
  with assms show ?thesis
    by (intro that [of "RetrieveAll b"])
      (auto simp: Retrieve_def RetrieveAll_def buffer_defs)
qed

lemma Retrieve_too_much: "ReadableSize b < sz \<Longrightarrow> Retrieve sz b = Inl AssertionFailed"
  by (simp add: Retrieve_def)

lemma RetrieveUntil_eq: "buffer_ok b \<Longrightarrow> RetrieveUntil e b = Retrieve e b"
  by (auto simp: RetrieveUntil_def Retrieve_def guard_def buffer_defs)

lemma RetrieveAll_ok [simp]: "buffer_ok (RetrieveAll b)" "Peek (RetrieveAll b) = []"
  by (simp_all add: RetrieveAll_def buffer_defs)

lemma RetrieveAsString_ok:
  assumes "buffer_ok b" and "sz \<le> ReadableSize b"
  obtains b' where "RetrieveAsString sz b = Inr (take sz (Peek b), b')" "buffer_ok b'"
    "Peek b' = drop sz (Peek b)"
  using assms by (auto simp: RetrieveAsString_def elim: Retrieve_ok)

lemma RetrieveAllAsString_ok:
  assumes "buffer_ok b"
  obtains b' where "RetrieveAllAsString b = Inr (Peek b, b')" "buffer_ok b'" "Peek b' = []"
  using assms RetrieveAsString_ok [of b "ReadableSize b"]
  by (auto simp: RetrieveAllAsString_def)

lemma ReadV_ok:
  assumes "buffer_ok b" and "length data \<le> readv_capacity b"
  obtains b' where "ReadV (Some data) b = Inr (int (length data), b')" "buffer_ok b'"
    "Peek b' = Peek b @ data"
proof -
  let ?w = "WritableSize b"
  let ?v = "write_at (write_index b) (take ?w data) (buf b)"
  let ?m = "write_index b + length (take ?w data)"
  let ?b1 = "b\<lparr>buf := ?v, write_index := ?m\<rparr>"
  have fits: "?m \<le> length (buf b)"
    using assms(1) by (auto simp: buffer_defs)
  have "segment (read_index b) ?m ?v
    = segment (read_index b) (write_index b) ?v @ segment (write_index b) ?m ?v"
    using assms(1) by (intro segment_append [symmetric]) (auto simp: buffer_defs)
  moreover have "segment (write_index b) ?m ?v = take ?w data"
    using fits by (rule segment_write_at)
  ultimately have peek1: "Peek ?b1 = Peek b @ take ?w data" and ok1: "buffer_ok ?b1"
    using assms(1) fits by (auto simp: buffer_defs segment_write_at_before)
  have copy: "vec_copy (write_index b) (take ?w data) (buf b) = Inr ?v"
    using fits by (simp add: vec_copy_def)
  show ?thesis
  proof (cases "length data \<le> ?w")
    case True
    with peek1 ok1 copy show ?thesis
      by (intro that [of ?b1]) (auto simp: ReadV_def Let_def)
  next
    case False
    obtain b2 where b2: "Append (drop ?w data) ?b1 = Inr b2" "buffer_ok b2"
      "Peek b2 = Peek ?b1 @ drop ?w data"
      using ok1 by (rule Append_ok)
    have "?b1 = b\<lparr>buf := ?v, write_index := length ?v\<rparr>"
      using False fits assms(1) by (auto simp: buffer_defs)
    with False b2 copy peek1 fits show ?thesis
      by (intro that [of b2]) (auto simp: ReadV_def Let_def)
  qed
qed

lemma ReadV_error [simp]: "ReadV None b = Inr (-1, b)"
  by (simp add: ReadV_def)

section \<open>Lines\<close>

text \<open>Finding the line ends that the text protocols use, and removing a line.\<close>

definition kLF :: char where
  "kLF = CHR 0x0A"

lemma search_from_bound:
  "search_from pat s = Some i \<Longrightarrow> i + length pat \<le> length s"
proof (induction s arbitrary: i)
  case Nil
  then show ?case by (auto split: if_splits)
next
  case (Cons c s)
  show ?case
  proof (cases "prefix pat (c # s)")
    case True
    with Cons.prems prefix_length_le [OF True] show ?thesis by simp
  next
    case False
    with Cons show ?thesis by auto
  qed
qed

lemma length_kCRLF [simp]: "length kCRLF = 2"
  by (simp add: kCRLF_def)

lemma RetrieveUntil_line:
  assumes "buffer_ok b" and "FindCRLF b = Some i"
  shows "\<exists>b'. RetrieveUntil (i + 2) b = Inr b' \<and> buffer_ok b' \<and> Peek b' = drop (i + 2) (Peek b)"
proof -
  have "i + 2 \<le> ReadableSize b"
    using search_from_bound [of kCRLF "Peek b" i] assms by (simp add: FindCRLF_def)
  with assms(1) show ?thesis
    unfolding RetrieveUntil_eq [OF assms(1)] by (rule Retrieve_ok) blast
qed

lemma search_from_append:
  assumes "search_from kCRLF s = Some i"
  shows "search_from kCRLF (s @ t) = Some i"
  using assms
proof (induction s arbitrary: i)
  case (Cons c s)
  show ?case
  proof (cases "prefix kCRLF (c # s)")
    case True
    with Cons.prems show ?thesis
      using prefix_order.trans [OF True, of "c # s @ t"] by simp
  next
    case False
    then obtain j where j: "search_from kCRLF s = Some j" "i = Suc j"
      using Cons.prems by auto
    have "s \<noteq> []" using search_from_bound [OF j(1)] by auto
    then have "\<not> prefix kCRLF (c # s @ t)"
      using False by (cases s) (auto simp: kCRLF_def)
    with Cons.IH [OF j(1)] j(2) show ?thesis by simp
  qed
qed (simp add: kCRLF_def)

lemma search_line:
  "kLF \<notin> set l \<Longrightarrow> search_from kCRLF (l @ kCRLF @ t) = Some (length l)"
proof (induction l)
  case (Cons c l)
  then have "\<not> prefix kCRLF (c # l @ kCRLF @ t)"
    by (cases l) (auto simp: kCRLF_def kLF_def)
  with Cons show ?case by simp
qed (simp add: kCRLF_def)

lemma drop_line: "drop (length l + 2) (l @ kCRLF @ t) = t"
  by (simp add: kCRLF_def)

section \<open>The buffer as a byte queue\<close>

text \<open>
  The contract the clients of the buffer rely on: \<open>append\<close> never faults and adds at the end,
  \<open>retrieve\<close> takes from the front and faults only when asked for more than is readable.
\<close>

locale byte_queue =
  fixes invar :: "'q \<Rightarrow> bool"
    and bytes :: "'q \<Rightarrow> string"
    and append :: "string \<Rightarrow> 'q \<Rightarrow> 'q res"
    and retrieve :: "nat \<Rightarrow> 'q \<Rightarrow> 'q res"
  assumes append_law:
      "invar q \<Longrightarrow> \<exists>q'. append d q = Inr q' \<and> invar q' \<and> bytes q' = bytes q @ d"
    and retrieve_law:
      "invar q \<Longrightarrow> n \<le> length (bytes q) \<Longrightarrow>
         \<exists>q'. retrieve n q = Inr q' \<and> invar q' \<and> bytes q' = drop n (bytes q)"
    and retrieve_fault:
      "invar q \<Longrightarrow> length (bytes q) < n \<Longrightarrow> retrieve n q = Inl AssertionFailed"

text \<open>A sequence of operations on any queue, and what it does to the plain byte sequence.\<close>

datatype queue_op = QAppend string | QRetrieve nat

fun run_queue :: "(string \<Rightarrow> 'q \<Rightarrow> 'q res) \<Rightarrow> (nat \<Rightarrow> 'q \<Rightarrow> 'q res) \<Rightarrow> queue_op list \<Rightarrow> 'q \<Rightarrow> 'q res" where
  "run_queue app ret [] q = Inr q"
| "run_queue app ret (QAppend d # ops) q = rbind (app d q) (run_queue app ret ops)"
| "run_queue app ret (QRetrieve n # ops) q = rbind (ret n q) (run_queue app ret ops)"

fun spec_queue :: "queue_op list \<Rightarrow> string \<Rightarrow> string res" where
  "spec_queue [] s = Inr s"
| "spec_queue (QAppend d # ops) s = spec_queue ops (s @ d)"
| "spec_queue (QRetrieve n # ops) s =
     guard AssertionFailed (n \<le> length s) (spec_queue ops (drop n s))"

context byte_queue
begin

lemma run_refines:
  assumes "invar q"
  shows "case spec_queue ops (bytes q) of
      Inl e \<Rightarrow> run_queue append retrieve ops q = Inl e
    | Inr s \<Rightarrow> \<exists>q'. run_queue append retrieve ops q = Inr q' \<and> invar q' \<and> bytes q' = s"
  using assms
proof (induction ops arbitrary: q)
  case Nil
  then show ?case by simp
next
  case (Cons op ops)
  show ?case
  proof (cases op)
    case (QAppend d)
    from append_law [OF Cons.prems, of d] obtain q' where
      "append d q = Inr q'" "invar q'" "bytes q' = bytes q @ d" by blast
    with Cons.IH [of q'] QAppend show ?thesis by (simp split: sum.splits)
  next
    case (QRetrieve n)
    show ?thesis
    proof (cases "n \<le> length (bytes q)")
      case True
      with retrieve_law [OF Cons.prems] obtain q' where
        "retrieve n q = Inr q'" "invar q'" "bytes q' = drop n (bytes q)" by blast
      with Cons.IH [of q'] QRetrieve True show ?thesis by (simp split: sum.splits)
    next
      case False
      with Cons.prems QRetrieve show ?thesis by (simp add: retrieve_fault)
    qed
  qed
qed

end

interpretation buffer_queue: byte_queue buffer_ok Peek Append Retrieve
proof
  fix q d assume "buffer_ok q"
  then show "\<exists>q'. Append d q = Inr q' \<and> buffer_ok q' \<and> Peek q' = Peek q @ d"
    by (auto elim: Append_ok [where data = d])
next
  fix q n assume "buffer_ok q" and "n \<le> length (Peek q)"
  then show "\<exists>q'. Retrieve n q = Inr q' \<and> buffer_ok q' \<and> Peek q' = drop n (Peek q)"
    by (auto elim: Retrieve_ok [where sz = n])
next
  fix q n assume "buffer_ok q" and "length (Peek q) < n"
  then show "Retrieve n q = Inl AssertionFailed"
    by (simp add: Retrieve_too_much)
qed

section \<open>Properties\<close>

text \<open>C8: the buffer is a byte queue. Any sequence of \<^verbatim>\<open>Append\<close> and \<^verbatim>\<open>Retrieve\<close> calls on a
  well-formed buffer, whatever it does to the vector and its indices (growing it, moving the
  readable bytes to its front, resetting the indices), has the effect of the same calls on the
  plain sequence of readable bytes; it faults exactly when a call retrieves more than is
  readable, and never by writing outside the vector.\<close>

theorem buffer_refines_queue:
  assumes "buffer_ok b"
  shows "case spec_queue ops (Peek b) of
      Inl e \<Rightarrow> run_queue Append Retrieve ops b = Inl e
    | Inr s \<Rightarrow> \<exists>b'. run_queue Append Retrieve ops b = Inr b' \<and> buffer_ok b' \<and> Peek b' = s"
  using assms by (rule buffer_queue.run_refines)

theorem buffer_refines_queue_witness:
  "\<exists>b'. run_queue Append Retrieve [QAppend ''abc'', QRetrieve 2, QAppend ''de''] (new_Buffer 4) = Inr b'
     \<and> buffer_ok b' \<and> Peek b' = ''cde''"
  using buffer_refines_queue [of "new_Buffer 4" "[QAppend ''abc'', QRetrieve 2, QAppend ''de'']"]
  by simp

text \<open>reading from a socket. Whatever \<^verbatim>\<open>readv\<close> delivers within the room it was given (the
  writable tail, and the 64 KiB backup array when the tail is smaller), \<^verbatim>\<open>ReadV\<close> returns the
  number of bytes, does not write outside the vector, and the bytes follow the readable ones.\<close>

theorem readv_appends:
  assumes "buffer_ok b" and "length data \<le> readv_capacity b"
  shows "\<exists>b'. ReadV (Some data) b = Inr (int (length data), b') \<and> buffer_ok b' \<and> Peek b' = Peek b @ data"
  using ReadV_ok [OF assms] by metis

theorem readv_appends_witness:
  "\<exists>b'. ReadV (Some ''hello'') (new_Buffer 2) = Inr (5, b') \<and> buffer_ok b' \<and> Peek b' = ''hello''"
  using readv_appends [of "new_Buffer 2" "''hello''"]
  by (simp add: readv_capacity_def kBackupBufferSize_def)

text \<open>\<^verbatim>\<open>ShrinkToFit\<close> keeps the readable bytes only when they fill the whole vector: it sets
  the write index to the size of the vector, so every byte of it, consumed or never written,
  becomes readable.\<close>

theorem shrink_to_fit_exposes:
  assumes "buffer_ok b"
  shows "Peek (ShrinkToFit b) = buf b
    \<and> (Peek (ShrinkToFit b) = Peek b \<longleftrightarrow> read_index b = 0 \<and> write_index b = length (buf b))"
proof -
  have whole: "Peek (ShrinkToFit b) = buf b"
    by (simp add: ShrinkToFit_def Peek_def segment_def)
  have "read_index b = 0 \<and> write_index b = length (buf b)" if "buf b = Peek b"
  proof -
    from that have "length (buf b) = write_index b - read_index b"
      using length_Peek [OF assms] by (simp add: ReadableSize_def)
    with assms show ?thesis by (auto simp: buffer_ok_def)
  qed
  moreover have "Peek b = buf b" if "read_index b = 0" and "write_index b = length (buf b)"
    using that by (simp add: Peek_def segment_def)
  ultimately show ?thesis using whole by metis
qed

theorem shrink_to_fit_exposes_witness:
  "Peek (ShrinkToFit (new_Buffer 2)) = replicate 2 (CHR 0x00) \<and> Peek (new_Buffer 2) = []"
  using shrink_to_fit_exposes [OF new_Buffer_ok, of 2] by simp

end
