(* ===== verification/Coding.thy ===== *)
theory Coding
  imports Voyager_Prelude
begin

unbundle bit_operations_syntax

text \<open>
  The integer and slice encodings of \<^verbatim>\<open>voyager/util/coding.h\<close> and \<^verbatim>\<open>coding.cc\<close>, over byte
  lists: a pointer range \<open>[p, limit)\<close> is the list of its bytes, a routine that returns an
  advanced pointer returns the bytes that are left. \<^verbatim>\<open>kLittleEndian\<close>, a constant of the
  platform, is a parameter \<open>le\<close>. The locale \<open>wire_format\<close> states what a writer and a reader
  promise each other; every Put/Get pair of the file is an instance of it.
\<close>

section \<open>Memory layout of integers\<close>

text \<open>\<^verbatim>\<open>memcpy\<close> of an integer: its bytes in the order of the machine.\<close>

fun le_bytes :: "nat \<Rightarrow> 'a::len word \<Rightarrow> byte list" where
  "le_bytes 0 v = []"
| "le_bytes (Suc n) v = ucast v # le_bytes n (drop_bit 8 v)"

fun le_word :: "byte list \<Rightarrow> 'a::len word" where
  "le_word [] = 0"
| "le_word (b # bs) = ucast b OR push_bit 8 (le_word bs)"

definition store_word :: "bool \<Rightarrow> nat \<Rightarrow> 'a::len word \<Rightarrow> byte list" where
  "store_word le n v = (if le then le_bytes n v else rev (le_bytes n v))"

definition load_word :: "bool \<Rightarrow> byte list \<Rightarrow> 'a::len word" where
  "load_word le bs = (if le then le_word bs else le_word (rev bs))"

section \<open>Fixed-width integers\<close>

definition ByteAsUint32 :: "byte \<Rightarrow> u32" where
  "ByteAsUint32 c = ucast c AND 0xff"

definition ByteAsUint64 :: "byte \<Rightarrow> u64" where
  "ByteAsUint64 c = ucast (ucast c AND 0xff :: u32)"

definition Uint32AsByte :: "u32 \<Rightarrow> byte" where
  "Uint32AsByte i = ucast (i AND 0xff)"

definition Uint64AsByte :: "u64 \<Rightarrow> byte" where
  "Uint64AsByte i = ucast (i AND 0xff)"

definition EncodeFixed32 :: "bool \<Rightarrow> u32 \<Rightarrow> byte list" where
  "EncodeFixed32 le value =
     (if le then store_word le 4 value
      else [Uint32AsByte value, Uint32AsByte (drop_bit 8 value),
            Uint32AsByte (drop_bit 16 value), Uint32AsByte (drop_bit 24 value)])"

definition EncodeFixed64 :: "bool \<Rightarrow> u64 \<Rightarrow> byte list" where
  "EncodeFixed64 le value =
     (if le then store_word le 8 value
      else [Uint64AsByte value, Uint64AsByte (drop_bit 8 value),
            Uint64AsByte (drop_bit 16 value), Uint64AsByte (drop_bit 24 value),
            Uint64AsByte (drop_bit 32 value), Uint64AsByte (drop_bit 40 value),
            Uint64AsByte (drop_bit 48 value), Uint64AsByte (drop_bit 56 value)])"

definition PutFixed32 :: "bool \<Rightarrow> u32 \<Rightarrow> byte list \<Rightarrow> byte list" where
  "PutFixed32 le value dst = dst @ EncodeFixed32 le value"

definition PutFixed64 :: "bool \<Rightarrow> u64 \<Rightarrow> byte list \<Rightarrow> byte list" where
  "PutFixed64 le value dst = dst @ EncodeFixed64 le value"

text \<open>The decoders read from a raw pointer without a bounds check: four (eight) bytes have
  to be there.\<close>

definition DecodeFixed32 :: "bool \<Rightarrow> byte list \<Rightarrow> u32 res" where
  "DecodeFixed32 le ptr =
     guard OutOfBounds (4 \<le> length ptr)
       (Inr (if le then load_word le (take 4 ptr)
             else ByteAsUint32 (ptr ! 0) OR push_bit 8 (ByteAsUint32 (ptr ! 1)) OR
                  push_bit 16 (ByteAsUint32 (ptr ! 2)) OR push_bit 24 (ByteAsUint32 (ptr ! 3))))"

definition DecodeFixed64 :: "bool \<Rightarrow> byte list \<Rightarrow> u64 res" where
  "DecodeFixed64 le ptr =
     (if le then guard OutOfBounds (8 \<le> length ptr) (Inr (load_word le (take 8 ptr)))
      else rbind (DecodeFixed32 le ptr) (\<lambda>lo.
        rbind (DecodeFixed32 le (drop 4 ptr)) (\<lambda>hi.
          Inr (push_bit 32 (ucast hi) OR ucast lo))))"

section \<open>Variable-length integers\<close>

definition kMaxVarint32Bytes :: nat where
  "kMaxVarint32Bytes = 5"

definition EncodeVarint32 :: "u32 \<Rightarrow> byte list" where
  "EncodeVarint32 v =
     (if v < push_bit 7 1 then [ucast v]
      else if v < push_bit 14 1 then [ucast (v OR 128), ucast (drop_bit 7 v)]
      else if v < push_bit 21 1 then
        [ucast (v OR 128), ucast (drop_bit 7 v OR 128), ucast (drop_bit 14 v)]
      else if v < push_bit 28 1 then
        [ucast (v OR 128), ucast (drop_bit 7 v OR 128), ucast (drop_bit 14 v OR 128),
         ucast (drop_bit 21 v)]
      else
        [ucast (v OR 128), ucast (drop_bit 7 v OR 128), ucast (drop_bit 14 v OR 128),
         ucast (drop_bit 21 v OR 128), ucast (drop_bit 28 v)])"

definition PutVarint32 :: "u32 \<Rightarrow> byte list \<Rightarrow> byte list" where
  "PutVarint32 v dst = dst @ EncodeVarint32 v"

lemma drop_bit_7_less: "128 \<le> v \<Longrightarrow> unat (drop_bit 7 v) < unat v" for v :: u64
  unfolding word_le_nat_alt unat_drop_bit_eq by (simp add: drop_bit_eq_div)

function EncodeVarint64 :: "u64 \<Rightarrow> byte list" where
  "EncodeVarint64 v =
     (if 128 \<le> v then ucast ((v AND (128 - 1)) OR 128) # EncodeVarint64 (drop_bit 7 v)
      else [ucast v])"
  by pat_completeness auto
termination
  by (relation "measure unat") (use drop_bit_7_less in auto)

declare EncodeVarint64.simps [simp del]

definition PutVarint64 :: "u64 \<Rightarrow> byte list \<Rightarrow> byte list" where
  "PutVarint64 v dst = dst @ EncodeVarint64 v"

function VarintLength_loop :: "u64 \<Rightarrow> nat \<Rightarrow> nat" where
  "VarintLength_loop v len =
     (if 128 \<le> v then VarintLength_loop (drop_bit 7 v) (len + 1) else len)"
  by pat_completeness auto
termination
  by (relation "measure (unat \<circ> fst)") (use drop_bit_7_less in auto)

declare VarintLength_loop.simps [simp del]

definition VarintLength :: "u64 \<Rightarrow> nat" where
  "VarintLength v = VarintLength_loop v 1"

text \<open>The loop of the fallback decoder: \<open>shift\<close> and \<open>result\<close> are its variables, \<open>None\<close>
  is \<^verbatim>\<open>nullptr\<close>.\<close>

function GetVarint32_loop :: "nat \<Rightarrow> u32 \<Rightarrow> byte list \<Rightarrow> (u32 \<times> byte list) option" where
  "GetVarint32_loop shift result p =
     (if shift \<le> 28 \<and> p \<noteq> [] then
        (let byte = ucast (hd p) :: u32; p = tl p in
         if byte AND 128 \<noteq> 0
         then GetVarint32_loop (shift + 7) (result OR push_bit shift (byte AND 127)) p
         else Some (result OR push_bit shift byte, p))
      else None)"
  by pat_completeness auto
termination
  by (relation "measure (\<lambda>(shift, result, p). length p)") auto

declare GetVarint32_loop.simps [simp del]

definition GetVarint32PtrFallback :: "byte list \<Rightarrow> (u32 \<times> byte list) option" where
  "GetVarint32PtrFallback p = GetVarint32_loop 0 0 p"

definition GetVarint32Ptr :: "byte list \<Rightarrow> (u32 \<times> byte list) option" where
  "GetVarint32Ptr p =
     (if p \<noteq> [] \<and> (ucast (hd p) :: u32) AND 128 = 0 then Some (ucast (hd p), tl p)
      else GetVarint32PtrFallback p)"

definition GetVarint32 :: "byte list \<Rightarrow> (u32 \<times> byte list) option" where
  "GetVarint32 input = GetVarint32Ptr input"

function GetVarint64_loop :: "nat \<Rightarrow> u64 \<Rightarrow> byte list \<Rightarrow> (u64 \<times> byte list) option" where
  "GetVarint64_loop shift result p =
     (if shift \<le> 63 \<and> p \<noteq> [] then
        (let byte = ucast (hd p) :: u64; p = tl p in
         if byte AND 128 \<noteq> 0
         then GetVarint64_loop (shift + 7) (result OR push_bit shift (byte AND 127)) p
         else Some (result OR push_bit shift byte, p))
      else None)"
  by pat_completeness auto
termination
  by (relation "measure (\<lambda>(shift, result, p). length p)") auto

declare GetVarint64_loop.simps [simp del]

definition GetVarint64Ptr :: "byte list \<Rightarrow> (u64 \<times> byte list) option" where
  "GetVarint64Ptr p = GetVarint64_loop 0 0 p"

definition GetVarint64 :: "byte list \<Rightarrow> (u64 \<times> byte list) option" where
  "GetVarint64 input = GetVarint64Ptr input"

section \<open>Length-prefixed slices\<close>

text \<open>\<^verbatim>\<open>value.size()\<close> is narrowed to 32 bits on its way into \<^verbatim>\<open>PutVarint32\<close>.\<close>

definition PutLengthPrefixedSlice :: "byte list \<Rightarrow> byte list \<Rightarrow> byte list" where
  "PutLengthPrefixedSlice value dst = PutVarint32 (of_nat (length value)) dst @ value"

definition GetLengthPrefixedSlicePtr :: "byte list \<Rightarrow> (byte list \<times> byte list) option" where
  "GetLengthPrefixedSlicePtr p =
     (case GetVarint32Ptr p of
        None \<Rightarrow> None
      | Some (len, p) \<Rightarrow>
          if length p < unat len then None else Some (take (unat len) p, drop (unat len) p))"

definition GetLengthPrefixedSlice :: "byte list \<Rightarrow> (byte list \<times> byte list) option" where
  "GetLengthPrefixedSlice input =
     (case GetVarint32 input of
        None \<Rightarrow> None
      | Some (len, input) \<Rightarrow>
          if unat len \<le> length input
          then Some (take (unat len) input, drop (unat len) input) else None)"

section \<open>Bit facts\<close>

named_theorems byte_bits \<open>bits of the masks and continuation flags of a varint\<close>

text \<open>The simplifier reads a bit of a word numeral off the integer of the same value.\<close>

lemma bit_int_numerals [byte_bits]:
  "bit (127 :: int) n \<longleftrightarrow> n < 7"
  "bit (128 :: int) n \<longleftrightarrow> n = 7"
  "bit (255 :: int) n \<longleftrightarrow> n < 8"
proof -
  have "(127 :: int) = mask 7" and "(128 :: int) = 2 ^ 7" and "(255 :: int) = mask 8"
    by (simp_all add: mask_eq_exp_minus_1)
  then show "bit (127 :: int) n \<longleftrightarrow> n < 7" and "bit (128 :: int) n \<longleftrightarrow> n = 7"
    and "bit (255 :: int) n \<longleftrightarrow> n < 8"
    using bit_mask_iff [of 7 n, where ?'a = int] bit_exp_iff [of 7 n, where ?'a = int]
      bit_mask_iff [of 8 n, where ?'a = int]
    by (simp_all only: possible_bit_int) auto
qed

lemma and_128_eq_0: "x AND 128 = 0 \<longleftrightarrow> \<not> bit x 7" for x :: "'a::len word"
  by (auto simp: bit_eq_iff [of "x AND 128" 0] bit_and_iff byte_bits dest: bit_imp_le_length)

lemma bit_of_small:
  assumes "unat x < 2 ^ k" and "bit x n"
  shows "n < k"
proof -
  from assms(2) have "bit (unat x) n" by (simp add: bit_unsigned_iff)
  then have "2 ^ n \<le> unat x"
    by (metis bit_nat_def div_less even_zero leI)
  with assms(1) have "(2::nat) ^ n < 2 ^ k" by (rule order_le_less_trans [rotated])
  then show ?thesis by (rule power_less_imp_less_exp [rotated]) simp
qed

section \<open>Round trips\<close>

lemma le_word_le_bytes: "le_word (le_bytes n v) = take_bit (8 * n) v" for v :: "'a::len word"
proof (induction n arbitrary: v)
  case 0
  then show ?case by simp
next
  case (Suc n)
  show ?case
    by (rule bit_word_eqI) (auto simp: Suc.IH bit_simps)
qed

lemma varint_byte_more: "bit (ucast ((v AND 127) OR 128 :: u64) :: byte) 7"
  by (simp add: bit_simps byte_bits)

lemma varint_byte_payload:
  "(ucast (ucast ((v AND 127) OR 128 :: u64) :: byte) :: u64) AND 127 = v AND 127"
  by (rule bit_word_eqI) (auto simp: bit_simps byte_bits)

lemma varint_split: "push_bit s (v AND 127) OR push_bit (s + 7) (drop_bit 7 v) = push_bit s v"
  for v :: "'a::len word"
proof (rule bit_word_eqI)
  fix n assume "n < LENGTH('a)"
  then show "bit (push_bit s (v AND 127) OR push_bit (s + 7) (drop_bit 7 v)) n = bit (push_bit s v) n"
    by (cases "n < s + 7") (auto simp: bit_simps byte_bits)
qed

lemma length_le_bytes [simp]: "length (le_bytes n v) = n"
  by (induction n arbitrary: v) simp_all

lemma le_bytes_4: "le_bytes 4 v =
    [ucast v, ucast (drop_bit 8 v), ucast (drop_bit 16 v), ucast (drop_bit 24 v)]"
  by (simp add: eval_nat_numeral)

lemma le_bytes_8: "le_bytes 8 v =
    [ucast v, ucast (drop_bit 8 v), ucast (drop_bit 16 v), ucast (drop_bit 24 v),
     ucast (drop_bit 32 v), ucast (drop_bit 40 v), ucast (drop_bit 48 v), ucast (drop_bit 56 v)]"
  by (simp add: eval_nat_numeral)

lemma Uint_as_byte:
  "Uint32AsByte i = ucast i"
  "Uint64AsByte j = ucast j"
  by (rule bit_word_eqI, auto simp: Uint32AsByte_def Uint64AsByte_def bit_simps byte_bits)+

lemma Byte_as_uint:
  "ByteAsUint32 c = ucast c"
  "ByteAsUint64 c = ucast c"
  by (rule bit_word_eqI, auto simp: ByteAsUint32_def ByteAsUint64_def bit_simps byte_bits
      dest: bit_imp_le_length)+

text \<open>Both branches of the encoder write the least significant byte first.\<close>

lemma EncodeFixed32_le: "EncodeFixed32 le v = le_bytes 4 v"
  by (simp add: EncodeFixed32_def store_word_def le_bytes_4 Uint_as_byte)

lemma EncodeFixed64_le: "EncodeFixed64 le v = le_bytes 8 v"
  by (simp add: EncodeFixed64_def store_word_def le_bytes_8 Uint_as_byte)

lemma list_length_4: "4 \<le> length p \<Longrightarrow> \<exists>a b c d q. p = a # b # c # d # q"
  by (auto simp: numeral_eq_Suc Suc_le_length_iff)

lemma DecodeFixed32_le:
  assumes "4 \<le> length p"
  shows "DecodeFixed32 le p = Inr (le_word (take 4 p))"
proof -
  obtain a b c d q where p: "p = a # b # c # d # q"
    using list_length_4 [OF assms] by blast
  have "(le_word [a, b, c, d] :: u32)
    = ucast a OR push_bit 8 (ucast b) OR push_bit 16 (ucast c) OR push_bit 24 (ucast d)"
    by (simp add: push_bit_or or.assoc)
  with p show ?thesis
    by (simp add: DecodeFixed32_def load_word_def Byte_as_uint or.assoc)
qed

lemma DecodeFixed32_Encode: "DecodeFixed32 le (EncodeFixed32 le' v @ rest) = Inr v"
  by (simp add: DecodeFixed32_le EncodeFixed32_le le_word_le_bytes take_bit_word_eq_self)

lemma DecodeFixed32_short: "length p < 4 \<Longrightarrow> DecodeFixed32 le p = Inl OutOfBounds"
  by (simp add: DecodeFixed32_def)

lemma bit_le_word:
  "bit (le_word bs :: 'a::len word) n \<longleftrightarrow>
     n < LENGTH('a) \<and> n < 8 * length bs \<and> bit (bs ! (n div 8)) (n mod 8)"
proof (induction bs arbitrary: n)
  case Nil
  then show ?case by simp
next
  case (Cons b bs)
  show ?case
  proof (cases "n < 8")
    case True
    then show ?thesis by (auto simp: bit_simps dest: bit_imp_le_length)
  next
    case False
    then have "n div 8 = Suc ((n - 8) div 8)" and "n mod 8 = (n - 8) mod 8"
      by (simp_all add: le_div_geq le_mod_geq)
    with False show ?thesis
      by (auto simp: bit_simps Cons.IH dest: bit_imp_le_length)
  qed
qed

lemma le_bytes_le_word: "length bs * 8 \<le> LENGTH('a) \<Longrightarrow> le_bytes (length bs) (le_word bs :: 'a::len word) = bs"
proof (induction bs)
  case Nil
  then show ?case by simp
next
  case (Cons b bs)
  have "ucast (le_word (b # bs) :: 'a word) = b"
    using Cons.prems by (intro bit_word_eqI) (auto simp: bit_simps)
  moreover have "drop_bit 8 (le_word (b # bs) :: 'a word) = le_word bs"
    using Cons.prems by (intro bit_word_eqI) (auto simp: bit_simps bit_le_word dest: bit_imp_le_length)
  ultimately show ?case using Cons by simp
qed

lemma le_word_inj:
  "length bs * 8 \<le> LENGTH('a) \<Longrightarrow> length cs = length bs \<Longrightarrow>
     (le_word bs :: 'a::len word) = le_word cs \<longleftrightarrow> bs = cs"
  by (metis le_bytes_le_word)

lemma le_word_append_4:
  "length bs = 4 \<Longrightarrow> (le_word (bs @ cs) :: u64) = push_bit 32 (le_word cs) OR ucast (le_word bs :: u32)"
proof (rule bit_word_eqI)
  fix n assume bs: "length bs = 4" and n: "n < LENGTH(64)"
  show "bit (le_word (bs @ cs) :: u64) n = bit (push_bit 32 (le_word cs) OR ucast (le_word bs :: u32) :: u64) n"
  proof (cases "n < 32")
    case True
    with bs have "n div 8 < length bs" by simp
    with True bs n show ?thesis by (simp add: bit_simps bit_le_word nth_append)
  next
    case False
    then obtain m where m: "n = m + 4 * 8" using le_Suc_ex [of 32 n] by (auto simp: add.commute)
    then have "n div 8 = m div 8 + 4" and "n mod 8 = m mod 8"
      by (simp_all only: div_mult_self1 mod_mult_self1)
    moreover have "\<not> bit (ucast (le_word bs :: u32) :: u64) n"
      using m by (auto simp: bit_simps dest: bit_imp_le_length)
    moreover have "bit (push_bit 32 (le_word cs) :: u64) n = bit (le_word cs :: u64) m"
      using m n by (simp add: bit_push_bit_iff)
    ultimately show ?thesis
      using m bs n by (simp add: bit_or_iff bit_le_word nth_append)
  qed
qed

lemma DecodeFixed64_le:
  assumes "8 \<le> length p"
  shows "DecodeFixed64 le p = Inr (le_word (take 8 p))"
proof -
  have "take 8 p = take 4 p @ take 4 (drop 4 p)"
    using take_add [of 4 4 p] by simp
  then have "(le_word (take 8 p) :: u64)
    = push_bit 32 (le_word (take 4 (drop 4 p))) OR ucast (le_word (take 4 p) :: u32)"
    using assms by (simp add: le_word_append_4)
  moreover have "(le_word bs :: u64) = ucast (le_word bs :: u32)" if "length bs = 4" for bs
    using le_word_append_4 [OF that, of "[]"] by simp
  ultimately show ?thesis
    using assms by (simp add: DecodeFixed64_def load_word_def DecodeFixed32_le)
qed

lemma DecodeFixed64_Encode: "DecodeFixed64 le (EncodeFixed64 le' v @ rest) = Inr v"
  by (simp add: DecodeFixed64_le EncodeFixed64_le le_word_le_bytes take_bit_word_eq_self)

text \<open>The varint loops. A value below \<open>2 ^ (64 - s)\<close> that starts at bit \<open>s\<close> of the result is
  read back whole: the loop has not run out of shifts before its last byte.\<close>

lemma unat_drop_bit_7_less:
  "unat v < 2 ^ (k + 7) \<Longrightarrow> unat (drop_bit 7 v) < 2 ^ k" for v :: "'a::len word"
  unfolding unat_drop_bit_eq by (simp add: drop_bit_eq_div less_mult_imp_div_less power_add)

lemma GetVarint64_loop_Encode:
  assumes "unat v < 2 ^ (64 - s)" and "s \<le> 63"
  shows "GetVarint64_loop s r (EncodeVarint64 v @ rest) = Some (r OR push_bit s v, rest)"
  using assms
proof (induction v arbitrary: s r rule: EncodeVarint64.induct)
  case (1 v)
  show ?case
  proof (cases "128 \<le> v")
    case True
    then have "(128::nat) \<le> unat v" by (simp add: word_le_nat_alt)
    with "1.prems"(1) have "(2::nat) ^ 7 < 2 ^ (64 - s)" by simp
    then have "7 < 64 - s" by (rule power_less_imp_less_exp [rotated]) simp
    then have s: "s + 7 \<le> 63" and "64 - s = 64 - (s + 7) + 7" by auto
    with "1.prems"(1) have "unat (drop_bit 7 v) < 2 ^ (64 - (s + 7))"
      by (metis unat_drop_bit_7_less)
    with "1.IH" [OF True this s] True s show ?thesis
      by (subst EncodeVarint64.simps, subst GetVarint64_loop.simps)
        (simp add: Let_def and_128_eq_0 bit_simps varint_byte_more varint_byte_payload
          or.assoc varint_split del: push_bit_and)
  next
    case False
    then have "unat v < 2 ^ 7" by (simp add: word_le_nat_alt not_le)
    then have small: "bit v n \<Longrightarrow> n < 7" for n by (rule bit_of_small)
    have "(ucast (ucast v :: byte) :: u64) = v"
      by (rule bit_word_eqI) (use small in \<open>fastforce simp: bit_simps\<close>)
    moreover have "\<not> bit v 7" using small by blast
    moreover note False "1.prems"(2)
    ultimately show ?thesis
      by (subst EncodeVarint64.simps, subst GetVarint64_loop.simps)
        (simp add: Let_def and_128_eq_0)
  qed
qed

lemma GetVarint64_Encode: "GetVarint64 (EncodeVarint64 v @ rest) = Some (v, rest)"
  using GetVarint64_loop_Encode [of v 0 0 rest] unsigned_less [of v, where ?'a = nat]
  by (simp add: GetVarint64_def GetVarint64Ptr_def)

text \<open>The unrolled 32-bit encoder agrees with the loop of the 64-bit one.\<close>

lemma unat_ucast_u64 [simp]: "unat (ucast v :: u64) = unat v" for v :: u32
  using unsigned_less [of v, where ?'a = nat]
  by (simp add: unsigned_ucast_eq take_bit_nat_eq_self)

lemma varint_head: "(ucast ((drop_bit k (ucast v) AND 127) OR 128 :: u64) :: byte) = ucast (drop_bit k v OR 128)"
  for v :: u32
  by (rule bit_word_eqI) (auto simp: bit_simps byte_bits dest: bit_imp_le_length)

lemma varint_last: "(ucast (drop_bit k (ucast v) :: u64) :: byte) = ucast (drop_bit k v)"
  for v :: u32
  by (rule bit_word_eqI) (auto simp: bit_simps dest: bit_imp_le_length)

lemma varint_more: "128 \<le> (drop_bit k (ucast v) :: u64) \<longleftrightarrow> 2 ^ (k + 7) \<le> unat v" for v :: u32
  unfolding word_le_nat_alt unat_drop_bit_eq
  by (simp add: drop_bit_eq_div power_add less_eq_div_iff_mult_less_eq mult.commute)

lemma EncodeVarint32_eq: "EncodeVarint32 v = EncodeVarint64 (ucast v)"
proof -
  let ?w = "ucast v :: u64"
  have enc: "EncodeVarint64 (drop_bit k ?w) =
      (if 2 ^ (k + 7) \<le> unat v
       then ucast (drop_bit k v OR 128) # EncodeVarint64 (drop_bit (k + 7) ?w)
       else [ucast (drop_bit k v)])" for k
    by (subst EncodeVarint64.simps)
      (simp add: varint_more [of k v] varint_head varint_last add.commute flip: word_le_nat_alt)
  have last: "unat v < 2 ^ (28 + 7)"
    using unsigned_less [of v, where ?'a = nat] by simp
  have "EncodeVarint64 ?w = EncodeVarint32 v"
    using enc [of 0] enc [of 7] enc [of 14] enc [of 21] enc [of 28] last
    by (auto simp: EncodeVarint32_def word_less_nat_alt)
  then show ?thesis by simp
qed

lemma GetVarint32_loop_Encode:
  assumes "unat v < 2 ^ (32 - s)" and "s \<le> 28" and "7 dvd s"
  shows "GetVarint32_loop s r (EncodeVarint64 (ucast v) @ rest) = Some (r OR push_bit s v, rest)"
  using assms
proof (induction "unat v" arbitrary: v s r rule: less_induct)
  case less
  show ?case
  proof (cases "128 \<le> unat v")
    case True
    with less.prems(1) have "(2::nat) ^ 7 < 2 ^ (32 - s)" by simp
    then have "7 < 32 - s" by (rule power_less_imp_less_exp [rotated]) simp
    with less.prems(3) have s: "s + 7 \<le> 28" and "32 - s = 32 - (s + 7) + 7" by auto
    with less.prems(1) have small: "unat (drop_bit 7 v) < 2 ^ (32 - (s + 7))"
      by (metis unat_drop_bit_7_less)
    have "unat (drop_bit 7 v) < unat v"
      unfolding unat_drop_bit_eq using True by (simp add: drop_bit_eq_div)
    then have IH: "GetVarint32_loop (s + 7) r' (EncodeVarint64 (ucast (drop_bit 7 v)) @ rest)
        = Some (r' OR push_bit (s + 7) (drop_bit 7 v), rest)" for r'
      using small s less.prems(3) by (intro less.hyps) auto
    have "EncodeVarint64 (ucast v) = ucast (v OR 128) # EncodeVarint64 (ucast (drop_bit 7 v))"
      using True varint_head [of 0 v] ucast_drop_bit_eq [of 7 v, where ?'b = 64]
      by (subst EncodeVarint64.simps) (simp add: word_le_nat_alt)
    moreover have "(ucast (ucast (v OR 128) :: byte) :: u32) AND 127 = v AND 127"
      by (rule bit_word_eqI) (auto simp: bit_simps byte_bits)
    ultimately show ?thesis
      using less.prems(2)
      by (subst GetVarint32_loop.simps)
        (simp add: Let_def and_128_eq_0 bit_simps byte_bits IH or.assoc varint_split
          del: push_bit_and)
  next
    case False
    then have "unat v < 2 ^ 7" by simp
    then have small: "bit v n \<Longrightarrow> n < 7" for n by (rule bit_of_small)
    have "(ucast (ucast v :: byte) :: u32) = v"
      by (rule bit_word_eqI) (use small in \<open>fastforce simp: bit_simps\<close>)
    moreover have "\<not> bit v 7" using small by blast
    moreover have "EncodeVarint64 (ucast v) = [ucast v]"
      using False varint_last [of 0 v]
      by (subst EncodeVarint64.simps) (simp add: word_le_nat_alt)
    ultimately show ?thesis
      using less.prems(2) by (subst GetVarint32_loop.simps) (simp add: Let_def and_128_eq_0)
  qed
qed

lemma GetVarint32Ptr_fallback:
  "GetVarint32Ptr p = GetVarint32PtrFallback p"
  by (cases "p = []")
    (simp_all add: GetVarint32Ptr_def GetVarint32PtrFallback_def GetVarint32_loop.simps [of 0 0 p] Let_def)

lemma GetVarint32_Encode: "GetVarint32 (EncodeVarint32 v @ rest) = Some (v, rest)"
  using GetVarint32_loop_Encode [of v 0 0 rest] unsigned_less [of v, where ?'a = nat]
  by (simp add: GetVarint32_def GetVarint32Ptr_fallback GetVarint32PtrFallback_def EncodeVarint32_eq)

lemma VarintLength_loop_eq: "VarintLength_loop v n + 1 = n + length (EncodeVarint64 v)"
proof (induction v n rule: VarintLength_loop.induct)
  case (1 v len)
  then show ?case
    by (cases "128 \<le> v") (simp_all add: VarintLength_loop.simps [of v len] EncodeVarint64.simps [of v])
qed

lemma VarintLength_eq: "VarintLength v = length (EncodeVarint64 v)"
  using VarintLength_loop_eq [of v 1] by (simp add: VarintLength_def)

lemma EncodeVarint64_length:
  "unat v < 2 ^ (7 * Suc n) \<Longrightarrow> length (EncodeVarint64 v) \<le> Suc n"
proof (induction n arbitrary: v)
  case 0
  then show ?case by (subst EncodeVarint64.simps) (simp add: word_le_nat_alt)
next
  case (Suc n)
  then have "unat (drop_bit 7 v) < 2 ^ (7 * Suc n)"
    by (intro unat_drop_bit_7_less) (simp add: add.commute)
  with Suc.IH show ?case by (subst EncodeVarint64.simps) simp
qed

lemma GetLengthPrefixedSlice_eq: "GetLengthPrefixedSlice p = GetLengthPrefixedSlicePtr p"
  by (auto simp: GetLengthPrefixedSlice_def GetLengthPrefixedSlicePtr_def GetVarint32_def
      split: option.splits)

lemma GetLengthPrefixedSlice_Put:
  "length d < 2 ^ 32 \<Longrightarrow> GetLengthPrefixedSlice (PutLengthPrefixedSlice d [] @ rest) = Some (d, rest)"
  by (simp add: GetLengthPrefixedSlice_def PutLengthPrefixedSlice_def PutVarint32_def
      GetVarint32_Encode unat_of_nat take_bit_nat_eq_self)

section \<open>Wire formats\<close>

text \<open>
  What a writer and its reader promise: the reader takes back from the front of the input
  exactly the value that was written, and leaves the rest. From this alone a concatenation of
  values is read back value by value, and no encoding is a prefix of another.
\<close>

fun get_many :: "(byte list \<Rightarrow> ('a \<times> byte list) option) \<Rightarrow> nat \<Rightarrow> byte list \<Rightarrow> ('a list \<times> byte list) option" where
  "get_many get 0 bs = Some ([], bs)"
| "get_many get (Suc n) bs =
     (case get bs of
        None \<Rightarrow> None
      | Some (x, bs) \<Rightarrow> map_option (\<lambda>(xs, bs). (x # xs, bs)) (get_many get n bs))"

locale wire_format =
  fixes put :: "'a \<Rightarrow> byte list"
    and get :: "byte list \<Rightarrow> ('a \<times> byte list) option"
    and fits :: "'a \<Rightarrow> bool"
  assumes get_put: "fits x \<Longrightarrow> get (put x @ rest) = Some (x, rest)"
begin

lemma get_many_put:
  "list_all fits xs \<Longrightarrow> get_many get (length xs) (concat (map put xs) @ rest) = Some (xs, rest)"
  by (induction xs) (simp_all add: get_put)

lemma prefix_free:
  assumes "fits x" and "fits y" and "put x @ r = put y @ s"
  shows "x = y \<and> r = s"
  using assms by (metis get_put option.inject prod.inject)

end

text \<open>Reading a fixed-width integer off the front, as the callers of the raw decoders do.\<close>

definition take_fixed32 :: "bool \<Rightarrow> byte list \<Rightarrow> (u32 \<times> byte list) option" where
  "take_fixed32 le p = (case DecodeFixed32 le p of Inl _ \<Rightarrow> None | Inr v \<Rightarrow> Some (v, drop 4 p))"

definition take_fixed64 :: "bool \<Rightarrow> byte list \<Rightarrow> (u64 \<times> byte list) option" where
  "take_fixed64 le p = (case DecodeFixed64 le p of Inl _ \<Rightarrow> None | Inr v \<Rightarrow> Some (v, drop 8 p))"

interpretation fixed32: wire_format "EncodeFixed32 le" "take_fixed32 le'" "\<lambda>_. True" for le le'
  by unfold_locales
    (simp add: take_fixed32_def DecodeFixed32_Encode, simp add: EncodeFixed32_le)

interpretation fixed64: wire_format "EncodeFixed64 le" "take_fixed64 le'" "\<lambda>_. True" for le le'
  by unfold_locales
    (simp add: take_fixed64_def DecodeFixed64_Encode, simp add: EncodeFixed64_le)

interpretation varint32: wire_format EncodeVarint32 GetVarint32 "\<lambda>_. True"
  by unfold_locales (simp add: GetVarint32_Encode)

interpretation varint64: wire_format EncodeVarint64 GetVarint64 "\<lambda>_. True"
  by unfold_locales (simp add: GetVarint64_Encode)

interpretation prefixed_slice: wire_format "\<lambda>d. PutLengthPrefixedSlice d []" GetLengthPrefixedSlice
  "\<lambda>d. length d < 2 ^ 32"
  by unfold_locales (simp add: GetLengthPrefixedSlice_Put)

section \<open>Properties\<close>

text \<open>C33: varints round-trip. Decoding what the encoder wrote gives the value back and stops
  exactly behind it, for every 32-bit and every 64-bit value and any following bytes.\<close>

theorem varint_roundtrip:
  "GetVarint32 (EncodeVarint32 v @ rest) = Some (v, rest)
   \<and> GetVarint64 (EncodeVarint64 w @ rest) = Some (w, rest)"
  by (simp add: varint32.get_put varint64.get_put)

text \<open>the unrolled 32-bit encoder writes the same bytes as the 64-bit loop, no encoding
  overruns the stack array it is written to (5 and 10 bytes), and \<^verbatim>\<open>VarintLength\<close> predicts the
  length.\<close>

theorem varint_encoders_agree:
  "EncodeVarint32 v = EncodeVarint64 (ucast v)
   \<and> length (EncodeVarint32 v) \<le> kMaxVarint32Bytes
   \<and> length (EncodeVarint64 w) \<le> 10
   \<and> VarintLength w = length (EncodeVarint64 w)"
  using EncodeVarint64_length [of "ucast v" 4] EncodeVarint64_length [of w 9]
    unsigned_less [of v, where ?'a = nat] unsigned_less [of w, where ?'a = nat]
  by (simp add: EncodeVarint32_eq kMaxVarint32Bytes_def VarintLength_eq)

text \<open>fixed-width integers are endian-neutral. A machine of either byte order writes the
  same bytes, least significant first, and reads back what a machine of either order wrote.\<close>

theorem fixed_endian_neutral:
  "EncodeFixed32 le v = EncodeFixed32 le' v
   \<and> EncodeFixed64 le w = EncodeFixed64 le' w
   \<and> DecodeFixed32 le (EncodeFixed32 le' v @ rest) = Inr v
   \<and> DecodeFixed64 le (EncodeFixed64 le' w @ rest) = Inr w"
  by (simp add: EncodeFixed32_le EncodeFixed64_le DecodeFixed32_Encode [unfolded EncodeFixed32_le]
      DecodeFixed64_Encode [unfolded EncodeFixed64_le])

text \<open>a sequence of length-prefixed slices is read back slice by slice. For any slices shorter
  than 4 GiB, written one behind the other, that many reads return exactly those slices in
  order and leave what follows.\<close>

theorem length_prefixed_sequence:
  assumes "list_all (\<lambda>d. length d < 2 ^ 32) ds"
  shows "get_many GetLengthPrefixedSlice (length ds)
      (concat (map (\<lambda>d. PutLengthPrefixedSlice d []) ds) @ rest) = Some (ds, rest)"
  using assms by (rule prefixed_slice.get_many_put)

theorem length_prefixed_sequence_witness:
  "get_many GetLengthPrefixedSlice 2
     (PutLengthPrefixedSlice [1, 2] [] @ PutLengthPrefixedSlice [] [] @ [7]) = Some ([[1, 2], []], [7])"
proof -
  have "list_all (\<lambda>d. length d < 2 ^ 32) [[1, 2], [] :: byte list]" by simp
  from length_prefixed_sequence [OF this, of "[7]"] show ?thesis by (simp add: numeral_2_eq_2)
qed

end
