(* ===== verification/Crc32c.thy ===== *)
theory Crc32c
  imports Crc32c_Tables Coding
begin

unbundle bit_operations_syntax

text \<open>
  The checksum of \<^verbatim>\<open>voyager/util/crc32c.h\<close>, \<^verbatim>\<open>crc32c.cc\<close> and \<^verbatim>\<open>crc32c_accelerate.cc\<close>. The
  portable routine works on four table lookups at a time, after stepping to an aligned
  address; the accelerated one on a hardware instruction. Both are proved to compute the
  bit-by-bit reference, defined here by the reflected Castagnoli polynomial.
\<close>

section \<open>The routines\<close>

definition STEP1 :: "u32 \<Rightarrow> byte \<Rightarrow> u32" where
  "STEP1 l p = (let c = (l AND 0xff) XOR ucast p in (table0 ! unat c) XOR drop_bit 8 l)"

text \<open>\<^verbatim>\<open>STEP4\<close> on the four bytes at \<open>p\<close>, loaded by \<^verbatim>\<open>LE_LOAD32\<close>.\<close>

definition LE_LOAD32 :: "bool \<Rightarrow> byte list \<Rightarrow> u32 res" where
  "LE_LOAD32 le p = DecodeFixed32 le p"

definition STEP4 :: "bool \<Rightarrow> u32 \<Rightarrow> byte list \<Rightarrow> u32 res" where
  "STEP4 le l p = rbind (LE_LOAD32 le p) (\<lambda>w.
     let c = l XOR w in
     Inr ((table3 ! unat (c AND 0xff)) XOR (table2 ! unat (drop_bit 8 c AND 0xff)) XOR
          (table1 ! unat (drop_bit 16 c AND 0xff)) XOR (table0 ! unat (drop_bit 24 c))))"

fun bytes_loop :: "u32 \<Rightarrow> byte list \<Rightarrow> u32" where
  "bytes_loop l [] = l"
| "bytes_loop l (b # p) = bytes_loop (STEP1 l b) p"

function by16_loop :: "bool \<Rightarrow> u32 \<Rightarrow> byte list \<Rightarrow> (u32 \<times> byte list) res" where
  "by16_loop le l p =
     (if 16 \<le> length p then
        rbind (STEP4 le l p) (\<lambda>l. rbind (STEP4 le l (drop 4 p)) (\<lambda>l.
        rbind (STEP4 le l (drop 8 p)) (\<lambda>l. rbind (STEP4 le l (drop 12 p)) (\<lambda>l.
          by16_loop le l (drop 16 p)))))
      else Inr (l, p))"
  by pat_completeness auto
termination
  by (relation "measure (\<lambda>(le, l, p). length p)") auto

function by4_loop :: "bool \<Rightarrow> u32 \<Rightarrow> byte list \<Rightarrow> (u32 \<times> byte list) res" where
  "by4_loop le l p =
     (if 4 \<le> length p then rbind (STEP4 le l p) (\<lambda>l. by4_loop le l (drop 4 p))
      else Inr (l, p))"
  by pat_completeness auto
termination
  by (relation "measure (\<lambda>(le, l, p). length p)") auto

declare by16_loop.simps [simp del] by4_loop.simps [simp del]

text \<open>Bytes from the address \<open>pval\<close> up to the next multiple of four (of eight): the distance
  of the pointer \<^verbatim>\<open>x\<close> from \<^verbatim>\<open>p\<close>.\<close>

definition align4 :: "u64 \<Rightarrow> nat" where
  "align4 pval = unat (push_bit 2 (drop_bit 2 (pval + 3)) - pval)"

definition align8 :: "u64 \<Rightarrow> nat" where
  "align8 pval = unat (push_bit 3 (drop_bit 3 (pval + 7)) - pval)"

text \<open>The body of \<^verbatim>\<open>Extend\<close> when the processor has no crc instruction; \<open>pval\<close> is the address of
  the data.\<close>

definition PortableExtend :: "bool \<Rightarrow> u64 \<Rightarrow> u32 \<Rightarrow> byte list \<Rightarrow> u32 res" where
  "PortableExtend le pval crc p =
     (let l = crc XOR 0xffffffff; k = align4 pval;
          (l, p) = (if k \<le> length p then (bytes_loop l (take k p), drop k p) else (l, p))
      in rbind (by16_loop le l p) (\<lambda>(l, p). rbind (by4_loop le l p) (\<lambda>(l, p).
           Inr (bytes_loop l p XOR 0xffffffff))))"

text \<open>The accelerated routine; the instructions \<^verbatim>\<open>_mm_crc32_u8\<close> and \<^verbatim>\<open>_mm_crc32_u64\<close> are
  parameters.\<close>

fun crc_u8_loop :: "(u32 \<Rightarrow> byte \<Rightarrow> u32) \<Rightarrow> u32 \<Rightarrow> byte list \<Rightarrow> u32" where
  "crc_u8_loop u8 l [] = l"
| "crc_u8_loop u8 l (b # p) = crc_u8_loop u8 (u8 l b) p"

function crc_u64_loop :: "(u64 \<Rightarrow> u64 \<Rightarrow> u64) \<Rightarrow> u64 \<Rightarrow> byte list \<Rightarrow> u64 \<times> byte list" where
  "crc_u64_loop u64 l64 p =
     (if 16 \<le> length p then
        let l64 = u64 l64 (le_word (take 8 p)); l64 = u64 l64 (le_word (take 8 (drop 8 p)))
        in crc_u64_loop u64 l64 (drop 16 p)
      else (l64, p))"
  by pat_completeness auto
termination
  by (relation "measure (\<lambda>(u64, l64, p). length p)") auto

declare crc_u64_loop.simps [simp del]

definition AcceleratedExtend ::
  "(u32 \<Rightarrow> byte \<Rightarrow> u32) \<Rightarrow> (u64 \<Rightarrow> u64 \<Rightarrow> u64) \<Rightarrow> u64 \<Rightarrow> u32 \<Rightarrow> byte list \<Rightarrow> u32" where
  "AcceleratedExtend u8 u64 pval crc p =
     (let l = crc XOR 0xffffffff; k = align8 pval;
          (l, p) = (if k \<le> length p then (crc_u8_loop u8 l (take k p), drop k p) else (l, p));
          (l64, p) = crc_u64_loop u64 (ucast l) p
      in crc_u8_loop u8 (ucast l64) p XOR 0xffffffff)"

definition Extend ::
  "bool \<Rightarrow> (u32 \<Rightarrow> byte \<Rightarrow> u32) \<Rightarrow> (u64 \<Rightarrow> u64 \<Rightarrow> u64) \<Rightarrow> bool \<Rightarrow> u64 \<Rightarrow> u32 \<Rightarrow> byte list \<Rightarrow> u32 res" where
  "Extend can_accelerate u8 u64 le pval crc p =
     (if can_accelerate then Inr (AcceleratedExtend u8 u64 pval crc p)
      else PortableExtend le pval crc p)"

definition Value ::
  "bool \<Rightarrow> (u32 \<Rightarrow> byte \<Rightarrow> u32) \<Rightarrow> (u64 \<Rightarrow> u64 \<Rightarrow> u64) \<Rightarrow> bool \<Rightarrow> u64 \<Rightarrow> byte list \<Rightarrow> u32 res" where
  "Value can_accelerate u8 u64 le pval p = Extend can_accelerate u8 u64 le pval 0 p"

definition kMaskDelta :: u32 where
  "kMaskDelta = 0xa282ead8"

definition Mask :: "u32 \<Rightarrow> u32" where
  "Mask crc = (drop_bit 15 crc OR push_bit 17 crc) + kMaskDelta"

definition Unmask :: "u32 \<Rightarrow> u32" where
  "Unmask masked_crc = (let rot = masked_crc - kMaskDelta in drop_bit 17 rot OR push_bit 15 rot)"

section \<open>The bit-by-bit reference\<close>

definition crc_bit :: "u32 \<Rightarrow> u32" where
  "crc_bit x = drop_bit 1 x XOR (if bit x 0 then 0x82f63b78 else 0)"

definition crc_byte :: "u32 \<Rightarrow> byte \<Rightarrow> u32" where
  "crc_byte l b = (crc_bit ^^ 8) (l XOR ucast b)"

definition crc32c_reference :: "u32 \<Rightarrow> byte list \<Rightarrow> u32" where
  "crc32c_reference crc p = foldl crc_byte (crc XOR 0xffffffff) p XOR 0xffffffff"

subsection \<open>Linearity\<close>

lemma crc_bit_xor: "crc_bit (x XOR y) = crc_bit x XOR crc_bit y"
  by (simp add: crc_bit_def drop_bit_xor bit_xor_iff ac_simps)

lemma crc_bits_xor: "(crc_bit ^^ n) (x XOR y) = (crc_bit ^^ n) x XOR (crc_bit ^^ n) y"
  by (induction n) (simp_all add: crc_bit_xor)

lemma crc_bit_0 [simp]: "crc_bit 0 = 0"
  by (simp add: crc_bit_def)

lemma crc_bits_0 [simp]: "(crc_bit ^^ n) 0 = 0"
  by (induction n) simp_all

text \<open>Low zero bits are only shifted out.\<close>

lemma crc_bits_shift: "(\<forall>i < n. \<not> bit x i) \<Longrightarrow> (crc_bit ^^ n) x = drop_bit n x"
proof (induction n)
  case 0
  then show ?case by simp
next
  case (Suc n)
  then have "(crc_bit ^^ Suc n) x = crc_bit (drop_bit n x)" by simp
  also have "\<dots> = drop_bit (Suc n) x"
    using Suc.prems by (simp add: crc_bit_def bit_drop_bit_eq drop_bit_drop_bit)
  finally show ?case .
qed

subsection \<open>The tables\<close>

text \<open>
  A linear function on bytes is determined by its values on the eight powers of two:
  \<open>xor_span\<close> lists all 256 values from these (highest power first). Each table is the span of
  eight of its entries, and those entries are the reference run on one bit.
\<close>

fun xor_span :: "u32 list \<Rightarrow> u32 list" where
  "xor_span [] = [0]"
| "xor_span (t # ts) = xor_span ts @ map (\<lambda>x. x XOR t) (xor_span ts)"

fun powers_down :: "nat \<Rightarrow> u32 list" where
  "powers_down 0 = []"
| "powers_down (Suc n) = 2 ^ n # powers_down n"

lemma length_xor_span: "length (xor_span ts) = 2 ^ length ts"
  by (induction ts) simp_all

lemma length_powers_down [simp]: "length (powers_down n) = n"
  by (induction n) simp_all

lemma of_nat_split_top:
  assumes "2 ^ n \<le> i" and "i < 2 ^ Suc n"
  shows "(of_nat i :: u32) = of_nat (i - 2 ^ n) XOR 2 ^ n"
proof -
  let ?j = "i - 2 ^ n"
  have j: "?j < 2 ^ n" using assms by simp
  then have "\<not> bit ?j n" by (metis bit_nat_def div_less even_zero)
  then have disj: "(of_nat ?j :: u32) AND 2 ^ n = 0"
    by (intro bit_word_eqI) (auto simp: bit_simps possible_bit_word)
  have "(of_nat i :: u32) = of_nat ?j + 2 ^ n"
    using assms(1) by (metis add.commute le_add_diff_inverse of_nat_add of_nat_numeral of_nat_power)
  also have "\<dots> = of_nat ?j XOR 2 ^ n"
    using disj by (rule disjunctive_add_eq_xor)
  finally show ?thesis .
qed

lemma xor_span_nth:
  assumes lin: "\<And>x y. f (x XOR y) = f x XOR f y" and "f 0 = 0" and "i < 2 ^ n"
  shows "xor_span (map f (powers_down n)) ! i = f (of_nat i)"
  using assms(3)
proof (induction n arbitrary: i)
  case 0
  then show ?case using assms(2) by simp
next
  case (Suc n)
  show ?case
  proof (cases "i < 2 ^ n")
    case True
    with Suc.IH show ?thesis by (simp add: nth_append length_xor_span)
  next
    case False
    then have "i - 2 ^ n < 2 ^ n" using Suc.prems by simp
    moreover have "f (of_nat i) = f (of_nat (i - 2 ^ n)) XOR f (2 ^ n)"
      unfolding lin [symmetric] using of_nat_split_top [of n i] False Suc.prems
      by (metis not_less)
    ultimately show ?thesis
      using Suc.IH [of "i - 2 ^ n"] False by (simp add: nth_append length_xor_span)
  qed
qed

lemma table0_span: "table0 = xor_span
    [0x82f63b78, 0x417b1dbc, 0x20bd8ede, 0x105ec76f,
     0x8ad958cf, 0xc79a971f, 0xe13b70f7, 0xf26b8303]"
  by (simp add: table0_def)

lemma table1_span: "table1 = xor_span
    [0xfbc3faf9, 0xff17c604, 0x7f8be302, 0x3fc5f181,
     0x9d14c3b8, 0x4e8a61dc, 0x274530ee, 0x13a29877]"
  by (simp add: table1_def)

lemma table2_span: "table2 = xor_span
    [0x8b277743, 0xc76580d9, 0xe144fb14, 0x70a27d8a,
     0x38513ec5, 0x9edea41a, 0x4f6f520d, 0xa541927e]"
  by (simp add: table2_def)

lemma table3_span: "table3 = xor_span
    [0x52a0c93f, 0xaba65fe7, 0xd725148b, 0xe964b13d,
     0xf64463e6, 0x7b2231f3, 0xbf672381, 0xdd45aab8]"
  by (simp add: table3_def)

lemma crc_bits_8: "(crc_bit ^^ 8) x =
    crc_bit (crc_bit (crc_bit (crc_bit (crc_bit (crc_bit (crc_bit (crc_bit x)))))))"
  by (simp add: eval_nat_numeral)

lemma powers_down_8: "powers_down 8 = [128, 64, 32, 16, 8, 4, 2, 1]"
  by (simp add: eval_nat_numeral)

lemma table_basis:
  "map (crc_bit ^^ 8) (powers_down 8) =
    [0x82f63b78, 0x417b1dbc, 0x20bd8ede, 0x105ec76f, 0x8ad958cf, 0xc79a971f, 0xe13b70f7, 0xf26b8303]"
  "map (crc_bit ^^ 8)
    [0x82f63b78, 0x417b1dbc, 0x20bd8ede, 0x105ec76f, 0x8ad958cf, 0xc79a971f, 0xe13b70f7, 0xf26b8303] =
    [0xfbc3faf9, 0xff17c604, 0x7f8be302, 0x3fc5f181, 0x9d14c3b8, 0x4e8a61dc, 0x274530ee, 0x13a29877]"
  "map (crc_bit ^^ 8)
    [0xfbc3faf9, 0xff17c604, 0x7f8be302, 0x3fc5f181, 0x9d14c3b8, 0x4e8a61dc, 0x274530ee, 0x13a29877] =
    [0x8b277743, 0xc76580d9, 0xe144fb14, 0x70a27d8a, 0x38513ec5, 0x9edea41a, 0x4f6f520d, 0xa541927e]"
  "map (crc_bit ^^ 8)
    [0x8b277743, 0xc76580d9, 0xe144fb14, 0x70a27d8a, 0x38513ec5, 0x9edea41a, 0x4f6f520d, 0xa541927e] =
    [0x52a0c93f, 0xaba65fe7, 0xd725148b, 0xe964b13d, 0xf64463e6, 0x7b2231f3, 0xbf672381, 0xdd45aab8]"
  by (simp_all add: powers_down_8 crc_bits_8 crc_bit_def)

lemma table_as_span:
  "table0 = xor_span (map (crc_bit ^^ 8) (powers_down 8))"
  "table1 = xor_span (map (crc_bit ^^ (8 + 8)) (powers_down 8))"
  "table2 = xor_span (map (crc_bit ^^ (8 + (8 + 8))) (powers_down 8))"
  "table3 = xor_span (map (crc_bit ^^ (8 + (8 + (8 + 8)))) (powers_down 8))"
proof -
  have comp: "map (crc_bit ^^ (8 + n)) xs = map (crc_bit ^^ 8) (map (crc_bit ^^ n) xs)" for n xs
    by (simp add: funpow_add)
  show "table0 = xor_span (map (crc_bit ^^ 8) (powers_down 8))"
    by (simp only: table0_span table_basis)
  show "table1 = xor_span (map (crc_bit ^^ (8 + 8)) (powers_down 8))"
    by (simp only: comp table1_span table_basis)
  show "table2 = xor_span (map (crc_bit ^^ (8 + (8 + 8))) (powers_down 8))"
    by (simp only: comp table2_span table_basis)
  show "table3 = xor_span (map (crc_bit ^^ (8 + (8 + (8 + 8)))) (powers_down 8))"
    by (simp only: comp table3_span table_basis)
qed

lemma table_nth:
  assumes "i < 256"
  shows "table0 ! i = (crc_bit ^^ 8) (of_nat i)"
    and "table1 ! i = (crc_bit ^^ 16) (of_nat i)"
    and "table2 ! i = (crc_bit ^^ 24) (of_nat i)"
    and "table3 ! i = (crc_bit ^^ 32) (of_nat i)"
proof -
  have nth: "xor_span (map (crc_bit ^^ n) (powers_down 8)) ! i = (crc_bit ^^ n) (of_nat i)" for n
    using assms by (intro xor_span_nth) (simp_all add: crc_bits_xor)
  show "table0 ! i = (crc_bit ^^ 8) (of_nat i)"
    by (simp only: table_as_span nth)
  show "table1 ! i = (crc_bit ^^ 16) (of_nat i)"
    by (simp only: table_as_span nth) simp
  show "table2 ! i = (crc_bit ^^ 24) (of_nat i)"
    by (simp only: table_as_span nth) simp
  show "table3 ! i = (crc_bit ^^ 32) (of_nat i)"
    by (simp only: table_as_span nth) simp
qed

subsection \<open>One byte and one word\<close>

lemma and_255_take_bit: "x AND 255 = take_bit 8 x" for x :: u32
  by (simp add: take_bit_eq_mask mask_eq_exp_minus_1)

lemma unat_take_bit_8: "unat (take_bit 8 x) < 256" for x :: u32
proof -
  have "unat (take_bit 8 x) = take_bit 8 (unat x)"
    by (simp add: unsigned_take_bit_eq)
  also have "\<dots> < 2 ^ 8" by (rule take_bit_nat_less_exp)
  finally show ?thesis by simp
qed

lemma table_word:
  assumes "unat c < 256"
  shows "table0 ! unat c = (crc_bit ^^ 8) c" and "table1 ! unat c = (crc_bit ^^ 16) c"
    and "table2 ! unat c = (crc_bit ^^ 24) c" and "table3 ! unat c = (crc_bit ^^ 32) c"
  using table_nth [OF assms] by simp_all

lemma low_xor_high: "x = take_bit n x XOR push_bit n (drop_bit n x)" for x :: u32
  by (rule bit_word_eqI) (auto simp: bit_simps)

lemma crc_bits_push: "(crc_bit ^^ n) (push_bit n x) = drop_bit n (push_bit n x)"
  by (rule crc_bits_shift) (simp add: bit_simps)

lemma crc_bits_low_high:
  "(crc_bit ^^ (m + 8)) x = (crc_bit ^^ (m + 8)) (take_bit 8 x) XOR (crc_bit ^^ m) (drop_bit 8 x)"
proof -
  have "(crc_bit ^^ 8) (push_bit 8 (drop_bit 8 x)) = drop_bit 8 x"
    unfolding crc_bits_push by (rule bit_word_eqI) (auto simp: bit_simps dest: bit_imp_le_length)
  then have "(crc_bit ^^ (m + 8)) (push_bit 8 (drop_bit 8 x)) = (crc_bit ^^ m) (drop_bit 8 x)"
    by (simp add: funpow_add)
  moreover have "(crc_bit ^^ (m + 8)) x
    = (crc_bit ^^ (m + 8)) (take_bit 8 x) XOR (crc_bit ^^ (m + 8)) (push_bit 8 (drop_bit 8 x))"
    using low_xor_high [of x 8] crc_bits_xor by metis
  ultimately show ?thesis by simp
qed

lemma STEP1_crc_byte: "STEP1 l b = crc_byte l b"
proof -
  let ?c = "take_bit 8 l XOR ucast b :: u32"
  have c: "take_bit 8 (l XOR ucast b) = ?c" and d: "drop_bit 8 (l XOR ucast b) = drop_bit 8 l"
    by (rule bit_word_eqI, auto simp: bit_simps dest: bit_imp_le_length)+
  have "STEP1 l b = (crc_bit ^^ 8) ?c XOR drop_bit 8 l"
    using unat_take_bit_8 [of "l XOR ucast b"] unfolding c
    by (simp add: STEP1_def and_255_take_bit table_word)
  also have "\<dots> = (crc_bit ^^ (0 + 8)) (l XOR ucast b)"
    by (subst crc_bits_low_high) (simp add: c d del: take_bit_xor drop_bit_xor)
  finally show ?thesis by (simp add: crc_byte_def)
qed

lemma bytes_loop_crc: "bytes_loop l p = foldl crc_byte l p"
  by (induction p arbitrary: l) (simp_all add: STEP1_crc_byte)

text \<open>Feeding the bytes one at a time is feeding them at once as a little-endian word.\<close>

lemma crc_bytes_word:
  "length bs \<le> 4 \<Longrightarrow> foldl crc_byte l bs = (crc_bit ^^ (8 * length bs)) (l XOR le_word bs)"
proof (induction bs arbitrary: l)
  case Nil
  then show ?case by simp
next
  case (Cons b bs)
  let ?w = "le_word bs :: u32"
  have "(crc_bit ^^ 8) (push_bit 8 ?w) = ?w"
    unfolding crc_bits_push using Cons.prems
    by (intro bit_word_eqI) (auto simp: bit_simps bit_le_word)
  moreover have "l XOR le_word (b # bs) = (l XOR ucast b) XOR push_bit 8 ?w"
    by (rule bit_word_eqI) (auto simp: bit_simps dest: bit_imp_le_length)
  ultimately have "(crc_bit ^^ 8) (l XOR le_word (b # bs)) = crc_byte l b XOR ?w"
    by (simp only: crc_bits_xor crc_byte_def)
  then have "(crc_bit ^^ (8 * length bs + 8)) (l XOR le_word (b # bs))
      = (crc_bit ^^ (8 * length bs)) (crc_byte l b XOR ?w)"
    by (simp only: funpow_add o_apply)
  with Cons show ?case by (simp add: add.commute)
qed

lemma STEP4_crc:
  assumes "4 \<le> length p"
  shows "STEP4 le l p = Inr (foldl crc_byte l (take 4 p))"
proof -
  define c where "c = l XOR le_word (take 4 p)"
  let ?t = "\<lambda>k. take_bit 8 (drop_bit k c)"
  have "foldl crc_byte l (take 4 p) = (crc_bit ^^ (24 + 8)) c"
    using assms crc_bytes_word [of "take 4 p" l] by (simp add: c_def)
  also have "\<dots> = (crc_bit ^^ (24 + 8)) (?t 0) XOR (crc_bit ^^ (16 + 8)) (drop_bit 8 c)"
    by (subst crc_bits_low_high) simp
  also have "(crc_bit ^^ (16 + 8)) (drop_bit 8 c)
      = (crc_bit ^^ (16 + 8)) (?t 8) XOR (crc_bit ^^ (8 + 8)) (drop_bit 16 c)"
    by (subst crc_bits_low_high) (simp add: drop_bit_drop_bit)
  also have "(crc_bit ^^ (8 + 8)) (drop_bit 16 c)
      = (crc_bit ^^ (8 + 8)) (?t 16) XOR (crc_bit ^^ 8) (drop_bit 24 c)"
    by (subst crc_bits_low_high) (simp add: drop_bit_drop_bit)
  finally have crc: "foldl crc_byte l (take 4 p) = (crc_bit ^^ 32) (?t 0) XOR ((crc_bit ^^ 24) (?t 8)
      XOR ((crc_bit ^^ 16) (?t 16) XOR (crc_bit ^^ 8) (drop_bit 24 c)))" by simp
  have top: "?t 24 = drop_bit 24 c"
    by (rule bit_word_eqI) (auto simp: bit_simps dest: bit_imp_le_length)
  then have "unat (drop_bit 24 c) < 256"
    using unat_take_bit_8 [of "drop_bit 24 c"] by simp
  then have "STEP4 le l p = Inr ((crc_bit ^^ 32) (?t 0) XOR (crc_bit ^^ 24) (?t 8)
      XOR (crc_bit ^^ 16) (?t 16) XOR (crc_bit ^^ 8) (drop_bit 24 c))"
    unfolding STEP4_def LE_LOAD32_def DecodeFixed32_le [OF assms] rbind_simps
      c_def [symmetric] Let_def and_255_take_bit
    by (simp only: table_word unat_take_bit_8 drop_bit_0 id_apply)
  with crc show ?thesis by (simp add: xor.assoc)
qed

lemma by4_loop_crc: "\<exists>k. by4_loop le l p = Inr (foldl crc_byte l (take k p), drop k p)"
proof (induction le l p rule: by4_loop.induct)
  case (1 le l p)
  show ?case
  proof (cases "4 \<le> length p")
    case True
    note step = STEP4_crc [OF True, of le l]
    obtain k where "by4_loop le (foldl crc_byte l (take 4 p)) (drop 4 p)
        = Inr (foldl crc_byte (foldl crc_byte l (take 4 p)) (take k (drop 4 p)), drop k (drop 4 p))"
      using 1 [OF True step] by blast
    with True step have "by4_loop le l p = Inr (foldl crc_byte l (take (4 + k) p), drop (4 + k) p)"
      unfolding take_add by (subst by4_loop.simps) (simp add: add.commute)
    then show ?thesis ..
  next
    case False
    then have "by4_loop le l p = Inr (foldl crc_byte l (take 0 p), drop 0 p)"
      by (subst by4_loop.simps) simp
    then show ?thesis ..
  qed
qed

lemma by16_loop_crc: "\<exists>k. by16_loop le l p = Inr (foldl crc_byte l (take k p), drop k p)"
proof (induction "length p" arbitrary: l p rule: less_induct)
  case less
  show ?case
  proof (cases "16 \<le> length p")
    case True
    let ?l = "foldl crc_byte l (take 16 p)"
    have "take 16 p = take 4 p @ take 4 (drop 4 p) @ take 4 (drop 8 p) @ take 4 (drop 12 p)"
      using take_add [of 4 12 p] take_add [of 4 8 "drop 4 p"] take_add [of 4 4 "drop 8 p"] by simp
    then have "by16_loop le l p = by16_loop le ?l (drop 16 p)"
      using True by (subst by16_loop.simps) (simp add: STEP4_crc)
    moreover have "length (drop 16 p) < length p" using True by simp
    ultimately obtain k where
      "by16_loop le l p = Inr (foldl crc_byte ?l (take k (drop 16 p)), drop k (drop 16 p))"
      using less [of "drop 16 p" ?l] by (auto simp del: drop_drop)
    then have "by16_loop le l p = Inr (foldl crc_byte l (take (16 + k) p), drop (16 + k) p)"
      unfolding take_add by (simp add: add.commute)
    then show ?thesis ..
  next
    case False
    then have "by16_loop le l p = Inr (foldl crc_byte l (take 0 p), drop 0 p)"
      by (subst by16_loop.simps) simp
    then show ?thesis ..
  qed
qed

lemma foldl_take_drop: "foldl f (foldl f a (take k p)) (drop k p) = foldl f a p"
  by (metis append_take_drop_id foldl_append)

lemma PortableExtend_reference: "PortableExtend le pval crc p = Inr (crc32c_reference crc p)"
proof -
  have tail: "rbind (by16_loop le l q) (\<lambda>(l, p). rbind (by4_loop le l p) (\<lambda>(l, p).
      Inr (bytes_loop l p XOR 0xffffffff))) = Inr (foldl crc_byte l q XOR 0xffffffff)" for l q
  proof -
    obtain k where k: "by16_loop le l q = Inr (foldl crc_byte l (take k q), drop k q)"
      using by16_loop_crc by blast
    obtain j where "by4_loop le (foldl crc_byte l (take k q)) (drop k q)
        = Inr (foldl crc_byte (foldl crc_byte l (take k q)) (take j (drop k q)), drop j (drop k q))"
      using by4_loop_crc by blast
    with k show ?thesis by (simp add: bytes_loop_crc foldl_take_drop del: drop_drop)
  qed
  show ?thesis
    by (simp add: PortableExtend_def crc32c_reference_def Let_def tail [unfolded bytes_loop_crc]
        bytes_loop_crc foldl_take_drop)
qed

subsection \<open>The accelerated routine\<close>

text \<open>
  What the processor manual says of the two instructions: one byte of the checksum, and eight
  bytes of a little-endian word, the upper half of the result zero.
\<close>

definition crc32_u8_spec :: "(u32 \<Rightarrow> byte \<Rightarrow> u32) \<Rightarrow> bool" where
  "crc32_u8_spec u8 \<longleftrightarrow> (\<forall>l b. u8 l b = crc_byte l b)"

definition crc32_u64_spec :: "(u64 \<Rightarrow> u64 \<Rightarrow> u64) \<Rightarrow> bool" where
  "crc32_u64_spec u64 \<longleftrightarrow> (\<forall>l w. u64 l w = ucast (foldl crc_byte (ucast l) (le_bytes 8 w)))"

lemma crc_u8_loop_crc: "crc32_u8_spec u8 \<Longrightarrow> crc_u8_loop u8 l p = foldl crc_byte l p"
  by (induction p arbitrary: l) (simp_all add: crc32_u8_spec_def)

lemma ucast_ucast_u32: "ucast (ucast (x :: u32) :: u64) = x"
  by (rule bit_word_eqI) (simp add: bit_simps)

lemma crc_u64_word:
  "crc32_u64_spec u64 \<Longrightarrow> 8 \<le> length p \<Longrightarrow>
     u64 (ucast l) (le_word (take 8 p)) = ucast (foldl crc_byte l (take 8 p))"
  using le_bytes_le_word [of "take 8 p", where ?'a = 64]
  by (simp add: crc32_u64_spec_def ucast_ucast_u32)

lemma crc_u64_loop_crc:
  assumes "crc32_u64_spec u64"
  shows "\<exists>k. crc_u64_loop u64 (ucast l) p = (ucast (foldl crc_byte l (take k p)), drop k p)"
proof (induction "length p" arbitrary: l p rule: less_induct)
  case less
  show ?case
  proof (cases "16 \<le> length p")
    case True
    let ?l = "foldl crc_byte l (take 16 p)"
    have "take 16 p = take 8 p @ take 8 (drop 8 p)"
      using take_add [of 8 8 p] by simp
    then have "crc_u64_loop u64 (ucast l) p = crc_u64_loop u64 (ucast ?l) (drop 16 p)"
      using True by (subst crc_u64_loop.simps) (simp add: crc_u64_word [OF assms] Let_def)
    moreover have "length (drop 16 p) < length p" using True by simp
    ultimately obtain k where
      "crc_u64_loop u64 (ucast l) p = (ucast (foldl crc_byte ?l (take k (drop 16 p))), drop k (drop 16 p))"
      using less [of "drop 16 p" ?l] by (auto simp del: drop_drop)
    then have "crc_u64_loop u64 (ucast l) p = (ucast (foldl crc_byte l (take (16 + k) p)), drop (16 + k) p)"
      unfolding take_add by (simp add: add.commute)
    then show ?thesis ..
  next
    case False
    then have "crc_u64_loop u64 (ucast l) p = (ucast (foldl crc_byte l (take 0 p)), drop 0 p)"
      by (subst crc_u64_loop.simps) simp
    then show ?thesis ..
  qed
qed

lemma AcceleratedExtend_reference:
  assumes "crc32_u8_spec u8" and "crc32_u64_spec u64"
  shows "AcceleratedExtend u8 u64 pval crc p = crc32c_reference crc p"
proof -
  have tail: "(case crc_u64_loop u64 (ucast l) q of (l64, p) \<Rightarrow> crc_u8_loop u8 (ucast l64) p)
      = foldl crc_byte l q" for l q
    using crc_u64_loop_crc [OF assms(2), of l q] crc_u8_loop_crc [OF assms(1)]
    by (auto simp: ucast_ucast_u32 foldl_take_drop)
  have out: "(case x of (l64, p) \<Rightarrow> crc_u8_loop u8 (ucast l64) p XOR 4294967295)
      = (case x of (l64, p) \<Rightarrow> crc_u8_loop u8 (ucast l64) p) XOR 4294967295" for x :: "u64 \<times> byte list"
    by (simp add: split_beta)
  show ?thesis
    unfolding AcceleratedExtend_def Let_def out
    by (simp add: crc32c_reference_def tail crc_u8_loop_crc [OF assms(1)] foldl_take_drop
        del: crc_u8_loop.simps split: if_splits)
qed

section \<open>Properties\<close>

text \<open>C32: With or without the crc instruction, at every address of the data and on either byte
  order, Extend computes the bit-by-bit Castagnoli checksum and reads no byte outside the data.
  The two instructions are assumed to behave as the processor manual documents.\<close>
theorem crc_extend_is_reference:
  assumes "crc32_u8_spec u8" and "crc32_u64_spec u64"
  shows "Extend acc u8 u64 le pval crc p = Inr (crc32c_reference crc p)"
  using assms by (simp add: Extend_def PortableExtend_reference AcceleratedExtend_reference)

theorem crc_extend_is_reference_witness:
  "Extend True crc_byte (\<lambda>l w. ucast (foldl crc_byte (ucast l) (le_bytes 8 w))) True 3 0 (replicate 32 0)
    = Inr (crc32c_reference 0 (replicate 32 0))"
  by (rule crc_extend_is_reference) (simp_all add: crc32_u8_spec_def crc32_u64_spec_def)

text \<open>The checksum can be computed piece by piece: extending the checksum of one part by a
  second part gives the checksum of the concatenation, whatever the alignment of each part.\<close>
theorem crc_extend_append:
  "rbind (PortableExtend le pval crc p) (\<lambda>c. PortableExtend le' pval' c q)
    = PortableExtend le'' pval'' crc (p @ q)"
  by (simp add: PortableExtend_reference crc32c_reference_def xor.assoc)

lemma crc_bit_top: "bit (crc_bit x) 31 = bit x 0"
  by (auto simp: crc_bit_def bit_simps dest: bit_imp_le_length)

lemma crc_bit_eq_0: "crc_bit x = 0 \<Longrightarrow> x = 0"
proof -
  assume 0: "crc_bit x = 0"
  then have b0: "\<not> bit x 0" using crc_bit_top [of x] by simp
  with 0 have "drop_bit 1 x = 0" by (simp add: crc_bit_def)
  then have "\<not> bit (drop_bit 1 x) n" for n by simp
  then have "\<not> bit x (Suc n)" for n by (simp add: bit_drop_bit_eq)
  with b0 have "\<not> bit x n" for n by (cases n) auto
  then show "x = 0" by (simp add: bit_eq_iff)
qed

lemma xor_eq_0: "x XOR y = 0 \<longleftrightarrow> x = y" for x y :: u32
  by (metis xor.assoc xor_self_eq xor.right_neutral xor.left_neutral)

lemma crc_bits_inj: "(crc_bit ^^ n) x = (crc_bit ^^ n) y \<Longrightarrow> x = y"
proof -
  assume "(crc_bit ^^ n) x = (crc_bit ^^ n) y"
  then have "(crc_bit ^^ n) (x XOR y) = 0" by (simp add: crc_bits_xor)
  then have "x XOR y = 0" by (induction n) (auto dest: crc_bit_eq_0)
  then show "x = y" by (simp add: xor_eq_0)
qed

lemma xor_right_cancel: "x XOR z = y XOR z \<longleftrightarrow> x = y" for x y z :: u32
  by (metis xor.assoc xor_self_eq xor.right_neutral)

lemma xor_left_cancel: "z XOR x = z XOR y \<longleftrightarrow> x = y" for x y z :: u32
  by (metis xor_right_cancel xor.commute)

lemma crc_byte_inj:
  "crc_byte l b = crc_byte l' b \<Longrightarrow> l = l'" "crc_byte l b = crc_byte l b' \<Longrightarrow> b = b'"
proof -
  show "crc_byte l b = crc_byte l' b \<Longrightarrow> l = l'"
    by (auto simp: crc_byte_def xor_right_cancel dest: crc_bits_inj)
  assume "crc_byte l b = crc_byte l b'"
  then have "(ucast b :: u32) = ucast b'" by (auto simp: crc_byte_def xor_left_cancel dest: crc_bits_inj)
  then have "bit (ucast b :: u32) n = bit (ucast b' :: u32) n" for n by simp
  then show "b = b'" by (intro bit_word_eqI) (fastforce simp: bit_simps)
qed

lemma foldl_crc_inj: "foldl crc_byte l p = foldl crc_byte l' p \<Longrightarrow> l = l'"
  by (induction p arbitrary: l l') (auto dest: crc_byte_inj)

text \<open>The portable checksum detects every corruption confined to one byte.\<close>
theorem crc_detects_one_byte:
  assumes "b \<noteq> b'"
  shows "PortableExtend le pval crc (p @ b # q) \<noteq> PortableExtend le' pval' crc (p @ b' # q)"
proof -
  let ?l = "foldl crc_byte (crc XOR 0xffffffff) p"
  have "crc_byte ?l b \<noteq> crc_byte ?l b'" using assms crc_byte_inj(2) by blast
  then have "foldl crc_byte (crc_byte ?l b) q \<noteq> foldl crc_byte (crc_byte ?l b') q"
    using foldl_crc_inj by blast
  then show ?thesis
    by (simp add: PortableExtend_reference crc32c_reference_def xor_right_cancel)
qed

theorem crc_detects_one_byte_witness:
  "PortableExtend True 0 0 ([1] @ 2 # [3]) \<noteq> PortableExtend False 1 0 ([1] @ 4 # [3])"
  by (rule crc_detects_one_byte) simp

text \<open>Masking a checksum before it is stored loses nothing: Unmask inverts Mask and Mask
  inverts Unmask.\<close>
theorem crc_mask_roundtrip: "Unmask (Mask crc) = crc \<and> Mask (Unmask crc) = crc"
proof
  have rot: "drop_bit j (drop_bit i x OR push_bit j x) OR push_bit i (drop_bit i x OR push_bit j x) = x"
    if "i + j = 32" for i j and x :: u32
  proof (rule bit_word_eqI)
    fix n assume "n < LENGTH(32)"
    then show "bit (drop_bit j (drop_bit i x OR push_bit j x) OR push_bit i (drop_bit i x OR push_bit j x)) n
        = bit x n"
      using that by (cases "i \<le> n") (auto simp: bit_simps dest: bit_imp_le_length)
  qed
  show "Unmask (Mask crc) = crc"
    unfolding Mask_def Unmask_def Let_def add_diff_cancel_right' by (rule rot) simp
  show "Mask (Unmask crc) = crc"
    using rot [of 17 15 "crc - kMaskDelta"] by (simp add: Mask_def Unmask_def Let_def)
qed

end
