(* ===== verification/Hash.thy ===== *)
theory Hash
  imports Coding
begin

unbundle bit_operations_syntax

text \<open>
  The Murmur hash functions of \<^verbatim>\<open>voyager/util/hash.h\<close> and \<^verbatim>\<open>hash.cc\<close>, over 32-bit and 64-bit
  words with wrap-around. The lemmas show that every step on the hash state is a bijection, so
  that equally long inputs which differ in one aligned block never collide.
\<close>

section \<open>The functions\<close>

definition hash32_m :: u32 where
  "hash32_m = 0x5bd1e995"

definition hash32_k :: "u32 \<Rightarrow> u32" where
  "hash32_k k = (let k = k * hash32_m; k = k XOR drop_bit 24 k in k * hash32_m)"

function Hash32_blocks :: "bool \<Rightarrow> u32 \<Rightarrow> byte list \<Rightarrow> (u32 \<times> byte list) res" where
  "Hash32_blocks le h data =
     (if 4 \<le> length data then
        rbind (DecodeFixed32 le data) (\<lambda>k. Hash32_blocks le (h * hash32_m XOR hash32_k k) (drop 4 data))
      else Inr (h, data))"
  by pat_completeness auto
termination
  by (relation "measure (\<lambda>(le, h, data). length data)") auto

declare Hash32_blocks.simps [simp del]

text \<open>The \<^verbatim>\<open>switch\<close> with its fall-through cases, from the last byte down.\<close>

definition Hash32_tail :: "u32 \<Rightarrow> byte list \<Rightarrow> u32" where
  "Hash32_tail h data =
     (let n = length data;
          h = (if n = 3 then h XOR push_bit 16 (ByteAsUint32 (data ! 2)) else h);
          h = (if n = 3 \<or> n = 2 then h XOR push_bit 8 (ByteAsUint32 (data ! 1)) else h)
      in if n = 3 \<or> n = 2 \<or> n = 1 then (h XOR ByteAsUint32 (data ! 0)) * hash32_m else h)"

definition Hash32_final :: "u32 \<Rightarrow> u32" where
  "Hash32_final h =
     (let h = h XOR drop_bit 13 h; h = h * hash32_m in h XOR drop_bit 15 h)"

definition Hash32 :: "bool \<Rightarrow> byte list \<Rightarrow> u32 \<Rightarrow> u32 res" where
  "Hash32 le data seed =
     rbind (Hash32_blocks le (seed XOR of_nat (length data)) data)
       (\<lambda>(h, rest). Inr (Hash32_final (Hash32_tail h rest)))"

definition hash64_m :: u64 where
  "hash64_m = 0xc6a4a7935bd1e995"

definition hash64_k :: "u64 \<Rightarrow> u64" where
  "hash64_k k = (let k = k * hash64_m; k = k XOR drop_bit 47 k in k * hash64_m)"

function Hash64_blocks :: "bool \<Rightarrow> u64 \<Rightarrow> byte list \<Rightarrow> (u64 \<times> byte list) res" where
  "Hash64_blocks le h data =
     (if 8 \<le> length data then
        rbind (DecodeFixed64 le data) (\<lambda>k. Hash64_blocks le ((h XOR hash64_k k) * hash64_m) (drop 8 data))
      else Inr (h, data))"
  by pat_completeness auto
termination
  by (relation "measure (\<lambda>(le, h, data). length data)") auto

declare Hash64_blocks.simps [simp del]

definition Hash64_tail :: "u64 \<Rightarrow> byte list \<Rightarrow> u64" where
  "Hash64_tail h data =
     (let n = length data;
          h = (if 7 \<le> n then h XOR push_bit 48 (ByteAsUint64 (data ! 6)) else h);
          h = (if 6 \<le> n then h XOR push_bit 40 (ByteAsUint64 (data ! 5)) else h);
          h = (if 5 \<le> n then h XOR push_bit 32 (ByteAsUint64 (data ! 4)) else h);
          h = (if 4 \<le> n then h XOR push_bit 24 (ByteAsUint64 (data ! 3)) else h);
          h = (if 3 \<le> n then h XOR push_bit 16 (ByteAsUint64 (data ! 2)) else h);
          h = (if 2 \<le> n then h XOR push_bit 8 (ByteAsUint64 (data ! 1)) else h)
      in if 1 \<le> n then (h XOR ByteAsUint64 (data ! 0)) * hash64_m else h)"

definition Hash64_final :: "u64 \<Rightarrow> u64" where
  "Hash64_final h =
     (let h = h XOR drop_bit 47 h; h = h * hash64_m in h XOR drop_bit 47 h)"

definition Hash64 :: "bool \<Rightarrow> byte list \<Rightarrow> u64 \<Rightarrow> u64 res" where
  "Hash64 le data seed =
     rbind (Hash64_blocks le (seed XOR (of_nat (length data) * hash64_m)) data)
       (\<lambda>(h, rest). Inr (Hash64_final (Hash64_tail h rest)))"

text \<open>The overloads for strings; the 32-bit one narrows the length to \<^verbatim>\<open>uint32_t\<close>.\<close>

definition Hash32_string :: "bool \<Rightarrow> byte list \<Rightarrow> u32 res" where
  "Hash32_string le str = Hash32 le (take (unat (of_nat (length str) :: u32)) str) 0xDECAFC"

definition Hash64_string :: "bool \<Rightarrow> byte list \<Rightarrow> u64 res" where
  "Hash64_string le str = Hash64 le str 0xDECAFCAFFE"

definition Hash64Combine :: "u64 \<Rightarrow> u64 \<Rightarrow> u64" where
  "Hash64Combine a b = a XOR (b + 0x9e3779b97f4a7800 + push_bit 10 a + drop_bit 4 a)"

section \<open>Invertible steps\<close>

lemma xor_cancel_right: "x XOR z = y XOR z \<longleftrightarrow> x = y" for x y z :: "'a::len word"
  by (metis xor.assoc xor_self_eq xor.right_neutral)

lemma xor_cancel_left: "z XOR x = z XOR y \<longleftrightarrow> x = y" for x y z :: "'a::len word"
  by (metis xor_cancel_right xor.commute)

lemma xorshift_fix_zero:
  assumes "x = drop_bit k x" and "0 < k"
  shows "x = (0 :: 'a::len word)"
proof -
  have "x = drop_bit (n * k) x" for n
  proof (induction n)
    case (Suc n)
    have "drop_bit (Suc n * k) x = drop_bit (n * k) (drop_bit k x)" by (simp add: drop_bit_drop_bit add.commute)
    with assms(1) Suc show ?case by simp
  qed simp
  from this [of "LENGTH('a)"] have "x = drop_bit (LENGTH('a) * k) x" .
  moreover have "LENGTH('a) \<le> LENGTH('a) * k" using assms(2) by simp
  then have "drop_bit (LENGTH('a) * k) x = 0"
    by (intro bit_word_eqI) (auto simp: bit_simps dest: bit_imp_le_length)
  ultimately show ?thesis by simp
qed

lemma xorshift_inj: "0 < k \<Longrightarrow> x XOR drop_bit k x = y XOR drop_bit k y \<longleftrightarrow> x = y" for x y :: "'a::len word"
proof
  assume k: "0 < k" and "x XOR drop_bit k x = y XOR drop_bit k y"
  then have "x XOR y = drop_bit k (x XOR y)"
    by (simp only: drop_bit_xor)
      (metis xor.assoc xor.commute xor_self_eq xor.right_neutral)
  then have "x XOR y = 0" using k by (rule xorshift_fix_zero)
  then show "x = y" by (metis xor.assoc xor_self_eq xor.right_neutral xor.left_neutral)
qed simp

lemma hash32_m_inj: "x * hash32_m = y * hash32_m \<longleftrightarrow> x = y"
proof
  have "hash32_m * 0xe59b19bd = 1" by (simp add: hash32_m_def)
  then have inv: "x * hash32_m * 0xe59b19bd = x" for x by (simp add: mult.assoc)
  assume "x * hash32_m = y * hash32_m"
  then show "x = y" by (metis inv)
qed simp

lemma hash64_m_inj: "x * hash64_m = y * hash64_m \<longleftrightarrow> x = y"
proof
  have "hash64_m * 0x5f7a0ea7e59b19bd = 1" by (simp add: hash64_m_def)
  then have inv: "x * hash64_m * 0x5f7a0ea7e59b19bd = x" for x by (simp add: mult.assoc)
  assume "x * hash64_m = y * hash64_m"
  then show "x = y" by (metis inv)
qed simp

lemmas hash_inj = xor_cancel_left xor_cancel_right hash32_m_inj hash64_m_inj xorshift_inj

lemma hash32_k_inj: "hash32_k x = hash32_k y \<longleftrightarrow> x = y"
  by (simp add: hash32_k_def Let_def hash_inj)

lemma hash64_k_inj: "hash64_k x = hash64_k y \<longleftrightarrow> x = y"
  by (simp add: hash64_k_def Let_def hash_inj)

lemma Hash32_tail_inj: "Hash32_tail h d = Hash32_tail h' d \<longleftrightarrow> h = h'"
  by (simp add: Hash32_tail_def Let_def hash_inj)

lemma Hash64_tail_inj: "Hash64_tail h d = Hash64_tail h' d \<longleftrightarrow> h = h'"
  by (simp add: Hash64_tail_def Let_def hash_inj)

lemma Hash32_final_inj: "Hash32_final h = Hash32_final h' \<longleftrightarrow> h = h'"
  by (simp add: Hash32_final_def Let_def hash_inj)

lemma Hash64_final_inj: "Hash64_final h = Hash64_final h' \<longleftrightarrow> h = h'"
  by (simp add: Hash64_final_def Let_def hash_inj)

section \<open>The block loops\<close>

text \<open>The reference: fold the words of the complete blocks into the state.\<close>

fun fold_words :: "(u32 \<Rightarrow> u32 \<Rightarrow> u32) \<Rightarrow> u32 \<Rightarrow> byte list \<Rightarrow> u32 \<times> byte list" where
  "fold_words f h (a # b # c # d # rest) = fold_words f (f h (le_word [a, b, c, d])) rest"
| "fold_words f h rest = (h, rest)"

lemma Hash32_blocks_step:
  "4 \<le> length p \<Longrightarrow> Hash32_blocks le h p
     = Hash32_blocks le (h * hash32_m XOR hash32_k (le_word (take 4 p))) (drop 4 p)"
  by (subst Hash32_blocks.simps) (simp add: DecodeFixed32_le)

lemma Hash64_blocks_step:
  "8 \<le> length p \<Longrightarrow> Hash64_blocks le h p
     = Hash64_blocks le ((h XOR hash64_k (le_word (take 8 p))) * hash64_m) (drop 8 p)"
  by (subst Hash64_blocks.simps) (simp add: DecodeFixed64_le)

lemma Hash32_blocks_total: "\<exists>h' k. \<forall>le. Hash32_blocks le h p = Inr (h', drop k p)"
proof (induction "length p" arbitrary: h p rule: less_induct)
  case less
  show ?case
  proof (cases "4 \<le> length p")
    case True
    let ?h = "h * hash32_m XOR hash32_k (le_word (take 4 p))"
    have "length (drop 4 p) < length p" using True by simp
    then obtain h' k where "\<forall>le. Hash32_blocks le ?h (drop 4 p) = Inr (h', drop (k + 4) p)"
      using less [of "drop 4 p" ?h] by auto
    with Hash32_blocks_step [OF True] show ?thesis by metis
  next
    case False
    then have "\<forall>le. Hash32_blocks le h p = Inr (h, drop 0 p)" by (simp add: Hash32_blocks.simps)
    then show ?thesis by blast
  qed
qed

lemma Hash64_blocks_total: "\<exists>h' k. \<forall>le. Hash64_blocks le h p = Inr (h', drop k p)"
proof (induction "length p" arbitrary: h p rule: less_induct)
  case less
  show ?case
  proof (cases "8 \<le> length p")
    case True
    let ?h = "(h XOR hash64_k (le_word (take 8 p))) * hash64_m"
    have "length (drop 8 p) < length p" using True by simp
    then obtain h' k where "\<forall>le. Hash64_blocks le ?h (drop 8 p) = Inr (h', drop (k + 8) p)"
      using less [of "drop 8 p" ?h] by auto
    with Hash64_blocks_step [OF True] show ?thesis by metis
  next
    case False
    then have "\<forall>le. Hash64_blocks le h p = Inr (h, drop 0 p)" by (simp add: Hash64_blocks.simps)
    then show ?thesis by blast
  qed
qed

text \<open>The state after a common prefix of whole blocks, and that the rest of the loop is
  injective in the state.\<close>

lemma Hash32_blocks_inj:
  "Hash32_blocks le h p = Inr (a, r) \<Longrightarrow> Hash32_blocks le h' p = Inr (a', r') \<Longrightarrow>
     r = r' \<and> (a = a' \<longleftrightarrow> h = h')"
proof (induction "length p" arbitrary: h h' p rule: less_induct)
  case less
  show ?case
  proof (cases "4 \<le> length p")
    case True
    then have "length (drop 4 p) < length p" by simp
    from less.hyps [OF this] less.prems [unfolded Hash32_blocks_step [OF True]]
    show ?thesis by (simp add: hash_inj)
  next
    case False
    with less.prems show ?thesis by (auto simp: Hash32_blocks.simps)
  qed
qed

lemma Hash64_blocks_inj:
  "Hash64_blocks le h p = Inr (a, r) \<Longrightarrow> Hash64_blocks le h' p = Inr (a', r') \<Longrightarrow>
     r = r' \<and> (a = a' \<longleftrightarrow> h = h')"
proof (induction "length p" arbitrary: h h' p rule: less_induct)
  case less
  show ?case
  proof (cases "8 \<le> length p")
    case True
    then have "length (drop 8 p) < length p" by simp
    from less.hyps [OF this] less.prems [unfolded Hash64_blocks_step [OF True]]
    show ?thesis by (simp add: hash_inj)
  next
    case False
    with less.prems show ?thesis by (auto simp: Hash64_blocks.simps)
  qed
qed

lemma Hash32_blocks_append:
  "length p = 4 * n \<Longrightarrow> \<exists>h'. \<forall>q le. Hash32_blocks le h (p @ q) = Hash32_blocks le h' q"
proof (induction n arbitrary: h p)
  case (Suc n)
  then have l: "4 \<le> length p" and d: "length (drop 4 p) = 4 * n" by simp_all
  from Suc.IH [OF d] Hash32_blocks_step l show ?case by (simp add: Hash32_blocks_step)
qed auto

lemma Hash64_blocks_append:
  "length p = 8 * n \<Longrightarrow> \<exists>h'. \<forall>q le. Hash64_blocks le h (p @ q) = Hash64_blocks le h' q"
proof (induction n arbitrary: h p)
  case (Suc n)
  then have l: "8 \<le> length p" and d: "length (drop 8 p) = 8 * n" by simp_all
  from Suc.IH [OF d] l show ?case by (simp add: Hash64_blocks_step)
qed auto

lemma Hash32_block_neq:
  assumes "length p = 4 * n" and "length b = 4" and "length b' = 4" and "b \<noteq> b'"
  shows "Hash32 le (p @ b @ q) seed \<noteq> Hash32 le (p @ b' @ q) seed"
proof -
  let ?h0 = "seed XOR of_nat (length p + (4 + length q))"
  obtain h where h: "\<forall>q le. Hash32_blocks le ?h0 (p @ q) = Hash32_blocks le h q"
    using Hash32_blocks_append [OF assms(1)] by blast
  let ?s = "\<lambda>b. h * hash32_m XOR hash32_k (le_word b)"
  obtain x k where x: "Hash32_blocks le (?s b) q = Inr (x, drop k q)" using Hash32_blocks_total by blast
  obtain y j where y: "Hash32_blocks le (?s b') q = Inr (y, drop j q)" using Hash32_blocks_total by blast
  from Hash32_blocks_inj [OF x y] have "drop k q = drop j q" "x \<noteq> y"
    using assms le_word_inj [of b b', where ?'a = 32] by (simp_all add: hash_inj hash32_k_inj)
  with assms x y h show ?thesis
    by (simp add: Hash32_def Hash32_blocks_step Hash32_final_inj Hash32_tail_inj)
qed

lemma Hash64_block_neq:
  assumes "length p = 8 * n" and "length b = 8" and "length b' = 8" and "b \<noteq> b'"
  shows "Hash64 le (p @ b @ q) seed \<noteq> Hash64 le (p @ b' @ q) seed"
proof -
  let ?h0 = "seed XOR of_nat (length p + (8 + length q)) * hash64_m"
  obtain h where h: "\<forall>q le. Hash64_blocks le ?h0 (p @ q) = Hash64_blocks le h q"
    using Hash64_blocks_append [OF assms(1)] by blast
  let ?s = "\<lambda>b. (h XOR hash64_k (le_word b)) * hash64_m"
  obtain x k where x: "Hash64_blocks le (?s b) q = Inr (x, drop k q)" using Hash64_blocks_total by blast
  obtain y j where y: "Hash64_blocks le (?s b') q = Inr (y, drop j q)" using Hash64_blocks_total by blast
  from Hash64_blocks_inj [OF x y] have "drop k q = drop j q" "x \<noteq> y"
    using assms le_word_inj [of b b', where ?'a = 64] by (simp_all add: hash_inj hash64_k_inj)
  with assms x y h show ?thesis
    by (simp add: Hash64_def Hash64_blocks_step Hash64_final_inj Hash64_tail_inj)
qed

section \<open>Properties\<close>

text \<open>Both hash functions are total (they read no byte outside the data, on either byte order
  with the same result), and two equally long inputs that differ only within one aligned block of
  four (eight) bytes have different 32-bit (64-bit) hashes for the same seed.\<close>
theorem hash_no_block_collision:
  assumes "length p = 4 * n" and "length b = 4" and "length b' = 4" and "b \<noteq> b'"
    and "length p8 = 8 * n8" and "length b8 = 8" and "length b8' = 8" and "b8 \<noteq> b8'"
  shows "(\<exists>h h'. h \<noteq> h' \<and> (\<forall>le. Hash32 le (p @ b @ q) seed = Inr h \<and> Hash32 le (p @ b' @ q) seed = Inr h')) \<and>
    (\<exists>h h'. h \<noteq> h' \<and> (\<forall>le. Hash64 le (p8 @ b8 @ q8) seed8 = Inr h \<and> Hash64 le (p8 @ b8' @ q8) seed8 = Inr h'))"
proof -
  have "\<exists>h. \<forall>le. Hash32 le d s = Inr h" for d s
    using Hash32_blocks_total [of "s XOR of_nat (length d)" d] by (auto simp: Hash32_def)
  moreover have "\<exists>h. \<forall>le. Hash64 le d s = Inr h" for d s
    using Hash64_blocks_total [of "s XOR of_nat (length d) * hash64_m" d] by (auto simp: Hash64_def)
  ultimately show ?thesis
    using Hash32_block_neq [OF assms(1-4), of _ q seed] Hash64_block_neq [OF assms(5-8), of _ q8 seed8]
    by (metis)
qed

theorem hash_no_block_collision_witness:
  "\<exists>h h'. h \<noteq> h' \<and> (\<forall>le. Hash32 le ([] @ [1, 2, 3, 4] @ [9]) 7 = Inr h \<and> Hash32 le ([] @ [1, 2, 3, 5] @ [9]) 7 = Inr h')"
  using hash_no_block_collision [of "[]" 0 "[1, 2, 3, 4]" "[1, 2, 3, 5]" "[]" 0
      "[1, 2, 3, 4, 5, 6, 7, 8]" "[0, 2, 3, 4, 5, 6, 7, 8]" "[9]" 7 "[]" 0]
  by simp

end
