(* ===== verification/Dispatch.thy ===== *)
theory Dispatch
  imports Voyager_Prelude
begin

unbundle bit_operations_syntax

text \<open>
  The event channel of one file descriptor, \<^verbatim>\<open>voyager/core/dispatch.h\<close> and \<^verbatim>\<open>dispatch.cc\<close>, and
  the interface a poller gives it, \<^verbatim>\<open>event_poller.h\<close>. Dispatch objects live in a store and are named
  by their address, because a poller changes the index of other dispatches than the one it is
  called with. The locale \<open>event_poller\<close> states what a poller promises: after every update what
  the kernel watches for a descriptor is what its dispatch asks for. The lemmas about the five
  operations of a dispatch are proved once for all pollers.
\<close>

section \<open>Event masks\<close>

definition POLLIN :: u32 where "POLLIN = 1"
definition POLLPRI :: u32 where "POLLPRI = 2"
definition POLLOUT :: u32 where "POLLOUT = 4"
definition POLLERR :: u32 where "POLLERR = 8"
definition POLLHUP :: u32 where "POLLHUP = 16"
definition POLLNVAL :: u32 where "POLLNVAL = 32"
definition POLLRDHUP :: u32 where "POLLRDHUP = 0x2000"

definition kNoneEvent :: u32 where "kNoneEvent = 0"
definition kReadEvent :: u32 where "kReadEvent = POLLIN OR POLLPRI"
definition kWriteEvent :: u32 where "kWriteEvent = POLLOUT"

lemmas event_masks = POLLIN_def POLLPRI_def POLLOUT_def POLLERR_def POLLHUP_def POLLNVAL_def
  POLLRDHUP_def kNoneEvent_def kReadEvent_def kWriteEvent_def

section \<open>The dispatch object\<close>

type_synonym addr = nat

datatype ModifyEvent = kNoModify | kAddRead | kAddWrite | kDeleteRead | kDeleteWrite
  | kEnableWrite | kDisableWrite | kDeleteAll

datatype event_cb = CloseCb | ErrorCb | ReadCb | WriteCb

text \<open>\<open>callbacks\<close> are the callbacks that are set; their code belongs to the owner of the dispatch.\<close>

record dispatch =
  fd :: int
  events :: u32
  revents :: u32
  index :: int
  modify :: ModifyEvent
  add_write :: bool
  tied :: bool
  event_handling :: bool
  callbacks :: "event_cb set"

type_synonym dstore = "addr \<rightharpoonup> dispatch"

definition Dispatch_new :: "int \<Rightarrow> dispatch" where
  "Dispatch_new f = \<lparr>fd = f, events = 0, revents = 0, index = -1, modify = kNoModify,
     add_write = False, tied = False, event_handling = False, callbacks = {}\<rparr>"

definition IsNoneEvent :: "dispatch \<Rightarrow> bool" where
  "IsNoneEvent d \<longleftrightarrow> events d = kNoneEvent"

definition IsReading :: "dispatch \<Rightarrow> bool" where
  "IsReading d \<longleftrightarrow> events d AND kReadEvent \<noteq> 0"

definition IsWriting :: "dispatch \<Rightarrow> bool" where
  "IsWriting d \<longleftrightarrow> events d AND kWriteEvent \<noteq> 0"

section \<open>Changing the interest\<close>

text \<open>What the five operations do to the object before they call \<^verbatim>\<open>UpdateEvents\<close>.\<close>

definition EnableRead_d :: "dispatch \<Rightarrow> dispatch" where
  "EnableRead_d d = d\<lparr>events := events d OR kReadEvent, modify := kAddRead\<rparr>"

definition EnableWrite_d :: "dispatch \<Rightarrow> dispatch" where
  "EnableWrite_d d =
     (let d = d\<lparr>events := events d OR kWriteEvent\<rparr>
      in if add_write d then d\<lparr>modify := kEnableWrite\<rparr> else d\<lparr>modify := kAddWrite, add_write := True\<rparr>)"

definition DisableRead_d :: "dispatch \<Rightarrow> dispatch" where
  "DisableRead_d d = d\<lparr>events := events d AND NOT kReadEvent, modify := kDeleteRead\<rparr>"

definition DisableWrite_d :: "dispatch \<Rightarrow> dispatch" where
  "DisableWrite_d d = d\<lparr>events := events d AND NOT kWriteEvent, modify := kDisableWrite\<rparr>"

definition DisableAll_d :: "dispatch \<Rightarrow> dispatch" where
  "DisableAll_d d =
     (let m = (if IsReading d \<and> add_write d then kDeleteAll else if IsReading d then kDeleteRead else kDeleteWrite)
      in d\<lparr>modify := m, add_write := False, events := kNoneEvent\<rparr>)"

text \<open>
  The operations, over the dispatch store and a poller state; \<open>update\<close> is the poller's
  \<^verbatim>\<open>UpdateDispatch\<close>, reached through the event loop. \<open>on_dispatch\<close> is the access to the object
  through its pointer.
\<close>

definition on_dispatch :: "addr \<Rightarrow> dstore \<Rightarrow> (dispatch \<Rightarrow> 'a res) \<Rightarrow> 'a res" where
  "on_dispatch a ds f = (case ds a of None \<Rightarrow> Inl UseAfterFree | Some d \<Rightarrow> f d)"

type_synonym 'p poller_op = "addr \<Rightarrow> dstore \<times> 'p \<Rightarrow> (dstore \<times> 'p) res"

definition EnableRead :: "'p poller_op \<Rightarrow> 'p poller_op" where
  "EnableRead update a = (\<lambda>(ds, p). on_dispatch a ds (\<lambda>d. update a (ds(a \<mapsto> EnableRead_d d), p)))"

definition EnableWrite :: "'p poller_op \<Rightarrow> 'p poller_op" where
  "EnableWrite update a = (\<lambda>(ds, p). on_dispatch a ds (\<lambda>d. update a (ds(a \<mapsto> EnableWrite_d d), p)))"

definition DisableRead :: "'p poller_op \<Rightarrow> 'p poller_op" where
  "DisableRead update a = (\<lambda>(ds, p). on_dispatch a ds (\<lambda>d. update a (ds(a \<mapsto> DisableRead_d d), p)))"

definition DisableWrite :: "'p poller_op \<Rightarrow> 'p poller_op" where
  "DisableWrite update a = (\<lambda>(ds, p). on_dispatch a ds (\<lambda>d.
     if add_write d then update a (ds(a \<mapsto> DisableWrite_d d), p) else Inr (ds, p)))"

definition DisableAll :: "'p poller_op \<Rightarrow> 'p poller_op" where
  "DisableAll update a = (\<lambda>(ds, p). on_dispatch a ds (\<lambda>d.
     if IsReading d \<or> add_write d then update a (ds(a \<mapsto> DisableAll_d d), p)
     else Inr (ds(a \<mapsto> d\<lparr>modify := kNoModify\<rparr>), p)))"

definition RemoveEvents :: "'p poller_op \<Rightarrow> 'p poller_op" where
  "RemoveEvents remove a = (\<lambda>(ds, p). on_dispatch a ds (\<lambda>d.
     guard AssertionFailed (IsNoneEvent d) (remove a (ds, p))))"

section \<open>Handling events\<close>

text \<open>
  The callbacks run user and connection code: \<open>cb\<close> changes the world and the dispatch store. The
  object is read through its pointer before each test, as the code does.
\<close>

definition when_cb ::
  "(event_cb \<Rightarrow> addr \<Rightarrow> 'w \<times> dstore \<Rightarrow> 'w \<times> dstore) \<Rightarrow> event_cb \<Rightarrow> addr \<Rightarrow> (u32 \<Rightarrow> bool) \<Rightarrow> 'w \<times> dstore \<Rightarrow> ('w \<times> dstore) res" where
  "when_cb cb k a test = (\<lambda>(w, ds). on_dispatch a ds (\<lambda>d.
     if test (revents d) \<and> k \<in> callbacks d then Inr (cb k a (w, ds)) else Inr (w, ds)))"

definition HandleEventWithGuard ::
  "(event_cb \<Rightarrow> addr \<Rightarrow> 'w \<times> dstore \<Rightarrow> 'w \<times> dstore) \<Rightarrow> addr \<Rightarrow> 'w \<times> dstore \<Rightarrow> ('w \<times> dstore) res" where
  "HandleEventWithGuard cb a = (\<lambda>(w, ds). on_dispatch a ds (\<lambda>d.
     rbind (when_cb cb CloseCb a (\<lambda>r. r AND POLLHUP \<noteq> 0 \<and> r AND POLLIN = 0) (w, ds(a \<mapsto> d\<lparr>event_handling := True\<rparr>))) (\<lambda>s.
     rbind (when_cb cb ErrorCb a (\<lambda>r. r AND (POLLERR OR POLLNVAL) \<noteq> 0) s) (\<lambda>s.
     rbind (when_cb cb ReadCb a (\<lambda>r. r AND (POLLIN OR POLLPRI OR POLLRDHUP) \<noteq> 0) s) (\<lambda>s.
     rbind (when_cb cb WriteCb a (\<lambda>r. r AND POLLOUT \<noteq> 0) s) (\<lambda>(w, ds).
       on_dispatch a ds (\<lambda>d. Inr (w, ds(a \<mapsto> d\<lparr>revents := 0, event_handling := False\<rparr>)))))))))"

text \<open>A tied dispatch handles its event only while the object it is tied to is alive: \<open>alive\<close> is
  the result of \<^verbatim>\<open>tie_.lock()\<close>.\<close>

definition HandleEvent ::
  "(event_cb \<Rightarrow> addr \<Rightarrow> 'w \<times> dstore \<Rightarrow> 'w \<times> dstore) \<Rightarrow> bool \<Rightarrow> addr \<Rightarrow> 'w \<times> dstore \<Rightarrow> ('w \<times> dstore) res" where
  "HandleEvent cb alive a = (\<lambda>(w, ds). on_dispatch a ds (\<lambda>d.
     if tied d \<longrightarrow> alive then HandleEventWithGuard cb a (w, ds) else Inr (w, ds)))"

definition Tie :: "dispatch \<Rightarrow> dispatch" where
  "Tie d = d\<lparr>tied := True\<rparr>"

definition Dispatch_delete :: "addr \<Rightarrow> dstore \<Rightarrow> dstore res" where
  "Dispatch_delete a ds = on_dispatch a ds (\<lambda>d. guard AssertionFailed (\<not> event_handling d) (Inr (ds(a := None))))"

section \<open>Masks of a dispatch\<close>

text \<open>The mask of a dispatch is a union of the read and the write mask, and a dispatch that
  watches for writing has its write filter added.\<close>

definition mask_of :: "bool \<Rightarrow> bool \<Rightarrow> u32" where
  "mask_of r w = (if r then kReadEvent else 0) OR (if w then kWriteEvent else 0)"

definition dispatch_ok :: "dispatch \<Rightarrow> bool" where
  "dispatch_ok d \<longleftrightarrow> 0 \<le> fd d \<and> events d = mask_of (IsReading d) (IsWriting d) \<and> (IsWriting d \<longrightarrow> add_write d)"

lemma mask_of_simps:
  "mask_of r w OR kReadEvent = mask_of True w" "mask_of r w OR kWriteEvent = mask_of r True"
  "mask_of r w AND NOT kReadEvent = mask_of False w" "mask_of r w AND NOT kWriteEvent = mask_of r False"
  "mask_of r w AND kReadEvent \<noteq> 0 \<longleftrightarrow> r" "mask_of r w AND kWriteEvent \<noteq> 0 \<longleftrightarrow> w"
  "mask_of False False = 0" "mask_of r w = 0 \<longleftrightarrow> \<not> r \<and> \<not> w"
  by (cases r; cases w; simp add: mask_of_def event_masks)+

lemma IsNoneEvent_mask: "dispatch_ok d \<Longrightarrow> IsNoneEvent d \<longleftrightarrow> \<not> IsReading d \<and> \<not> IsWriting d"
  by (metis IsNoneEvent_def dispatch_ok_def kNoneEvent_def mask_of_simps(8))

lemma IsReading_events: "events d = mask_of r w \<Longrightarrow> IsReading d = r"
  by (simp add: IsReading_def mask_of_simps)

lemma IsWriting_events: "events d = mask_of r w \<Longrightarrow> IsWriting d = w"
  by (simp add: IsWriting_def mask_of_simps)

lemma dispatch_upd_simps [simp]:
  "IsReading (d\<lparr>revents := e\<rparr>) = IsReading d" "IsReading (d\<lparr>index := i\<rparr>) = IsReading d"
  "IsWriting (d\<lparr>revents := e\<rparr>) = IsWriting d" "IsWriting (d\<lparr>index := i\<rparr>) = IsWriting d"
  "IsNoneEvent (d\<lparr>revents := e\<rparr>) = IsNoneEvent d" "IsNoneEvent (d\<lparr>index := i\<rparr>) = IsNoneEvent d"
  "dispatch_ok (d\<lparr>revents := e\<rparr>) = dispatch_ok d" "dispatch_ok (d\<lparr>index := i\<rparr>) = dispatch_ok d"
  by (simp_all add: IsReading_def IsWriting_def IsNoneEvent_def dispatch_ok_def)

lemma dispatch_ok_fd: "dispatch_ok d \<Longrightarrow> 0 \<le> fd d"
  by (simp add: dispatch_ok_def)

lemma dispatch_ok_I:
  "0 \<le> fd d \<Longrightarrow> events d = mask_of r w \<Longrightarrow> (w \<longrightarrow> add_write d) \<Longrightarrow> dispatch_ok d"
  by (simp add: dispatch_ok_def IsReading_events IsWriting_events)

text \<open>How an update changes what is watched, as its \<^verbatim>\<open>modify_\<close> announces it.\<close>

fun modify_effect :: "ModifyEvent \<Rightarrow> bool \<times> bool \<Rightarrow> bool \<times> bool" where
  "modify_effect kNoModify (r, w) = (r, w)"
| "modify_effect kAddRead (r, w) = (True, w)"
| "modify_effect kAddWrite (r, w) = (r, True)"
| "modify_effect kDeleteRead (r, w) = (False, w)"
| "modify_effect kDeleteWrite (r, w) = (r, False)"
| "modify_effect kEnableWrite (r, w) = (r, True)"
| "modify_effect kDisableWrite (r, w) = (r, False)"
| "modify_effect kDeleteAll (r, w) = (False, False)"

abbreviation watch_of :: "dispatch \<Rightarrow> bool \<times> bool" where
  "watch_of d \<equiv> (IsReading d, IsWriting d)"

text \<open>The step from one object state to the next that an update sees: the announced change leads
  from the old interest to the new one, and it speaks of the write filter in the state it is in.\<close>

definition dispatch_change :: "dispatch \<Rightarrow> dispatch \<Rightarrow> bool" where
  "dispatch_change d d' \<longleftrightarrow>
     dispatch_ok d' \<and> fd d' = fd d \<and> index d' = index d \<and> watch_of d' = modify_effect (modify d') (watch_of d) \<and>
     (case modify d' of
        kNoModify \<Rightarrow> False
      | kAddRead \<Rightarrow> add_write d' = add_write d
      | kAddWrite \<Rightarrow> \<not> add_write d \<and> add_write d'
      | kDeleteRead \<Rightarrow> add_write d' = add_write d
      | kDeleteWrite \<Rightarrow> add_write d \<and> \<not> add_write d'
      | kEnableWrite \<Rightarrow> add_write d \<and> add_write d'
      | kDisableWrite \<Rightarrow> add_write d \<and> add_write d'
      | kDeleteAll \<Rightarrow> IsReading d \<and> add_write d \<and> \<not> add_write d')"

lemma dispatch_changes:
  assumes "dispatch_ok d"
  shows "dispatch_change d (EnableRead_d d)" "watch_of (EnableRead_d d) = (True, IsWriting d)"
    "dispatch_change d (EnableWrite_d d)" "watch_of (EnableWrite_d d) = (IsReading d, True)"
    "dispatch_change d (DisableRead_d d)" "watch_of (DisableRead_d d) = (False, IsWriting d)"
    "add_write d \<Longrightarrow> dispatch_change d (DisableWrite_d d)"
    "watch_of (DisableWrite_d d) = (IsReading d, False)"
    "IsReading d \<or> add_write d \<Longrightarrow> dispatch_change d (DisableAll_d d)"
    "watch_of (DisableAll_d d) = (False, False)"
proof -
  note ok = assms [unfolded dispatch_ok_def]
  note events = ok [THEN conjunct2, THEN conjunct1]
  have e: "events (EnableRead_d d) = mask_of True (IsWriting d)"
    "events (EnableWrite_d d) = mask_of (IsReading d) True"
    "events (DisableRead_d d) = mask_of False (IsWriting d)"
    "events (DisableWrite_d d) = mask_of (IsReading d) False"
    "events (DisableAll_d d) = mask_of False False"
    using events mask_of_simps
    by (simp_all add: EnableRead_d_def EnableWrite_d_def DisableRead_d_def DisableWrite_d_def
        DisableAll_d_def Let_def kNoneEvent_def)
  note w = e [THEN IsReading_events] e [THEN IsWriting_events]
  show "watch_of (EnableRead_d d) = (True, IsWriting d)" "watch_of (EnableWrite_d d) = (IsReading d, True)"
    "watch_of (DisableRead_d d) = (False, IsWriting d)" "watch_of (DisableWrite_d d) = (IsReading d, False)"
    "watch_of (DisableAll_d d) = (False, False)"
    by (simp_all add: w)
  show "dispatch_change d (EnableRead_d d)"
    unfolding dispatch_change_def using ok w dispatch_ok_I [OF _ e(1)] by (auto simp: EnableRead_d_def)
  show "dispatch_change d (EnableWrite_d d)"
    unfolding dispatch_change_def using ok w dispatch_ok_I [OF _ e(2)] by (auto simp: EnableWrite_d_def Let_def)
  show "dispatch_change d (DisableRead_d d)"
    unfolding dispatch_change_def using ok w dispatch_ok_I [OF _ e(3)] by (auto simp: DisableRead_d_def)
  show "dispatch_change d (DisableWrite_d d)" if "add_write d"
    unfolding dispatch_change_def using ok w that dispatch_ok_I [OF _ e(4)] by (auto simp: DisableWrite_d_def)
  show "dispatch_change d (DisableAll_d d)" if "IsReading d \<or> add_write d"
    unfolding dispatch_change_def using ok w that dispatch_ok_I [OF _ e(5)] by (auto simp: DisableAll_d_def Let_def)
qed

lemma dispatch_change_ok: "dispatch_change d d' \<Longrightarrow> dispatch_ok d' \<and> fd d' = fd d \<and> index d' = index d"
  by (simp add: dispatch_change_def)

lemma Dispatch_new_ok: "0 \<le> f \<Longrightarrow> dispatch_ok (Dispatch_new f) \<and> watch_of (Dispatch_new f) = (False, False)"
  by (simp add: dispatch_ok_def Dispatch_new_def IsReading_def IsWriting_def mask_of_def)

section \<open>The interface of the pollers\<close>

text \<open>
  A poller keeps a map from descriptors to dispatches (\<open>registered\<close>) and tells the kernel what to
  watch (\<open>watched\<close>: for reading, for writing). Not every poller takes every dispatch: \<open>refusal\<close> is
  \<open>None\<close> for a dispatch that the poller can register and else the fault that the attempt ends in.
  A dispatch may be updated when it is registered, or when its descriptor is free, the poller does
  not refuse it, and it has something to watch.
\<close>

definition updatable ::
  "('p \<Rightarrow> int \<rightharpoonup> addr) \<Rightarrow> ('p \<Rightarrow> dispatch \<Rightarrow> fault option) \<Rightarrow> 'p \<Rightarrow> addr \<Rightarrow> dispatch \<Rightarrow> dispatch \<Rightarrow> bool" where
  "updatable registered refusal p a d d' \<longleftrightarrow> registered p (fd d) = Some a \<or>
     (registered p (fd d) = None \<and> refusal p d = None \<and> \<not> IsNoneEvent d')"

text \<open>A poller that takes every dispatch.\<close>

definition no_refusal :: "'p \<Rightarrow> dispatch \<Rightarrow> fault option" where
  "no_refusal p d = None"

text \<open>The changes that \<^verbatim>\<open>EnableRead\<close> and \<^verbatim>\<open>EnableWrite\<close> announce.\<close>

definition enabling :: "ModifyEvent set" where
  "enabling = {kAddRead, kAddWrite, kEnableWrite}"

lemma enabling_changes [simp]: "modify (EnableRead_d d) \<in> enabling" "modify (EnableWrite_d d) \<in> enabling"
  by (simp_all add: enabling_def EnableRead_d_def EnableWrite_d_def Let_def)

definition same_but_index :: "dstore \<Rightarrow> dstore \<Rightarrow> bool" where
  "same_but_index ds ds' \<longleftrightarrow>
     (\<forall>a. map_option (\<lambda>d. d\<lparr>index := 0\<rparr>) (ds a) = map_option (\<lambda>d. d\<lparr>index := 0\<rparr>) (ds' a))"

lemma same_but_index_refl [simp]: "same_but_index ds ds"
  by (simp add: same_but_index_def)

lemma same_but_index_upd [simp]: "ds a = Some d \<Longrightarrow> same_but_index (ds(a \<mapsto> d\<lparr>index := i\<rparr>)) ds"
  "same_but_index (ds(a \<mapsto> d\<lparr>index := i\<rparr>)) (ds(a \<mapsto> d))"
  by (simp_all add: same_but_index_def)

locale event_poller =
  fixes update remove :: "'p poller_op"
    and registered :: "'p \<Rightarrow> int \<rightharpoonup> addr"
    and watched :: "'p \<Rightarrow> int \<Rightarrow> bool \<times> bool"
    and refusal :: "'p \<Rightarrow> dispatch \<Rightarrow> fault option"
    and inv :: "dstore \<times> 'p \<Rightarrow> bool"
    and initial :: 'p
  assumes update_law:
    "inv (ds, p) \<Longrightarrow> ds a = Some d \<Longrightarrow> dispatch_change d d' \<Longrightarrow> updatable registered refusal p a d d' \<Longrightarrow>
       \<exists>ds' p'. update a (ds(a \<mapsto> d'), p) = Inr (ds', p') \<and> inv (ds', p') \<and>
         registered p' = (registered p)(fd d \<mapsto> a) \<and> watched p' = (watched p)(fd d := watch_of d') \<and>
         same_but_index ds' (ds(a \<mapsto> d'))"
    and refusal_law:
    "inv (ds, p) \<Longrightarrow> ds a = Some d \<Longrightarrow> dispatch_change d d' \<Longrightarrow> registered p (fd d) = None \<Longrightarrow> modify d' \<in> enabling \<Longrightarrow>
       refusal p d = Some e \<Longrightarrow> update a (ds(a \<mapsto> d'), p) = Inl e"
    and remove_law:
    "inv (ds, p) \<Longrightarrow> ds a = Some d \<Longrightarrow> registered p (fd d) = Some a \<Longrightarrow> IsNoneEvent d \<Longrightarrow> \<not> add_write d \<Longrightarrow>
       \<exists>ds' p'. remove a (ds, p) = Inr (ds', p') \<and> inv (ds', p') \<and>
         registered p' = (registered p)(fd d := None) \<and> watched p' = watched p \<and> same_but_index ds' ds"
    and registered_watch:
    "inv (ds, p) \<Longrightarrow> registered p f = Some a \<Longrightarrow> \<exists>d. ds a = Some d \<and> fd d = f \<and> watched p f = watch_of d"
    and unregistered_watch: "inv (ds, p) \<Longrightarrow> registered p f = None \<Longrightarrow> watched p f = (False, False)"
    and stored_ok: "inv (ds, p) \<Longrightarrow> ds a = Some d \<Longrightarrow> dispatch_ok d"
    and initial_law: "inv (Map.empty, initial)"
    and create_law: "inv (ds, p) \<Longrightarrow> ds a = None \<Longrightarrow> 0 \<le> f \<Longrightarrow> inv (ds(a \<mapsto> Dispatch_new f), p)"
    and delete_law: "inv (ds, p) \<Longrightarrow> ds a = Some d \<Longrightarrow> registered p (fd d) \<noteq> Some a \<Longrightarrow> inv (ds(a := None), p)"

text \<open>
  The life of the dispatches of one loop: objects are created, switch reading and writing on and
  off, leave the poller and are deleted. A dispatch may be enabled whenever no other dispatch holds its
  descriptor, also after it was removed; the operations that switch off are called on a registered
  dispatch. A step ends in a new state or in a fault.
\<close>

inductive dispatch_step ::
  "'p poller_op \<Rightarrow> 'p poller_op \<Rightarrow> ('p \<Rightarrow> int \<rightharpoonup> addr) \<Rightarrow> dstore \<times> 'p \<Rightarrow> (dstore \<times> 'p) res \<Rightarrow> bool"
  for update remove registered where
  create: "ds a = None \<Longrightarrow> 0 \<le> f \<Longrightarrow> dispatch_step update remove registered (ds, p) (Inr (ds(a \<mapsto> Dispatch_new f), p))"
| enable_read: "ds a = Some d \<Longrightarrow>
     registered p (fd d) = Some a \<or> registered p (fd d) = None \<Longrightarrow>
     dispatch_step update remove registered (ds, p) (EnableRead update a (ds, p))"
| enable_write: "ds a = Some d \<Longrightarrow>
     registered p (fd d) = Some a \<or> registered p (fd d) = None \<Longrightarrow>
     dispatch_step update remove registered (ds, p) (EnableWrite update a (ds, p))"
| disable_read: "ds a = Some d \<Longrightarrow> registered p (fd d) = Some a \<Longrightarrow>
     dispatch_step update remove registered (ds, p) (DisableRead update a (ds, p))"
| disable_write: "ds a = Some d \<Longrightarrow> registered p (fd d) = Some a \<Longrightarrow>
     dispatch_step update remove registered (ds, p) (DisableWrite update a (ds, p))"
| disable_all: "ds a = Some d \<Longrightarrow> registered p (fd d) = Some a \<Longrightarrow> IsReading d \<or> add_write d \<Longrightarrow>
     dispatch_step update remove registered (ds, p) (DisableAll update a (ds, p))"
| remove: "ds a = Some d \<Longrightarrow> registered p (fd d) = Some a \<Longrightarrow> IsNoneEvent d \<Longrightarrow> \<not> add_write d \<Longrightarrow>
     dispatch_step update remove registered (ds, p) (RemoveEvents remove a (ds, p))"
| delete: "ds a = Some d \<Longrightarrow> registered p (fd d) \<noteq> Some a \<Longrightarrow>
     dispatch_step update remove registered (ds, p) (Inr (ds(a := None), p))"

inductive dispatch_reach ::
  "'p poller_op \<Rightarrow> 'p poller_op \<Rightarrow> ('p \<Rightarrow> int \<rightharpoonup> addr) \<Rightarrow> 'p \<Rightarrow> dstore \<times> 'p \<Rightarrow> bool"
  for update remove registered p0 where
  start: "dispatch_reach update remove registered p0 (Map.empty, p0)"
| step: "dispatch_reach update remove registered p0 s \<Longrightarrow> dispatch_step update remove registered s (Inr s') \<Longrightarrow>
     dispatch_reach update remove registered p0 s'"

context event_poller
begin

lemma EnableRead_watch:
  assumes "inv (ds, p)" and "ds a = Some d"
    and "registered p (fd d) = Some a \<or> registered p (fd d) = None \<and> refusal p d = None"
  shows "\<exists>ds' p'. EnableRead update a (ds, p) = Inr (ds', p') \<and> inv (ds', p') \<and>
    watched p' = (watched p)(fd d := (True, IsWriting d))"
proof -
  note ok = stored_ok [OF assms(1,2)]
  note ch = dispatch_changes(1,2) [OF ok]
  have "updatable registered refusal p a d (EnableRead_d d)"
    using assms(3) ch IsNoneEvent_mask [of "EnableRead_d d"] dispatch_change_ok by (auto simp: updatable_def)
  from update_law [OF assms(1,2) ch(1) this] ch(2) assms(2) show ?thesis
    by (auto simp: EnableRead_def on_dispatch_def)
qed

lemma EnableWrite_watch:
  assumes "inv (ds, p)" and "ds a = Some d"
    and "registered p (fd d) = Some a \<or> registered p (fd d) = None \<and> refusal p d = None"
  shows "\<exists>ds' p'. EnableWrite update a (ds, p) = Inr (ds', p') \<and> inv (ds', p') \<and>
    watched p' = (watched p)(fd d := (IsReading d, True))"
proof -
  note ok = stored_ok [OF assms(1,2)]
  note ch = dispatch_changes(3,4) [OF ok]
  have "updatable registered refusal p a d (EnableWrite_d d)"
    using assms(3) ch IsNoneEvent_mask [of "EnableWrite_d d"] dispatch_change_ok by (auto simp: updatable_def)
  from update_law [OF assms(1,2) ch(1) this] ch(2) assms(2) show ?thesis
    by (auto simp: EnableWrite_def on_dispatch_def)
qed

lemma registered_update:
  assumes "inv (ds, p)" and "ds a = Some d" and "registered p (fd d) = Some a" and "dispatch_change d d'"
  shows "\<exists>ds' p'. update a (ds(a \<mapsto> d'), p) = Inr (ds', p') \<and> inv (ds', p') \<and>
    watched p' = (watched p)(fd d := watch_of d')"
  using update_law [OF assms(1,2,4)] assms(3) by (auto simp: updatable_def)

lemma Disable_watch:
  assumes "inv (ds, p)" and "ds a = Some d" and "registered p (fd d) = Some a"
  shows "\<exists>ds' p'. DisableRead update a (ds, p) = Inr (ds', p') \<and> inv (ds', p') \<and>
      watched p' = (watched p)(fd d := (False, IsWriting d))"
    and "\<exists>ds' p'. DisableWrite update a (ds, p) = Inr (ds', p') \<and> inv (ds', p') \<and>
      watched p' = (watched p)(fd d := (IsReading d, False))"
    and "IsReading d \<or> add_write d \<Longrightarrow> \<exists>ds' p'. DisableAll update a (ds, p) = Inr (ds', p') \<and> inv (ds', p') \<and>
      watched p' = (watched p)(fd d := (False, False))"
proof -
  note ok = stored_ok [OF assms(1,2)]
  note ch = dispatch_changes(5-) [OF ok]
  show "\<exists>ds' p'. DisableRead update a (ds, p) = Inr (ds', p') \<and> inv (ds', p') \<and>
      watched p' = (watched p)(fd d := (False, IsWriting d))"
    using registered_update [OF assms ch(1)] ch(2) assms(2) by (auto simp: DisableRead_def on_dispatch_def)
  show "\<exists>ds' p'. DisableAll update a (ds, p) = Inr (ds', p') \<and> inv (ds', p') \<and>
      watched p' = (watched p)(fd d := (False, False))" if "IsReading d \<or> add_write d"
    using registered_update [OF assms ch(5) [OF that]] ch(6) assms(2) that
    by (auto simp: DisableAll_def on_dispatch_def)
  have now: "watched p (fd d) = watch_of d"
    using registered_watch [OF assms(1,3)] assms(2) by auto
  show "\<exists>ds' p'. DisableWrite update a (ds, p) = Inr (ds', p') \<and> inv (ds', p') \<and>
      watched p' = (watched p)(fd d := (IsReading d, False))"
  proof (cases "add_write d")
    case True
    from registered_update [OF assms ch(3) [OF True]] ch(4) assms(2) True show ?thesis
      by (auto simp: DisableWrite_def on_dispatch_def)
  next
    case False
    then have "\<not> IsWriting d" using ok by (simp add: dispatch_ok_def)
    then have "watched p = (watched p)(fd d := (IsReading d, False))" using now by (auto simp: fun_eq_iff)
    with False assms(1,2) show ?thesis by (simp add: DisableWrite_def on_dispatch_def)
  qed
qed

text \<open>A refused dispatch: unregistered, with its descriptor free, and enabling it ends in the poller's fault.\<close>

lemma refused_faults:
  assumes "inv (ds, p)" and "ds a = Some d" and "registered p (fd d) = None" and "refusal p d = Some e"
  shows "EnableRead update a (ds, p) = Inl e" "EnableWrite update a (ds, p) = Inl e"
  using refusal_law [OF assms(1,2) _ assms(3) _ assms(4)] dispatch_changes(1,3) [OF stored_ok [OF assms(1,2)]] assms(2)
  by (simp_all add: EnableRead_def EnableWrite_def on_dispatch_def)

lemma dispatch_step_safe:
  assumes "inv (ds, p)" and "dispatch_step update remove registered (ds, p) r"
  shows "(\<exists>s'. r = Inr s' \<and> inv s') \<or>
    (\<exists>a d e. ds a = Some d \<and> registered p (fd d) = None \<and> refusal p d = Some e \<and> r = Inl e \<and>
       r \<in> {EnableRead update a (ds, p), EnableWrite update a (ds, p)})"
  using assms(2,1)
proof (cases rule: dispatch_step.cases)
  case (create a f)
  with assms(1) create_law show ?thesis by blast
next
  case (enable_read a d)
  consider "registered p (fd d) = Some a \<or> registered p (fd d) = None \<and> refusal p d = None"
    | e where "registered p (fd d) = None" "refusal p d = Some e"
    using enable_read(3) by (cases "refusal p d") auto
  then show ?thesis
  proof cases
    case 1
    from EnableRead_watch [OF assms(1) enable_read(2) 1] enable_read(1) show ?thesis by blast
  next
    case 2
    from refused_faults(1) [OF assms(1) enable_read(2) 2] enable_read(1,2) 2 show ?thesis by blast
  qed
next
  case (enable_write a d)
  consider "registered p (fd d) = Some a \<or> registered p (fd d) = None \<and> refusal p d = None"
    | e where "registered p (fd d) = None" "refusal p d = Some e"
    using enable_write(3) by (cases "refusal p d") auto
  then show ?thesis
  proof cases
    case 1
    from EnableWrite_watch [OF assms(1) enable_write(2) 1] enable_write(1) show ?thesis by blast
  next
    case 2
    from refused_faults(2) [OF assms(1) enable_write(2) 2] enable_write(1,2) 2 show ?thesis by blast
  qed
next
  case (disable_read a d)
  with assms(1) Disable_watch(1) [of ds p a d] show ?thesis by blast
next
  case (disable_write a d)
  with assms(1) Disable_watch(2) [of ds p a d] show ?thesis by blast
next
  case (disable_all a d)
  with assms(1) Disable_watch(3) [of ds p a d] show ?thesis by blast
next
  case (remove a d)
  with assms(1) remove_law [of ds p a d] show ?thesis by (auto simp: RemoveEvents_def on_dispatch_def)
next
  case (delete a d)
  with assms(1) delete_law show ?thesis by blast
qed

lemma dispatch_reach_inv: "dispatch_reach update remove registered initial s \<Longrightarrow> inv s"
proof (induction rule: dispatch_reach.induct)
  case start
  show ?case by (rule initial_law)
next
  case (step s s')
  from dispatch_step_safe [of "fst s" "snd s" "Inr s'"] step show ?case by auto
qed

text \<open>The kernel watches exactly what the registered dispatches ask for; a step faults exactly when it
  enables a dispatch that the poller refuses.\<close>

lemma watched_is_asked:
  assumes "dispatch_reach update remove registered initial (ds, p)"
  shows "\<forall>f. watched p f = (case registered p f of None \<Rightarrow> (False, False) | Some a \<Rightarrow> watch_of (the (ds a)))"
proof -
  note inv = dispatch_reach_inv [OF assms]
  have "watched p f = (case registered p f of None \<Rightarrow> (False, False) | Some a \<Rightarrow> watch_of (the (ds a)))" for f
    using registered_watch [OF inv, of f] unregistered_watch [OF inv, of f]
    by (cases "registered p f") auto
  then show ?thesis by blast
qed

lemma step_faults_iff_refused:
  assumes "dispatch_reach update remove registered initial (ds, p)"
  shows "\<forall>r. dispatch_step update remove registered (ds, p) r \<longrightarrow> (\<exists>s'. r = Inr s') \<or>
      (\<exists>a d e. ds a = Some d \<and> registered p (fd d) = None \<and> refusal p d = Some e \<and> r = Inl e \<and>
         r \<in> {EnableRead update a (ds, p), EnableWrite update a (ds, p)})"
    and "\<forall>a d e. ds a = Some d \<and> registered p (fd d) = None \<and> refusal p d = Some e \<longrightarrow>
      EnableRead update a (ds, p) = Inl e \<and> EnableWrite update a (ds, p) = Inl e"
  using dispatch_step_safe [OF dispatch_reach_inv [OF assms]] refused_faults [OF dispatch_reach_inv [OF assms]] by blast+

end

section \<open>Properties\<close>

text \<open>The callbacks an event asks for, in the order they run.\<close>

definition event_plan :: "u32 \<Rightarrow> event_cb list" where
  "event_plan r =
     (if r AND POLLHUP \<noteq> 0 \<and> r AND POLLIN = 0 then [CloseCb] else []) @
     (if r AND (POLLERR OR POLLNVAL) \<noteq> 0 then [ErrorCb] else []) @
     (if r AND (POLLIN OR POLLPRI OR POLLRDHUP) \<noteq> 0 then [ReadCb] else []) @
     (if r AND POLLOUT \<noteq> 0 then [WriteCb] else [])"

definition keeps_dispatch :: "(event_cb \<Rightarrow> addr \<Rightarrow> 'w \<times> dstore \<Rightarrow> 'w \<times> dstore) \<Rightarrow> addr \<Rightarrow> bool" where
  "keeps_dispatch cb a \<longleftrightarrow> (\<forall>k w ds d. ds a = Some d \<longrightarrow>
     (\<exists>d'. snd (cb k a (w, ds)) a = Some d' \<and> revents d' = revents d \<and> callbacks d' = callbacks d))"

lemma when_cb_run:
  fixes test :: "u32 \<Rightarrow> bool" and k :: event_cb
  assumes keep: "keeps_dispatch cb a" and a: "snd s a = Some d"
  defines "s' \<equiv> (if test (revents d) \<and> k \<in> callbacks d then cb k a s else s)"
  shows "when_cb cb k a test s = Inr s' \<and> (\<exists>d'. snd s' a = Some d' \<and> revents d' = revents d \<and> callbacks d' = callbacks d)"
  using keep [unfolded keeps_dispatch_def, rule_format, of "snd s" d k "fst s"] a
  by (cases s) (auto simp: when_cb_def on_dispatch_def s'_def)

text \<open>C19: Handling an event runs exactly the callbacks the event mask asks for and that are set, in
  the order close, error, read, write, and then clears the mask; a dispatch tied to an object that
  is gone runs none. The callbacks may do anything but delete the dispatch or change its mask.\<close>
theorem handle_event_runs_plan:
  assumes "keeps_dispatch cb a" and "ds a = Some d"
  shows "if tied d \<longrightarrow> alive then \<exists>w' ds' d'.
      fold (\<lambda>k s. cb k a s) (filter (\<lambda>k. k \<in> callbacks d) (event_plan (revents d)))
        (w, ds(a \<mapsto> d\<lparr>event_handling := True\<rparr>)) = (w', ds') \<and> ds' a = Some d' \<and>
      HandleEvent cb alive a (w, ds) = Inr (w', ds'(a \<mapsto> d'\<lparr>revents := 0, event_handling := False\<rparr>))
    else HandleEvent cb alive a (w, ds) = Inr (w, ds)"
proof (cases "tied d \<longrightarrow> alive")
  case alive: True
  let ?s0 = "(w, ds(a \<mapsto> d\<lparr>event_handling := True\<rparr>))"
  let ?go = "\<lambda>test k s. if test (revents d) \<and> k \<in> callbacks d then cb k a s else s"
  let ?t1 = "\<lambda>r. r AND POLLHUP \<noteq> 0 \<and> r AND POLLIN = 0" and ?t2 = "\<lambda>r. r AND (POLLERR OR POLLNVAL) \<noteq> 0"
    and ?t3 = "\<lambda>r. r AND (POLLIN OR POLLPRI OR POLLRDHUP) \<noteq> 0" and ?t4 = "\<lambda>r. r AND POLLOUT \<noteq> 0"
  note run = when_cb_run [OF assms(1)]
  define s1 where "s1 = ?go ?t1 CloseCb ?s0"
  define s2 where "s2 = ?go ?t2 ErrorCb s1"
  define s3 where "s3 = ?go ?t3 ReadCb s2"
  define s4 where "s4 = ?go ?t4 WriteCb s3"
  obtain d1 where 1: "when_cb cb CloseCb a ?t1 ?s0 = Inr s1" "snd s1 a = Some d1" "revents d1 = revents d" "callbacks d1 = callbacks d"
    using run [where s = ?s0 and test = ?t1 and k = CloseCb, of "d\<lparr>event_handling := True\<rparr>"] by (auto simp: s1_def)
  obtain d2 where 2: "when_cb cb ErrorCb a ?t2 s1 = Inr s2" "snd s2 a = Some d2" "revents d2 = revents d" "callbacks d2 = callbacks d"
    using run [OF 1(2), where test = ?t2 and k = ErrorCb] 1(3,4) by (auto simp: s2_def)
  obtain d3 where 3: "when_cb cb ReadCb a ?t3 s2 = Inr s3" "snd s3 a = Some d3" "revents d3 = revents d" "callbacks d3 = callbacks d"
    using run [OF 2(2), where test = ?t3 and k = ReadCb] 2(3,4) by (auto simp: s3_def)
  obtain d4 where 4: "when_cb cb WriteCb a ?t4 s3 = Inr s4" "snd s4 a = Some d4"
    using run [OF 3(2), where test = ?t4 and k = WriteCb] 3(3,4) by (auto simp: s4_def)
  have fold: "fold (\<lambda>k s. cb k a s) (filter (\<lambda>k. k \<in> callbacks d) (event_plan (revents d))) ?s0 = s4"
    unfolding event_plan_def s4_def s3_def s2_def s1_def by simp
  obtain w' ds' where s4: "s4 = (w', ds')" by fastforce
  have "HandleEvent cb alive a (w, ds) = Inr (w', ds'(a \<mapsto> d4\<lparr>revents := 0, event_handling := False\<rparr>))"
    using assms(2) alive 1(1) 2(1) 3(1) 4 s4
    by (simp add: HandleEvent_def HandleEventWithGuard_def on_dispatch_def)
  with fold s4 4(2) alive show ?thesis by auto
next
  case False
  with assms(2) show ?thesis by (simp add: HandleEvent_def on_dispatch_def)
qed

theorem handle_event_runs_plan_witness:
  "\<exists>ds'. HandleEvent (\<lambda>k a (w, ds). (w @ [k], ds)) True 7
     ([], Map.empty(7 \<mapsto> (Dispatch_new 5)\<lparr>revents := 5, callbacks := {ReadCb, WriteCb}\<rparr>)) = Inr ([ReadCb, WriteCb], ds')"
proof -
  let ?d = "(Dispatch_new 5)\<lparr>revents := 5, callbacks := {ReadCb, WriteCb}\<rparr>"
  have k: "keeps_dispatch (\<lambda>k a (w, ds). (w @ [k], ds)) 7" by (simp add: keeps_dispatch_def)
  have p: "event_plan (revents ?d) = [ReadCb, WriteCb]" by (simp add: event_plan_def event_masks)
  show ?thesis
    using handle_event_runs_plan [OF k, of "Map.empty(7 \<mapsto> ?d)" ?d True "[]"] unfolding p by fastforce
qed

end
