(* ===== verification/Event_Epoll.thy ===== *)
theory Event_Epoll
  imports Dispatch
begin

unbundle bit_operations_syntax

text \<open>
  The epoll poller, \<^verbatim>\<open>voyager/core/event_epoll.h\<close> and \<^verbatim>\<open>event_epoll.cc\<close>. The kernel's interest list is
  part of the state and \<^verbatim>\<open>epoll_ctl\<close> acts on it as its manual page says: adding a descriptor that
  is in the list, or changing or deleting one that is not, is an error, which the code only logs
  (\<open>logged\<close> counts these). The invariant shows that none is ever logged.
\<close>

section \<open>State and operations\<close>

definition kNew :: int where "kNew = -1"
definition kAdded :: int where "kAdded = 1"
definition kDeleted :: int where "kDeleted = 2"

definition kInitEpollFdSize :: nat where "kInitEpollFdSize = 16"

lemmas epoll_consts = kNew_def kAdded_def kDeleted_def

record epoll =
  dispatch_map :: "int \<rightharpoonup> addr"
  epollfds_size :: nat
  kernel :: "int \<rightharpoonup> u32 \<times> addr"
  logged :: nat

datatype epoll_op = EPOLL_CTL_ADD | EPOLL_CTL_MOD | EPOLL_CTL_DEL

definition EventEpoll_new :: epoll where
  "EventEpoll_new = \<lparr>dispatch_map = Map.empty, epollfds_size = kInitEpollFdSize, kernel = Map.empty, logged = 0\<rparr>"

fun epoll_ctl :: "epoll_op \<Rightarrow> int \<Rightarrow> u32 \<times> addr \<Rightarrow> (int \<rightharpoonup> u32 \<times> addr) \<Rightarrow> (int \<rightharpoonup> u32 \<times> addr) option" where
  "epoll_ctl EPOLL_CTL_ADD f ev k = (if k f = None then Some (k(f \<mapsto> ev)) else None)"
| "epoll_ctl EPOLL_CTL_MOD f ev k = (if k f = None then None else Some (k(f \<mapsto> ev)))"
| "epoll_ctl EPOLL_CTL_DEL f ev k = (if k f = None then None else Some (k(f := None)))"

definition EpollCTL :: "epoll_op \<Rightarrow> addr \<Rightarrow> dispatch \<Rightarrow> epoll \<Rightarrow> epoll" where
  "EpollCTL op a d p =
     (case epoll_ctl op (fd d) (events d, a) (kernel p) of
        None \<Rightarrow> p\<lparr>logged := logged p + 1\<rparr>
      | Some k \<Rightarrow> p\<lparr>kernel := k\<rparr>)"

definition epoll_RemoveDispatch :: "bool \<Rightarrow> epoll poller_op" where
  "epoll_RemoveDispatch in_loop a = (\<lambda>(ds, p). guard Fatal in_loop (on_dispatch a ds (\<lambda>d.
     guard AssertionFailed (dispatch_map p (fd d) = Some a) (
     guard AssertionFailed (IsNoneEvent d) (
     guard AssertionFailed (index d = kAdded \<or> index d = kDeleted) (
       let p = p\<lparr>dispatch_map := (dispatch_map p)(fd d := None)\<rparr>;
           p = (if index d = kAdded then EpollCTL EPOLL_CTL_DEL a d p else p)
       in Inr (ds(a \<mapsto> d\<lparr>index := kNew\<rparr>), p)))))))"

definition epoll_UpdateDispatch :: "bool \<Rightarrow> epoll poller_op" where
  "epoll_UpdateDispatch in_loop a = (\<lambda>(ds, p). guard Fatal in_loop (on_dispatch a ds (\<lambda>d.
     if index d = kNew \<or> index d = kDeleted then
       rbind (if index d = kNew
              then guard AssertionFailed (dispatch_map p (fd d) = None)
                     (Inr (p\<lparr>dispatch_map := (dispatch_map p)(fd d \<mapsto> a)\<rparr>))
              else guard AssertionFailed (dispatch_map p (fd d) = Some a) (Inr p)) (\<lambda>p.
         let d = d\<lparr>index := kAdded\<rparr> in Inr (ds(a \<mapsto> d), EpollCTL EPOLL_CTL_ADD a d p))
     else
       guard AssertionFailed (dispatch_map p (fd d) = Some a) (
       guard AssertionFailed (index d = kAdded) (
         if IsNoneEvent d then Inr (ds(a \<mapsto> d\<lparr>index := kDeleted\<rparr>), EpollCTL EPOLL_CTL_DEL a d p)
         else Inr (ds, EpollCTL EPOLL_CTL_MOD a d p))))))"

text \<open>\<^verbatim>\<open>Poll\<close>: the parameter \<open>ready\<close> is the answer of \<^verbatim>\<open>epoll_wait\<close>, \<open>None\<close> for an error, else the
  events it stored, each with the pointer that was registered. The result lists the dispatches in
  the order they are pushed.\<close>

fun collect_ready :: "(u32 \<times> addr) list \<Rightarrow> dstore \<Rightarrow> addr list \<Rightarrow> (dstore \<times> addr list) res" where
  "collect_ready [] ds acc = Inr (ds, acc)"
| "collect_ready ((e, a) # rest) ds acc =
     on_dispatch a ds (\<lambda>d. collect_ready rest (ds(a \<mapsto> d\<lparr>revents := e\<rparr>)) (acc @ [a]))"

definition epoll_Poll ::
  "(u32 \<times> addr) list option \<Rightarrow> addr list \<Rightarrow> dstore \<times> epoll \<Rightarrow> (addr list \<times> dstore \<times> epoll) res" where
  "epoll_Poll ready dispatches = (\<lambda>(ds, p).
     case ready of
       None \<Rightarrow> Inr (dispatches, ds, p)
     | Some evs \<Rightarrow> rbind (collect_ready evs ds dispatches) (\<lambda>(ds, dispatches).
         Inr (dispatches, ds,
              if length evs = epollfds_size p then p\<lparr>epollfds_size := epollfds_size p * 2\<rparr> else p)))"

section \<open>Invariant\<close>

definition epoll_watched :: "epoll \<Rightarrow> int \<Rightarrow> bool \<times> bool" where
  "epoll_watched p f = (case kernel p f of None \<Rightarrow> (False, False)
     | Some (e, a) \<Rightarrow> (e AND kReadEvent \<noteq> 0, e AND kWriteEvent \<noteq> 0))"

definition epoll_entry_ok :: "epoll \<Rightarrow> addr \<Rightarrow> dispatch \<Rightarrow> bool" where
  "epoll_entry_ok p a d \<longleftrightarrow> dispatch_ok d \<and>
     (if dispatch_map p (fd d) = Some a
      then (index d = kAdded \<and> kernel p (fd d) = Some (events d, a)) \<or>
           (index d = kDeleted \<and> IsNoneEvent d \<and> kernel p (fd d) = None)
      else index d = kNew)"

definition epoll_ok :: "dstore \<times> epoll \<Rightarrow> bool" where
  "epoll_ok s \<longleftrightarrow> (case s of (ds, p) \<Rightarrow>
     (\<forall>a d. ds a = Some d \<longrightarrow> epoll_entry_ok p a d) \<and>
     (\<forall>f a. dispatch_map p f = Some a \<longrightarrow> (\<exists>d. ds a = Some d \<and> fd d = f)) \<and>
     (\<forall>f. dispatch_map p f = None \<longrightarrow> kernel p f = None) \<and> logged p = 0 \<and> 0 < epollfds_size p)"

lemma epoll_okD:
  assumes "epoll_ok (ds, p)"
  shows "\<And>a d. ds a = Some d \<Longrightarrow> epoll_entry_ok p a d"
    and "\<And>f a. dispatch_map p f = Some a \<Longrightarrow> \<exists>d. ds a = Some d \<and> fd d = f"
    and "\<And>f. dispatch_map p f = None \<Longrightarrow> kernel p f = None" and "logged p = 0" and "0 < epollfds_size p"
  using assms by (auto simp: epoll_ok_def)

text \<open>After an operation on the dispatch \<open>a\<close>, which changes the tables at its descriptor only, the
  other dispatches keep their entries.\<close>

lemma epoll_ok_upd:
  assumes ok: "epoll_ok (ds, p)" and a: "ds a = Some d" and reg: "dispatch_map p (fd d) \<in> {None, Some a}"
    and d': "fd d' = fd d" "epoll_entry_ok p' a d'"
    and map: "\<And>f. f \<noteq> fd d \<Longrightarrow> dispatch_map p' f = dispatch_map p f" "\<And>f. f \<noteq> fd d \<Longrightarrow> kernel p' f = kernel p f"
    and here: "dispatch_map p' (fd d) \<in> {None, Some a}" "dispatch_map p' (fd d) = None \<Longrightarrow> kernel p' (fd d) = None"
    and log: "logged p' = 0" "0 < epollfds_size p'"
  shows "epoll_ok (ds(a \<mapsto> d'), p')"
proof -
  note D = epoll_okD [OF ok]
  have other: "epoll_entry_ok p' b e" if "ds b = Some e" "b \<noteq> a" for b e
  proof (cases "fd e = fd d")
    case True
    with D(1) [OF that(1)] reg here(1) that(2) show ?thesis by (auto simp: epoll_entry_ok_def)
  next
    case False
    with D(1) [OF that(1)] map show ?thesis by (simp add: epoll_entry_ok_def)
  qed
  have "\<exists>e. (ds(a \<mapsto> d')) b = Some e \<and> fd e = f" if "dispatch_map p' f = Some b" for f b
    using that D(2) [of f b] map(1) [of f] here(1) d'(1) a by (cases "f = fd d") auto
  moreover have "kernel p' f = None" if "dispatch_map p' f = None" for f
    using that D(3) [of f] map [of f] here(2) by (cases "f = fd d") auto
  ultimately show ?thesis using other d'(2) log by (auto simp: epoll_ok_def)
qed

lemma epoll_watched_upd:
  assumes "\<And>f. f \<noteq> fd d \<Longrightarrow> kernel p' f = kernel p f" and "epoll_watched p' (fd d) = w"
  shows "epoll_watched p' = (epoll_watched p)(fd d := w)"
  using assms by (auto simp: fun_eq_iff epoll_watched_def)

lemma none_watch: "dispatch_ok d \<Longrightarrow> IsNoneEvent d \<Longrightarrow> watch_of d = (False, False)"
  by (simp add: IsNoneEvent_mask)

lemma epoll_update_law:
  assumes ok: "epoll_ok (ds, p)" and a: "ds a = Some d" and ch: "dispatch_change d d'"
    and upd: "updatable dispatch_map no_refusal p a d d'"
  shows "\<exists>ds' p'. epoll_UpdateDispatch True a (ds(a \<mapsto> d'), p) = Inr (ds', p') \<and> epoll_ok (ds', p') \<and>
    dispatch_map p' = (dispatch_map p)(fd d \<mapsto> a) \<and> epoll_watched p' = (epoll_watched p)(fd d := watch_of d') \<and>
    same_but_index ds' (ds(a \<mapsto> d'))"
proof -
  note D = epoll_okD [OF ok]
  note c = dispatch_change_ok [OF ch]
  have reg: "dispatch_map p (fd d) \<in> {None, Some a}" using upd by (auto simp: updatable_def)
  have entry: "epoll_entry_ok p a d" using D(1) a .
  have w: "watch_of d' = (events d' AND kReadEvent \<noteq> 0, events d' AND kWriteEvent \<noteq> 0)"
    by (simp add: IsReading_def IsWriting_def)
  have cases: "(if dispatch_map p (fd d) = Some a
      then (index d = kAdded \<and> kernel p (fd d) \<noteq> None) \<or> (index d = kDeleted \<and> kernel p (fd d) = None)
      else index d = kNew \<and> dispatch_map p (fd d) = None \<and> kernel p (fd d) = None)"
    using entry reg D(3) [of "fd d"] by (auto simp: epoll_entry_ok_def split: if_splits)
  consider (add) "index d = kNew \<or> index d = kDeleted" "kernel p (fd d) = None"
      "index d = kNew \<longrightarrow> dispatch_map p (fd d) = None" "index d = kDeleted \<longrightarrow> dispatch_map p (fd d) = Some a"
    | (chg) "index d = kAdded" "dispatch_map p (fd d) = Some a" "kernel p (fd d) \<noteq> None"
    using cases by (cases "dispatch_map p (fd d) = Some a") (auto simp: epoll_consts)
  then show ?thesis
  proof cases
    case add
    let ?d = "d'\<lparr>index := kAdded\<rparr>"
    let ?p = "p\<lparr>dispatch_map := (dispatch_map p)(fd d \<mapsto> a), kernel := (kernel p)(fd d \<mapsto> (events d', a))\<rparr>"
    have "p\<lparr>dispatch_map := (dispatch_map p)(fd d \<mapsto> a)\<rparr> = p" if "dispatch_map p (fd d) = Some a"
      using that by (cases p) (auto simp: fun_upd_idem)
    then have run: "epoll_UpdateDispatch True a (ds(a \<mapsto> d'), p) = Inr (ds(a \<mapsto> ?d), ?p)"
      using add c by (auto simp: epoll_UpdateDispatch_def on_dispatch_def EpollCTL_def Let_def epoll_consts
          fun_upd_idem)
    have "epoll_ok (ds(a \<mapsto> ?d), ?p)"
      using c D(4,5) by (intro epoll_ok_upd [OF ok a reg]) (auto simp: epoll_entry_ok_def)
    moreover have "epoll_watched ?p = (epoll_watched p)(fd d := watch_of d')"
      by (rule epoll_watched_upd) (simp_all add: epoll_watched_def w)
    ultimately show ?thesis using run by (intro exI [of _ "ds(a \<mapsto> ?d)"] exI [of _ ?p]) simp
  next
    case chg
    show ?thesis
    proof (cases "IsNoneEvent d'")
      case True
      let ?d = "d'\<lparr>index := kDeleted\<rparr>"
      let ?p = "p\<lparr>kernel := (kernel p)(fd d := None)\<rparr>"
      have run: "epoll_UpdateDispatch True a (ds(a \<mapsto> d'), p) = Inr (ds(a \<mapsto> ?d), ?p)"
        using chg c True by (auto simp: epoll_UpdateDispatch_def on_dispatch_def EpollCTL_def epoll_consts)
      have "epoll_ok (ds(a \<mapsto> ?d), ?p)"
        using c D(4,5) chg True by (intro epoll_ok_upd [OF ok a reg])
          (auto simp: epoll_entry_ok_def)
      moreover have "epoll_watched ?p = (epoll_watched p)(fd d := watch_of d')"
        using none_watch [of d'] c True by (intro epoll_watched_upd) (simp_all add: epoll_watched_def)
      moreover have "dispatch_map ?p = (dispatch_map p)(fd d \<mapsto> a)" using chg(2) by (simp add: fun_upd_idem)
      ultimately show ?thesis using run by (intro exI [of _ "ds(a \<mapsto> ?d)"] exI [of _ ?p]) simp
    next
      case False
      let ?p = "p\<lparr>kernel := (kernel p)(fd d \<mapsto> (events d', a))\<rparr>"
      have run: "epoll_UpdateDispatch True a (ds(a \<mapsto> d'), p) = Inr (ds(a \<mapsto> d'), ?p)"
        using chg c False by (auto simp: epoll_UpdateDispatch_def on_dispatch_def EpollCTL_def epoll_consts)
      have "epoll_ok (ds(a \<mapsto> d'), ?p)"
        using c D(4,5) chg by (intro epoll_ok_upd [OF ok a reg]) (auto simp: epoll_entry_ok_def)
      moreover have "epoll_watched ?p = (epoll_watched p)(fd d := watch_of d')"
        by (rule epoll_watched_upd) (simp_all add: epoll_watched_def w)
      moreover have "dispatch_map ?p = (dispatch_map p)(fd d \<mapsto> a)" using chg(2) by (simp add: fun_upd_idem)
      ultimately show ?thesis using run by (intro exI [of _ "ds(a \<mapsto> d')"] exI [of _ ?p]) simp
    qed
  qed
qed

lemma epoll_remove_law:
  assumes ok: "epoll_ok (ds, p)" and a: "ds a = Some d" and reg: "dispatch_map p (fd d) = Some a"
    and none: "IsNoneEvent d"
  shows "\<exists>ds' p'. epoll_RemoveDispatch True a (ds, p) = Inr (ds', p') \<and> epoll_ok (ds', p') \<and>
    dispatch_map p' = (dispatch_map p)(fd d := None) \<and> epoll_watched p' = epoll_watched p \<and> same_but_index ds' ds"
proof -
  note D = epoll_okD [OF ok]
  have entry: "epoll_entry_ok p a d" using D(1) a .
  let ?d = "d\<lparr>index := kNew\<rparr>"
  let ?p = "p\<lparr>dispatch_map := (dispatch_map p)(fd d := None), kernel := (kernel p)(fd d := None)\<rparr>"
  have "p\<lparr>kernel := (kernel p)(fd d := None)\<rparr> = p" if "kernel p (fd d) = None"
    using that by (cases p) (auto simp: fun_upd_idem)
  then have run: "epoll_RemoveDispatch True a (ds, p) = Inr (ds(a \<mapsto> ?d), ?p)"
    using entry a reg none
    by (auto simp: epoll_RemoveDispatch_def on_dispatch_def EpollCTL_def epoll_entry_ok_def Let_def epoll_consts
        fun_upd_idem)
  have "epoll_ok (ds(a \<mapsto> ?d), ?p)"
    using entry D(4,5) reg by (intro epoll_ok_upd [OF ok a])
      (auto simp: epoll_entry_ok_def)
  moreover have "epoll_watched p (fd d) = (False, False)"
    using entry reg none none_watch [of d]
    by (auto simp: epoll_watched_def epoll_entry_ok_def IsNoneEvent_def kNoneEvent_def)
  then have "epoll_watched ?p = epoll_watched p"
    by (auto simp: fun_eq_iff epoll_watched_def)
  ultimately show ?thesis using run a by fastforce
qed

interpretation epoll_poller: event_poller "epoll_UpdateDispatch True" "epoll_RemoveDispatch True"
  dispatch_map epoll_watched no_refusal epoll_ok EventEpoll_new
proof
  show "\<exists>d. ds a = Some d \<and> fd d = f \<and> epoll_watched p f = watch_of d"
    if ok: "epoll_ok (ds, p)" and reg: "dispatch_map p f = Some a" for ds p f a
  proof -
    obtain d where d: "ds a = Some d" "fd d = f" using epoll_okD(2) [OF ok reg] by blast
    with epoll_okD(1) [OF ok d(1)] reg none_watch [of d] have "epoll_watched p f = watch_of d"
      by (auto simp: epoll_entry_ok_def epoll_watched_def IsReading_def IsWriting_def)
    with d show ?thesis by blast
  qed
  show "epoll_watched p f = (False, False)" if "epoll_ok (ds, p)" "dispatch_map p f = None" for ds p f
    using epoll_okD(3) [OF that] by (simp add: epoll_watched_def)
  show "dispatch_ok d" if "epoll_ok (ds, p)" "ds a = Some d" for ds p a d
    using epoll_okD(1) [OF that] by (simp add: epoll_entry_ok_def)
  show "epoll_ok (Map.empty, EventEpoll_new)"
    by (simp add: epoll_ok_def EventEpoll_new_def kInitEpollFdSize_def)
  show "epoll_ok (ds(a \<mapsto> Dispatch_new f), p)" if ok: "epoll_ok (ds, p)" "ds a = None" "0 \<le> f" for ds p a f
  proof -
    have "dispatch_map p f \<noteq> Some a" using epoll_okD(2) [OF ok(1), of f a] ok(2) by auto
    then have "epoll_entry_ok p a (Dispatch_new f)"
      using Dispatch_new_ok [OF ok(3)] by (simp add: epoll_entry_ok_def Dispatch_new_def kNew_def)
    with ok show ?thesis by (force simp: epoll_ok_def)
  qed
  show "epoll_ok (ds(a := None), p)"
    if "epoll_ok (ds, p)" "ds a = Some d" "dispatch_map p (fd d) \<noteq> Some a" for ds p a d
    using that unfolding epoll_ok_def by (auto simp: split_def) (metis option.inject)
qed (use epoll_update_law epoll_remove_law in \<open>auto simp: no_refusal_def\<close>)

section \<open>Waiting for events\<close>

lemma collect_ready_ok:
  "epoll_ok (ds, p) \<Longrightarrow> \<forall>(e, a) \<in> set evs. a \<in> dom ds \<Longrightarrow>
     \<exists>ds'. collect_ready evs ds acc = Inr (ds', acc @ map snd evs) \<and> epoll_ok (ds', p)"
proof (induction evs arbitrary: ds acc)
  case (Cons x evs)
  obtain e a where x: "x = (e, a)" by (cases x)
  with Cons.prems(2) obtain d where d: "ds a = Some d" by auto
  let ?ds = "ds(a \<mapsto> d\<lparr>revents := e\<rparr>)"
  have "epoll_entry_ok p a (d\<lparr>revents := e\<rparr>)"
    using epoll_okD(1) [OF Cons.prems(1) d]
    by (simp add: epoll_entry_ok_def)
  then have ok: "epoll_ok (?ds, p)"
    using Cons.prems(1) d unfolding epoll_ok_def by (auto split: if_splits) (metis option.inject)
  have "\<forall>(e, b) \<in> set evs. b \<in> dom ?ds" using Cons.prems(2) by auto
  from Cons.IH [OF ok this, of "acc @ [a]"] x d show ?case by (simp add: on_dispatch_def fun_upd_def)
qed simp

section \<open>Properties\<close>

lemma epoll_example:
  "\<exists>ds p. dispatch_reach (epoll_UpdateDispatch True) (epoll_RemoveDispatch True) dispatch_map EventEpoll_new (ds, p) \<and>
     dispatch_map p 5 = Some 7 \<and> watch_of (the (ds 7)) = (True, False) \<and> kernel p 5 = Some (3, 7)"
proof -
  let ?u = "epoll_UpdateDispatch True" and ?r = "epoll_RemoveDispatch True"
  let ?ds = "Map.empty(7 \<mapsto> Dispatch_new 5)"
  have r0: "dispatch_reach ?u ?r dispatch_map EventEpoll_new (?ds, EventEpoll_new)"
    by (rule dispatch_reach.step [OF dispatch_reach.start dispatch_step.create]) simp_all
  have s: "dispatch_step ?u ?r dispatch_map (?ds, EventEpoll_new) (EnableRead ?u 7 (?ds, EventEpoll_new))"
    by (rule dispatch_step.enable_read [of _ _ "Dispatch_new 5"]) (simp_all add: Dispatch_new_def EventEpoll_new_def)
  obtain ds p where e: "EnableRead ?u 7 (?ds, EventEpoll_new) = Inr (ds, p)" "dispatch_map p 5 = Some 7"
      "watch_of (the (ds 7)) = (True, False)" "kernel p 5 = Some (3, 7)"
    by (auto simp: EnableRead_def on_dispatch_def epoll_UpdateDispatch_def Dispatch_new_def EnableRead_d_def
        epoll_consts EventEpoll_new_def EpollCTL_def IsReading_def IsWriting_def event_masks Let_def)
  from dispatch_reach.step [OF r0 s [unfolded e(1)]] e show ?thesis by blast
qed

text \<open>C14: The kernel's epoll list is always what the dispatches ask for. Along every sequence of
  switching reading and writing on and off, removing, creating and deleting dispatches: each
  registered descriptor is watched for exactly the events of its dispatch, no other descriptor is
  watched, no assertion fails and no \<^verbatim>\<open>epoll_ctl\<close> call fails.\<close>
theorem epoll_watches_what_is_asked:
  assumes "dispatch_reach (epoll_UpdateDispatch True) (epoll_RemoveDispatch True) dispatch_map EventEpoll_new (ds, p)"
  shows "(\<forall>f. epoll_watched p f = (case dispatch_map p f of None \<Rightarrow> (False, False) | Some a \<Rightarrow> watch_of (the (ds a)))) \<and>
    (\<forall>r. dispatch_step (epoll_UpdateDispatch True) (epoll_RemoveDispatch True) dispatch_map (ds, p) r
       \<longrightarrow> (\<exists>s'. r = Inr s')) \<and> logged p = 0"
  using epoll_poller.watched_is_asked [OF assms] epoll_poller.step_faults_iff_refused(1) [OF assms] epoll_okD(4) [OF epoll_poller.dispatch_reach_inv [OF assms]]
  by (simp add: no_refusal_def)

theorem epoll_watches_what_is_asked_witness:
  "\<exists>ds p. dispatch_reach (epoll_UpdateDispatch True) (epoll_RemoveDispatch True) dispatch_map EventEpoll_new (ds, p) \<and>
     epoll_watched p 5 = (True, False)"
proof -
  obtain ds p where e: "dispatch_reach (epoll_UpdateDispatch True) (epoll_RemoveDispatch True) dispatch_map EventEpoll_new (ds, p)"
    "dispatch_map p 5 = Some 7" "watch_of (the (ds 7)) = (True, False)"
    using epoll_example by blast
  from epoll_watches_what_is_asked [OF e(1)] e show ?thesis by fastforce
qed

text \<open>Polling hands out live dispatches only: when the kernel reports pointers it was given
  for descriptors that are still registered, \<^verbatim>\<open>Poll\<close> appends exactly the reported dispatches, in
  order, without touching a deleted object, and keeps the tables consistent.\<close>
theorem epoll_poll_reports_live:
  assumes "dispatch_reach (epoll_UpdateDispatch True) (epoll_RemoveDispatch True) dispatch_map EventEpoll_new (ds, p)"
    and "\<forall>(e, a) \<in> set evs. \<exists>f m. kernel p f = Some (m, a)"
  shows "\<exists>ds' p'. epoll_Poll (Some evs) acc (ds, p) = Inr (acc @ map snd evs, ds', p') \<and> epoll_ok (ds', p')"
proof -
  note ok = epoll_poller.dispatch_reach_inv [OF assms(1)]
  have "a \<in> dom ds" if k: "kernel p f = Some (m, a)" for f m a
  proof -
    obtain b where b: "dispatch_map p f = Some b" using epoll_okD(3) [OF ok, of f] k by (cases "dispatch_map p f") auto
    obtain d where "ds b = Some d" "fd d = f" using epoll_okD(2) [OF ok b] by blast
    with epoll_okD(1) [OF ok, of b d] b k show ?thesis by (auto simp: epoll_entry_ok_def)
  qed
  then have "\<forall>(e, a) \<in> set evs. a \<in> dom ds" using assms(2) by fast
  from collect_ready_ok [OF ok this, of acc] show ?thesis
    by (auto simp: epoll_Poll_def) (auto simp: epoll_ok_def epoll_entry_ok_def)
qed

theorem epoll_poll_reports_live_witness:
  "\<exists>ds p ds' p'. epoll_Poll (Some [(1, 7)]) [] (ds, p) = Inr ([7], ds', p') \<and> epoll_ok (ds', p')"
proof -
  obtain ds p where e: "dispatch_reach (epoll_UpdateDispatch True) (epoll_RemoveDispatch True) dispatch_map EventEpoll_new (ds, p)"
    "kernel p 5 = Some (3, 7)"
    using epoll_example by blast
  then have "\<forall>(e, a) \<in> set [(1, 7)]. \<exists>f m. kernel p f = Some (m, a)" by auto
  from epoll_poll_reports_live [OF e(1) this, of "[]"] show ?thesis by auto
qed

end
