(* ===== verification/Event_Poll.thy ===== *)
theory Event_Poll
  imports Dispatch
begin

unbundle bit_operations_syntax

text \<open>
  The \<^verbatim>\<open>poll\<close> poller, \<^verbatim>\<open>voyager/core/event_poll.h\<close> and \<^verbatim>\<open>event_poll.cc\<close>. The vector of \<^verbatim>\<open>pollfd\<close>
  entries is handed to the kernel at every call; a dispatch knows the position of its entry by its
  index. An entry that watches nothing is hidden from the kernel by the negative descriptor
  \<open>- fd - 1\<close>. Removal swaps the last entry into the hole and corrects the index of its dispatch.
\<close>

section \<open>State and operations\<close>

record pollfd =
  pfd :: int
  pevents :: u16
  prevents :: "16 word"

record poll =
  poll_map :: "int \<rightharpoonup> addr"
  pollfds :: "pollfd list"

definition EventPoll_new :: poll where
  "EventPoll_new = \<lparr>poll_map = Map.empty, pollfds = []\<rparr>"

definition poll_UpdateDispatch :: "bool \<Rightarrow> poll poller_op" where
  "poll_UpdateDispatch in_loop a = (\<lambda>(ds, p). guard Fatal in_loop (on_dispatch a ds (\<lambda>d.
     if index d = -1 then
       guard AssertionFailed (poll_map p (fd d) = None) (
         let e = \<lparr>pfd = fd d, pevents = ucast (events d), prevents = 0\<rparr>;
             pf = pollfds p @ [e]
         in Inr (ds(a \<mapsto> d\<lparr>index := int (length pf) - 1\<rparr>),
                 p\<lparr>pollfds := pf, poll_map := (poll_map p)(fd d \<mapsto> a)\<rparr>))
     else
       guard AssertionFailed (poll_map p (fd d) = Some a) (
       guard AssertionFailed (0 \<le> index d \<and> index d < int (length (pollfds p))) (
         let i = nat (index d) in
         guard AssertionFailed (pfd (pollfds p ! i) = fd d \<or> pfd (pollfds p ! i) = - fd d - 1) (
           let e = \<lparr>pfd = (if IsNoneEvent d then - fd d - 1 else fd d), pevents = ucast (events d), prevents = 0\<rparr>
           in Inr (ds, p\<lparr>pollfds := (pollfds p)[i := e]\<rparr>)))))))"

text \<open>\<^verbatim>\<open>dispatch_map_[id]\<close> of a missing key inserts a null pointer, and the call on it is a fault.\<close>

definition poll_RemoveDispatch :: "bool \<Rightarrow> poll poller_op" where
  "poll_RemoveDispatch in_loop a = (\<lambda>(ds, p). guard Fatal in_loop (on_dispatch a ds (\<lambda>d.
     guard AssertionFailed (poll_map p (fd d) = Some a) (
     guard AssertionFailed (IsNoneEvent d) (
     guard AssertionFailed (0 \<le> index d \<and> index d < int (length (pollfds p))) (
       let i = nat (index d); pf = pollfds p in
       guard AssertionFailed (pfd (pf ! i) = - fd d - 1 \<and> ucast (pevents (pf ! i)) = events d) (
         let m = (poll_map p)(fd d := None) in
         if i = length pf - 1 then Inr (ds, p\<lparr>poll_map := m, pollfds := butlast pf\<rparr>)
         else
           let id = pfd (last pf);
               pf = butlast (pf[i := last pf, length pf - 1 := pf ! i]);
               id = (if id < 0 then - id - 1 else id)
           in (case m id of
                 None \<Rightarrow> Inl NullPointer
               | Some b \<Rightarrow> on_dispatch b ds (\<lambda>d'.
                   Inr (ds(b \<mapsto> d'\<lparr>index := int i\<rparr>), p\<lparr>poll_map := m, pollfds := pf\<rparr>))))))))))"

text \<open>\<^verbatim>\<open>Poll\<close>: \<open>answer\<close> is the result of the \<^verbatim>\<open>poll\<close> call, \<open>None\<close> for an error, else the number of ready
  entries and the \<^verbatim>\<open>revents\<close> the kernel stored in each entry. A \<^verbatim>\<open>short\<close> is positive when it is
  not zero and its top bit is clear.\<close>

definition positive_short :: "16 word \<Rightarrow> bool" where
  "positive_short r \<longleftrightarrow> 0 < sint r"

fun collect_pollfds :: "nat \<Rightarrow> pollfd list \<Rightarrow> (int \<rightharpoonup> addr) \<Rightarrow> dstore \<Rightarrow> addr list \<Rightarrow> (dstore \<times> addr list) res" where
  "collect_pollfds ret [] m ds acc = Inr (ds, acc)"
| "collect_pollfds ret (e # es) m ds acc =
     (if ret = 0 then Inr (ds, acc)
      else if positive_short (prevents e) then
        (case m (pfd e) of
           None \<Rightarrow> Inl AssertionFailed
         | Some a \<Rightarrow> on_dispatch a ds (\<lambda>d. guard AssertionFailed (fd d = pfd e)
             (collect_pollfds (ret - 1) es m (ds(a \<mapsto> d\<lparr>revents := ucast (prevents e)\<rparr>)) (acc @ [a]))))
      else collect_pollfds ret es m ds acc)"

definition store_revents :: "16 word list \<Rightarrow> pollfd list \<Rightarrow> pollfd list" where
  "store_revents rs pf = map2 (\<lambda>r e. e\<lparr>prevents := r\<rparr>) rs pf"

definition poll_Poll ::
  "(nat \<times> 16 word list) option \<Rightarrow> addr list \<Rightarrow> dstore \<times> poll \<Rightarrow> (addr list \<times> dstore \<times> poll) res" where
  "poll_Poll answer dispatches = (\<lambda>(ds, p).
     case answer of
       None \<Rightarrow> Inr (dispatches, ds, p)
     | Some (ret, rs) \<Rightarrow>
         let p = p\<lparr>pollfds := store_revents rs (pollfds p)\<rparr> in
         rbind (collect_pollfds ret (pollfds p) (poll_map p) ds dispatches) (\<lambda>(ds, dispatches).
           Inr (dispatches, ds, p)))"

section \<open>Invariant\<close>

text \<open>What the kernel watches: the entries with a non-negative descriptor.\<close>

definition poll_watched :: "poll \<Rightarrow> int \<Rightarrow> bool \<times> bool" where
  "poll_watched p f =
     ((\<exists>e \<in> set (pollfds p). pfd e = f \<and> 0 \<le> f \<and> ucast (pevents e) AND kReadEvent \<noteq> 0),
      (\<exists>e \<in> set (pollfds p). pfd e = f \<and> 0 \<le> f \<and> ucast (pevents e) AND kWriteEvent \<noteq> 0))"

text \<open>The entry of a dispatch.\<close>

definition entry_for :: "dispatch \<Rightarrow> pollfd \<Rightarrow> bool" where
  "entry_for d e \<longleftrightarrow> pfd e = (if IsNoneEvent d then - fd d - 1 else fd d) \<and> ucast (pevents e) = events d"

definition poll_registered_ok :: "dstore \<Rightarrow> poll \<Rightarrow> addr \<Rightarrow> dispatch \<Rightarrow> bool" where
  "poll_registered_ok ds p a d \<longleftrightarrow> ds a = Some d \<and> 0 \<le> index d \<and> index d < int (length (pollfds p)) \<and>
     entry_for d (pollfds p ! nat (index d))"

definition poll_ok :: "dstore \<times> poll \<Rightarrow> bool" where
  "poll_ok s \<longleftrightarrow> (case s of (ds, p) \<Rightarrow>
     (\<forall>a d. ds a = Some d \<longrightarrow> dispatch_ok d) \<and>
     (\<forall>f a. poll_map p f = Some a \<longrightarrow> (\<exists>d. fd d = f \<and> poll_registered_ok ds p a d)) \<and>
     (\<forall>i < length (pollfds p). \<exists>a d. ds a = Some d \<and> poll_map p (fd d) = Some a \<and> index d = int i))"

lemma poll_okD:
  assumes "poll_ok (ds, p)"
  shows "\<And>a d. ds a = Some d \<Longrightarrow> dispatch_ok d"
    and "\<And>f a. poll_map p f = Some a \<Longrightarrow> \<exists>d. fd d = f \<and> poll_registered_ok ds p a d"
    and "\<And>i. i < length (pollfds p) \<Longrightarrow> \<exists>a d. ds a = Some d \<and> poll_map p (fd d) = Some a \<and> index d = int i"
  using assms by (auto simp: poll_ok_def)

lemma poll_registeredD:
  assumes "poll_ok (ds, p)" and "ds a = Some d" and "poll_map p (fd d) = Some a"
  shows "0 \<le> index d" "index d < int (length (pollfds p))" "entry_for d (pollfds p ! nat (index d))"
  using poll_okD(2) [OF assms(1,3)] assms(2) by (auto simp: poll_registered_ok_def)

lemma mask_ucast: "ucast (ucast (mask_of r w) :: u16) = mask_of r w"
  by (cases r; cases w; simp add: mask_of_def event_masks)

lemma events_ucast: "dispatch_ok d \<Longrightarrow> ucast (ucast (events d) :: u16) = events d"
  by (metis dispatch_ok_def mask_ucast)

text \<open>Two registered dispatches never share an entry.\<close>

lemma entry_for_fd: "dispatch_ok d \<Longrightarrow> dispatch_ok d' \<Longrightarrow> entry_for d e \<Longrightarrow> entry_for d' e \<Longrightarrow> fd d = fd d'"
  by (drule dispatch_ok_fd, drule dispatch_ok_fd) (auto simp: entry_for_def split: if_splits)

lemma poll_index_unique:
  assumes ok: "poll_ok (ds, p)" and "ds a = Some d" "poll_map p (fd d) = Some a"
    and "ds b = Some e" "poll_map p (fd e) = Some b" and "index d = index e"
  shows "a = b"
proof -
  have "poll_registered_ok ds p a d" "poll_registered_ok ds p b e"
    using poll_okD(2) [OF ok assms(3)] poll_okD(2) [OF ok assms(5)] assms(2,4) by (auto simp: poll_registered_ok_def)
  then have "fd d = fd e"
    using entry_for_fd poll_okD(1) [OF ok] assms(2,4,6) by (metis poll_registered_ok_def)
  with assms(3,5) show ?thesis by simp
qed

lemma entry_watch:
  assumes "dispatch_ok d" and "entry_for d e"
  shows "pfd e = fd d \<and> 0 \<le> fd d \<and> ucast (pevents e) AND kReadEvent \<noteq> 0 \<longleftrightarrow> IsReading d"
    and "pfd e = fd d \<and> 0 \<le> fd d \<and> ucast (pevents e) AND kWriteEvent \<noteq> 0 \<longleftrightarrow> IsWriting d"
  using assms IsNoneEvent_mask [OF assms(1)]
  by (auto simp: entry_for_def dispatch_ok_def IsReading_def IsWriting_def split: if_splits)

lemma poll_watched_registered:
  assumes ok: "poll_ok (ds, p)" and a: "ds a = Some d" "poll_map p (fd d) = Some a"
  shows "poll_watched p (fd d) = watch_of d"
proof -
  have reg: "poll_registered_ok ds p a d"
    using poll_okD(2) [OF ok a(2)] a(1) by (auto simp: poll_registered_ok_def)
  let ?e = "pollfds p ! nat (index d)"
  have e: "?e \<in> set (pollfds p)" using reg by (auto simp: poll_registered_ok_def)
  have dok: "dispatch_ok d" using poll_okD(1) [OF ok a(1)] .
  have only: "x = ?e" if x: "x \<in> set (pollfds p)" "pfd x = fd d" for x
  proof -
    obtain i where i: "i < length (pollfds p)" "x = pollfds p ! i" using x(1) by (metis in_set_conv_nth)
    obtain b d' where b: "ds b = Some d'" "poll_map p (fd d') = Some b" "index d' = int i"
      using poll_okD(3) [OF ok i(1)] by blast
    have "entry_for d' x" using poll_registeredD(3) [OF ok b(1,2)] b(3) i(2) by simp
    then have "fd d' = fd d"
      using x(2) dispatch_ok_fd [OF dok] dispatch_ok_fd [OF poll_okD(1) [OF ok b(1)]]
      by (simp add: entry_for_def split: if_splits)
    with a b have "a = b" by simp
    with a b i show ?thesis by simp
  qed
  have "entry_for d ?e" using reg by (simp add: poll_registered_ok_def)
  note w = entry_watch [OF dok this]
  have "(\<exists>x \<in> set (pollfds p). pfd x = fd d \<and> P x) \<longleftrightarrow> pfd ?e = fd d \<and> P ?e" for P
    using only e by blast
  with w show ?thesis unfolding poll_watched_def by simp
qed

lemma poll_watched_unregistered:
  assumes ok: "poll_ok (ds, p)" and none: "poll_map p f = None"
  shows "poll_watched p f = (False, False)"
proof -
  have "pfd x \<noteq> f \<or> f < 0" if x: "x \<in> set (pollfds p)" for x
  proof -
    obtain i where i: "i < length (pollfds p)" "x = pollfds p ! i" using x by (metis in_set_conv_nth)
    obtain b d where b: "ds b = Some d" "poll_map p (fd d) = Some b" "index d = int i"
      using poll_okD(3) [OF ok i(1)] by blast
    have "entry_for d x" using poll_registeredD(3) [OF ok b(1,2)] b(3) i(2) by simp
    with none b(2) dispatch_ok_fd [OF poll_okD(1) [OF ok b(1)]] show ?thesis
      by (auto simp: entry_for_def split: if_splits)
  qed
  then have "\<not> (\<exists>x \<in> set (pollfds p). pfd x = f \<and> 0 \<le> f \<and> P x)" for P by force
  then show ?thesis unfolding poll_watched_def prod.inject by blast
qed

lemma poll_okI:
  assumes "\<And>a d. ds a = Some d \<Longrightarrow> dispatch_ok d"
    and "\<And>f a. poll_map p f = Some a \<Longrightarrow> \<exists>d. ds a = Some d \<and> fd d = f \<and> 0 \<le> index d \<and>
      index d < int (length (pollfds p)) \<and> entry_for d (pollfds p ! nat (index d))"
    and "\<And>i. i < length (pollfds p) \<Longrightarrow> \<exists>a d. ds a = Some d \<and> poll_map p (fd d) = Some a \<and> index d = int i"
  shows "poll_ok (ds, p)"
  using assms by (fastforce simp: poll_ok_def poll_registered_ok_def)

lemma poll_mapD:
  assumes "poll_ok (ds, p)" and "poll_map p f = Some b"
  shows "\<exists>e. ds b = Some e \<and> fd e = f \<and> 0 \<le> index e \<and> index e < int (length (pollfds p)) \<and>
    entry_for e (pollfds p ! nat (index e))"
  using poll_okD(2) [OF assms] by (auto simp: poll_registered_ok_def)

lemma poll_append_ok:
  assumes ok: "poll_ok (ds, p)" and a: "ds a = Some d" and none: "poll_map p (fd d) = None"
    and d': "dispatch_ok d'" "fd d' = fd d" "index d' = int (length (pollfds p))" "entry_for d' e"
  shows "poll_ok (ds(a \<mapsto> d'), p\<lparr>pollfds := pollfds p @ [e], poll_map := (poll_map p)(fd d \<mapsto> a)\<rparr>)"
proof (rule poll_okI, goal_cases)
  case (1 b e)
  then show ?case using poll_okD(1) [OF ok] d'(1) by (auto split: if_splits)
next
  case (2 f b)
  show ?case
  proof (cases "f = fd d")
    case True
    with 2 d' show ?thesis by auto
  next
    case False
    with 2 obtain g where g: "ds b = Some g" "fd g = f" "0 \<le> index g" "index g < int (length (pollfds p))"
        "entry_for g (pollfds p ! nat (index g))"
      using poll_mapD [OF ok, of f b] by auto
    with False a have "b \<noteq> a" by auto
    with g show ?thesis by (auto simp: nth_append)
  qed
next
  case (3 i)
  show ?case
  proof (cases "i = length (pollfds p)")
    case True
    with d' show ?thesis by (intro exI [of _ a] exI [of _ d']) simp
  next
    case False
    with 3 obtain b g where g: "ds b = Some g" "poll_map p (fd g) = Some b" "index g = int i"
      using poll_okD(3) [OF ok, of i] by auto
    then have "b \<noteq> a" "fd g \<noteq> fd d" using none a by auto
    with g show ?thesis by (intro exI [of _ b] exI [of _ g]) simp
  qed
qed

lemma poll_replace_ok:
  assumes ok: "poll_ok (ds, p)" and a: "ds a = Some d" and reg: "poll_map p (fd d) = Some a"
    and d': "dispatch_ok d'" "fd d' = fd d" "index d' = index d" "entry_for d' e"
  shows "poll_ok (ds(a \<mapsto> d'), p\<lparr>pollfds := (pollfds p)[nat (index d) := e]\<rparr>)"
proof (rule poll_okI, goal_cases)
  case (1 b e)
  then show ?case using poll_okD(1) [OF ok] d'(1) by (auto split: if_splits)
next
  case (2 f b)
  note ra = poll_registeredD [OF ok a reg]
  from 2 obtain g where g: "ds b = Some g" "fd g = f" "0 \<le> index g" "index g < int (length (pollfds p))"
      "entry_for g (pollfds p ! nat (index g))"
    using poll_mapD [OF ok, of f b] by auto
  show ?case
  proof (cases "b = a")
    case True
    with g a d' ra show ?thesis by auto
  next
    case False
    then have "index g \<noteq> index d" using poll_index_unique [OF ok a reg g(1)] 2 g(2) by auto
    with False g ra show ?thesis by (auto simp: nth_list_update)
  qed
next
  case (3 i)
  then obtain b g where g: "ds b = Some g" "poll_map p (fd g) = Some b" "index g = int i"
    using poll_okD(3) [OF ok, of i] by auto
  show ?case
  proof (cases "b = a")
    case True
    with g a d' show ?thesis by (intro exI [of _ a] exI [of _ d']) auto
  next
    case False
    with g show ?thesis by (intro exI [of _ b] exI [of _ g]) auto
  qed
qed

lemma poll_watched_fd: "(\<And>x. x \<noteq> f \<Longrightarrow> poll_watched p' x = poll_watched p x) \<Longrightarrow> poll_watched p' f = w \<Longrightarrow>
    poll_watched p' = (poll_watched p)(f := w)"
  by (auto simp: fun_eq_iff)

text \<open>Interest is determined by the registered dispatches.\<close>

lemma poll_watched_eq:
  assumes "poll_ok (ds, p)"
  shows "poll_watched p f = (case poll_map p f of None \<Rightarrow> (False, False) | Some a \<Rightarrow> watch_of (the (ds a)))"
proof (cases "poll_map p f")
  case None
  with poll_watched_unregistered [OF assms] show ?thesis by simp
next
  case (Some a)
  then obtain d where "ds a = Some d" "fd d = f" using poll_mapD [OF assms] by blast
  with Some poll_watched_registered [OF assms, of a d] show ?thesis by simp
qed

text \<open>The poller takes only a dispatch that it has not seen: removal leaves the old index in the dispatch.\<close>

definition poll_refusal :: "poll \<Rightarrow> dispatch \<Rightarrow> fault option" where
  "poll_refusal p d = (if index d = -1 then None else Some AssertionFailed)"

lemma poll_refusal_law:
  assumes "dispatch_change d d'" and "poll_map p (fd d) = None" and "poll_refusal p d = Some e"
  shows "poll_UpdateDispatch True a (ds(a \<mapsto> d'), p) = Inl e"
  using dispatch_change_ok [OF assms(1)] assms(2,3)
  by (simp add: poll_UpdateDispatch_def on_dispatch_def poll_refusal_def split: if_splits)

lemma poll_update_law:
  assumes ok: "poll_ok (ds, p)" and a: "ds a = Some d" and ch: "dispatch_change d d'"
    and upd: "updatable poll_map poll_refusal p a d d'"
  shows "\<exists>ds' p'. poll_UpdateDispatch True a (ds(a \<mapsto> d'), p) = Inr (ds', p') \<and> poll_ok (ds', p') \<and>
    poll_map p' = (poll_map p)(fd d \<mapsto> a) \<and> poll_watched p' = (poll_watched p)(fd d := watch_of d') \<and>
    same_but_index ds' (ds(a \<mapsto> d'))"
proof -
  note c = dispatch_change_ok [OF ch]
  have watch: "poll_watched p' = (poll_watched p)(fd d := watch_of d')"
    if ok': "poll_ok (ds', p')" and m: "poll_map p' = (poll_map p)(fd d \<mapsto> a)"
      and s: "ds' = ds(a \<mapsto> d'\<lparr>index := i\<rparr>)" for ds' p' i
  proof (rule poll_watched_fd)
    fix f assume f: "f \<noteq> fd d"
    then have "poll_map p f \<noteq> Some a" using poll_mapD [OF ok, of f a] a by auto
    with f m s show "poll_watched p' f = poll_watched p f"
      by (auto simp: poll_watched_eq [OF ok] poll_watched_eq [OF ok'] split: option.splits)
  qed (simp add: poll_watched_eq [OF ok'] m s)
  show ?thesis
  proof (cases "poll_map p (fd d)")
    case None
    then have n: "index d = -1" "\<not> IsNoneEvent d'" using upd by (auto simp: updatable_def poll_refusal_def split: if_splits)
    let ?i = "int (length (pollfds p))"
    let ?e = "\<lparr>pfd = fd d, pevents = ucast (events d'), prevents = 0\<rparr>"
    let ?ds = "ds(a \<mapsto> d'\<lparr>index := ?i\<rparr>)"
    let ?p = "p\<lparr>pollfds := pollfds p @ [?e], poll_map := (poll_map p)(fd d \<mapsto> a)\<rparr>"
    have run: "poll_UpdateDispatch True a (ds(a \<mapsto> d'), p) = Inr (?ds, ?p)"
      using None n c by (simp add: poll_UpdateDispatch_def on_dispatch_def Let_def)
    have ok': "poll_ok (?ds, ?p)"
      using c n by (intro poll_append_ok [OF ok a None]) (simp_all add: entry_for_def events_ucast)
    show ?thesis
      using run ok' watch [OF ok' _ refl] by (intro exI [of _ ?ds] exI [of _ ?p]) simp
  next
    case (Some b)
    then have reg: "poll_map p (fd d) = Some a" using upd by (auto simp: updatable_def)
    note ra = poll_registeredD [OF ok a reg]
    let ?e = "\<lparr>pfd = (if IsNoneEvent d' then - fd d - 1 else fd d), pevents = ucast (events d'), prevents = 0\<rparr>"
    let ?p = "p\<lparr>pollfds := (pollfds p)[nat (index d) := ?e]\<rparr>"
    have run: "poll_UpdateDispatch True a (ds(a \<mapsto> d'), p) = Inr (ds(a \<mapsto> d'), ?p)"
      using reg c ra by (auto simp: poll_UpdateDispatch_def on_dispatch_def Let_def entry_for_def)
    have ok': "poll_ok (ds(a \<mapsto> d'), ?p)"
      using c by (intro poll_replace_ok [OF ok a reg]) (simp_all add: entry_for_def events_ucast)
    have m: "poll_map ?p = (poll_map p)(fd d \<mapsto> a)" using reg by (simp add: fun_upd_idem)
    show ?thesis
      using run ok' m watch [OF ok' m, of "index d'"] by (intro exI [of _ "ds(a \<mapsto> d')"] exI [of _ ?p]) simp
  qed
qed

text \<open>Removal of the last entry, and removal with the last entry moved into the hole.\<close>

lemma poll_pop_ok:
  assumes ok: "poll_ok (ds, p)" and a: "ds a = Some d" and reg: "poll_map p (fd d) = Some a"
    and last: "nat (index d) = length (pollfds p) - 1"
  shows "poll_ok (ds, p\<lparr>poll_map := (poll_map p)(fd d := None), pollfds := butlast (pollfds p)\<rparr>)"
proof (rule poll_okI, goal_cases)
  case (1 b e)
  then show ?case using poll_okD(1) [OF ok] by blast
next
  case (2 f b)
  note ra = poll_registeredD [OF ok a reg]
  from 2 have f: "f \<noteq> fd d" "poll_map p f = Some b" by (auto split: if_splits)
  then obtain g where g: "ds b = Some g" "fd g = f" "0 \<le> index g" "index g < int (length (pollfds p))"
      "entry_for g (pollfds p ! nat (index g))"
    using poll_mapD [OF ok, of f b] by auto
  have "index g \<noteq> index d" using poll_index_unique [OF ok a reg g(1)] f g(2) reg a g(1) by auto
  then have "nat (index g) < length (pollfds p) - 1" using g(3,4) ra last by linarith
  with g show ?case by (intro exI [of _ g]) (auto simp: nth_butlast)
next
  case (3 i)
  note ra = poll_registeredD [OF ok a reg]
  from 3 have "i < length (pollfds p)" by simp
  from poll_okD(3) [OF ok this] obtain b g where
    g: "ds b = Some g" "poll_map p (fd g) = Some b" "index g = int i" by blast
  then have "b \<noteq> a" using a 3 last by auto
  then have "fd g \<noteq> fd d" using g(2) reg by auto
  with g show ?case by (intro exI [of _ b] exI [of _ g]) simp
qed

lemma poll_swap_ok:
  assumes ok: "poll_ok (ds, p)" and a: "ds a = Some d" and reg: "poll_map p (fd d) = Some a"
    and b: "ds b = Some e" and regb: "poll_map p (fd e) = Some b"
    and last: "index e = int (length (pollfds p)) - 1" and neq: "index d \<noteq> index e"
  shows "poll_ok (ds(b \<mapsto> e\<lparr>index := index d\<rparr>), p\<lparr>poll_map := (poll_map p)(fd d := None),
    pollfds := butlast ((pollfds p)[nat (index d) := last (pollfds p),
      length (pollfds p) - 1 := pollfds p ! nat (index d)])\<rparr>)"
proof (rule poll_okI, goal_cases)
  case (1 c g)
  then show ?case using poll_okD(1) [OF ok] b by (auto split: if_splits)
next
  case (2 f c)
  note ra = poll_registeredD [OF ok a reg] and rb = poll_registeredD [OF ok b regb]
  have i: "nat (index d) < length (pollfds p) - 1" using ra neq last by linarith
  from 2 have f: "f \<noteq> fd d" "poll_map p f = Some c" by (auto split: if_splits)
  then obtain g where g: "ds c = Some g" "fd g = f" "0 \<le> index g" "index g < int (length (pollfds p))"
      "entry_for g (pollfds p ! nat (index g))"
    using poll_mapD [OF ok, of f c] by auto
  show ?case
  proof (cases "c = b")
    case True
    have "pollfds p \<noteq> []" "nat (index e) = length (pollfds p) - 1" using i last by auto
    then have "entry_for e (List.last (pollfds p))" using rb(3) by (simp add: last_conv_nth)
    with True g b i ra(1) show ?thesis
      by (intro exI [of _ "e\<lparr>index := index d\<rparr>"]) (simp add: nth_butlast nth_list_update entry_for_def)
  next
    case False
    have "index g \<noteq> index d" using poll_index_unique [OF ok a reg g(1)] f g(2) a g(1) by auto
    moreover have "index g \<noteq> index e" using poll_index_unique [OF ok b regb g(1)] f g(2) False by auto
    then have "nat (index g) < length (pollfds p) - 1" using g(3,4) last by linarith
    moreover have "nat (index g) \<noteq> nat (index d)" using \<open>index g \<noteq> index d\<close> g(3) ra(1) by linarith
    ultimately show ?thesis using False g
      by (intro exI [of _ g]) (auto simp: nth_butlast nth_list_update)
  qed
next
  case (3 i)
  note ra = poll_registeredD [OF ok a reg]
  have ba: "b \<noteq> a" using neq a b by auto
  then have fde: "fd e \<noteq> fd d" using reg regb by auto
  show ?case
  proof (cases "int i = index d")
    case True
    with fde regb show ?thesis by (intro exI [of _ b] exI [of _ "e\<lparr>index := index d\<rparr>"]) simp
  next
    case False
    from 3 have "i < length (pollfds p)" by simp
    from poll_okD(3) [OF ok this] obtain c g where
      g: "ds c = Some g" "poll_map p (fd g) = Some c" "index g = int i" by blast
    then have "c \<noteq> a" using a False by auto
    moreover have "c \<noteq> b" using g b last 3 by auto
    moreover have "fd g \<noteq> fd d" using g(2) reg \<open>c \<noteq> a\<close> by auto
    ultimately show ?thesis using g by (intro exI [of _ c] exI [of _ g]) simp
  qed
qed

lemma poll_remove_law:
  assumes ok: "poll_ok (ds, p)" and a: "ds a = Some d" and reg: "poll_map p (fd d) = Some a"
    and none: "IsNoneEvent d"
  shows "\<exists>ds' p'. poll_RemoveDispatch True a (ds, p) = Inr (ds', p') \<and> poll_ok (ds', p') \<and>
    poll_map p' = (poll_map p)(fd d := None) \<and> poll_watched p' = poll_watched p \<and> same_but_index ds' ds"
proof -
  note ra = poll_registeredD [OF ok a reg]
  let ?n = "length (pollfds p)"
  have w0: "watch_of d = (False, False)"
    using none IsNoneEvent_mask [OF poll_okD(1) [OF ok a]] by simp
  have watch: "poll_watched p' = poll_watched p"
    if ok': "poll_ok (ds', p')" and m: "poll_map p' = (poll_map p)(fd d := None)" and s: "same_but_index ds' ds" for ds' p'
  proof
    fix f
    have "watch_of (the (ds' c)) = watch_of (the (ds c))" if "ds c \<noteq> None" for c
      using s [unfolded same_but_index_def, THEN spec, of c] that
      by (auto simp: map_option_case split: option.splits dest!: arg_cong [where f = watch_of])
    moreover have "ds c \<noteq> None" if "poll_map p f = Some c" for c
      using poll_mapD [OF ok that] by auto
    ultimately show "poll_watched p' f = poll_watched p f"
      using m reg a w0 by (auto simp: poll_watched_eq [OF ok] poll_watched_eq [OF ok'] split: option.splits)
  qed
  show ?thesis
  proof (cases "nat (index d) = ?n - 1")
    case True
    let ?p = "p\<lparr>poll_map := (poll_map p)(fd d := None), pollfds := butlast (pollfds p)\<rparr>"
    have run: "poll_RemoveDispatch True a (ds, p) = Inr (ds, ?p)"
      using True a reg none ra by (simp add: poll_RemoveDispatch_def on_dispatch_def Let_def entry_for_def)
    note ok' = poll_pop_ok [OF ok a reg True]
    show ?thesis using run ok' watch [OF ok' _ same_but_index_refl] by (intro exI [of _ ds] exI [of _ ?p]) simp
  next
    case False
    have n: "0 < ?n" using ra by auto
    then obtain b e where b: "ds b = Some e" "poll_map p (fd e) = Some b" "index e = int (?n - 1)"
      using poll_okD(3) [OF ok, of "?n - 1"] by (metis One_nat_def diff_Suc_less)
    note rb = poll_registeredD [OF ok b(1,2)]
    have neq: "index d \<noteq> index e" using False b(3) by auto
    then have fde: "fd e \<noteq> fd d" using a b reg by auto
    have last: "entry_for e (last (pollfds p))"
      using rb(3) n unfolding b(3) nat_int by (simp add: last_conv_nth)
    have eok: "0 \<le> fd e" using poll_okD(1) [OF ok b(1)] by (simp add: dispatch_ok_def)
    have id: "(let id = pfd (List.last (pollfds p)) in if id < 0 then - id - 1 else id) = fd e"
      using last eok by (auto simp: entry_for_def Let_def)
    let ?ds = "ds(b \<mapsto> e\<lparr>index := index d\<rparr>)"
    let ?p = "p\<lparr>poll_map := (poll_map p)(fd d := None), pollfds := butlast ((pollfds p)[nat (index d) := List.last (pollfds p),
      ?n - 1 := pollfds p ! nat (index d)])\<rparr>"
    have run: "poll_RemoveDispatch True a (ds, p) = Inr (?ds, ?p)"
      using False a b fde reg none ra id [unfolded Let_def] 
      by (simp add: poll_RemoveDispatch_def on_dispatch_def Let_def entry_for_def)
    have ok': "poll_ok (?ds, ?p)"
      using poll_swap_ok [OF ok a reg b(1,2) _ neq] b(3) n by auto
    have s: "same_but_index ?ds ds" using b by simp
    show ?thesis using run ok' s watch [OF ok' _ s] by (intro exI [of _ ?ds] exI [of _ ?p]) simp
  qed
qed

interpretation poll_poller: event_poller "poll_UpdateDispatch True" "poll_RemoveDispatch True"
  poll_map poll_watched poll_refusal poll_ok EventPoll_new
proof
  show "\<exists>d. ds a = Some d \<and> fd d = f \<and> poll_watched p f = watch_of d"
    if "poll_ok (ds, p)" "poll_map p f = Some a" for ds p f a
    using poll_mapD [OF that] poll_watched_eq [OF that(1), of f] that(2) by auto
  show "poll_watched p f = (False, False)" if "poll_ok (ds, p)" "poll_map p f = None" for ds p f
    using poll_watched_unregistered [OF that] .
  show "dispatch_ok d" if "poll_ok (ds, p)" "ds a = Some d" for ds p a d
    using poll_okD(1) [OF that] .
  show "poll_ok (Map.empty, EventPoll_new)"
    by (simp add: poll_ok_def EventPoll_new_def)
  show "poll_ok (ds(a \<mapsto> Dispatch_new f), p)" if ok: "poll_ok (ds, p)" "ds a = None" "0 \<le> f" for ds p a f
  proof (rule poll_okI)
    show "dispatch_ok d" if "(ds(a \<mapsto> Dispatch_new f)) b = Some d" for b d
      using that poll_okD(1) [OF ok(1)] Dispatch_new_ok [OF ok(3)] by (auto split: if_splits)
    show "\<exists>d. (ds(a \<mapsto> Dispatch_new f)) b = Some d \<and> fd d = g \<and> 0 \<le> index d \<and>
      index d < int (length (pollfds p)) \<and> entry_for d (pollfds p ! nat (index d))" if "poll_map p g = Some b" for g b
      using poll_mapD [OF ok(1) that] ok(2) by auto
    show "\<exists>b d. (ds(a \<mapsto> Dispatch_new f)) b = Some d \<and> poll_map p (fd d) = Some b \<and> index d = int i"
      if i: "i < length (pollfds p)" for i
    proof -
      obtain b d where "ds b = Some d" "poll_map p (fd d) = Some b" "index d = int i"
        using poll_okD(3) [OF ok(1) i] by blast
      with ok(2) show ?thesis by (intro exI [of _ b] exI [of _ d]) auto
    qed
  qed
  show "poll_ok (ds(a := None), p)"
    if ok: "poll_ok (ds, p)" and a: "ds a = Some d" and reg: "poll_map p (fd d) \<noteq> Some a" for ds p a d
  proof (rule poll_okI)
    show "dispatch_ok e" if "(ds(a := None)) b = Some e" for b e
      using that poll_okD(1) [OF ok] by (auto split: if_splits)
    show "\<exists>e. (ds(a := None)) b = Some e \<and> fd e = g \<and> 0 \<le> index e \<and>
      index e < int (length (pollfds p)) \<and> entry_for e (pollfds p ! nat (index e))" if "poll_map p g = Some b" for g b
      using poll_mapD [OF ok that] a reg that by auto
    show "\<exists>b e. (ds(a := None)) b = Some e \<and> poll_map p (fd e) = Some b \<and> index e = int i"
      if i: "i < length (pollfds p)" for i
    proof -
      obtain b e where "ds b = Some e" "poll_map p (fd e) = Some b" "index e = int i"
        using poll_okD(3) [OF ok i] by blast
      with a reg show ?thesis by (intro exI [of _ b] exI [of _ e]) auto
    qed
  qed
qed (use poll_update_law poll_remove_law poll_refusal_law in blast)+

section \<open>Properties\<close>

text \<open>C15: The vector handed to \<^verbatim>\<open>poll\<close> is always what the dispatches ask for, through every swap
  that removal makes: along every sequence of operations each registered descriptor is watched for
  exactly the events of its dispatch, nothing else is watched, and indices and entries agree. An
  operation hits an assertion in exactly one case: it enables a dispatch that is not registered and whose
  index is not \<open>-1\<close>, that is one that was registered and removed before, because \<^verbatim>\<open>RemoveDispatch\<close> leaves
  the old index in it. Every such attempt fails; no operation ends in another fault.\<close>
theorem poll_watches_what_is_asked:
  assumes "dispatch_reach (poll_UpdateDispatch True) (poll_RemoveDispatch True) poll_map EventPoll_new (ds, p)"
  shows "(\<forall>f. poll_watched p f = (case poll_map p f of None \<Rightarrow> (False, False) | Some a \<Rightarrow> watch_of (the (ds a)))) \<and>
    (\<forall>f a. poll_map p f = Some a \<longrightarrow> entry_for (the (ds a)) (pollfds p ! nat (index (the (ds a))))) \<and>
    (\<forall>r. dispatch_step (poll_UpdateDispatch True) (poll_RemoveDispatch True) poll_map (ds, p) r
       \<longrightarrow> (\<exists>s'. r = Inr s') \<or>
         (\<exists>a d. ds a = Some d \<and> poll_map p (fd d) = None \<and> index d \<noteq> -1 \<and> r = Inl AssertionFailed \<and>
            r \<in> {EnableRead (poll_UpdateDispatch True) a (ds, p), EnableWrite (poll_UpdateDispatch True) a (ds, p)})) \<and>
    (\<forall>a d. ds a = Some d \<and> poll_map p (fd d) = None \<and> index d \<noteq> -1 \<longrightarrow>
       EnableRead (poll_UpdateDispatch True) a (ds, p) = Inl AssertionFailed \<and>
       EnableWrite (poll_UpdateDispatch True) a (ds, p) = Inl AssertionFailed)"
proof (intro conjI)
  note faults = poll_poller.step_faults_iff_refused [OF assms, unfolded poll_refusal_def]
  show "\<forall>f. poll_watched p f = (case poll_map p f of None \<Rightarrow> (False, False) | Some a \<Rightarrow> watch_of (the (ds a)))"
    by (rule poll_poller.watched_is_asked [OF assms])
  show "\<forall>f a. poll_map p f = Some a \<longrightarrow> entry_for (the (ds a)) (pollfds p ! nat (index (the (ds a))))"
    using poll_mapD [OF poll_poller.dispatch_reach_inv [OF assms]] by fastforce
  show "\<forall>r. dispatch_step (poll_UpdateDispatch True) (poll_RemoveDispatch True) poll_map (ds, p) r
     \<longrightarrow> (\<exists>s'. r = Inr s') \<or>
       (\<exists>a d. ds a = Some d \<and> poll_map p (fd d) = None \<and> index d \<noteq> -1 \<and> r = Inl AssertionFailed \<and>
          r \<in> {EnableRead (poll_UpdateDispatch True) a (ds, p), EnableWrite (poll_UpdateDispatch True) a (ds, p)})"
    using faults(1) by (metis option.distinct(1) option.inject)
  show "\<forall>a d. ds a = Some d \<and> poll_map p (fd d) = None \<and> index d \<noteq> -1 \<longrightarrow>
     EnableRead (poll_UpdateDispatch True) a (ds, p) = Inl AssertionFailed \<and>
     EnableWrite (poll_UpdateDispatch True) a (ds, p) = Inl AssertionFailed"
    using faults(2) by (metis (no_types))
qed

theorem poll_watches_what_is_asked_witness:
  "\<exists>ds p. dispatch_reach (poll_UpdateDispatch True) (poll_RemoveDispatch True) poll_map EventPoll_new (ds, p) \<and>
     poll_watched p 5 = (False, True)"
proof -
  let ?u = "poll_UpdateDispatch True" and ?r = "poll_RemoveDispatch True"
  let ?ds = "Map.empty(7 \<mapsto> Dispatch_new 5)"
  have r0: "dispatch_reach ?u ?r poll_map EventPoll_new (?ds, EventPoll_new)"
    by (rule dispatch_reach.step [OF dispatch_reach.start dispatch_step.create]) simp_all
  have s: "dispatch_step ?u ?r poll_map (?ds, EventPoll_new) (EnableWrite ?u 7 (?ds, EventPoll_new))"
    by (rule dispatch_step.enable_write [of _ _ "Dispatch_new 5"]) (simp_all add: Dispatch_new_def EventPoll_new_def)
  obtain ds p where e: "EnableWrite ?u 7 (?ds, EventPoll_new) = Inr (ds, p)" "poll_map p 5 = Some 7"
      "watch_of (the (ds 7)) = (False, True)"
    by (auto simp: EnableWrite_def on_dispatch_def poll_UpdateDispatch_def Dispatch_new_def EnableWrite_d_def
        EventPoll_new_def IsReading_def IsWriting_def event_masks Let_def)
  from dispatch_reach.step [OF r0 s [unfolded e(1)]]
  have r1: "dispatch_reach ?u ?r poll_map EventPoll_new (ds, p)" .
  from poll_watches_what_is_asked [OF r1, THEN conjunct1, THEN spec, of 5] e(2,3) r1 show ?thesis by auto
qed

text \<open>Unlike the other pollers, the poll poller leaves the old index in a dispatch it removes: the
  same dispatch can never be registered again, the next update of it fails an assertion.\<close>
theorem poll_removed_dispatch_is_dead:
  assumes "poll_ok (ds, p)" and "ds a = Some d" and "poll_map p (fd d) = Some a" and "IsNoneEvent d"
    and "poll_RemoveDispatch True a (ds, p) = Inr (ds', p')"
  shows "EnableRead (poll_UpdateDispatch True) a (ds', p') = Inl AssertionFailed \<and>
    EnableWrite (poll_UpdateDispatch True) a (ds', p') = Inl AssertionFailed"
proof -
  note ra = poll_registeredD [OF assms(1-3)]
  have "\<exists>b g. ds' = ds(b \<mapsto> g\<lparr>index := index d\<rparr>) \<and> ds b = Some g \<or> ds' = ds" "poll_map p' (fd d) = None"
    using assms(2-5) ra
    by (auto simp: poll_RemoveDispatch_def on_dispatch_def Let_def guard_def split: if_splits option.splits)
  then obtain e where "ds' a = Some e" "fd e = fd d" "index e \<noteq> -1" "poll_map p' (fd d) = None"
  proof (elim exE disjE conjE)
    fix b g assume ds': "ds' = ds(b \<mapsto> g\<lparr>index := index d\<rparr>)" "ds b = Some g" and m: "poll_map p' (fd d) = None"
    show thesis
      using ds' m assms(2) ra(1) by (cases "a = b") (auto intro: that)
  qed (use assms(2) ra(1) that in auto)
  then show ?thesis
    by (simp add: EnableRead_def EnableWrite_def on_dispatch_def poll_UpdateDispatch_def EnableRead_d_def
        EnableWrite_d_def Let_def)
qed

definition removed_example :: "dstore \<times> poll" where
  "removed_example = (Map.empty(7 \<mapsto> (Dispatch_new 5)\<lparr>index := 0\<rparr>),
     \<lparr>poll_map = [5 \<mapsto> 7], pollfds = [\<lparr>pfd = -6, pevents = 0, prevents = 0\<rparr>]\<rparr>)"

theorem poll_removed_dispatch_is_dead_witness:
  "\<exists>s'. poll_RemoveDispatch True 7 removed_example = Inr s' \<and>
     EnableRead (poll_UpdateDispatch True) 7 s' = Inl AssertionFailed"
proof -
  let ?d = "(Dispatch_new 5)\<lparr>index := 0\<rparr>"
  obtain ds p where ex: "removed_example = (ds, p)" by fastforce
  have ok: "poll_ok (ds, p)"
  proof (rule poll_okI)
    have dok: "dispatch_ok ?d" using Dispatch_new_ok [of 5] by simp
    show "dispatch_ok e" if "ds b = Some e" for b e
      using that ex dok by (auto simp: removed_example_def split: if_splits)
  qed (use ex in \<open>auto simp: removed_example_def entry_for_def Dispatch_new_def IsNoneEvent_def
        kNoneEvent_def split: if_splits\<close>)
  have d: "ds 7 = Some ?d" "poll_map p (fd ?d) = Some 7" "IsNoneEvent ?d"
    using ex by (auto simp: removed_example_def Dispatch_new_def IsNoneEvent_def kNoneEvent_def)
  obtain ds' p' where r: "poll_RemoveDispatch True 7 (ds, p) = Inr (ds', p')"
    using poll_remove_law [OF ok d] by blast
  from poll_removed_dispatch_is_dead [OF ok d r] r ex show ?thesis by auto
qed

end
