(* ===== verification/Event_Select.thy ===== *)
theory Event_Select
  imports Dispatch
begin

unbundle bit_operations_syntax

text \<open>
  The \<^verbatim>\<open>select\<close> poller, \<^verbatim>\<open>voyager/core/event_select.h\<close> and \<^verbatim>\<open>event_select.cc\<close>. The descriptor sets
  \<^verbatim>\<open>fd_set\<close> have room for the descriptors below \<^verbatim>\<open>FD_SETSIZE\<close>; the macros \<^verbatim>\<open>FD_SET\<close>, \<^verbatim>\<open>FD_CLR\<close> and
  \<^verbatim>\<open>FD_ISSET\<close> index the set without a check, so that any other descriptor is an access outside of it. The
  code does not look at the bound. The ordered map \<^verbatim>\<open>worker_map_\<close> of the dispatches with a non-empty mask
  bounds the descriptors that \<^verbatim>\<open>select\<close> looks at.
\<close>

section \<open>State and operations\<close>

record select =
  select_map :: "int \<rightharpoonup> addr"
  nfds :: int
  readfds :: "int set"
  writefds :: "int set"
  exceptfds :: "int set"
  worker_map :: "(int \<times> addr) list"

definition EventSelect_new :: select where
  "EventSelect_new = \<lparr>select_map = Map.empty, nfds = 0, readfds = {}, writefds = {}, exceptfds = {}, worker_map = []\<rparr>"

text \<open>\<^verbatim>\<open>std::map\<close> by key: assignment keeps the keys in ascending order.\<close>

fun map_put :: "int \<Rightarrow> addr \<Rightarrow> (int \<times> addr) list \<Rightarrow> (int \<times> addr) list" where
  "map_put k v [] = [(k, v)]"
| "map_put k v ((k', v') # m) =
     (if k < k' then (k, v) # (k', v') # m else if k = k' then (k, v) # m else (k', v') # map_put k v m)"

definition map_erase :: "int \<Rightarrow> (int \<times> addr) list \<Rightarrow> (int \<times> addr) list" where
  "map_erase k m = filter (\<lambda>(k', v). k' \<noteq> k) m"

text \<open>\<^verbatim>\<open>FD_SET\<close> and \<^verbatim>\<open>FD_CLR\<close>.\<close>

definition FD_SETSIZE :: int where "FD_SETSIZE = 1024"

definition fd_fits :: "int \<Rightarrow> bool" where
  "fd_fits f \<longleftrightarrow> 0 \<le> f \<and> f < FD_SETSIZE"

definition FD_SET :: "int \<Rightarrow> int set \<Rightarrow> int set res" where
  "FD_SET f S = guard OutOfBounds (fd_fits f) (Inr (insert f S))"

definition FD_CLR :: "int \<Rightarrow> int set \<Rightarrow> int set res" where
  "FD_CLR f S = guard OutOfBounds (fd_fits f) (Inr (S - {f}))"

text \<open>The \<^verbatim>\<open>switch\<close> of \<^verbatim>\<open>UpdateDispatch\<close>.\<close>

definition update_sets :: "ModifyEvent \<Rightarrow> int \<Rightarrow> select \<Rightarrow> select res" where
  "update_sets m f p =
     (case m of
        kAddRead \<Rightarrow> rbind (FD_SET f (readfds p)) (\<lambda>r. Inr (p\<lparr>readfds := r\<rparr>))
      | kAddWrite \<Rightarrow> rbind (FD_SET f (writefds p)) (\<lambda>w. Inr (p\<lparr>writefds := w\<rparr>))
      | kDeleteRead \<Rightarrow> rbind (FD_CLR f (readfds p)) (\<lambda>r. Inr (p\<lparr>readfds := r\<rparr>))
      | kDeleteWrite \<Rightarrow> rbind (FD_CLR f (writefds p)) (\<lambda>w. Inr (p\<lparr>writefds := w\<rparr>))
      | kEnableWrite \<Rightarrow> rbind (FD_SET f (writefds p)) (\<lambda>w. Inr (p\<lparr>writefds := w\<rparr>))
      | kDisableWrite \<Rightarrow> rbind (FD_CLR f (writefds p)) (\<lambda>w. Inr (p\<lparr>writefds := w\<rparr>))
      | kDeleteAll \<Rightarrow> rbind (FD_CLR f (readfds p)) (\<lambda>r.
                      rbind (FD_CLR f (writefds p)) (\<lambda>w. Inr (p\<lparr>readfds := r, writefds := w\<rparr>)))
      | kNoModify \<Rightarrow> Inr p)"

definition select_UpdateDispatch :: "bool \<Rightarrow> select poller_op" where
  "select_UpdateDispatch in_loop a = (\<lambda>(ds, p). guard Fatal in_loop (on_dispatch a ds (\<lambda>d.
     rbind (update_sets (modify d) (fd d) p) (\<lambda>p.
     rbind (if index d = -1
            then guard AssertionFailed (select_map p (fd d) = None)
                   (Inr (ds(a \<mapsto> d\<lparr>index := 0\<rparr>), p\<lparr>select_map := (select_map p)(fd d \<mapsto> a)\<rparr>))
            else guard AssertionFailed (select_map p (fd d) \<noteq> None) (Inr (ds, p))) (\<lambda>(ds, p).
     let wm = (if IsNoneEvent d then map_erase (fd d) (worker_map p) else map_put (fd d) a (worker_map p))
     in Inr (ds, p\<lparr>worker_map := wm, nfds := (if wm = [] then 1 else fst (last wm) + 1)\<rparr>))))))"

definition select_RemoveDispatch :: "bool \<Rightarrow> select poller_op" where
  "select_RemoveDispatch in_loop a = (\<lambda>(ds, p). guard Fatal in_loop (on_dispatch a ds (\<lambda>d.
     guard AssertionFailed (select_map p (fd d) = Some a) (
     guard AssertionFailed (IsNoneEvent d) (
       Inr (ds(a \<mapsto> d\<lparr>index := -1\<rparr>), p\<lparr>select_map := (select_map p)(fd d := None)\<rparr>))))))"

text \<open>\<^verbatim>\<open>Poll\<close>: the arguments of the \<^verbatim>\<open>select\<close> call, and what is done with its answer: \<open>None\<close> for an
  error, else the number of ready descriptors and the three sets as the kernel left them.\<close>

definition select_timeval :: "nat \<Rightarrow> nat \<times> nat" where
  "select_timeval timeout = (timeout div 1000, timeout mod 1000)"

definition select_revents :: "int set \<Rightarrow> int set \<Rightarrow> int set \<Rightarrow> int \<Rightarrow> u32" where
  "select_revents r w e f =
     (let rev = (if f \<in> r then POLLIN else 0);
          rev = (if f \<in> w then rev OR POLLOUT else rev)
      in if f \<in> e then rev OR POLLERR else rev)"

fun collect_workers :: "int set \<Rightarrow> int set \<Rightarrow> int set \<Rightarrow> (int \<times> addr) list \<Rightarrow> dstore \<Rightarrow> addr list \<Rightarrow> (dstore \<times> addr list) res" where
  "collect_workers r w e [] ds acc = Inr (ds, acc)"
| "collect_workers r w e ((f, a) # m) ds acc =
     guard OutOfBounds (fd_fits f)
      (let rev = select_revents r w e f in
       if rev \<noteq> 0
       then on_dispatch a ds (\<lambda>d. collect_workers r w e m (ds(a \<mapsto> d\<lparr>revents := rev\<rparr>)) (acc @ [a]))
       else collect_workers r w e m ds acc)"

definition select_Poll ::
  "(nat \<times> int set \<times> int set \<times> int set) option \<Rightarrow> addr list \<Rightarrow> dstore \<times> select \<Rightarrow> (addr list \<times> dstore \<times> select) res" where
  "select_Poll answer dispatches = (\<lambda>(ds, p).
     case answer of
       None \<Rightarrow> Inr (dispatches, ds, p)
     | Some (ret, r, w, e) \<Rightarrow>
         if ret = 0 then Inr (dispatches, ds, p)
         else rbind (collect_workers r w e (worker_map p) ds dispatches) (\<lambda>(ds, dispatches). Inr (dispatches, ds, p)))"

section \<open>Invariant\<close>

text \<open>What \<^verbatim>\<open>select\<close> looks at: the members of the sets below \<^verbatim>\<open>nfds_\<close>.\<close>

definition select_watched :: "select \<Rightarrow> int \<Rightarrow> bool \<times> bool" where
  "select_watched p f = (f \<in> readfds p \<and> f < nfds p, f \<in> writefds p \<and> f < nfds p)"

definition worker_for :: "dstore \<Rightarrow> select \<Rightarrow> (int \<rightharpoonup> addr)" where
  "worker_for ds p f = (case select_map p f of None \<Rightarrow> None
     | Some a \<Rightarrow> if IsNoneEvent (the (ds a)) then None else Some a)"

definition select_ok :: "dstore \<times> select \<Rightarrow> bool" where
  "select_ok s \<longleftrightarrow> (case s of (ds, p) \<Rightarrow>
     (\<forall>a d. ds a = Some d \<longrightarrow> dispatch_ok d \<and> 
        (if select_map p (fd d) = Some a then index d = 0 else index d = -1 \<and> IsNoneEvent d)) \<and>
     (\<forall>f a. select_map p f = Some a \<longrightarrow> f < FD_SETSIZE \<and> (\<exists>d. ds a = Some d \<and> fd d = f \<and>
        (f \<in> readfds p \<longleftrightarrow> IsReading d) \<and> (f \<in> writefds p \<longleftrightarrow> IsWriting d))) \<and>
     (\<forall>f. select_map p f = None \<longrightarrow> f \<notin> readfds p \<and> f \<notin> writefds p) \<and>
     exceptfds p = {} \<and> sorted_wrt (<) (map fst (worker_map p)) \<and> map_of (worker_map p) = worker_for ds p \<and>
     (\<forall>(f, a) \<in> set (worker_map p). f < nfds p))"

subsection \<open>The ordered map\<close>

lemma map_put_keys: "set (map fst (map_put k v m)) = insert k (set (map fst m))"
  by (induction k v m rule: map_put.induct) auto

lemma map_put_sorted: "sorted_wrt (<) (map fst m) \<Longrightarrow> sorted_wrt (<) (map fst (map_put k v m))"
proof (induction k v m rule: map_put.induct)
  case (2 k v k' v' m)
  then show ?case using map_put_keys [of k v m] by (auto simp: image_iff)
qed simp

lemma map_of_put: "sorted_wrt (<) (map fst m) \<Longrightarrow> map_of (map_put k v m) = (map_of m)(k \<mapsto> v)"
proof (induction k v m rule: map_put.induct)
  case (2 k v k' v' m)
  then show ?case by (auto simp: fun_eq_iff)
qed (simp add: fun_eq_iff)

lemma map_erase_sorted: "sorted_wrt (<) (map fst m) \<Longrightarrow> sorted_wrt (<) (map fst (map_erase k m))"
  by (induction m) (auto simp: map_erase_def)

lemma map_of_erase: "map_of (map_erase k m) = (map_of m)(k := None)"
  by (induction m) (auto simp: map_erase_def fun_eq_iff)

lemma sorted_last: "sorted_wrt (<) (map fst m) \<Longrightarrow> (f, a) \<in> set m \<Longrightarrow> f \<le> fst (last m)" for m :: "(int \<times> addr) list"
  by (induction m) (auto intro: less_imp_le split: if_splits)

lemma sorted_distinct: "sorted_wrt (<) xs \<Longrightarrow> distinct xs" for xs :: "int list"
  by (induction xs) auto

subsection \<open>The laws of the interface\<close>

text \<open>The sets after an update that stays inside of them.\<close>

lemma update_sets_run:
  assumes "fd_fits f"
  obtains q where "update_sets m f p = Inr q"
    "(f \<in> readfds q, f \<in> writefds q) = modify_effect m (f \<in> readfds p, f \<in> writefds p)"
    "\<And>g. g \<noteq> f \<Longrightarrow> (g \<in> readfds q \<longleftrightarrow> g \<in> readfds p) \<and> (g \<in> writefds q \<longleftrightarrow> g \<in> writefds p)"
    "select_map q = select_map p" "worker_map q = worker_map p" "exceptfds q = exceptfds p" "nfds q = nfds p"
proof -
  have "\<exists>q. update_sets m f p = Inr q \<and>
    (f \<in> readfds q, f \<in> writefds q) = modify_effect m (f \<in> readfds p, f \<in> writefds p) \<and>
    (\<forall>g. g \<noteq> f \<longrightarrow> (g \<in> readfds q \<longleftrightarrow> g \<in> readfds p) \<and> (g \<in> writefds q \<longleftrightarrow> g \<in> writefds p)) \<and>
    select_map q = select_map p \<and> worker_map q = worker_map p \<and> exceptfds q = exceptfds p \<and> nfds q = nfds p"
    using assms by (cases m) (simp_all add: update_sets_def FD_SET_def FD_CLR_def)
  with that show thesis by blast
qed

lemma select_okD:
  assumes "select_ok (ds, p)"
  shows "\<And>a d. ds a = Some d \<Longrightarrow> dispatch_ok d"
    and "\<And>a d. ds a = Some d \<Longrightarrow> if select_map p (fd d) = Some a then index d = 0 else index d = -1 \<and> IsNoneEvent d"
    and "\<And>f a. select_map p f = Some a \<Longrightarrow> \<exists>d. ds a = Some d \<and> fd d = f \<and>
        (f \<in> readfds p \<longleftrightarrow> IsReading d) \<and> (f \<in> writefds p \<longleftrightarrow> IsWriting d)"
    and "\<And>f. select_map p f = None \<Longrightarrow> f \<notin> readfds p \<and> f \<notin> writefds p"
    and "exceptfds p = {}" and "sorted_wrt (<) (map fst (worker_map p))"
    and "map_of (worker_map p) = worker_for ds p" and "\<And>f a. (f, a) \<in> set (worker_map p) \<Longrightarrow> f < nfds p"
    and "\<And>f a. select_map p f = Some a \<Longrightarrow> f < FD_SETSIZE"
  using assms by (auto simp: select_ok_def)

text \<open>Every watched descriptor is in the worker map, hence below \<^verbatim>\<open>nfds_\<close>.\<close>

lemma select_watched_eq:
  assumes ok: "select_ok (ds, p)"
  shows "select_watched p f = (case select_map p f of None \<Rightarrow> (False, False) | Some a \<Rightarrow> watch_of (the (ds a)))"
proof (cases "select_map p f")
  case None
  with select_okD(4) [OF ok] show ?thesis by (simp add: select_watched_def)
next
  case (Some a)
  then obtain d where d: "ds a = Some d" "fd d = f" "f \<in> readfds p \<longleftrightarrow> IsReading d" "f \<in> writefds p \<longleftrightarrow> IsWriting d"
    using select_okD(3) [OF ok] by blast
  have "f < nfds p" if "\<not> IsNoneEvent d"
  proof -
    have "map_of (worker_map p) f = Some a"
      using that d Some by (simp add: select_okD(7) [OF ok] worker_for_def)
    then show ?thesis using select_okD(8) [OF ok] map_of_SomeD by fast
  qed
  with Some d IsNoneEvent_mask [OF select_okD(1) [OF ok d(1)]] show ?thesis
    by (auto simp: select_watched_def)
qed

text \<open>The poller takes only descriptors that fit into the sets.\<close>

definition select_refusal :: "select \<Rightarrow> dispatch \<Rightarrow> fault option" where
  "select_refusal p d = (if fd d < FD_SETSIZE then None else Some OutOfBounds)"

lemma select_refusal_law:
  assumes "dispatch_change d d'" and "modify d' \<in> enabling" and "select_refusal p d = Some e"
  shows "select_UpdateDispatch True a (ds(a \<mapsto> d'), p) = Inl e"
  using dispatch_change_ok [OF assms(1)] assms(2,3)
  by (auto simp: select_UpdateDispatch_def on_dispatch_def select_refusal_def enabling_def update_sets_def FD_SET_def
      fd_fits_def split: if_splits)

lemma select_update_fits:
  assumes "select_ok (ds, p)" and "ds a = Some d" and "updatable select_map select_refusal p a d d'"
  shows "fd_fits (fd d)"
  using assms(3) select_okD(9) [OF assms(1)] dispatch_ok_fd [OF select_okD(1) [OF assms(1,2)]]
  by (auto simp: updatable_def select_refusal_def fd_fits_def split: if_splits)

lemma select_update_run:
  assumes ok: "select_ok (ds, p)" and a: "ds a = Some d" and ch: "dispatch_change d d'"
    and upd: "updatable select_map select_refusal p a d d'"
    and q: "update_sets (modify d') (fd d) p = Inr q" "select_map q = select_map p" "worker_map q = worker_map p"
  defines "wm \<equiv> if IsNoneEvent d' then map_erase (fd d) (worker_map p) else map_put (fd d) a (worker_map p)"
  shows "select_UpdateDispatch True a (ds(a \<mapsto> d'), p) = Inr (ds(a \<mapsto> d'\<lparr>index := 0\<rparr>),
    q\<lparr>select_map := (select_map p)(fd d \<mapsto> a), worker_map := wm,
      nfds := (if wm = [] then 1 else fst (last wm) + 1)\<rparr>)"
proof -
  note c = dispatch_change_ok [OF ch]
  have idx: "if select_map p (fd d) = Some a then index d = 0 else index d = -1"
    using select_okD(2) [OF ok a] by (auto split: if_splits)
  show ?thesis
  proof (cases "select_map p (fd d) = Some a")
    case True
    have idem: "d'\<lparr>index := 0\<rparr> = d'" using True idx c by (cases d') simp
    have "q\<lparr>select_map := (select_map p)(fd d \<mapsto> a)\<rparr> = q"
      using True q(2) by (cases q) (simp add: fun_upd_idem)
    then show ?thesis
      unfolding idem using True idx c q by (simp add: select_UpdateDispatch_def on_dispatch_def Let_def wm_def)
  next
    case False
    then show ?thesis using upd idx c q
      by (simp add: select_UpdateDispatch_def on_dispatch_def Let_def wm_def updatable_def)
  qed
qed

lemma select_update_law:
  assumes ok: "select_ok (ds, p)" and a: "ds a = Some d" and ch: "dispatch_change d d'"
    and upd: "updatable select_map select_refusal p a d d'"
  shows "\<exists>ds' p'. select_UpdateDispatch True a (ds(a \<mapsto> d'), p) = Inr (ds', p') \<and> select_ok (ds', p') \<and>
    select_map p' = (select_map p)(fd d \<mapsto> a) \<and> select_watched p' = (select_watched p)(fd d := watch_of d') \<and>
    same_but_index ds' (ds(a \<mapsto> d'))"
proof -
  note c = dispatch_change_ok [OF ch] and D = select_okD [OF ok]
  define wm where "wm = (if IsNoneEvent d' then map_erase (fd d) (worker_map p) else map_put (fd d) a (worker_map p))"
  note fits = select_update_fits [OF ok a upd]
  from update_sets_run [OF fits, of "modify d'" p] obtain q where q: "update_sets (modify d') (fd d) p = Inr q"
    "(fd d \<in> readfds q, fd d \<in> writefds q) = modify_effect (modify d') (fd d \<in> readfds p, fd d \<in> writefds p)"
    "\<And>g. g \<noteq> fd d \<Longrightarrow> (g \<in> readfds q \<longleftrightarrow> g \<in> readfds p) \<and> (g \<in> writefds q \<longleftrightarrow> g \<in> writefds p)"
    "select_map q = select_map p" "worker_map q = worker_map p" "exceptfds q = exceptfds p" "nfds q = nfds p"
    by metis
  let ?ds = "ds(a \<mapsto> d'\<lparr>index := 0\<rparr>)"
  define p' where "p' = q\<lparr>select_map := (select_map p)(fd d \<mapsto> a), worker_map := wm,
      nfds := (if wm = [] then 1 else fst (last wm) + 1)\<rparr>"
  have run: "select_UpdateDispatch True a (ds(a \<mapsto> d'), p) = Inr (?ds, p')"
    using select_update_run [OF assms q(1,4,5)] unfolding p'_def wm_def .
  have m': "select_map p' = (select_map p)(fd d \<mapsto> a)" by (simp add: p'_def)
  have reg: "select_map p (fd d) = None \<or> select_map p (fd d) = Some a"
    using upd by (auto simp: updatable_def)
  have old: "(fd d \<in> readfds p, fd d \<in> writefds p) = watch_of d"
    using reg D(3) [of "fd d" a] D(4) [of "fd d"] D(2) [OF a] a IsNoneEvent_mask [OF D(1) [OF a]] by auto
  have new: "(fd d \<in> readfds p', fd d \<in> writefds p') = watch_of d'"
    using q(2) old ch by (simp add: p'_def dispatch_change_def)
  have other: "g \<in> readfds p' \<longleftrightarrow> g \<in> readfds p" "g \<in> writefds p' \<longleftrightarrow> g \<in> writefds p" if "g \<noteq> fd d" for g
    using q(3) [OF that] by (simp_all add: p'_def)
  have sorted: "sorted_wrt (<) (map fst wm)"
    by (simp add: wm_def map_put_sorted map_erase_sorted D(6))
  have wf: "map_of wm = worker_for ?ds p'"
  proof
    fix f
    have "select_map p f \<noteq> Some a" if "f \<noteq> fd d" using D(3) [of f a] a that by auto
    then show "map_of wm f = worker_for ?ds p' f"
      by (cases "f = fd d") (auto simp: wm_def map_of_put map_of_erase D(6,7) worker_for_def p'_def
          split: option.splits)
  qed
  have ok': "select_ok (?ds, p')"
    unfolding select_ok_def prod.case
  proof (intro conjI allI impI)
    fix b e assume e: "?ds b = Some e"
    show "dispatch_ok e" using e c D(1) by (auto split: if_splits)
    show "if select_map p' (fd e) = Some b then index e = 0 else index e = -1 \<and> IsNoneEvent e"
    proof (cases "b = a")
      case True
      with e c show ?thesis by (auto simp: m')
    next
      case False
      with e have "ds b = Some e" by simp
      from D(2) [OF this] False reg show ?thesis by (auto simp: m')
    qed
  next
    fix f b assume f: "select_map p' f = Some b"
    show "f < FD_SETSIZE" using f D(9) [of f] fits by (auto simp: m' fd_fits_def split: if_splits)
    show "\<exists>e. ?ds b = Some e \<and> fd e = f \<and> (f \<in> readfds p' \<longleftrightarrow> IsReading e) \<and> (f \<in> writefds p' \<longleftrightarrow> IsWriting e)"
    proof (cases "f = fd d")
      case True
      with f new c show ?thesis by (simp add: p'_def)
    next
      case False
      with f obtain e where "ds b = Some e" "fd e = f" "f \<in> readfds p \<longleftrightarrow> IsReading e" "f \<in> writefds p \<longleftrightarrow> IsWriting e"
        using D(3) [of f b] by (auto simp: p'_def)
      with False a other [OF False] show ?thesis by auto
    qed
  next
    fix f assume "select_map p' f = None"
    then have "f \<noteq> fd d" "select_map p f = None" by (auto simp: p'_def split: if_splits)
    with other D(4) show "f \<notin> readfds p'" "f \<notin> writefds p'" by auto
  next
    show "exceptfds p' = {}" "sorted_wrt (<) (map fst (worker_map p'))" "map_of (worker_map p') = worker_for ?ds p'"
      using D(5) q(6) sorted wf by (simp_all add: p'_def)
    show "\<forall>(f, b) \<in> set (worker_map p'). f < nfds p'"
      using sorted_last [OF sorted] by (fastforce simp: p'_def)
  qed
  have "select_watched p' = (select_watched p)(fd d := watch_of d')"
  proof
    fix f
    have "select_map p f \<noteq> Some a" if "f \<noteq> fd d" using D(3) [of f a] a that by auto
    then show "select_watched p' f = ((select_watched p)(fd d := watch_of d')) f"
      by (auto simp: select_watched_eq [OF ok] select_watched_eq [OF ok'] m' split: option.splits)
  qed
  with run ok' show ?thesis by (intro exI [of _ ?ds] exI [of _ p']) (simp add: p'_def)
qed

lemma select_remove_law:
  assumes ok: "select_ok (ds, p)" and a: "ds a = Some d" and reg: "select_map p (fd d) = Some a"
    and none: "IsNoneEvent d"
  shows "\<exists>ds' p'. select_RemoveDispatch True a (ds, p) = Inr (ds', p') \<and> select_ok (ds', p') \<and>
    select_map p' = (select_map p)(fd d := None) \<and> select_watched p' = select_watched p \<and> same_but_index ds' ds"
proof -
  note D = select_okD [OF ok]
  let ?ds = "ds(a \<mapsto> d\<lparr>index := -1\<rparr>)"
  let ?p = "p\<lparr>select_map := (select_map p)(fd d := None)\<rparr>"
  have w: "fd d \<notin> readfds p" "fd d \<notin> writefds p"
    using D(3) [OF reg] a none IsNoneEvent_mask [OF D(1) [OF a]] by auto
  have wf: "worker_for ?ds ?p = worker_for ds p"
    using D(3) a reg none by (auto simp: worker_for_def fun_eq_iff split: option.splits)
  have "select_ok (?ds, ?p)"
    unfolding select_ok_def prod.case
  proof (intro conjI allI impI)
    fix b e assume e: "?ds b = Some e"
    show "dispatch_ok e" using e D(1) a by (auto split: if_splits)
    show "if select_map ?p (fd e) = Some b then index e = 0 else index e = -1 \<and> IsNoneEvent e"
      using e none reg D(2) [of b e] by (auto split: if_splits)
  next
    fix f b assume f: "select_map ?p f = Some b"
    then have "f \<noteq> fd d" "select_map p f = Some b" by (auto split: if_splits)
    with D(9) show "f < FD_SETSIZE" by blast
    from \<open>select_map p f = Some b\<close> obtain e where "ds b = Some e" "fd e = f" "f \<in> readfds p \<longleftrightarrow> IsReading e" "f \<in> writefds p \<longleftrightarrow> IsWriting e"
      using D(3) by blast
    with a \<open>f \<noteq> fd d\<close> show "\<exists>e. ?ds b = Some e \<and> fd e = f \<and> (f \<in> readfds ?p \<longleftrightarrow> IsReading e) \<and> (f \<in> writefds ?p \<longleftrightarrow> IsWriting e)"
      by auto
  next
    fix f assume "select_map ?p f = None"
    then show "f \<notin> readfds ?p" "f \<notin> writefds ?p" using D(4) [of f] w by (auto split: if_splits)
  qed (use D(5-8) wf in auto)
  then show ?thesis using a reg none
    by (intro exI [of _ ?ds] exI [of _ ?p])
      (auto simp: select_RemoveDispatch_def on_dispatch_def select_watched_def fun_eq_iff)
qed

interpretation select_poller: event_poller "select_UpdateDispatch True" "select_RemoveDispatch True"
  select_map select_watched select_refusal select_ok EventSelect_new
proof
  show "\<exists>d. ds a = Some d \<and> fd d = f \<and> select_watched p f = watch_of d"
    if "select_ok (ds, p)" "select_map p f = Some a" for ds p f a
    using select_okD(3) [OF that] select_watched_eq [OF that(1), of f] that(2) by auto
  show "select_watched p f = (False, False)" if "select_ok (ds, p)" "select_map p f = None" for ds p f
    using select_watched_eq [OF that(1), of f] that(2) by simp
  show "dispatch_ok d" if "select_ok (ds, p)" "ds a = Some d" for ds p a d
    using select_okD(1) [OF that] .
  show "select_ok (Map.empty, EventSelect_new)"
    by (simp add: select_ok_def EventSelect_new_def worker_for_def fun_eq_iff)
  show "select_ok (ds(a \<mapsto> Dispatch_new f), p)" if ok: "select_ok (ds, p)" "ds a = None" "0 \<le> f" for ds p a f
  proof -
    note D = select_okD [OF ok(1)]
    have na: "select_map p g \<noteq> Some a" for g using D(3) [of g a] ok(2) by auto
    then have "worker_for (ds(a \<mapsto> Dispatch_new f)) p = worker_for ds p"
      by (auto simp: worker_for_def fun_eq_iff split: option.splits)
    with D na Dispatch_new_ok [OF ok(3)] IsNoneEvent_mask [of "Dispatch_new f"] show ?thesis
      unfolding select_ok_def by (auto simp: Dispatch_new_def)
  qed
  show "select_ok (ds(a := None), p)"
    if ok: "select_ok (ds, p)" "ds a = Some d" "select_map p (fd d) \<noteq> Some a" for ds p a d
  proof -
    note D = select_okD [OF ok(1)]
    have na: "select_map p g \<noteq> Some a" for g using D(3) [of g a] ok(2,3) by auto
    then have "worker_for (ds(a := None)) p = worker_for ds p"
      by (auto simp: worker_for_def fun_eq_iff split: option.splits)
    with D na show ?thesis unfolding select_ok_def by auto
  qed
qed (use select_update_law select_remove_law select_refusal_law in blast)+

section \<open>Properties\<close>

text \<open>C16: What \<^verbatim>\<open>select\<close> looks at is always what the dispatches ask for: along every sequence of
  operations the read and write sets, cut at \<^verbatim>\<open>nfds_\<close>, contain a descriptor exactly when its
  registered dispatch is reading or writing; registered descriptors are below \<^verbatim>\<open>FD_SETSIZE\<close>; and the exception
  set stays empty, so that \<^verbatim>\<open>Poll\<close> never reports \<^verbatim>\<open>POLLERR\<close> from it. No assertion fails. An operation
  accesses memory outside of the sets in exactly one case: it enables a dispatch with a descriptor that does not
  fit into them; the code has no check, and every such attempt is an access out of bounds.\<close>
theorem select_watches_what_is_asked:
  assumes "dispatch_reach (select_UpdateDispatch True) (select_RemoveDispatch True) select_map EventSelect_new (ds, p)"
  shows "(\<forall>f. select_watched p f = (case select_map p f of None \<Rightarrow> (False, False) | Some a \<Rightarrow> watch_of (the (ds a)))) \<and>
    (\<forall>f a. select_map p f = Some a \<longrightarrow> f < FD_SETSIZE) \<and> exceptfds p = {} \<and>
    (\<forall>r. dispatch_step (select_UpdateDispatch True) (select_RemoveDispatch True) select_map (ds, p) r
       \<longrightarrow> (\<exists>s'. r = Inr s') \<or>
         (\<exists>a d. ds a = Some d \<and> FD_SETSIZE \<le> fd d \<and> r = Inl OutOfBounds \<and>
            r \<in> {EnableRead (select_UpdateDispatch True) a (ds, p), EnableWrite (select_UpdateDispatch True) a (ds, p)})) \<and>
    (\<forall>a d. ds a = Some d \<and> FD_SETSIZE \<le> fd d \<longrightarrow>
       EnableRead (select_UpdateDispatch True) a (ds, p) = Inl OutOfBounds \<and>
       EnableWrite (select_UpdateDispatch True) a (ds, p) = Inl OutOfBounds)"
proof (intro conjI)
  note faults = select_poller.step_faults_iff_refused [OF assms, unfolded select_refusal_def]
    and D = select_okD [OF select_poller.dispatch_reach_inv [OF assms]]
  show "\<forall>f. select_watched p f = (case select_map p f of None \<Rightarrow> (False, False) | Some a \<Rightarrow> watch_of (the (ds a)))"
    by (rule select_poller.watched_is_asked [OF assms])
  show reg: "\<forall>f a. select_map p f = Some a \<longrightarrow> f < FD_SETSIZE" and "exceptfds p = {}" using D(5,9) by blast+
  show "\<forall>r. dispatch_step (select_UpdateDispatch True) (select_RemoveDispatch True) select_map (ds, p) r
     \<longrightarrow> (\<exists>s'. r = Inr s') \<or>
       (\<exists>a d. ds a = Some d \<and> FD_SETSIZE \<le> fd d \<and> r = Inl OutOfBounds \<and>
          r \<in> {EnableRead (select_UpdateDispatch True) a (ds, p), EnableWrite (select_UpdateDispatch True) a (ds, p)})"
    using faults(1) by (metis not_less option.distinct(1) option.inject)
  show "\<forall>a d. ds a = Some d \<and> FD_SETSIZE \<le> fd d \<longrightarrow>
     EnableRead (select_UpdateDispatch True) a (ds, p) = Inl OutOfBounds \<and>
     EnableWrite (select_UpdateDispatch True) a (ds, p) = Inl OutOfBounds"
  proof (intro allI impI)
    fix a d assume d: "ds a = Some d \<and> FD_SETSIZE \<le> fd d"
    then have "select_map p (fd d) = None" using reg by (cases "select_map p (fd d)") auto
    with d faults(2) [rule_format, of a d OutOfBounds] show "EnableRead (select_UpdateDispatch True) a (ds, p) = Inl OutOfBounds \<and>
       EnableWrite (select_UpdateDispatch True) a (ds, p) = Inl OutOfBounds" by auto
  qed
qed

theorem select_watches_what_is_asked_witness:
  "\<exists>ds p. dispatch_reach (select_UpdateDispatch True) (select_RemoveDispatch True) select_map EventSelect_new (ds, p) \<and>
     select_watched p 5 = (True, False)"
proof -
  let ?u = "select_UpdateDispatch True" and ?r = "select_RemoveDispatch True"
  let ?ds = "Map.empty(7 \<mapsto> Dispatch_new 5)"
  have r0: "dispatch_reach ?u ?r select_map EventSelect_new (?ds, EventSelect_new)"
    by (rule dispatch_reach.step [OF dispatch_reach.start dispatch_step.create]) simp_all
  have s: "dispatch_step ?u ?r select_map (?ds, EventSelect_new) (EnableRead ?u 7 (?ds, EventSelect_new))"
    by (rule dispatch_step.enable_read [of _ _ "Dispatch_new 5"]) (simp_all add: Dispatch_new_def EventSelect_new_def)
  obtain ds p where e: "EnableRead ?u 7 (?ds, EventSelect_new) = Inr (ds, p)" "select_map p 5 = Some 7"
      "watch_of (the (ds 7)) = (True, False)"
    by (auto simp: EnableRead_def on_dispatch_def select_UpdateDispatch_def Dispatch_new_def EnableRead_d_def
        EventSelect_new_def update_sets_def FD_SET_def fd_fits_def FD_SETSIZE_def IsReading_def IsWriting_def IsNoneEvent_def event_masks Let_def)
  from dispatch_reach.step [OF r0 s [unfolded e(1)]]
  have r1: "dispatch_reach ?u ?r select_map EventSelect_new (ds, p)" .
  from select_watches_what_is_asked [OF r1, THEN conjunct1, THEN spec, of 5] e(2,3) r1 show ?thesis by auto
qed

text \<open>The select poller does not wait as long as it is told: \<^verbatim>\<open>Poll\<close> puts the milliseconds below
  a second into \<^verbatim>\<open>tv_usec\<close>, a number of microseconds. The wait is the requested one only for whole
  seconds; every other timeout is cut short by the factor 1000 of its fraction.\<close>
theorem select_wait_too_short:
  "fst (select_timeval t) * 1000000 + snd (select_timeval t) + 999 * (t mod 1000) = t * 1000"
proof -
  define q r where "q = t div 1000" and "r = t mod 1000"
  have "t = q * 1000 + r" by (simp add: q_def r_def)
  then show ?thesis
    unfolding select_timeval_def q_def [symmetric] r_def [symmetric] prod.sel by linarith
qed

end
