(* ===== verification/Event_Kqueue.thy ===== *)
theory Event_Kqueue
  imports Dispatch
begin

unbundle bit_operations_syntax

text \<open>
  The kqueue poller, \<^verbatim>\<open>voyager/core/event_kqueue.h\<close> and \<^verbatim>\<open>event_kqueue.cc\<close>. The kernel keeps one
  filter per descriptor and direction, enabled or disabled; \<^verbatim>\<open>kevent\<close> applies a list of changes as
  its manual page says, stopping at the first change that names a missing filter, which the code
  logs. The announced change of a dispatch, its \<^verbatim>\<open>modify_\<close>, decides which change is made; the
  flag \<^verbatim>\<open>add_write_\<close> of the dispatch says whether its write filter exists.
\<close>

section \<open>State and operations\<close>

datatype kfilter = EVFILT_READ | EVFILT_WRITE

datatype kaction = EV_ADD_ENABLE | EV_DELETE | EV_ENABLE | EV_DISABLE

type_synonym kfilters = "int \<times> kfilter \<rightharpoonup> bool \<times> addr"

record kqueue =
  kqueue_map :: "int \<rightharpoonup> addr"
  kevents_size :: nat
  kfilters :: kfilters
  klogged :: nat

definition kInitKqueueFdSize :: nat where "kInitKqueueFdSize = 16"

definition EventKqueue_new :: kqueue where
  "EventKqueue_new = \<lparr>kqueue_map = Map.empty, kevents_size = kInitKqueueFdSize, kfilters = Map.empty, klogged = 0\<rparr>"

text \<open>One change of the list, and \<^verbatim>\<open>kevent\<close>: the filters afterwards, and whether it succeeded.\<close>

fun kevent_change :: "kfilter \<times> kaction \<Rightarrow> int \<Rightarrow> addr \<Rightarrow> kfilters \<Rightarrow> kfilters option" where
  "kevent_change (flt, EV_ADD_ENABLE) f a k = Some (k((f, flt) \<mapsto> (True, a)))"
| "kevent_change (flt, EV_DELETE) f a k = (if k (f, flt) = None then None else Some (k((f, flt) := None)))"
| "kevent_change (flt, EV_ENABLE) f a k =
     (case k (f, flt) of None \<Rightarrow> None | Some (_, b) \<Rightarrow> Some (k((f, flt) \<mapsto> (True, a))))"
| "kevent_change (flt, EV_DISABLE) f a k =
     (case k (f, flt) of None \<Rightarrow> None | Some (_, b) \<Rightarrow> Some (k((f, flt) \<mapsto> (False, a))))"

fun kevent_apply :: "(kfilter \<times> kaction) list \<Rightarrow> int \<Rightarrow> addr \<Rightarrow> kfilters \<Rightarrow> kfilters \<times> bool" where
  "kevent_apply [] f a k = (k, True)"
| "kevent_apply (c # cs) f a k =
     (case kevent_change c f a k of None \<Rightarrow> (k, False) | Some k' \<Rightarrow> kevent_apply cs f a k')"

text \<open>The changes set up by the \<^verbatim>\<open>switch\<close>; \<^verbatim>\<open>kNoModify\<close> is an assertion failure.\<close>

definition kqueue_changes :: "ModifyEvent \<Rightarrow> (kfilter \<times> kaction) list res" where
  "kqueue_changes m =
     (case m of
        kAddRead \<Rightarrow> Inr [(EVFILT_READ, EV_ADD_ENABLE)]
      | kAddWrite \<Rightarrow> Inr [(EVFILT_WRITE, EV_ADD_ENABLE)]
      | kDeleteRead \<Rightarrow> Inr [(EVFILT_READ, EV_DELETE)]
      | kDeleteWrite \<Rightarrow> Inr [(EVFILT_WRITE, EV_DELETE)]
      | kEnableWrite \<Rightarrow> Inr [(EVFILT_WRITE, EV_ENABLE)]
      | kDisableWrite \<Rightarrow> Inr [(EVFILT_WRITE, EV_DISABLE)]
      | kDeleteAll \<Rightarrow> Inr [(EVFILT_READ, EV_DELETE), (EVFILT_WRITE, EV_DELETE)]
      | kNoModify \<Rightarrow> Inl AssertionFailed)"

definition kqueue_UpdateDispatch :: "bool \<Rightarrow> kqueue poller_op" where
  "kqueue_UpdateDispatch in_loop a = (\<lambda>(ds, p). guard Fatal in_loop (on_dispatch a ds (\<lambda>d.
     rbind (kqueue_changes (modify d)) (\<lambda>ev.
       let (k, fin) = kevent_apply ev (fd d) a (kfilters p);
           p = p\<lparr>kfilters := k, klogged := (if fin then klogged p else klogged p + 1)\<rparr>
       in if index d = -1
          then guard AssertionFailed (kqueue_map p (fd d) = None)
                 (Inr (ds(a \<mapsto> d\<lparr>index := 0\<rparr>), p\<lparr>kqueue_map := (kqueue_map p)(fd d \<mapsto> a)\<rparr>))
          else guard AssertionFailed (kqueue_map p (fd d) \<noteq> None) (Inr (ds, p))))))"

definition kqueue_RemoveDispatch :: "bool \<Rightarrow> kqueue poller_op" where
  "kqueue_RemoveDispatch in_loop a = (\<lambda>(ds, p). guard Fatal in_loop (on_dispatch a ds (\<lambda>d.
     guard AssertionFailed (kqueue_map p (fd d) = Some a) (
     guard AssertionFailed (IsNoneEvent d) (
       Inr (ds(a \<mapsto> d\<lparr>index := -1\<rparr>), p\<lparr>kqueue_map := (kqueue_map p)(fd d := None)\<rparr>))))))"

text \<open>\<^verbatim>\<open>Poll\<close>: the timeout handed to \<^verbatim>\<open>kevent\<close>, and what is fin with the events it returns (\<open>None\<close>:
  an error). An event carries the pointer of its filter, and an error flag or its filter.\<close>

definition kqueue_timespec :: "nat \<Rightarrow> nat \<times> nat" where
  "kqueue_timespec timeout = (timeout div 1000, timeout mod 1000 * 1000 * 1000)"

definition kevent_revents :: "bool \<Rightarrow> kfilter \<Rightarrow> u32 \<Rightarrow> u32" where
  "kevent_revents err flt r =
     (if err then r OR POLLERR else case flt of EVFILT_READ \<Rightarrow> r OR POLLIN | EVFILT_WRITE \<Rightarrow> r OR POLLOUT)"

fun collect_kevents :: "(bool \<times> kfilter \<times> addr) list \<Rightarrow> dstore \<Rightarrow> addr list \<Rightarrow> (dstore \<times> addr list) res" where
  "collect_kevents [] ds acc = Inr (ds, acc)"
| "collect_kevents ((err, flt, a) # evs) ds acc =
     on_dispatch a ds (\<lambda>d. collect_kevents evs (ds(a \<mapsto> d\<lparr>revents := kevent_revents err flt (revents d)\<rparr>)) (acc @ [a]))"

definition kqueue_Poll ::
  "(bool \<times> kfilter \<times> addr) list option \<Rightarrow> addr list \<Rightarrow> dstore \<times> kqueue \<Rightarrow> (addr list \<times> dstore \<times> kqueue) res" where
  "kqueue_Poll answer dispatches = (\<lambda>(ds, p).
     case answer of
       None \<Rightarrow> Inr (dispatches, ds, p)
     | Some evs \<Rightarrow> rbind (collect_kevents evs ds dispatches) (\<lambda>(ds, dispatches).
         Inr (dispatches, ds,
              if length evs = kevents_size p then p\<lparr>kevents_size := kevents_size p * 2\<rparr> else p)))"

section \<open>Invariant\<close>

definition kqueue_watched :: "kqueue \<Rightarrow> int \<Rightarrow> bool \<times> bool" where
  "kqueue_watched p f =
     (kfilters p (f, EVFILT_READ) \<noteq> None,
      case kfilters p (f, EVFILT_WRITE) of None \<Rightarrow> False | Some (en, _) \<Rightarrow> en)"

text \<open>The filters of a registered dispatch: a read filter, enabled, when it reads; a write filter
  when it was added, enabled when the dispatch writes.\<close>

definition filters_for :: "kfilters \<Rightarrow> addr \<Rightarrow> dispatch \<Rightarrow> bool" where
  "filters_for k a d \<longleftrightarrow>
     k (fd d, EVFILT_READ) = (if IsReading d then Some (True, a) else None) \<and>
     k (fd d, EVFILT_WRITE) = (if add_write d then Some (IsWriting d, a) else None)"

definition kqueue_ok :: "dstore \<times> kqueue \<Rightarrow> bool" where
  "kqueue_ok s \<longleftrightarrow> (case s of (ds, p) \<Rightarrow>
     (\<forall>a d. ds a = Some d \<longrightarrow> dispatch_ok d \<and>
        (if kqueue_map p (fd d) = Some a then index d = 0 \<and> filters_for (kfilters p) a d
         else index d = -1 \<and> IsNoneEvent d \<and> \<not> add_write d)) \<and>
     (\<forall>f a. kqueue_map p f = Some a \<longrightarrow> (\<exists>d. ds a = Some d \<and> fd d = f)) \<and>
     (\<forall>f. kqueue_map p f = None \<longrightarrow> kfilters p (f, EVFILT_READ) = None \<and> kfilters p (f, EVFILT_WRITE) = None) \<and>
     0 < kevents_size p)"

lemma kqueue_okD:
  assumes "kqueue_ok (ds, p)"
  shows "\<And>a d. ds a = Some d \<Longrightarrow> dispatch_ok d"
    and "\<And>a d. ds a = Some d \<Longrightarrow> if kqueue_map p (fd d) = Some a then index d = 0 \<and> filters_for (kfilters p) a d
         else index d = -1 \<and> IsNoneEvent d \<and> \<not> add_write d"
    and "\<And>f a. kqueue_map p f = Some a \<Longrightarrow> \<exists>d. ds a = Some d \<and> fd d = f"
    and "\<And>f. kqueue_map p f = None \<Longrightarrow> kfilters p (f, EVFILT_READ) = None \<and> kfilters p (f, EVFILT_WRITE) = None"
    and "0 < kevents_size p"
  using assms by (auto simp: kqueue_ok_def)

text \<open>Applying the changes of one update leads from the filters of the old object state to those of
  the new one, and touches no other descriptor.\<close>

lemma kqueue_changes_effect:
  assumes ch: "dispatch_change d d'" and f: "filters_for k a d"
  shows "\<exists>ev k' fin. kqueue_changes (modify d') = Inr ev \<and> kevent_apply ev (fd d) a k = (k', fin) \<and>
    filters_for k' a d' \<and> (\<forall>g flt. g \<noteq> fd d \<longrightarrow> k' (g, flt) = k (g, flt))"
  using ch f
  by (cases "modify d'"; cases "IsReading d"; cases "add_write d"; cases "IsWriting d";
      auto simp: dispatch_change_def kqueue_changes_def filters_for_def dispatch_ok_def)

lemma filters_none: "IsNoneEvent d \<Longrightarrow> \<not> add_write d \<Longrightarrow> dispatch_ok d \<Longrightarrow> filters_for k a d \<longleftrightarrow>
    k (fd d, EVFILT_READ) = None \<and> k (fd d, EVFILT_WRITE) = None"
  by (simp add: filters_for_def IsNoneEvent_mask)

lemma filters_watch: "filters_for (kfilters p) a d \<Longrightarrow> dispatch_ok d \<Longrightarrow> kqueue_watched p (fd d) = watch_of d"
  by (auto simp: filters_for_def kqueue_watched_def dispatch_ok_def)

lemma filters_for_cong:
  "k (fd d, EVFILT_READ) = k' (fd d, EVFILT_READ) \<Longrightarrow> k (fd d, EVFILT_WRITE) = k' (fd d, EVFILT_WRITE) \<Longrightarrow>
     filters_for k a d \<longleftrightarrow> filters_for k' a d"
  by (simp add: filters_for_def)

lemma filters_for_index [simp]: "filters_for k a (d\<lparr>index := i\<rparr>) = filters_for k a d"
  by (simp add: filters_for_def)

lemma kqueue_update_law:
  assumes ok: "kqueue_ok (ds, p)" and a: "ds a = Some d" and ch: "dispatch_change d d'"
    and upd: "updatable kqueue_map no_refusal p a d d'"
  shows "\<exists>ds' p'. kqueue_UpdateDispatch True a (ds(a \<mapsto> d'), p) = Inr (ds', p') \<and> kqueue_ok (ds', p') \<and>
    kqueue_map p' = (kqueue_map p)(fd d \<mapsto> a) \<and> kqueue_watched p' = (kqueue_watched p)(fd d := watch_of d') \<and>
    same_but_index ds' (ds(a \<mapsto> d'))"
proof -
  note c = dispatch_change_ok [OF ch] and D = kqueue_okD [OF ok]
  have reg: "kqueue_map p (fd d) = None \<or> kqueue_map p (fd d) = Some a"
    using upd by (auto simp: updatable_def)
  have idx: "if kqueue_map p (fd d) = Some a then index d = 0 else index d = -1"
    using D(2) [OF a] by (auto split: if_splits)
  have "filters_for (kfilters p) a d"
    using reg D(2) [OF a] D(4) [of "fd d"] filters_none [OF _ _ D(1) [OF a]] by (auto split: if_splits)
  from kqueue_changes_effect [OF ch this] obtain ev k fin where
    k: "kqueue_changes (modify d') = Inr ev" "kevent_apply ev (fd d) a (kfilters p) = (k, fin)"
      "filters_for k a d'" "\<And>g flt. g \<noteq> fd d \<Longrightarrow> k (g, flt) = kfilters p (g, flt)" by blast
  let ?ds = "ds(a \<mapsto> d'\<lparr>index := 0\<rparr>)"
  define p' where "p' = p\<lparr>kfilters := k, klogged := (if fin then klogged p else klogged p + 1),
    kqueue_map := (kqueue_map p)(fd d \<mapsto> a)\<rparr>"
  have p': "kqueue_map p' = (kqueue_map p)(fd d \<mapsto> a)" "kfilters p' = k" "kevents_size p' = kevents_size p"
    by (simp_all add: p'_def)
  have run: "kqueue_UpdateDispatch True a (ds(a \<mapsto> d'), p) = Inr (?ds, p')"
  proof (cases "kqueue_map p (fd d) = Some a")
    case True
    have idem: "d'\<lparr>index := 0\<rparr> = d'" using True idx c by (cases d') simp
    have "q\<lparr>kqueue_map := (kqueue_map p)(fd d \<mapsto> a)\<rparr> = q" if "kqueue_map q = kqueue_map p" for q :: kqueue
      using True that by (cases q) (simp add: fun_upd_idem)
    then show ?thesis
      unfolding idem using True idx c k(1,2)
      by (simp add: kqueue_UpdateDispatch_def on_dispatch_def Let_def p'_def)
  next
    case False
    then show ?thesis using reg idx c k(1,2)
      by (simp add: kqueue_UpdateDispatch_def on_dispatch_def Let_def p'_def)
  qed
  have ok': "kqueue_ok (?ds, p')"
    unfolding kqueue_ok_def prod.case
  proof (intro conjI allI impI)
    fix b e assume e: "?ds b = Some e"
    show "dispatch_ok e" using e c D(1) by (auto split: if_splits)
    show "if kqueue_map p' (fd e) = Some b then index e = 0 \<and> filters_for (kfilters p') b e
      else index e = -1 \<and> IsNoneEvent e \<and> \<not> add_write e"
    proof (cases "b = a")
      case True
      with e c k(3) show ?thesis by (auto simp: p')
    next
      case False
      with e have eb: "ds b = Some e" by simp
      have "fd e \<noteq> fd d \<Longrightarrow> filters_for k b e = filters_for (kfilters p) b e"
        using k(4) by (intro filters_for_cong) auto
      with D(2) [OF eb] False reg show ?thesis by (auto simp: p')
    qed
  next
    fix f b assume "kqueue_map p' f = Some b"
    then show "\<exists>e. ?ds b = Some e \<and> fd e = f"
      using D(3) [of f b] a c by (auto simp: p' split: if_splits)
  next
    fix f assume "kqueue_map p' f = None"
    then show "kfilters p' (f, EVFILT_READ) = None" "kfilters p' (f, EVFILT_WRITE) = None"
      using D(4) [of f] k(4) [of f] by (auto simp: p' split: if_splits)
  qed (use D(5) p' in simp)
  have "kqueue_watched p' = (kqueue_watched p)(fd d := watch_of d')"
  proof
    fix f
    show "kqueue_watched p' f = ((kqueue_watched p)(fd d := watch_of d')) f"
      using filters_watch [of p' a d'] k(3,4) c by (cases "f = fd d") (auto simp: p' kqueue_watched_def)
  qed
  with run ok' p' show ?thesis by (intro exI [of _ ?ds] exI [of _ p']) simp
qed

lemma kqueue_remove_law:
  assumes ok: "kqueue_ok (ds, p)" and a: "ds a = Some d" and reg: "kqueue_map p (fd d) = Some a"
    and none: "IsNoneEvent d" "\<not> add_write d"
  shows "\<exists>ds' p'. kqueue_RemoveDispatch True a (ds, p) = Inr (ds', p') \<and> kqueue_ok (ds', p') \<and>
    kqueue_map p' = (kqueue_map p)(fd d := None) \<and> kqueue_watched p' = kqueue_watched p \<and> same_but_index ds' ds"
proof -
  note D = kqueue_okD [OF ok]
  let ?ds = "ds(a \<mapsto> d\<lparr>index := -1\<rparr>)"
  let ?p = "p\<lparr>kqueue_map := (kqueue_map p)(fd d := None)\<rparr>"
  have w: "kfilters p (fd d, EVFILT_READ) = None" "kfilters p (fd d, EVFILT_WRITE) = None"
    using D(2) [OF a] reg filters_none [OF none D(1) [OF a]] by auto
  have "kqueue_ok (?ds, ?p)"
    unfolding kqueue_ok_def prod.case
  proof (intro conjI allI impI)
    fix b e assume e: "?ds b = Some e"
    show "dispatch_ok e" using e D(1) a by (auto split: if_splits)
    show "if kqueue_map ?p (fd e) = Some b then index e = 0 \<and> filters_for (kfilters ?p) b e
      else index e = -1 \<and> IsNoneEvent e \<and> \<not> add_write e"
      using e none reg D(2) [of b e] by (auto split: if_splits)
  next
    fix f b assume "kqueue_map ?p f = Some b"
    then show "\<exists>e. ?ds b = Some e \<and> fd e = f"
      using D(3) [of f b] a by (auto split: if_splits)
  next
    fix f assume "kqueue_map ?p f = None"
    then show "kfilters ?p (f, EVFILT_READ) = None" "kfilters ?p (f, EVFILT_WRITE) = None"
      using D(4) [of f] w by (auto split: if_splits)
  qed (use D(5) in simp)
  then show ?thesis using a reg none
    by (intro exI [of _ ?ds] exI [of _ ?p])
      (auto simp: kqueue_RemoveDispatch_def on_dispatch_def kqueue_watched_def fun_eq_iff)
qed

interpretation kqueue_poller: event_poller "kqueue_UpdateDispatch True" "kqueue_RemoveDispatch True"
  kqueue_map kqueue_watched no_refusal kqueue_ok EventKqueue_new
proof
  show "\<exists>d. ds a = Some d \<and> fd d = f \<and> kqueue_watched p f = watch_of d"
    if ok: "kqueue_ok (ds, p)" "kqueue_map p f = Some a" for ds p f a
    using kqueue_okD(3) [OF ok] kqueue_okD(1,2) [OF ok(1), of a] filters_watch [of p a] ok(2) by fastforce
  show "kqueue_watched p f = (False, False)" if "kqueue_ok (ds, p)" "kqueue_map p f = None" for ds p f
    using kqueue_okD(4) [OF that] by (simp add: kqueue_watched_def)
  show "dispatch_ok d" if "kqueue_ok (ds, p)" "ds a = Some d" for ds p a d
    using kqueue_okD(1) [OF that] .
  show "kqueue_ok (Map.empty, EventKqueue_new)"
    by (simp add: kqueue_ok_def EventKqueue_new_def kInitKqueueFdSize_def)
  show "kqueue_ok (ds(a \<mapsto> Dispatch_new f), p)" if ok: "kqueue_ok (ds, p)" "ds a = None" "0 \<le> f" for ds p a f
  proof -
    note D = kqueue_okD [OF ok(1)]
    have na: "kqueue_map p g \<noteq> Some a" for g using D(3) [of g a] ok(2) by auto
    with D Dispatch_new_ok [OF ok(3)] IsNoneEvent_mask [of "Dispatch_new f"] show ?thesis
      unfolding kqueue_ok_def by (auto simp: Dispatch_new_def)
  qed
  show "kqueue_ok (ds(a := None), p)"
    if ok: "kqueue_ok (ds, p)" "ds a = Some d" "kqueue_map p (fd d) \<noteq> Some a" for ds p a d
  proof -
    note D = kqueue_okD [OF ok(1)]
    have na: "kqueue_map p g \<noteq> Some a" for g using D(3) [of g a] ok(2,3) by auto
    with D show ?thesis unfolding kqueue_ok_def by auto
  qed
qed (use kqueue_update_law kqueue_remove_law in \<open>auto simp: no_refusal_def\<close>)

section \<open>Properties\<close>

text \<open>C17: The kqueue filters are always what the dispatches ask for: along every sequence of
  operations a descriptor has a read filter exactly when its registered dispatch reads, and an
  enabled write filter exactly when it writes, although writing is switched by enabling and
  disabling a filter that is added once; no assertion fails.\<close>
theorem kqueue_watches_what_is_asked:
  assumes "dispatch_reach (kqueue_UpdateDispatch True) (kqueue_RemoveDispatch True) kqueue_map EventKqueue_new (ds, p)"
  shows "(\<forall>f. kqueue_watched p f = (case kqueue_map p f of None \<Rightarrow> (False, False) | Some a \<Rightarrow> watch_of (the (ds a)))) \<and>
    (\<forall>r. dispatch_step (kqueue_UpdateDispatch True) (kqueue_RemoveDispatch True) kqueue_map (ds, p) r
       \<longrightarrow> (\<exists>s'. r = Inr s'))"
  using kqueue_poller.watched_is_asked [OF assms] kqueue_poller.step_faults_iff_refused(1) [OF assms]
  by (simp add: no_refusal_def)

theorem kqueue_watches_what_is_asked_witness:
  "\<exists>ds p. dispatch_reach (kqueue_UpdateDispatch True) (kqueue_RemoveDispatch True) kqueue_map EventKqueue_new (ds, p) \<and>
     kqueue_watched p 5 = (False, True)"
proof -
  let ?u = "kqueue_UpdateDispatch True" and ?r = "kqueue_RemoveDispatch True"
  let ?ds = "Map.empty(7 \<mapsto> Dispatch_new 5)"
  have r0: "dispatch_reach ?u ?r kqueue_map EventKqueue_new (?ds, EventKqueue_new)"
    by (rule dispatch_reach.step [OF dispatch_reach.start dispatch_step.create]) simp_all
  have s: "dispatch_step ?u ?r kqueue_map (?ds, EventKqueue_new) (EnableWrite ?u 7 (?ds, EventKqueue_new))"
    by (rule dispatch_step.enable_write [of _ _ "Dispatch_new 5"]) (simp_all add: Dispatch_new_def EventKqueue_new_def)
  obtain ds p where e: "EnableWrite ?u 7 (?ds, EventKqueue_new) = Inr (ds, p)" "kqueue_map p 5 = Some 7"
      "watch_of (the (ds 7)) = (False, True)"
    by (auto simp: EnableWrite_def on_dispatch_def kqueue_UpdateDispatch_def Dispatch_new_def EnableWrite_d_def
        EventKqueue_new_def kqueue_changes_def IsReading_def IsWriting_def event_masks Let_def)
  from dispatch_reach.step [OF r0 s [unfolded e(1)]]
  have r1: "dispatch_reach ?u ?r kqueue_map EventKqueue_new (ds, p)" .
  from kqueue_watches_what_is_asked [OF r1] e(2,3) r1 show ?thesis by fastforce
qed

end
