(* ===== verification/Timer_List.thy ===== *)
theory Timer_List
  imports Voyager_Prelude "HOL-Library.Product_Lexorder"
begin

text \<open>
  The timers of \<^verbatim>\<open>voyager/core/timerlist.h\<close> and \<^verbatim>\<open>timerlist.cc\<close>. A timer is a heap object, named
  by its address; the ordered set \<^verbatim>\<open>timers_\<close> of pairs (expiry, address) is a strictly sorted list
  over the lexicographic order, as \<^verbatim>\<open>std::set\<close> keeps it. A timer callback is user code: a
  parameter that changes a user state and answers with the timer operations it performs.
  A fresh address for \<^verbatim>\<open>new\<close> comes from the parameter \<open>alloc\<close>, which may reuse the addresses
  of deleted timers. A read through the address of a deleted timer is a fault.
\<close>

section \<open>State\<close>

type_synonym addr = nat
type_synonym timer_id = "u64 \<times> addr"

record 'c timer =
  ms_value :: u64
  ms_interval :: u64
  timerproc_cb :: 'c

record 'c timer_list =
  last_time_out :: u64
  timer_ptrs :: "addr set"
  timers :: "timer_id list"
  heap :: "addr \<rightharpoonup> 'c timer"

text \<open>\<^verbatim>\<open>std::set::insert\<close> and \<^verbatim>\<open>std::set::erase\<close> by key.\<close>

abbreviation set_insert :: "timer_id \<Rightarrow> timer_id list \<Rightarrow> timer_id list" where
  "set_insert \<equiv> insort_insert"

abbreviation set_erase :: "timer_id \<Rightarrow> timer_id list \<Rightarrow> timer_id list" where
  "set_erase \<equiv> remove1"

section \<open>Operations\<close>

definition TimerList_new :: "u64 \<Rightarrow> 'c timer_list" where
  "TimerList_new now = \<lparr>last_time_out = now, timer_ptrs = {}, timers = [], heap = Map.empty\<rparr>"

text \<open>The first half of \<^verbatim>\<open>Insert\<close>, in the calling thread: \<^verbatim>\<open>new Timer\<close>, and the id returned.\<close>

definition new_timer :: "addr \<Rightarrow> u64 \<Rightarrow> u64 \<Rightarrow> 'c \<Rightarrow> 'c timer_list \<Rightarrow> timer_id \<times> 'c timer_list" where
  "new_timer p value interval cb s =
     ((value, p), s\<lparr>heap := (heap s)(p \<mapsto> \<lparr>ms_value = value, ms_interval = interval, timerproc_cb = cb\<rparr>)\<rparr>)"

text \<open>\<^verbatim>\<open>AssertInMyLoop\<close> aborts outside the loop's thread: the flag \<open>in_loop\<close>.\<close>

definition InsertInLoop :: "bool \<Rightarrow> timer_id \<Rightarrow> 'c timer_list \<Rightarrow> 'c timer_list res" where
  "InsertInLoop in_loop timer s = guard Fatal in_loop
     (Inr (s\<lparr>timers := set_insert timer (timers s), timer_ptrs := insert (snd timer) (timer_ptrs s)\<rparr>))"

definition EraseInLoop :: "bool \<Rightarrow> timer_id \<Rightarrow> 'c timer_list \<Rightarrow> 'c timer_list res" where
  "EraseInLoop in_loop timer s = guard Fatal in_loop
     (if snd timer \<in> timer_ptrs s then
        (case heap s (snd timer) of
           None \<Rightarrow> Inl UseAfterFree
         | Some t \<Rightarrow> Inr (s\<lparr>timers := set_erase (ms_value t, snd timer) (timers s),
                           heap := (heap s)(snd timer := None),
                           timer_ptrs := timer_ptrs s - {snd timer}\<rparr>))
      else Inr s)"

text \<open>\<^verbatim>\<open>Insert\<close> and \<^verbatim>\<open>Erase\<close> called in the loop's own thread, where \<^verbatim>\<open>RunInLoop\<close> runs the closure
  at once.\<close>

definition Insert ::
  "(addr set \<Rightarrow> addr) \<Rightarrow> u64 \<Rightarrow> u64 \<Rightarrow> 'c \<Rightarrow> 'c timer_list \<Rightarrow> (timer_id \<times> 'c timer_list) res" where
  "Insert alloc value interval cb s =
     (let (timer, s) = new_timer (alloc (dom (heap s))) value interval cb s
      in rbind (InsertInLoop True timer s) (\<lambda>s. Inr (timer, s)))"

definition Erase :: "timer_id \<Rightarrow> 'c timer_list \<Rightarrow> 'c timer_list res" where
  "Erase timer s = EraseInLoop True timer s"

text \<open>The result \<^verbatim>\<open>-1\<close> of an empty list is the largest 64-bit value.\<close>

definition TimeoutMs :: "bool \<Rightarrow> u64 \<Rightarrow> 'c timer_list \<Rightarrow> u64 res" where
  "TimeoutMs in_loop now s = guard Fatal in_loop (Inr
     (case timers s of
        [] \<Rightarrow> -1
      | (v, p) # _ \<Rightarrow> if now < last_time_out s then 0 else if v \<le> now then 0 else v - now))"

text \<open>When the clock was set back by \<open>diff\<close>, every expiry moves back by as much, and not below zero.\<close>

definition shift_value :: "u64 \<Rightarrow> u64 \<Rightarrow> u64" where
  "shift_value diff v = (if v > diff then v - diff else 0)"

fun shift_timers ::
  "u64 \<Rightarrow> timer_id list \<Rightarrow> timer_id list \<Rightarrow> (addr \<rightharpoonup> 'c timer) \<Rightarrow> (timer_id list \<times> (addr \<rightharpoonup> 'c timer)) res" where
  "shift_timers diff [] acc h = Inr (acc, h)"
| "shift_timers diff ((v, p) # rest) acc h =
     (case h p of
        None \<Rightarrow> Inl UseAfterFree
      | Some t \<Rightarrow> shift_timers diff rest (set_insert (shift_value diff v, p) acc)
                   (h(p \<mapsto> t\<lparr>ms_value := shift_value diff v\<rparr>)))"

text \<open>What a timer callback may do to the list while it runs.\<close>

datatype 'c timer_action = InsertTimer u64 u64 'c | EraseTimer timer_id

fun exec_actions ::
  "(addr set \<Rightarrow> addr) \<Rightarrow> 'c timer_action list \<Rightarrow> 'c timer_list \<Rightarrow> 'c timer_list res" where
  "exec_actions alloc [] s = Inr s"
| "exec_actions alloc (InsertTimer v i cb # as) s =
     rbind (Insert alloc v i cb s) (\<lambda>(timer, s). exec_actions alloc as s)"
| "exec_actions alloc (EraseTimer timer # as) s = rbind (Erase timer s) (exec_actions alloc as)"

text \<open>The timer at the head of the set leaves it: a periodic one is armed again, a one-shot one is
  deleted.\<close>

definition take_due :: "u64 \<Rightarrow> addr \<Rightarrow> timer_id list \<Rightarrow> 'c timer \<Rightarrow> 'c timer_list \<Rightarrow> 'c timer_list" where
  "take_due ms_now p rest t s =
     (if ms_interval t > 0 then
        let t' = t\<lparr>ms_value := ms_now + ms_interval t\<rparr>
        in s\<lparr>heap := (heap s)(p \<mapsto> t'), timers := set_insert (ms_value t', p) rest\<rparr>
      else s\<lparr>heap := (heap s)(p := None), timers := rest, timer_ptrs := timer_ptrs s - {p}\<rparr>)"

text \<open>The loop of \<^verbatim>\<open>RunTimerProcs\<close>, which user callbacks may keep from ending: the first argument
  bounds its rounds, and \<open>None\<close> says that the bound was reached. The result lists the timers in
  the order they fired.\<close>

fun run_due ::
  "nat \<Rightarrow> (addr set \<Rightarrow> addr) \<Rightarrow> ('c \<Rightarrow> 'w \<Rightarrow> 'w \<times> 'c timer_action list) \<Rightarrow> u64 \<Rightarrow> 'w \<Rightarrow> 'c timer_list
     \<Rightarrow> ('w \<times> 'c timer_list \<times> addr list) res option" where
  "run_due 0 alloc user ms_now w s = None"
| "run_due (Suc n) alloc user ms_now w s =
     (case timers s of
        [] \<Rightarrow> Some (Inr (w, s, []))
      | (v, p) # rest \<Rightarrow>
          if v \<le> ms_now then
            (case heap s p of
               None \<Rightarrow> Some (Inl UseAfterFree)
             | Some t \<Rightarrow>
                 (let (w, acts) = user (timerproc_cb t) w in
                  case exec_actions alloc acts (take_due ms_now p rest t s) of
                    Inl e \<Rightarrow> Some (Inl e)
                  | Inr s \<Rightarrow> map_option (\<lambda>r. rbind r (\<lambda>(w, s, fired). Inr (w, s, p # fired)))
                              (run_due n alloc user ms_now w s)))
          else Some (Inr (w, s, [])))"

definition RunTimerProcs ::
  "nat \<Rightarrow> bool \<Rightarrow> (addr set \<Rightarrow> addr) \<Rightarrow> ('c \<Rightarrow> 'w \<Rightarrow> 'w \<times> 'c timer_action list) \<Rightarrow> u64 \<Rightarrow> 'w \<Rightarrow> 'c timer_list
     \<Rightarrow> ('w \<times> 'c timer_list \<times> addr list) res option" where
  "RunTimerProcs fuel in_loop alloc user ms_now w s =
     (if \<not> in_loop then Some (Inl Fatal)
      else if timers s = [] then Some (Inr (w, s, []))
      else
        (case (if ms_now < last_time_out s
               then shift_timers (last_time_out s - ms_now) (timers s) [] (heap s)
               else Inr (timers s, heap s)) of
           Inl e \<Rightarrow> Some (Inl e)
         | Inr (ts, h) \<Rightarrow>
             run_due fuel alloc user ms_now w (s\<lparr>timers := ts, heap := h, last_time_out := ms_now\<rparr>)))"

section \<open>Invariant\<close>

text \<open>
  The ordered set is sorted without duplicates; its addresses are those of \<^verbatim>\<open>timer_ptrs_\<close>, each
  once; and each points to a live timer whose \<^verbatim>\<open>ms_value\<close> is the expiry the set has for it.
\<close>

definition timer_list_ok :: "'c timer_list \<Rightarrow> bool" where
  "timer_list_ok s \<longleftrightarrow>
     sorted (timers s) \<and> distinct (map snd (timers s)) \<and> set (map snd (timers s)) = timer_ptrs s \<and>
     (\<forall>(v, p) \<in> set (timers s). \<exists>t. heap s p = Some t \<and> ms_value t = v) \<and> finite (dom (heap s))"

definition fresh_alloc :: "(addr set \<Rightarrow> addr) \<Rightarrow> bool" where
  "fresh_alloc alloc \<longleftrightarrow> (\<forall>S. finite S \<longrightarrow> alloc S \<notin> S)"

subsection \<open>Ordered sets of ids\<close>

lemma distinct_map_insort:
  "distinct (map f (insort x xs)) \<longleftrightarrow> f x \<notin> f ` set xs \<and> distinct (map f xs)"
  by (induction xs) (auto simp: set_insort_key)

lemma distinct_map_remove1: "distinct (map f xs) \<Longrightarrow> distinct (map f (remove1 x xs))"
  by (induction xs) (auto dest: notin_set_remove1 in_set_remove1 [THEN iffD1, rotated])

lemma snd_fresh: "p \<notin> snd ` set ts \<Longrightarrow> (v, p) \<notin> set ts"
  by force

lemma set_insert_fresh:
  assumes "sorted ts" and "distinct (map snd ts)" and "p \<notin> snd ` set ts"
  shows "sorted (set_insert (v, p) ts)" and "distinct (map snd (set_insert (v, p) ts))"
    and "set (set_insert (v, p) ts) = insert (v, p) (set ts)"
  using assms snd_fresh [OF assms(3), of v]
  by (simp_all add: set_insort_key insort_insert_insort distinct_map_insort sorted_insort)

lemma set_erase_snd:
  assumes "distinct (map snd ts)" and "(v, p) \<in> set ts"
  shows "snd ` set (set_erase (v, p) ts) = snd ` set ts - {p}"
    and "\<And>u q. (u, q) \<in> set (set_erase (v, p) ts) \<longleftrightarrow> (u, q) \<in> set ts \<and> q \<noteq> p"
proof -
  have "distinct ts" using assms(1) by (simp add: distinct_map)
  then have set: "set (set_erase (v, p) ts) = set ts - {(v, p)}" by (rule set_remove1_eq)
  have inj: "(u, p) \<in> set ts \<Longrightarrow> u = v" for u
    using assms by (auto simp: distinct_map dest!: inj_onD [of snd _ "(v, p)" "(u, p)"])
  show "snd ` set (set_erase (v, p) ts) = snd ` set ts - {p}"
    unfolding set using inj by force
  show "(u, q) \<in> set (set_erase (v, p) ts) \<longleftrightarrow> (u, q) \<in> set ts \<and> q \<noteq> p" for u q
    unfolding set using inj by auto
qed

subsection \<open>Every operation preserves the invariant\<close>

lemma timer_list_okD:
  assumes "timer_list_ok s"
  shows "sorted (timers s)" "distinct (map snd (timers s))" "timer_ptrs s = snd ` set (timers s)"
    "\<And>v p. (v, p) \<in> set (timers s) \<Longrightarrow> \<exists>t. heap s p = Some t \<and> ms_value t = v"
    "finite (dom (heap s))"
  using assms by (auto simp: timer_list_ok_def)

lemma timer_list_okI:
  assumes "sorted (timers s)" "distinct (map snd (timers s))" "timer_ptrs s = snd ` set (timers s)"
    "\<And>v p. (v, p) \<in> set (timers s) \<Longrightarrow> \<exists>t. heap s p = Some t \<and> ms_value t = v"
    "finite (dom (heap s))"
  shows "timer_list_ok s"
  using assms by (auto simp: timer_list_ok_def)

lemma ptrs_live: "timer_list_ok s \<Longrightarrow> timer_ptrs s \<subseteq> dom (heap s)"
  using timer_list_okD(3,4) by (fastforce)

lemma TimerList_new_ok: "timer_list_ok (TimerList_new now)"
  by (simp add: timer_list_ok_def TimerList_new_def)

lemma Insert_ok:
  assumes "fresh_alloc alloc" and ok: "timer_list_ok s"
  shows "\<exists>id s'. Insert alloc v i cb s = Inr (id, s') \<and> timer_list_ok s'"
proof -
  let ?p = "alloc (dom (heap s))"
  note d = timer_list_okD [OF ok]
  have "?p \<notin> dom (heap s)" using assms(1) d(5) by (simp add: fresh_alloc_def)
  then have f: "?p \<notin> snd ` set (timers s)" and h: "heap s ?p = None"
    using ptrs_live [OF ok] d(3) by auto
  note ins = set_insert_fresh [OF d(1,2) f]
  show ?thesis
    using d ins h f snd_fresh [OF f]
    by (auto simp: Insert_def InsertInLoop_def new_timer_def dest: snd_fresh intro!: timer_list_okI)
qed

lemma EraseInLoop_ok:
  assumes ok: "timer_list_ok s"
  shows "\<exists>s'. EraseInLoop True timer s = Inr s' \<and> timer_list_ok s'"
proof (cases "snd timer \<in> timer_ptrs s")
  case True
  note d = timer_list_okD [OF ok]
  let ?p = "snd timer"
  obtain v where v: "(v, ?p) \<in> set (timers s)" using True d(3) by force
  then obtain t where t: "heap s ?p = Some t" "ms_value t = v" using d(4) by blast
  note er = set_erase_snd [OF d(2) v]
  have "timer_list_ok (s\<lparr>timers := set_erase (v, ?p) (timers s), heap := (heap s)(?p := None),
      timer_ptrs := timer_ptrs s - {?p}\<rparr>)"
    using d(1,2,4,5) by (intro timer_list_okI) (simp_all add: sorted_remove1 distinct_map_remove1 er d(3))
  with t True show ?thesis by (simp add: EraseInLoop_def)
next
  case False
  with ok show ?thesis by (simp add: EraseInLoop_def)
qed

lemma exec_actions_ok:
  "fresh_alloc alloc \<Longrightarrow> timer_list_ok s \<Longrightarrow> \<exists>s'. exec_actions alloc as s = Inr s' \<and> timer_list_ok s'"
proof (induction alloc as s rule: exec_actions.induct)
  case (2 alloc v i cb as s)
  then show ?case using Insert_ok [OF 2(2,3), of v i cb] by fastforce
next
  case (3 alloc timer as s)
  then show ?case using EraseInLoop_ok [OF 3(3), of timer] by (fastforce simp: Erase_def)
qed simp_all

lemma take_due_ok:
  assumes ok: "timer_list_ok s" and ts: "timers s = (v, p) # rest" and t: "heap s p = Some t"
  shows "timer_list_ok (take_due now p rest t s)"
proof -
  note d = timer_list_okD [OF ok, unfolded ts]
  have p: "p \<notin> snd ` set rest" and sorted: "sorted rest" and dist: "distinct (map snd rest)"
    using d(1,2) by auto
  note ins = set_insert_fresh [OF sorted dist p, of "now + ms_interval t"]
  have rest: "\<exists>t. heap s q = Some t \<and> ms_value t = u" "q \<noteq> p" if "(u, q) \<in> set rest" for u q
    using d(4) [of u q] that snd_fresh [OF p] by auto
  show ?thesis
  proof (cases "ms_interval t > 0")
    case True
    with ins rest d(3,5) snd_fresh [OF p] show ?thesis
      by (intro timer_list_okI) (auto simp: take_due_def Let_def)
  next
    case False
    with sorted dist rest d(3,5) p show ?thesis
      by (intro timer_list_okI) (auto simp: take_due_def)
  qed
qed

lemma run_due_ok:
  "fresh_alloc alloc \<Longrightarrow> timer_list_ok s \<Longrightarrow> run_due n alloc user now w s = Some r \<Longrightarrow>
     \<exists>w' s' fired. r = Inr (w', s', fired) \<and> timer_list_ok s' \<and> (\<forall>(v, p) \<in> set (timers s'). now < v)"
proof (induction n arbitrary: w s r)
  case (Suc n)
  show ?case
  proof (cases "timers s = [] \<or> now < fst (hd (timers s))")
    case True
    then have "run_due (Suc n) alloc user now w s = Some (Inr (w, s, []))"
      by (cases "timers s") (auto split: prod.splits)
    moreover have "\<forall>(v, p) \<in> set (timers s). now < v"
      using True timer_list_okD(1) [OF Suc.prems(2)] by (cases "timers s") force+
    ultimately show ?thesis using Suc.prems by auto
  next
    case False
    then obtain v p rest where ts: "timers s = (v, p) # rest" and v: "v \<le> now"
      by (cases "timers s") auto
    obtain t where t: "heap s p = Some t" using timer_list_okD(4) [OF Suc.prems(2)] ts by fastforce
    obtain w' as where u: "user (timerproc_cb t) w = (w', as)" by fastforce
    obtain s' where s': "exec_actions alloc as (take_due now p rest t s) = Inr s'" "timer_list_ok s'"
      using exec_actions_ok [OF Suc.prems(1) take_due_ok [OF Suc.prems(2) ts t]] by blast
    from Suc.prems(3) ts v t u s' obtain r' where r': "run_due n alloc user now w' s' = Some r'"
      "r = rbind r' (\<lambda>(w, s, fired). Inr (w, s, p # fired))" by auto
    from Suc.IH [OF Suc.prems(1) s'(2) r'(1)] r'(2) show ?thesis by auto
  qed
qed simp

lemma shift_timers_ok:
  assumes "distinct (map snd (ts @ acc))" and "sorted acc" and "\<forall>(v, p) \<in> set ts. p \<in> dom h"
  shows "\<exists>ts' h'. shift_timers d ts acc h = Inr (ts', h') \<and> sorted ts' \<and> distinct (map snd ts') \<and>
    set ts' = set acc \<union> (\<lambda>(v, p). (shift_value d v, p)) ` set ts \<and> dom h' = dom h \<and>
    (\<forall>p. p \<notin> snd ` set ts \<longrightarrow> h' p = h p) \<and>
    (\<forall>(v, p) \<in> set ts. h' p = Some ((the (h p))\<lparr>ms_value := shift_value d v\<rparr>))"
  using assms
proof (induction d ts acc h rule: shift_timers.induct)
  case (2 d v p rest acc h)
  from "2.prems" obtain t where t: "h p = Some t" by auto
  have p: "p \<notin> snd ` set acc" "p \<notin> snd ` set rest" using "2.prems"(1) by auto
  note ins = set_insert_fresh [OF "2.prems"(2) _ p(1), of "shift_value d v"]
  have "distinct (map snd acc)" using "2.prems"(1) by simp
  note ins = ins [OF this]
  let ?h = "h(p \<mapsto> t\<lparr>ms_value := shift_value d v\<rparr>)"
  have "snd ` set (set_insert (shift_value d v, p) acc) = insert p (snd ` set acc)"
    by (simp add: ins)
  then have "distinct (map snd (rest @ set_insert (shift_value d v, p) acc))"
    using "2.prems"(1) ins(2) p unfolding map_append distinct_append set_map by auto
  then obtain ts' h' where r: "shift_timers d rest (set_insert (shift_value d v, p) acc) ?h = Inr (ts', h')"
    "sorted ts'" "distinct (map snd ts')"
    "set ts' = insert (shift_value d v, p) (set acc) \<union> (\<lambda>(v, p). (shift_value d v, p)) ` set rest"
    "dom h' = dom ?h" "\<forall>q. q \<notin> snd ` set rest \<longrightarrow> h' q = ?h q"
    "\<forall>(u, q) \<in> set rest. h' q = Some ((the (?h q))\<lparr>ms_value := shift_value d u\<rparr>)"
    using "2.IH" [OF t] "2.prems"(3) ins by fastforce
  have "\<forall>(u, q) \<in> set rest. q \<noteq> p" using p(2) by force
  with r t p(2) show ?case by fastforce
qed auto

lemma RunTimerProcs_forward:
  assumes "timers s \<noteq> []" and "last_time_out s \<le> now"
  shows "RunTimerProcs n True alloc user now w s = run_due n alloc user now w (s\<lparr>last_time_out := now\<rparr>)"
proof -
  have "s\<lparr>timers := timers s, heap := heap s, last_time_out := now\<rparr> = s\<lparr>last_time_out := now\<rparr>"
    by (cases s) simp
  with assms show ?thesis by (simp add: RunTimerProcs_def leD)
qed

text \<open>The run of the timer procedures starts from a consistent list also after the clock was set back.\<close>

lemma RunTimerProcs_backward:
  fixes s :: "'c timer_list"
  assumes ok: "timer_list_ok s" and "timers s \<noteq> []" and "now < last_time_out s"
  defines "d \<equiv> last_time_out s - now"
  obtains ts h where "\<And>n alloc user (w :: 'w). RunTimerProcs n True alloc user now w s =
      run_due n alloc user now w (s\<lparr>timers := ts, heap := h, last_time_out := now\<rparr>)"
    "timer_list_ok (s\<lparr>timers := ts, heap := h, last_time_out := now\<rparr>)"
    "set ts = (\<lambda>(v, p). (shift_value d v, p)) ` set (timers s)"
    "\<And>v p. (v, p) \<in> set (timers s) \<Longrightarrow> h p = Some ((the (heap s p))\<lparr>ms_value := shift_value d v\<rparr>)"
proof -
  note D = timer_list_okD [OF ok]
  obtain ts h where sh: "shift_timers d (timers s) [] (heap s) = Inr (ts, h)" "sorted ts"
    "distinct (map snd ts)" "set ts = (\<lambda>(v, p). (shift_value d v, p)) ` set (timers s)"
    "dom h = dom (heap s)" "\<forall>(v, p) \<in> set (timers s). h p = Some ((the (heap s p))\<lparr>ms_value := shift_value d v\<rparr>)"
    using shift_timers_ok [of "timers s" "[]" "heap s" d] D(2,4) by fastforce
  let ?s = "s\<lparr>timers := ts, heap := h, last_time_out := now\<rparr>"
  have "timer_list_ok ?s"
  proof (intro timer_list_okI)
    show "timer_ptrs ?s = snd ` set (timers ?s)" by (simp add: sh(4) D(3) image_image split_def)
  qed (use sh D(5) in auto)
  moreover have "RunTimerProcs n True alloc user now w s = run_due n alloc user now w ?s" for n alloc user and w :: 'w
    using assms(2,3) sh(1) by (simp add: RunTimerProcs_def d_def)
  ultimately show thesis using sh(4,6) by (intro that) auto
qed

lemma RunTimerProcs_ok:
  assumes "fresh_alloc alloc" and ok: "timer_list_ok s"
    and run: "RunTimerProcs n True alloc user now w s = Some r"
  shows "\<exists>w' s' fired. r = Inr (w', s', fired) \<and> timer_list_ok s' \<and> (\<forall>(v, p) \<in> set (timers s'). now < v)"
proof (cases "timers s = [] \<or> last_time_out s \<le> now")
  case True
  have "timer_list_ok (s\<lparr>last_time_out := now\<rparr>)" using ok by (simp add: timer_list_ok_def)
  from run_due_ok [OF assms(1) this] True run ok show ?thesis
    by (cases "timers s = []") (auto simp: RunTimerProcs_forward, auto simp: RunTimerProcs_def)
next
  case False
  then have *: "timers s \<noteq> []" "now < last_time_out s" by (simp_all add: not_le)
  obtain s1 where "RunTimerProcs n True alloc user now w s = run_due n alloc user now w s1" "timer_list_ok s1"
    by (rule RunTimerProcs_backward [OF ok *, where ?'w = 'b]) blast
  with run_due_ok [OF assms(1)] run show ?thesis by metis
qed

section \<open>Which timers fire\<close>

abbreviation due :: "u64 \<Rightarrow> timer_id \<Rightarrow> bool" where
  "due now x \<equiv> fst x \<le> now"

text \<open>The list after a run: what was not due, and the periodic timers armed for their next expiry.\<close>

definition rearmed :: "u64 \<Rightarrow> 'c timer_list \<Rightarrow> timer_id set" where
  "rearmed now s = {(now + ms_interval t, p) | v p t.
     (v, p) \<in> set (timers s) \<and> v \<le> now \<and> heap s p = Some t \<and> 0 < ms_interval t}"

definition quiet_user :: "('c \<Rightarrow> 'w \<Rightarrow> 'w \<times> 'c timer_action list) \<Rightarrow> bool" where
  "quiet_user user \<longleftrightarrow> (\<forall>c w. snd (user c w) = [])"

definition no_wrap :: "u64 \<Rightarrow> 'c timer_list \<Rightarrow> bool" where
  "no_wrap now s \<longleftrightarrow> (\<forall>(v, p) \<in> set (timers s). v \<le> now \<longrightarrow>
     unat now + unat (ms_interval (the (heap s p))) < 2 ^ 64)"

lemma plus_greater: "0 < i \<Longrightarrow> unat a + unat i < 2 ^ 64 \<Longrightarrow> a < a + i" for a i :: u64
  unfolding word_less_nat_alt by (subst unat_word_ariths) simp

lemma filter_due_insert: "\<not> P x \<Longrightarrow> filter P (set_insert x ts) = filter P ts"
  by (simp add: insort_insert_key_def filter_insort_triv)

lemma set_set_insert: "set (set_insert x ts) = insert x (set ts)"
  by (simp add: set_insort_insert)

text \<open>One round of the loop, seen from the list.\<close>

lemma take_due_timers:
  assumes ok: "timer_list_ok s" and ts: "timers s = (v, p) # rest" and t: "heap s p = Some t"
    and v: "v \<le> now" and nw: "no_wrap now s"
  defines "s' \<equiv> take_due now p rest t s"
  shows "filter (due now) (timers s') = filter (due now) rest" and "no_wrap now s'"
    and "{x \<in> set (timers s'). now < fst x} \<union> rearmed now s' = {x \<in> set (timers s). now < fst x} \<union> rearmed now s"
proof -
  have wrap: "unat now + unat (ms_interval t) < 2 ^ 64"
    using nw ts v t by (auto simp: no_wrap_def)
  have p: "\<And>u. (u, p) \<notin> set rest"
    using timer_list_okD(2) [OF ok] ts by (auto dest: snd_fresh)
  then have q: "q \<noteq> p" if "(u, q) \<in> set rest" for u q using that by auto
  have s': "heap s' q = (if q = p then heap s' p else heap s q)" for q
    by (simp add: s'_def take_due_def Let_def)
  have ts': "set (timers s') = (if 0 < ms_interval t then insert (now + ms_interval t, p) (set rest) else set rest)"
    by (simp add: s'_def take_due_def Let_def set_set_insert)
  have gt: "now < now + ms_interval t" if "0 < ms_interval t"
    using plus_greater [OF that wrap] .
  then have notdue: "\<not> now + ms_interval t \<le> now" if "0 < ms_interval t"
    using that by (simp add: not_le)
  then show "filter (due now) (timers s') = filter (due now) rest"
    by (simp add: s'_def take_due_def Let_def filter_due_insert)
  have mem: "(u, q) \<in> set (timers s') \<and> u \<le> now \<longleftrightarrow> (u, q) \<in> set rest \<and> u \<le> now" for u q
    using ts' notdue by auto
  have hq: "(u, q) \<in> set rest \<Longrightarrow> heap s' q = heap s q" for u q
    using q s' by metis
  have re: "rearmed now s' = {(now + ms_interval t, q) | u q t.
      (u, q) \<in> set rest \<and> u \<le> now \<and> heap s q = Some t \<and> 0 < ms_interval t}"
    unfolding rearmed_def using mem hq by (intro Collect_cong) metis
  show "no_wrap now s'"
    using nw mem hq unfolding no_wrap_def ts by fastforce
  have "rearmed now s = (if 0 < ms_interval t then {(now + ms_interval t, p)} else {}) \<union> rearmed now s'"
    unfolding re unfolding rearmed_def ts using t v by auto
  then show "{x \<in> set (timers s'). now < fst x} \<union> rearmed now s' = {x \<in> set (timers s). now < fst x} \<union> rearmed now s"
    unfolding ts' ts using v gt by (auto split: if_splits)
qed

lemma run_due_quiet:
  assumes "quiet_user user"
  shows "timer_list_ok s \<Longrightarrow> no_wrap now s \<Longrightarrow> length (filter (due now) (timers s)) < n \<Longrightarrow>
    \<exists>w' s'. run_due n alloc user now w s = Some (Inr (w', s', map snd (filter (due now) (timers s)))) \<and>
      timer_list_ok s' \<and> set (timers s') = {x \<in> set (timers s). now < fst x} \<union> rearmed now s"
proof (induction n arbitrary: w s)
  case (Suc n)
  note ok = timer_list_okD [OF Suc.prems(1)]
  show ?case
  proof (cases "timers s = [] \<or> now < fst (hd (timers s))")
    case True
    then have "\<forall>x \<in> set (timers s). now < fst x"
      using ok(1) by (cases "timers s") force+
    then have "filter (due now) (timers s) = []" "{x \<in> set (timers s). now < fst x} = set (timers s)"
      "rearmed now s = {}"
      by (auto simp: filter_empty_conv rearmed_def)
    moreover have "run_due (Suc n) alloc user now w s = Some (Inr (w, s, []))"
      using True by (cases "timers s") auto
    ultimately show ?thesis using Suc.prems(1) by auto
  next
    case False
    then obtain v p rest where ts: "timers s = (v, p) # rest" and v: "v \<le> now"
      by (cases "timers s") auto
    obtain t where t: "heap s p = Some t" using ok(4) ts by fastforce
    obtain w' where u: "user (timerproc_cb t) w = (w', [])"
      using assms unfolding quiet_user_def by (metis prod.collapse)
    note td = take_due_timers [OF Suc.prems(1) ts t v Suc.prems(2)]
    note tok = take_due_ok [OF Suc.prems(1) ts t, of now]
    from Suc.IH [OF tok td(2), of w'] Suc.prems(3) ts v td(1,3) t u show ?thesis by auto
  qed
qed simp

text \<open>
  What a run is meant to do, for any time \<open>now\<close>. When the clock was set back since the last run, every expiry
  moves back by as much, but not below zero; the truncating subtraction of the natural numbers says both, and
  leaves an expiry alone when the clock went forward. Due is what then has an expiry of at most \<open>now\<close>.
\<close>

definition due_at :: "u64 \<Rightarrow> 'c timer_list \<Rightarrow> u64 \<Rightarrow> nat" where
  "due_at now s v = unat v - (unat (last_time_out s) - unat now)"

definition due_list :: "u64 \<Rightarrow> 'c timer_list \<Rightarrow> (nat \<times> addr) list" where
  "due_list now s = sort (filter (\<lambda>x. fst x \<le> unat now) (map (\<lambda>(v, p). (due_at now s v, p)) (timers s)))"

definition next_expiries_fit :: "u64 \<Rightarrow> 'c timer_list \<Rightarrow> bool" where
  "next_expiries_fit now s \<longleftrightarrow> (\<forall>(v, p) \<in> set (timers s). due_at now s v \<le> unat now \<longrightarrow>
     unat now + unat (ms_interval (the (heap s p))) < 2 ^ 64)"

lemma unat_shift_value:
  "now < last_time_out s \<Longrightarrow> unat (shift_value (last_time_out s - now) v) = due_at now s v"
  by (simp add: shift_value_def due_at_def unat_sub word_less_nat_alt word_le_nat_alt less_imp_le)

text \<open>Both kinds of run begin in a consistent state with the moved expiries.\<close>

lemma RunTimerProcs_moved:
  fixes s :: "'c timer_list"
  assumes ok: "timer_list_ok s" and ne: "timers s \<noteq> []"
  obtains s1 g where "\<And>n alloc user (w :: 'w). RunTimerProcs n True alloc user now w s = run_due n alloc user now w s1"
    "timer_list_ok s1" "\<And>v. unat (g v) = due_at now s v" "set (timers s1) = (\<lambda>(v, p). (g v, p)) ` set (timers s)"
    "\<And>v p. (v, p) \<in> set (timers s) \<Longrightarrow> heap s1 p = Some ((the (heap s p))\<lparr>ms_value := g v\<rparr>)"
proof (cases "now < last_time_out s")
  case True
  obtain ts h where "\<And>n alloc user (w :: 'w). RunTimerProcs n True alloc user now w s =
      run_due n alloc user now w (s\<lparr>timers := ts, heap := h, last_time_out := now\<rparr>)"
    "timer_list_ok (s\<lparr>timers := ts, heap := h, last_time_out := now\<rparr>)"
    "set ts = (\<lambda>(v, p). (shift_value (last_time_out s - now) v, p)) ` set (timers s)"
    "\<And>v p. (v, p) \<in> set (timers s) \<Longrightarrow> h p = Some ((the (heap s p))\<lparr>ms_value := shift_value (last_time_out s - now) v\<rparr>)"
    by (rule RunTimerProcs_backward [OF ok ne True]) blast
  with unat_shift_value [OF True] show thesis
    by (intro that [of "s\<lparr>timers := ts, heap := h, last_time_out := now\<rparr>"]) simp_all
next
  case False
  then have le: "last_time_out s \<le> now" by simp
  have "timer_list_ok (s\<lparr>last_time_out := now\<rparr>)" using ok by (simp add: timer_list_ok_def)
  moreover have "heap s p = Some ((the (heap s p))\<lparr>ms_value := v\<rparr>)" if "(v, p) \<in> set (timers s)" for v p
    using timer_list_okD(4) [OF ok] that by fastforce
  moreover have "unat v = due_at now s v" for v
    using le by (simp add: due_at_def word_le_nat_alt)
  ultimately show thesis
    by (intro that [of "s\<lparr>last_time_out := now\<rparr>" "\<lambda>v. v"]) (simp_all add: RunTimerProcs_forward [OF ne le])
qed

lemma distinct_moved: "distinct (map snd ts) \<Longrightarrow> distinct (map (\<lambda>(v, p). (f v, p)) ts)"
  by (induction ts) (auto, force)

lemma moved_due_list:
  assumes ok: "timer_list_ok s" and ok1: "timer_list_ok s1" and g: "\<And>v. unat (g v) = due_at now s v"
    and ts: "set (timers s1) = (\<lambda>(v, p). (g v, p)) ` set (timers s)"
  shows "map snd (filter (due now) (timers s1)) = map snd (due_list now s)"
proof -
  let ?f = "\<lambda>(v :: u64, p :: addr). (unat v, p)"
  define l where "l = map ?f (filter (due now) (timers s1))"
  define m where "m = filter (\<lambda>x. fst x \<le> unat now) (map (\<lambda>(v, p). (due_at now s v, p)) (timers s))"
  have d: "distinct (map snd (timers s))" "distinct (map snd (timers s1))" "sorted (timers s1)"
    using timer_list_okD(2) [OF ok] timer_list_okD(1,2) [OF ok1] by auto
  have mono: "?f x \<le> ?f y" if "x \<le> y" for x y
    using that by (cases x; cases y) (auto simp: word_le_nat_alt word_less_nat_alt)
  have "sorted (filter (due now) (timers s1))" using d(3) by (rule sorted_wrt_filter)
  then have sl: "sorted l"
    unfolding l_def sorted_map by (rule sorted_wrt_mono_rel [rotated]) (rule mono)
  have dl: "distinct l" unfolding l_def by (rule distinct_map_filter [OF distinct_moved [OF d(2)]])
  have dm: "distinct m" unfolding m_def by (rule distinct_filter [OF distinct_moved [OF d(1)]])
  have "{x \<in> set (timers s1). due now x} = (\<lambda>(v, p). (g v, p)) ` {x \<in> set (timers s). due_at now s (fst x) \<le> unat now}"
    unfolding ts by (auto simp: word_le_nat_alt g)
  then have "set l = (\<lambda>x. (due_at now s (fst x), snd x)) ` {x \<in> set (timers s). due_at now s (fst x) \<le> unat now}"
    by (simp add: l_def image_image g split_def)
  also have "\<dots> = set m" unfolding m_def by (auto simp: split_def image_iff)
  finally have "sort m = l"
    using sl dl dm by (intro sorted_distinct_set_unique) simp_all
  then have "map snd (due_list now s) = map snd l" by (simp add: due_list_def m_def)
  also have "\<dots> = map snd (filter (due now) (timers s1))" by (simp add: l_def split_def comp_def)
  finally show ?thesis by (rule sym)
qed

section \<open>Properties\<close>

text \<open>The operations a loop thread performs on its timers, in any order and with any ids.\<close>

inductive timer_reach ::
  "(addr set \<Rightarrow> addr) \<Rightarrow> ('c \<Rightarrow> 'w \<Rightarrow> 'w \<times> 'c timer_action list) \<Rightarrow> 'w \<times> 'c timer_list \<Rightarrow> bool"
  for alloc user where
  start: "timer_reach alloc user (w, TimerList_new now)"
| insert: "timer_reach alloc user (w, s) \<Longrightarrow> Insert alloc v i cb s = Inr (timer, s') \<Longrightarrow>
     timer_reach alloc user (w, s')"
| erase: "timer_reach alloc user (w, s) \<Longrightarrow> Erase timer s = Inr s' \<Longrightarrow> timer_reach alloc user (w, s')"
| run: "timer_reach alloc user (w, s) \<Longrightarrow>
     RunTimerProcs n True alloc user now w s = Some (Inr (w', s', fired)) \<Longrightarrow> timer_reach alloc user (w', s')"

lemma timer_reach_ok:
  assumes "fresh_alloc alloc"
  shows "timer_reach alloc user (w, s) \<Longrightarrow> timer_list_ok s"
proof (induction "(w, s)" arbitrary: w s rule: timer_reach.induct)
  case (insert w s v i cb timer s')
  then show ?case using Insert_ok [OF assms, of s v i cb] by auto
next
  case (erase w s timer s')
  then show ?case using EraseInLoop_ok [of s timer] by (auto simp: Erase_def)
next
  case (run w s n now w' s' fired)
  then show ?case using RunTimerProcs_ok [OF assms, of s n user now w] by auto
qed (rule TimerList_new_ok)

text \<open>C5: Timers are memory safe. Whatever timers are inserted and erased, in the loop or from
  inside running callbacks, with valid, stale or invented ids, and whatever the clock does: the
  ordered set, the pointer set and the live timers stay consistent, no operation reads a deleted
  timer, and after a run of the timer procedures no timer of the list is due.\<close>
theorem timers_memory_safe:
  assumes "fresh_alloc alloc" and "timer_reach alloc user (w, s)"
  shows "timer_list_ok s \<and>
    (\<exists>id s'. Insert alloc v i cb s = Inr (id, s')) \<and> (\<exists>s'. Erase timer s = Inr s') \<and>
    (\<forall>r. RunTimerProcs n True alloc user now w s = Some r \<longrightarrow>
      (\<exists>w' s' fired. r = Inr (w', s', fired) \<and> (\<forall>(v, p) \<in> set (timers s'). now < v)))"
proof -
  note ok = timer_reach_ok [OF assms]
  show ?thesis
    using ok Insert_ok [OF assms(1) ok, of v i cb] EraseInLoop_ok [OF ok, of timer]
      RunTimerProcs_ok [OF assms(1) ok, of n user now w]
    by (simp add: Erase_def) blast
qed

lemma Max_fresh: "fresh_alloc (\<lambda>S. Suc (Max (insert 0 S)))"
  unfolding fresh_alloc_def
proof (intro allI impI notI)
  fix S :: "addr set" assume "finite S" and "Suc (Max (insert 0 S)) \<in> S"
  then have "Suc (Max (insert 0 S)) \<le> Max (insert 0 S)" by (intro Max_ge) auto
  then show False by simp
qed

theorem timers_memory_safe_witness:
  "timer_list_ok (TimerList_new 5 :: nat timer_list) \<and>
   (\<exists>s'. Erase (3, 7) (TimerList_new 5 :: nat timer_list) = Inr s')"
proof -
  have "timer_reach (\<lambda>S. Suc (Max (insert 0 S))) (\<lambda>c w. (w :: nat, [])) (0, TimerList_new 5 :: nat timer_list)"
    by (rule timer_reach.start)
  from timers_memory_safe [OF Max_fresh this] show ?thesis by blast
qed

text \<open>C23: When the callbacks leave the timers alone and no next expiry overflows, one run fires
  exactly the due timers, each once and in the order of expiry, whether the clock went forward or was set back
  since the last run: in the second case every expiry, due or not, first moves back by as much as the clock did, but
  not below zero. Afterwards the list holds what was not due, with its moved expiry, and, for each
  periodic timer that fired, its next expiry. One round more than there are due timers is enough for
  the loop to end.\<close>
theorem run_timer_procs_fires_due:
  assumes "timer_list_ok s" and "quiet_user user" and "next_expiries_fit now s" and "length (due_list now s) < fuel"
  shows "\<exists>w' s'. RunTimerProcs fuel True alloc user now w s = Some (Inr (w', s', map snd (due_list now s))) \<and>
    (\<lambda>(v, p). (unat v, p)) ` set (timers s') =
      {(due_at now s v, p) | v p. (v, p) \<in> set (timers s) \<and> unat now < due_at now s v} \<union>
      {(unat now + unat (ms_interval t), p) | v p t. (v, p) \<in> set (timers s) \<and> due_at now s v \<le> unat now \<and>
         heap s p = Some t \<and> 0 < ms_interval t}"
proof (cases "timers s = []")
  case True
  then show ?thesis by (simp add: RunTimerProcs_def due_list_def)
next
  case False
  obtain s1 g where run: "RunTimerProcs fuel True alloc user now w s = run_due fuel alloc user now w s1"
    and ok1: "timer_list_ok s1" and g: "\<And>v. unat (g v) = due_at now s v"
    and ts: "set (timers s1) = (\<lambda>(v, p). (g v, p)) ` set (timers s)"
    and h: "\<And>v p. (v, p) \<in> set (timers s) \<Longrightarrow> heap s1 p = Some ((the (heap s p))\<lparr>ms_value := g v\<rparr>)"
    by (rule RunTimerProcs_moved [OF assms(1) False, of now, where ?'w = 'b]) blast
  note fired = moved_due_list [OF assms(1) ok1 g ts]
  have le: "g v \<le> now \<longleftrightarrow> due_at now s v \<le> unat now" for v by (simp add: word_le_nat_alt g)
  have nw: "no_wrap now s1"
    using assms(3) ts h le unfolding no_wrap_def next_expiries_fit_def by fastforce
  have "length (filter (due now) (timers s1)) < fuel"
    using assms(4) fired by (metis length_map)
  from run_due_quiet [OF assms(2) ok1 nw this, of alloc w] obtain w' s' where
    r: "run_due fuel alloc user now w s1 = Some (Inr (w', s', map snd (due_list now s)))"
      "set (timers s') = {x \<in> set (timers s1). now < fst x} \<union> rearmed now s1"
    by (auto simp: fired)
  have live: "\<exists>t. heap s p = Some t" if "(v, p) \<in> set (timers s)" for v p
    using timer_list_okD(4) [OF assms(1)] that by fastforce
  let ?R = "{(now + ms_interval t, p) | v p t. (v, p) \<in> set (timers s) \<and> due_at now s v \<le> unat now \<and>
      heap s p = Some t \<and> 0 < ms_interval t}"
  have re: "rearmed now s1 = ?R"
  proof (intro subset_antisym subsetI)
    fix x assume "x \<in> rearmed now s1"
    then obtain u p t where x: "x = (now + ms_interval t, p)" "(u, p) \<in> set (timers s1)" "u \<le> now" "heap s1 p = Some t" "0 < ms_interval t"
      by (auto simp: rearmed_def)
    then obtain v where v: "(v, p) \<in> set (timers s)" "u = g v" using ts by auto
    obtain t0 where "heap s p = Some t0" using live [OF v(1)] by blast
    with x v h [OF v(1)] le [of v] show "x \<in> ?R" by auto
  next
    fix x assume "x \<in> ?R"
    then obtain v p t where x: "x = (now + ms_interval t, p)" "(v, p) \<in> set (timers s)" "due_at now s v \<le> unat now"
        "heap s p = Some t" "0 < ms_interval t" by blast
    have "(g v, p) \<in> set (timers s1)" using ts x(2) by force
    with x h [OF x(2)] le [of v] show "x \<in> rearmed now s1" by (fastforce simp: rearmed_def)
  qed
  have "unat (now + ms_interval t) = unat now + unat (ms_interval t)"
    if "(v, p) \<in> set (timers s)" "due_at now s v \<le> unat now" "heap s p = Some t" for v p t
    using assms(3) that by (fastforce simp: next_expiries_fit_def unat_word_ariths)
  then have "(\<lambda>(v, p). (unat v, p)) ` ?R = {(unat now + unat (ms_interval t), p) | v p t. (v, p) \<in> set (timers s) \<and>
      due_at now s v \<le> unat now \<and> heap s p = Some t \<and> 0 < ms_interval t}"
    by (auto simp: image_iff)
  moreover have "(\<lambda>(v, p). (unat v, p)) ` {x \<in> set (timers s1). now < fst x} =
      {(due_at now s v, p) | v p. (v, p) \<in> set (timers s) \<and> unat now < due_at now s v}"
  proof -
    have "{x \<in> set (timers s1). now < fst x} = (\<lambda>(v, p). (g v, p)) ` {x \<in> set (timers s). unat now < due_at now s (fst x)}"
      unfolding ts by (auto simp: word_less_nat_alt g)
    then show ?thesis by (auto simp: image_image g split_def image_iff)
  qed
  ultimately show ?thesis
    using r(1) unfolding run by (intro exI [of _ w'] exI [of _ s']) (simp add: r(2) re image_Un)
qed

definition two_timers :: "nat timer_list" where
  "two_timers = \<lparr>last_time_out = 0, timer_ptrs = {1, 2}, timers = [(5, 2), (8, 1)],
     heap = [1 \<mapsto> \<lparr>ms_value = 8, ms_interval = 0, timerproc_cb = 0\<rparr>,
             2 \<mapsto> \<lparr>ms_value = 5, ms_interval = 10, timerproc_cb = 1\<rparr>]\<rparr>"

lemma two_timers_ok: "timer_list_ok two_timers" "next_expiries_fit 6 two_timers"
  by (auto simp: timer_list_ok_def two_timers_def next_expiries_fit_def)

text \<open>A run at time 1, after the clock was set back by 3: the timer set for 2 is due, that set for 9 is not.\<close>

definition set_back :: "nat timer_list" where
  "set_back = \<lparr>last_time_out = 4, timer_ptrs = {1, 2}, timers = [(2, 2), (9, 1)],
     heap = [1 \<mapsto> \<lparr>ms_value = 9, ms_interval = 0, timerproc_cb = 0\<rparr>,
             2 \<mapsto> \<lparr>ms_value = 2, ms_interval = 10, timerproc_cb = 1\<rparr>]\<rparr>"

lemma set_back_ok: "timer_list_ok set_back" "next_expiries_fit 1 set_back" "due_list 1 set_back = [(0, 2)]"
  by (auto simp: timer_list_ok_def set_back_def next_expiries_fit_def due_list_def due_at_def)

theorem run_timer_procs_fires_due_witness:
  "(\<exists>w' s'. RunTimerProcs 9 True (\<lambda>S. 0) (\<lambda>c w. (w + c, [])) 6 (0 :: nat) two_timers = Some (Inr (w', s', [2]))) \<and>
   (\<exists>w' s'. RunTimerProcs 9 True (\<lambda>S. 0) (\<lambda>c w. (w + c, [])) 1 (0 :: nat) set_back = Some (Inr (w', s', [2])) \<and>
     (\<lambda>(v, p). (unat v, p)) ` set (timers s') = {(6, 1), (11, 2)})"
proof -
  have q: "quiet_user (\<lambda>c (w :: nat). (w + c, []))" by (simp add: quiet_user_def)
  have d: "due_list 6 two_timers = [(5, 2)]" by (simp add: due_list_def due_at_def two_timers_def)
  have left: "{(due_at 1 set_back v, p) | v p. (v, p) \<in> set (timers set_back) \<and> unat (1 :: u64) < due_at 1 set_back v} \<union>
      {(unat (1 :: u64) + unat (ms_interval t), p) | v p t. (v, p) \<in> set (timers set_back) \<and> due_at 1 set_back v \<le> unat (1 :: u64) \<and>
         heap set_back p = Some t \<and> 0 < ms_interval t} = {(6, 1), (11, 2)}"
  proof -
    have "(v, p) \<in> set (timers set_back) \<longleftrightarrow> v = 2 \<and> p = 2 \<or> v = 9 \<and> p = 1" for v p by (auto simp: set_back_def)
    moreover have "heap set_back 2 = Some \<lparr>ms_value = 2, ms_interval = 10, timerproc_cb = 1\<rparr>"
        "heap set_back 1 = Some \<lparr>ms_value = 9, ms_interval = 0, timerproc_cb = 0\<rparr>" "due_at 1 set_back 2 = 0" "due_at 1 set_back 9 = 6"
      by (simp_all add: set_back_def due_at_def)
    ultimately show ?thesis by auto
  qed
  show ?thesis
    using run_timer_procs_fires_due [OF two_timers_ok(1) q two_timers_ok(2), of 9 "\<lambda>S. 0" 0]
      run_timer_procs_fires_due [OF set_back_ok(1) q set_back_ok(2), of 9 "\<lambda>S. 0" 0]
    unfolding d set_back_ok(3) left by auto
qed

lemma fired_not_nil: "rbind r (\<lambda>(w, s, fired). Inr (w, s, p # fired)) \<noteq> Inr (w', s', [])"
  by (cases r) auto

text \<open>The timeout the loop sleeps for is exact: a run of the timer procedures at any later
  time fires nothing if and only if less than the timeout has passed.\<close>
theorem timeout_ms_exact:
  assumes "timer_list_ok s" and "timers s \<noteq> []" and "last_time_out s \<le> now" and "now \<le> now'"
    and "TimeoutMs True now s = Inr d"
  shows "(\<exists>w' s'. RunTimerProcs (Suc n) True alloc user now' w s = Some (Inr (w', s', []))) \<longleftrightarrow>
    unat now' < unat now + unat d"
proof -
  obtain v p rest where ts: "timers s = (v, p) # rest"
    using assms(2) by (metis list.exhaust prod.exhaust)
  have last: "last_time_out s \<le> now'" using assms(3,4) by simp
  have "(\<exists>w' s'. RunTimerProcs (Suc n) True alloc user now' w s = Some (Inr (w', s', []))) \<longleftrightarrow> now' < v"
    unfolding RunTimerProcs_forward [OF assms(2) last]
    by (auto simp: ts fired_not_nil split: option.splits prod.splits sum.splits)
  also have "\<dots> \<longleftrightarrow> unat now' < unat now + unat d"
  proof (cases "v \<le> now")
    case True
    then have "d = 0" using assms(3,5) ts by (simp add: TimeoutMs_def leD)
    with True assms(4) show ?thesis by (simp add: word_le_nat_alt word_less_nat_alt)
  next
    case False
    then have "d = v - now" using assms(3,5) ts by (simp add: TimeoutMs_def leD)
    with False show ?thesis by (simp add: word_less_nat_alt unat_sub word_le_nat_alt)
  qed
  finally show ?thesis .
qed

theorem timeout_ms_exact_witness:
  "(\<exists>w' s'. RunTimerProcs 1 True (\<lambda>S. 0) (\<lambda>c w. (w, [])) 4 (0 :: nat) two_timers = Some (Inr (w', s', [])))"
proof -
  have d: "TimeoutMs True 3 two_timers = Inr 2" by (simp add: TimeoutMs_def two_timers_def)
  have "timers two_timers \<noteq> []" "last_time_out two_timers \<le> 3" by (simp_all add: two_timers_def)
  from timeout_ms_exact [OF two_timers_ok(1) this _ d, of 4 0 "\<lambda>S. 0" "\<lambda>c w. (w, [])" 0]
  show ?thesis by simp
qed

text \<open>A timer id does not outlive its timer safely. A one-shot timer fires and is deleted, a
  new timer is allocated at the same address, and the old id, erased late, deletes the new timer:
  the expiry stored in an id is not compared.\<close>
theorem stale_id_erases_other_timer:
  assumes "p \<in> timer_ptrs s"
  shows "EraseInLoop b (v, p) s = EraseInLoop b (v', p) s \<and>
    (\<forall>s'. EraseInLoop b (v, p) s = Inr s' \<longrightarrow> p \<notin> timer_ptrs s')"
  using assms by (auto simp: EraseInLoop_def guard_def split: option.splits if_splits)

theorem stale_id_erases_other_timer_witness:
  "EraseInLoop True (999, 1) two_timers = EraseInLoop True (8, 1) two_timers"
proof -
  have "1 \<in> timer_ptrs two_timers" by (simp add: two_timers_def)
  from stale_id_erases_other_timer [OF this] show ?thesis by blast
qed

end
