(* ===== verification/Event_Loop.thy ===== *)
theory Event_Loop
  imports Event_Epoll Event_Poll Event_Select Event_Kqueue Timer_List
begin

text \<open>
  The event loop, \<^verbatim>\<open>voyager/core/eventloop.h\<close> and \<^verbatim>\<open>eventloop.cc\<close>. One thread runs \<^verbatim>\<open>Loop\<close>; any thread may
  queue a functor or ask the loop to exit. The loop's position in \<^verbatim>\<open>Loop\<close> and \<^verbatim>\<open>RunFuncs\<close> is part of
  the state, and the statements of other threads interleave with it: the queue is guarded by a
  mutex, so that a push and a swap are each one step, while a push and the \<^verbatim>\<open>WakeUp\<close> that follows it
  are two. \<open>pending\<close> counts the threads between the two. \<open>wakeup\<close> counts the eight-byte messages
  in the wake-up socket. \<open>submitted\<close> and \<open>executed\<close> record the functors as they are queued and run, and
  \<open>early_funcs\<close> those in the queue that the loop's own thread put there before it called \<^verbatim>\<open>Loop\<close>.
  The calls of the loop into its poller go to one of the four pollers, by the type the loop was
  built with.
\<close>

section \<open>The poller of a loop\<close>

datatype PollType = kSelect | kPoll | kEpoll

datatype event_poller_object = SelectPoller select | PollPoller poll | EpollPoller epoll | KqueuePoller kqueue

fun CreatePoller :: "bool \<Rightarrow> PollType \<Rightarrow> event_poller_object" where
  "CreatePoller linux kSelect = SelectPoller EventSelect_new"
| "CreatePoller linux kPoll = PollPoller EventPoll_new"
| "CreatePoller linux kEpoll = (if linux then EpollPoller EventEpoll_new else KqueuePoller EventKqueue_new)"

definition lift_poller :: "('p \<Rightarrow> event_poller_object) \<Rightarrow> 'p poller_op \<Rightarrow> addr \<Rightarrow> dstore \<Rightarrow> 'p \<Rightarrow> (dstore \<times> event_poller_object) res" where
  "lift_poller C op a ds p = rbind (op a (ds, p)) (\<lambda>(ds, p). Inr (ds, C p))"

text \<open>\<^verbatim>\<open>EventLoop::UpdateDispatch\<close> and \<^verbatim>\<open>RemoveDispatch\<close>: the thread check, then the virtual call.\<close>

definition UpdateDispatch :: "bool \<Rightarrow> event_poller_object poller_op" where
  "UpdateDispatch in_loop a = (\<lambda>(ds, p). guard Fatal in_loop
     (case p of
        SelectPoller q \<Rightarrow> lift_poller SelectPoller (select_UpdateDispatch in_loop) a ds q
      | PollPoller q \<Rightarrow> lift_poller PollPoller (poll_UpdateDispatch in_loop) a ds q
      | EpollPoller q \<Rightarrow> lift_poller EpollPoller (epoll_UpdateDispatch in_loop) a ds q
      | KqueuePoller q \<Rightarrow> lift_poller KqueuePoller (kqueue_UpdateDispatch in_loop) a ds q))"

definition RemoveDispatch :: "bool \<Rightarrow> event_poller_object poller_op" where
  "RemoveDispatch in_loop a = (\<lambda>(ds, p). guard Fatal in_loop
     (case p of
        SelectPoller q \<Rightarrow> lift_poller SelectPoller (select_RemoveDispatch in_loop) a ds q
      | PollPoller q \<Rightarrow> lift_poller PollPoller (poll_RemoveDispatch in_loop) a ds q
      | EpollPoller q \<Rightarrow> lift_poller EpollPoller (epoll_RemoveDispatch in_loop) a ds q
      | KqueuePoller q \<Rightarrow> lift_poller KqueuePoller (kqueue_RemoveDispatch in_loop) a ds q))"

definition loop_registered :: "event_poller_object \<Rightarrow> int \<rightharpoonup> addr" where
  "loop_registered p = (case p of SelectPoller q \<Rightarrow> select_map q | PollPoller q \<Rightarrow> poll_map q
     | EpollPoller q \<Rightarrow> dispatch_map q | KqueuePoller q \<Rightarrow> kqueue_map q)"

definition loop_watched :: "event_poller_object \<Rightarrow> int \<Rightarrow> bool \<times> bool" where
  "loop_watched p = (case p of SelectPoller q \<Rightarrow> select_watched q | PollPoller q \<Rightarrow> poll_watched q
     | EpollPoller q \<Rightarrow> epoll_watched q | KqueuePoller q \<Rightarrow> kqueue_watched q)"

definition loop_poller_ok :: "dstore \<times> event_poller_object \<Rightarrow> bool" where
  "loop_poller_ok s = (case s of (ds, p) \<Rightarrow> (case p of SelectPoller q \<Rightarrow> select_ok (ds, q)
     | PollPoller q \<Rightarrow> poll_ok (ds, q) | EpollPoller q \<Rightarrow> epoll_ok (ds, q) | KqueuePoller q \<Rightarrow> kqueue_ok (ds, q)))"

definition loop_refusal :: "event_poller_object \<Rightarrow> dispatch \<Rightarrow> fault option" where
  "loop_refusal p = (case p of SelectPoller q \<Rightarrow> select_refusal q | PollPoller q \<Rightarrow> poll_refusal q
     | EpollPoller q \<Rightarrow> no_refusal q | KqueuePoller q \<Rightarrow> no_refusal q)"

lemmas loop_poller_defs = loop_registered_def loop_refusal_def loop_watched_def loop_poller_ok_def UpdateDispatch_def
  RemoveDispatch_def lift_poller_def updatable_def

text \<open>The loop's calls keep the contract of the pollers, whichever poller it has.\<close>

interpretation loop_poller: event_poller "UpdateDispatch True" "RemoveDispatch True"
  loop_registered loop_watched loop_refusal loop_poller_ok "CreatePoller linux type" for linux type
proof
  show "\<exists>ds' p'. UpdateDispatch True a (ds(a \<mapsto> d'), p) = Inr (ds', p') \<and> loop_poller_ok (ds', p') \<and>
      loop_registered p' = (loop_registered p)(fd d \<mapsto> a) \<and> loop_watched p' = (loop_watched p)(fd d := watch_of d') \<and>
      same_but_index ds' (ds(a \<mapsto> d'))"
    if "loop_poller_ok (ds, p)" "ds a = Some d" "dispatch_change d d'" "updatable loop_registered loop_refusal p a d d'" for ds p a d d'
  proof (cases p)
    case (SelectPoller q)
    with that select_update_law [of ds q a d d'] show ?thesis by (fastforce simp: loop_poller_defs)
  next
    case (PollPoller q)
    with that poll_update_law [of ds q a d d'] show ?thesis by (fastforce simp: loop_poller_defs)
  next
    case (EpollPoller q)
    with that epoll_update_law [of ds q a d d'] show ?thesis by (fastforce simp: loop_poller_defs)
  next
    case (KqueuePoller q)
    with that kqueue_update_law [of ds q a d d'] show ?thesis by (fastforce simp: loop_poller_defs)
  qed
  show "UpdateDispatch True a (ds(a \<mapsto> d'), p) = Inl e"
    if "loop_poller_ok (ds, p)" "ds a = Some d" "dispatch_change d d'" "loop_registered p (fd d) = None"
      "modify d' \<in> enabling" "loop_refusal p d = Some e" for ds p a d d' e
    using that select_refusal_law [of d d' _ e a ds] poll_refusal_law [of d d' _ e a ds]
    by (cases p) (simp_all add: loop_poller_defs no_refusal_def)
  show "\<exists>ds' p'. RemoveDispatch True a (ds, p) = Inr (ds', p') \<and> loop_poller_ok (ds', p') \<and>
      loop_registered p' = (loop_registered p)(fd d := None) \<and> loop_watched p' = loop_watched p \<and> same_but_index ds' ds"
    if "loop_poller_ok (ds, p)" "ds a = Some d" "loop_registered p (fd d) = Some a" "IsNoneEvent d" "\<not> add_write d" for ds p a d
  proof (cases p)
    case (SelectPoller q)
    with that select_remove_law [of ds q a d] show ?thesis by (fastforce simp: loop_poller_defs)
  next
    case (PollPoller q)
    with that poll_remove_law [of ds q a d] show ?thesis by (fastforce simp: loop_poller_defs)
  next
    case (EpollPoller q)
    with that epoll_remove_law [of ds q a d] show ?thesis by (fastforce simp: loop_poller_defs)
  next
    case (KqueuePoller q)
    with that kqueue_remove_law [of ds q a d] show ?thesis by (fastforce simp: loop_poller_defs)
  qed
  show "\<exists>d. ds a = Some d \<and> fd d = f \<and> loop_watched p f = watch_of d"
    if "loop_poller_ok (ds, p)" "loop_registered p f = Some a" for ds p f a
    using that select_poller.registered_watch poll_poller.registered_watch epoll_poller.registered_watch
      kqueue_poller.registered_watch by (cases p) (auto simp: loop_poller_defs)
  show "loop_watched p f = (False, False)" if "loop_poller_ok (ds, p)" "loop_registered p f = None" for ds p f
    using that select_poller.unregistered_watch poll_poller.unregistered_watch epoll_poller.unregistered_watch
      kqueue_poller.unregistered_watch by (cases p) (auto simp: loop_poller_defs)
  show "dispatch_ok d" if "loop_poller_ok (ds, p)" "ds a = Some d" for ds p a d
    using that select_poller.stored_ok poll_poller.stored_ok epoll_poller.stored_ok
      kqueue_poller.stored_ok by (cases p) (auto simp: loop_poller_defs)
  show "loop_poller_ok (Map.empty, CreatePoller linux type)"
    using select_poller.initial_law poll_poller.initial_law epoll_poller.initial_law kqueue_poller.initial_law
    by (cases type) (auto simp: loop_poller_defs)
  show "loop_poller_ok (ds(a \<mapsto> Dispatch_new f), p)" if "loop_poller_ok (ds, p)" "ds a = None" "0 \<le> f" for ds p a f
    using that select_poller.create_law poll_poller.create_law epoll_poller.create_law kqueue_poller.create_law
    by (cases p) (auto simp: loop_poller_defs)
  show "loop_poller_ok (ds(a := None), p)"
    if "loop_poller_ok (ds, p)" "ds a = Some d" "loop_registered p (fd d) \<noteq> Some a" for ds p a d
    using that select_poller.delete_law poll_poller.delete_law epoll_poller.delete_law kqueue_poller.delete_law
    by (cases p) (auto simp: loop_poller_defs)
qed

section \<open>The loop and its queue\<close>

text \<open>
  Where the loop's thread is: outside \<^verbatim>\<open>Loop\<close>; at the test of the \<^verbatim>\<open>while\<close>; in \<^verbatim>\<open>Poll\<close>, with a timeout;
  running the timer procedures; handling events, where the flag says that the wake-up socket was
  reported readable and is not handled yet; executing the functors it took from the queue.
\<close>

datatype 'f loop_pc = Outside | AtTest | Polling int | Timers bool | Handling bool | Executing "'f list"

record 'f event_loop =
  exit_flag :: bool
  run_flag :: bool
  funcs :: "'f list"
  wakeup :: nat
  pending :: nat
  pc :: "'f loop_pc"
  submitted :: "'f list"
  executed :: "'f list"
  early_funcs :: "'f list"

definition EventLoop_new :: "'f event_loop" where
  "EventLoop_new = \<lparr>exit_flag = True, run_flag = False, funcs = [], wakeup = 0, pending = 0, pc = Outside,
     submitted = [], executed = [], early_funcs = []\<rparr>"

definition WakeUp :: "'f event_loop \<Rightarrow> 'f event_loop" where
  "WakeUp s = s\<lparr>wakeup := wakeup s + 1\<rparr>"

text \<open>\<^verbatim>\<open>HandleRead\<close> reads one eight-byte message.\<close>

definition HandleRead :: "'f event_loop \<Rightarrow> 'f event_loop" where
  "HandleRead s = s\<lparr>wakeup := wakeup s - 1\<rparr>"

definition push_func :: "'f \<Rightarrow> 'f event_loop \<Rightarrow> 'f event_loop" where
  "push_func f s = s\<lparr>funcs := funcs s @ [f], submitted := submitted s @ [f]\<rparr>"

text \<open>\<^verbatim>\<open>QueueInLoop\<close> and \<^verbatim>\<open>Exit\<close> in the loop's thread, and the first half of them in another thread.\<close>

definition QueueInLoop_own :: "'f \<Rightarrow> 'f event_loop \<Rightarrow> 'f event_loop" where
  "QueueInLoop_own f s = (let s = push_func f s in if run_flag s then WakeUp s else s)"

definition QueueInLoop_other :: "'f \<Rightarrow> 'f event_loop \<Rightarrow> 'f event_loop" where
  "QueueInLoop_other f s = (let s = push_func f s in s\<lparr>pending := pending s + 1\<rparr>)"

definition Exit_own :: "'f event_loop \<Rightarrow> 'f event_loop" where
  "Exit_own s = s\<lparr>exit_flag := True\<rparr>"

definition Exit_other :: "'f event_loop \<Rightarrow> 'f event_loop" where
  "Exit_other s = s\<lparr>exit_flag := True, pending := pending s + 1\<rparr>"

text \<open>The wake-up that another thread owes.\<close>

definition WakeUp_other :: "'f event_loop \<Rightarrow> 'f event_loop" where
  "WakeUp_other s = WakeUp (s\<lparr>pending := pending s - 1\<rparr>)"

text \<open>\<^verbatim>\<open>RunInLoop\<close>: in the loop's thread the functor runs at once, else it is queued. The result says
  whether it ran.\<close>

definition RunInLoop :: "bool \<Rightarrow> 'f \<Rightarrow> 'f event_loop \<Rightarrow> bool \<times> 'f event_loop" where
  "RunInLoop in_loop f s = (if in_loop then (True, s) else (False, QueueInLoop_other f s))"

text \<open>The statements of \<^verbatim>\<open>Loop\<close> and \<^verbatim>\<open>RunFuncs\<close>.\<close>

definition kPollTimeMs :: u64 where "kPollTimeMs = 5000"

definition loop_timeout :: "u64 \<Rightarrow> int" where
  "loop_timeout t = uint (min t kPollTimeMs)"

definition Loop_enter :: "'f event_loop \<Rightarrow> 'f event_loop" where
  "Loop_enter s = s\<lparr>exit_flag := False, pc := AtTest\<rparr>"

definition Loop_test :: "u64 \<Rightarrow> 'f event_loop \<Rightarrow> 'f event_loop" where
  "Loop_test t s = (if exit_flag s then s\<lparr>pc := Outside\<rparr> else s\<lparr>pc := Polling (loop_timeout t)\<rparr>)"

definition Poll_return :: "'f event_loop \<Rightarrow> 'f event_loop" where
  "Poll_return s = s\<lparr>pc := Timers (0 < wakeup s)\<rparr>"

definition RunFuncs_swap :: "'f event_loop \<Rightarrow> 'f event_loop" where
  "RunFuncs_swap s = s\<lparr>run_flag := True, pc := Executing (funcs s), funcs := [], early_funcs := []\<rparr>"

definition RunFuncs_next :: "'f \<Rightarrow> 'f list \<Rightarrow> 'f event_loop \<Rightarrow> 'f event_loop" where
  "RunFuncs_next f rest s = s\<lparr>pc := Executing rest, executed := executed s @ [f]\<rparr>"

definition RunFuncs_end :: "'f event_loop \<Rightarrow> 'f event_loop" where
  "RunFuncs_end s = s\<lparr>run_flag := False, pc := AtTest\<rparr>"

text \<open>
  One step of the program. Timer procedures, event callbacks and functors are user code in the loop's
  thread: while they run, that thread may queue functors and ask to exit, as it may before it calls \<^verbatim>\<open>Loop\<close>
  and after \<^verbatim>\<open>Loop\<close> returned. \<^verbatim>\<open>Poll\<close> may return at any time, because of a timeout, a signal or another
  descriptor.
\<close>

definition user_code :: "'f loop_pc \<Rightarrow> bool" where
  "user_code p = (case p of Timers _ \<Rightarrow> True | Handling _ \<Rightarrow> True | Executing _ \<Rightarrow> True | _ \<Rightarrow> False)"

inductive loop_step :: "'f event_loop \<Rightarrow> 'f event_loop \<Rightarrow> bool" where
  enter: "pc s = Outside \<Longrightarrow> loop_step s (Loop_enter s)"
| test: "pc s = AtTest \<Longrightarrow> loop_step s (Loop_test t s)"
| poll: "pc s = Polling timeout \<Longrightarrow> loop_step s (Poll_return s)"
| timers: "pc s = Timers w \<Longrightarrow> loop_step s (s\<lparr>pc := Handling w\<rparr>)"
| read_wakeup: "pc s = Handling True \<Longrightarrow> loop_step s ((HandleRead s)\<lparr>pc := Handling False\<rparr>)"
| swap: "pc s = Handling False \<Longrightarrow> loop_step s (RunFuncs_swap s)"
| exec: "pc s = Executing (f # rest) \<Longrightarrow> loop_step s (RunFuncs_next f rest s)"
| fin: "pc s = Executing [] \<Longrightarrow> loop_step s (RunFuncs_end s)"
| queue_own: "user_code (pc s) \<Longrightarrow> loop_step s (QueueInLoop_own f s)"
| queue_early: "pc s = Outside \<Longrightarrow> loop_step s ((QueueInLoop_own f s)\<lparr>early_funcs := early_funcs s @ [f]\<rparr>)"
| exit_own: "user_code (pc s) \<or> pc s = Outside \<Longrightarrow> loop_step s (Exit_own s)"
| queue_other: "loop_step s (snd (RunInLoop False f s))"
| exit_other: "loop_step s (Exit_other s)"
| wakeup_other: "0 < pending s \<Longrightarrow> loop_step s (WakeUp_other s)"

inductive loop_reach :: "'f event_loop \<Rightarrow> bool" where
  start: "loop_reach EventLoop_new"
| step: "loop_reach s \<Longrightarrow> loop_step s s' \<Longrightarrow> loop_reach s'"

section \<open>Invariants\<close>

definition current_funcs :: "'f event_loop \<Rightarrow> 'f list" where
  "current_funcs s = (case pc s of Executing fs \<Rightarrow> fs | _ \<Rightarrow> [])"

text \<open>Where a queued functor needs a wake-up to be noticed: everywhere but between the return of
  \<^verbatim>\<open>Poll\<close> and the next swap of the queue.\<close>

definition needs_wakeup :: "'f loop_pc \<Rightarrow> bool" where
  "needs_wakeup p = (case p of Timers _ \<Rightarrow> False | Handling _ \<Rightarrow> False | _ \<Rightarrow> True)"

definition loop_ok :: "'f event_loop \<Rightarrow> bool" where
  "loop_ok s \<longleftrightarrow>
     submitted s = executed s @ current_funcs s @ funcs s \<and>
     (needs_wakeup (pc s) \<longrightarrow> funcs s \<noteq> early_funcs s \<longrightarrow> 0 < wakeup s + pending s) \<and>
     ((\<exists>t. pc s = Polling t) \<longrightarrow> exit_flag s \<longrightarrow> 0 < wakeup s + pending s) \<and>
     (run_flag s \<longleftrightarrow> (\<exists>fs. pc s = Executing fs)) \<and>
     (pc s = Timers True \<or> pc s = Handling True \<longrightarrow> 0 < wakeup s) \<and>
     (\<forall>t. pc s = Polling t \<longrightarrow> 0 \<le> t \<and> t \<le> 5000)"

lemmas loop_op_defs = EventLoop_new_def WakeUp_def HandleRead_def push_func_def QueueInLoop_own_def
  QueueInLoop_other_def Exit_own_def Exit_other_def WakeUp_other_def RunInLoop_def Loop_enter_def Loop_test_def
  Poll_return_def RunFuncs_swap_def RunFuncs_next_def RunFuncs_end_def

lemma loop_timeout_bounds: "0 \<le> loop_timeout t \<and> loop_timeout t \<le> 5000"
proof -
  have "uint (min t kPollTimeMs) \<le> uint kPollTimeMs"
    by (simp add: word_le_def [symmetric])
  then show ?thesis by (simp add: loop_timeout_def kPollTimeMs_def)
qed

lemma loop_step_ok: "loop_step s s' \<Longrightarrow> loop_ok s \<Longrightarrow> loop_ok s'"
  by (induction rule: loop_step.induct)
    (auto simp: loop_ok_def loop_op_defs current_funcs_def needs_wakeup_def user_code_def Let_def
      loop_timeout_bounds split: loop_pc.splits)

lemma loop_reach_ok: "loop_reach s \<Longrightarrow> loop_ok s"
proof (induction rule: loop_reach.induct)
  case start
  show ?case by (simp add: loop_ok_def EventLoop_new_def current_funcs_def)
next
  case (step s s')
  then show ?case using loop_step_ok by blast
qed

section \<open>Properties\<close>

text \<open>C4: No wake-up is lost, but for the functors that the loop's own thread queued before it called
  \<^verbatim>\<open>Loop\<close>. In every reachable state of the loop and the threads that use it: while the loop waits in \<^verbatim>\<open>Poll\<close>
  and an exit was requested, or its queue holds any other functor, a wake-up message is in its socket or
  about to be written. When there is none, the queue consists of the functors queued that early, and they wait
  for the end of the poll, which never waits longer than five seconds.\<close>
theorem no_lost_wakeup:
  assumes "loop_reach s" and "pc s = Polling t"
  shows "(funcs s \<noteq> early_funcs s \<or> exit_flag s \<longrightarrow> 0 < wakeup s + pending s) \<and> 0 \<le> t \<and> t \<le> 5000"
  using loop_reach_ok [OF assms(1)] assms(2) by (auto simp: loop_ok_def needs_wakeup_def)

definition poll_example :: "nat event_loop" where
  "poll_example = QueueInLoop_other 7 (Loop_test 10 (Loop_enter EventLoop_new))"

lemma poll_example_reach: "loop_reach poll_example" "pc poll_example = Polling 10" "funcs poll_example = [7]" "early_funcs poll_example = []"
proof -
  have s1: "loop_reach (Loop_enter EventLoop_new :: nat event_loop)"
    by (rule loop_reach.step [OF loop_reach.start loop_step.enter]) (simp add: EventLoop_new_def)
  have s2: "loop_reach (Loop_test 10 (Loop_enter EventLoop_new) :: nat event_loop)"
    by (rule loop_reach.step [OF s1 loop_step.test]) (simp add: Loop_enter_def)
  show "loop_reach poll_example"
    using loop_reach.step [OF s2 loop_step.queue_other [of _ 7]] by (simp add: poll_example_def RunInLoop_def)
  show "pc poll_example = Polling 10" "funcs poll_example = [7]" "early_funcs poll_example = []"
    by (simp_all add: poll_example_def loop_op_defs loop_timeout_def kPollTimeMs_def Let_def)
qed

theorem no_lost_wakeup_witness: "0 < wakeup poll_example + pending poll_example"
  using no_lost_wakeup [OF poll_example_reach(1,2)] poll_example_reach(3,4) by simp

text \<open>C20: Every functor given to the loop from another thread, or queued in its own, runs at most once
  and in the order of queueing: what has been executed, the functors the loop is executing and the queue
  are together exactly what was submitted, in order. The loop's swap empties the queue, so that all of
  them run before it polls again.\<close>
theorem functors_run_in_order:
  assumes "loop_reach s"
  shows "submitted s = executed s @ current_funcs s @ funcs s \<and> (\<exists>rest. submitted s = executed s @ rest)"
  using loop_reach_ok [OF assms] by (auto simp: loop_ok_def)

theorem functors_run_in_order_witness:
  "submitted poll_example = executed poll_example @ current_funcs poll_example @ funcs poll_example"
  using functors_run_in_order [OF poll_example_reach(1)] by blast

text \<open>Requests made before \<^verbatim>\<open>Loop\<close> is entered are not honoured. An \<^verbatim>\<open>Exit\<close> before the call is
  overwritten, and the loop runs on; and a functor that the loop's own thread queues before the call
  sends no wake-up, so that the loop first waits in \<^verbatim>\<open>Poll\<close> with the functor in its queue: the exception
  above is a reachable state.\<close>
theorem requests_before_loop_missed:
  "exit_flag (Loop_enter (Exit_own s)) = False \<and> exit_flag (Loop_enter (Exit_other s)) = False \<and>
   (\<exists>s'. loop_reach s' \<and> pc s' = Polling (loop_timeout t) \<and> funcs s' = [f] \<and> early_funcs s' = [f] \<and> wakeup s' = 0 \<and> pending s' = 0)"
proof -
  let ?s1 = "(QueueInLoop_own f EventLoop_new)\<lparr>early_funcs := early_funcs EventLoop_new @ [f]\<rparr>"
  have 1: "loop_reach ?s1"
    by (rule loop_reach.step [OF loop_reach.start loop_step.queue_early]) (simp add: EventLoop_new_def)
  have 2: "loop_reach (Loop_enter ?s1)"
    by (rule loop_reach.step [OF 1 loop_step.enter]) (simp add: loop_op_defs Let_def)
  have 3: "loop_reach (Loop_test t (Loop_enter ?s1))"
    by (rule loop_reach.step [OF 2 loop_step.test]) (simp add: loop_op_defs Let_def)
  show ?thesis using 3 by (intro conjI exI [of _ "Loop_test t (Loop_enter ?s1)"]) (simp_all add: loop_op_defs Let_def)
qed

section \<open>Timers and connections of a loop\<close>

definition NowMillis :: "u64 \<Rightarrow> u64 \<Rightarrow> u64" where
  "NowMillis tv_sec tv_usec = tv_sec * 1000 + tv_usec div 1000"

definition RunAt :: "(addr set \<Rightarrow> addr) \<Rightarrow> u64 \<Rightarrow> 'c \<Rightarrow> 'c timer_list \<Rightarrow> (timer_id \<times> 'c timer_list) res" where
  "RunAt alloc v cb s = Insert alloc v 0 cb s"

definition RunAfter :: "(addr set \<Rightarrow> addr) \<Rightarrow> u64 \<Rightarrow> u64 \<Rightarrow> 'c \<Rightarrow> 'c timer_list \<Rightarrow> (timer_id \<times> 'c timer_list) res" where
  "RunAfter alloc now ms_delay cb s = Insert alloc (now + ms_delay) 0 cb s"

definition RunEvery :: "(addr set \<Rightarrow> addr) \<Rightarrow> u64 \<Rightarrow> u64 \<Rightarrow> 'c \<Rightarrow> 'c timer_list \<Rightarrow> (timer_id \<times> 'c timer_list) res" where
  "RunEvery alloc now i cb s = Insert alloc (now + i) i cb s"

definition RemoveTimer :: "timer_id \<Rightarrow> 'c timer_list \<Rightarrow> 'c timer_list res" where
  "RemoveTimer t s = Erase t s"

record loop_connections =
  connections :: "string \<rightharpoonup> nat"
  connection_size :: int

definition AddConnection :: "bool \<Rightarrow> bool \<Rightarrow> string \<Rightarrow> nat \<Rightarrow> loop_connections \<Rightarrow> loop_connections res" where
  "AddConnection owner in_loop name conn s =
     guard AssertionFailed owner (guard Fatal in_loop (guard AssertionFailed (connections s name = None)
       (Inr (s\<lparr>connections := (connections s)(name \<mapsto> conn), connection_size := connection_size s + 1\<rparr>))))"

definition RemoveConnection :: "bool \<Rightarrow> bool \<Rightarrow> string \<Rightarrow> loop_connections \<Rightarrow> loop_connections res" where
  "RemoveConnection owner in_loop name s =
     guard AssertionFailed owner (guard Fatal in_loop (guard AssertionFailed (connections s name \<noteq> None)
       (Inr (s\<lparr>connections := (connections s)(name := None), connection_size := connection_size s - 1\<rparr>))))"

definition loop_connections_ok :: "loop_connections \<Rightarrow> bool" where
  "loop_connections_ok s \<longleftrightarrow> finite (dom (connections s)) \<and> connection_size s = int (card (dom (connections s)))"

lemma AddConnection_ok:
  "AddConnection own l name conn s = Inr s' \<Longrightarrow> loop_connections_ok s \<Longrightarrow> loop_connections_ok s'"
  by (auto simp: AddConnection_def loop_connections_ok_def guard_eq_Inr domIff)

lemma RemoveConnection_ok:
  assumes "RemoveConnection own l name s = Inr s'" and "loop_connections_ok s"
  shows "loop_connections_ok s'"
proof -
  have n: "name \<in> dom (connections s)" and s': "s' = s\<lparr>connections := (connections s)(name := None),
      connection_size := connection_size s - 1\<rparr>"
    using assms(1) by (auto simp: RemoveConnection_def guard_eq_Inr)
  have "0 < card (dom (connections s))"
    using n assms(2) by (auto simp: loop_connections_ok_def card_gt_0_iff)
  then show ?thesis
    using assms(2) n by (simp add: s' loop_connections_ok_def card_Diff_singleton of_nat_diff)
qed

end
