(* ===== verification/Std_Text.thy ===== *)
theory Std_Text
  imports Voyager_Prelude "HOL-Library.Char_ord" "HOL-Library.List_Lexorder"
begin

text \<open>
  What the text-handling code (HTTP, JSON, string utilities) uses of the C and C++ libraries:
  character classes of the \<^verbatim>\<open>C\<close> locale, comparison without regard to case, \<^verbatim>\<open>atoi\<close>, decimal
  printing, and \<^verbatim>\<open>std::map\<close> with string keys as an association list ordered by key. A
  \<^verbatim>\<open>std::string\<close> compares by unsigned characters, which is the order of \<open>Char_ord\<close> and
  \<open>List_Lexorder\<close>.
\<close>

section \<open>Characters\<close>

definition nat_of :: "char \<Rightarrow> nat" where
  "nat_of c = of_char c"

definition isspace :: "char \<Rightarrow> bool" where
  "isspace c \<longleftrightarrow> nat_of c = 32 \<or> (9 \<le> nat_of c \<and> nat_of c \<le> 13)"

definition isdigit :: "char \<Rightarrow> bool" where
  "isdigit c \<longleftrightarrow> 48 \<le> nat_of c \<and> nat_of c \<le> 57"

definition tolower :: "char \<Rightarrow> char" where
  "tolower c = (if 65 \<le> nat_of c \<and> nat_of c \<le> 90 then char_of (nat_of c + 32) else c)"

section \<open>Comparison of C strings\<close>

text \<open>A C string ends at its first NUL; reading the list past its end reads the terminator.\<close>

definition hd0 :: "string \<Rightarrow> char" where
  "hd0 s = (case s of [] \<Rightarrow> CHR 0x00 | c # _ \<Rightarrow> c)"

text \<open>\<^verbatim>\<open>strncasecmp(s, t, n) == 0\<close>: the scan stops at a difference, at a NUL or after \<open>n\<close>.\<close>

fun strncaseeq :: "nat \<Rightarrow> string \<Rightarrow> string \<Rightarrow> bool" where
  "strncaseeq 0 s t = True"
| "strncaseeq (Suc n) s t =
     (tolower (hd0 s) = tolower (hd0 t) \<and>
      (hd0 s = CHR 0x00 \<or> strncaseeq n (tl s) (tl t)))"

definition c_str :: "string \<Rightarrow> string" where
  "c_str s = takeWhile (\<lambda>c. c \<noteq> CHR 0x00) s"

text \<open>\<^verbatim>\<open>strcasecmp(s, t) == 0\<close>.\<close>

definition strcaseeq :: "string \<Rightarrow> string \<Rightarrow> bool" where
  "strcaseeq s t \<longleftrightarrow> map tolower (c_str s) = map tolower (c_str t)"

lemma strncaseeq_refl: "strncaseeq n s s"
  by (induction n arbitrary: s) simp_all

lemma strncaseeq_nil [simp]: "strncaseeq 0 s t" by simp

lemma strcaseeq_refl [simp]: "strcaseeq s s"
  by (simp add: strcaseeq_def)

lemma hd0_Cons [simp]: "hd0 (c # s) = c" and hd0_Nil [simp]: "hd0 [] = CHR 0x00"
  by (simp_all add: hd0_def)

section \<open>Decimal numbers\<close>

definition digit_value :: "char \<Rightarrow> int" where
  "digit_value c = int (nat_of c) - 48"

definition decimal_value :: "string \<Rightarrow> int" where
  "decimal_value ds = foldl (\<lambda>v c. 10 * v + digit_value c) 0 ds"

text \<open>
  \<^verbatim>\<open>atoi\<close> as \<^verbatim>\<open>static_cast<int>(strtol(s, nullptr, 10))\<close>: leading white space, one sign, the
  longest run of digits; \<^verbatim>\<open>strtol\<close> saturates at the range of a 64-bit \<^verbatim>\<open>long\<close> and the cast
  keeps the low 32 bits. (The C standard leaves values outside \<^verbatim>\<open>int\<close> open; this is glibc.)
\<close>

definition strtol :: "string \<Rightarrow> int" where
  "strtol s =
     (let t = dropWhile isspace s;
          neg = (hd0 t = CHR ''-'');
          u = (if hd0 t = CHR ''-'' \<or> hd0 t = CHR ''+'' then tl t else t);
          v = decimal_value (takeWhile isdigit u)
      in max (- (2 ^ 63)) (min (2 ^ 63 - 1) (if neg then - v else v)))"

definition atoi :: "string \<Rightarrow> int" where
  "atoi s = signed_take_bit 31 (strtol s)"

text \<open>\<^verbatim>\<open>static_cast<int>\<close> of a size: the low 32 bits, read with their sign.\<close>

definition to_int :: "nat \<Rightarrow> int" where
  "to_int n = signed_take_bit 31 (int n)"

lemma to_int_small: "n < 2 ^ 31 \<Longrightarrow> to_int n = int n"
  by (simp add: to_int_def signed_take_bit_int_eq_self)

text \<open>Decimal text of a natural number, as \<^verbatim>\<open>%d\<close> or \<^verbatim>\<open>std::to_string\<close> prints it.\<close>

fun print_nat :: "nat \<Rightarrow> string" where
  "print_nat n = (if n < 10 then [char_of (48 + n)] else print_nat (n div 10) @ [char_of (48 + n mod 10)])"

declare print_nat.simps [simp del]

lemma nat_of_char_of [simp]: "n < 256 \<Longrightarrow> nat_of (char_of n) = n"
  by (simp add: nat_of_def of_char_of)

lemma isdigit_digit: "(n::nat) < 10 \<Longrightarrow> isdigit (char_of (48 + n))"
  by (simp add: isdigit_def)

lemma digit_value_digit: "(n::nat) < 10 \<Longrightarrow> digit_value (char_of (48 + n)) = int n"
  by (simp add: digit_value_def)

lemma print_nat_digits: "\<forall>c \<in> set (print_nat n). isdigit c"
proof (induction n rule: print_nat.induct)
  case (1 n)
  then show ?case
    by (subst print_nat.simps) (auto simp: isdigit_digit)
qed

lemma decimal_value_append: "decimal_value (s @ [c]) = 10 * decimal_value s + digit_value c"
  by (simp add: decimal_value_def)

lemma decimal_value_print_nat [simp]: "decimal_value (print_nat n) = int n"
proof (induction n rule: print_nat.induct)
  case (1 n)
  show ?case
  proof (cases "n < 10")
    case True
    then show ?thesis by (subst print_nat.simps) (simp add: decimal_value_def digit_value_digit)
  next
    case False
    then show ?thesis using 1
      by (subst print_nat.simps) (simp add: decimal_value_append digit_value_digit; presburger)
  qed
qed

lemma print_nat_not_empty [simp]: "print_nat n \<noteq> []"
  by (subst print_nat.simps) simp

lemma hd0_print_nat: "isdigit (hd0 (print_nat n))"
  using print_nat_digits [of n] by (cases "print_nat n") auto

lemma digit_not_space: "isdigit c \<Longrightarrow> \<not> isspace c"
  and digit_not_sign: "isdigit c \<Longrightarrow> c \<noteq> CHR ''-'' \<and> c \<noteq> CHR ''+''"
  by (auto simp: isdigit_def isspace_def nat_of_def)

lemma atoi_print_nat:
  assumes "n < 2 ^ 31"
  shows "atoi (print_nat n) = int n"
proof -
  have all: "takeWhile isdigit (print_nat n) = print_nat n"
    using print_nat_digits [of n] by (simp add: takeWhile_eq_all_conv)
  have drop: "dropWhile isspace (print_nat n) = print_nat n"
    using hd0_print_nat [of n] digit_not_space by (cases "print_nat n") auto
  have sign: "hd0 (print_nat n) \<noteq> CHR ''-''" "hd0 (print_nat n) \<noteq> CHR ''+''"
    using hd0_print_nat [of n] digit_not_sign by blast+
  have "strtol (print_nat n) = int n"
    using assms by (simp add: strtol_def Let_def drop sign all)
  then show ?thesis
    using assms by (simp add: atoi_def signed_take_bit_int_eq_self)
qed

section \<open>Ordered maps\<close>

type_synonym 'v std_map = "(string \<times> 'v) list"

definition smap_ok :: "'v std_map \<Rightarrow> bool" where
  "smap_ok m \<longleftrightarrow> sorted_wrt (<) (map fst m)"

text \<open>\<^verbatim>\<open>m[k] = v\<close>.\<close>

fun smap_put :: "string \<Rightarrow> 'v \<Rightarrow> 'v std_map \<Rightarrow> 'v std_map" where
  "smap_put k v [] = [(k, v)]"
| "smap_put k v ((k', v') # m) =
     (if k < k' then (k, v) # (k', v') # m
      else if k = k' then (k, v) # m
      else (k', v') # smap_put k v m)"

definition smap_erase :: "string \<Rightarrow> 'v std_map \<Rightarrow> 'v std_map" where
  "smap_erase k m = filter (\<lambda>p. fst p \<noteq> k) m"

lemma fst_smap_put: "fst ` set (smap_put k v m) = insert k (fst ` set m)"
proof (induction m)
  case (Cons p m)
  obtain k' v' where p: "p = (k', v')" by (cases p)
  then show ?case
    using Cons by (simp add: insert_commute)
qed simp

lemma smap_put_ok [simp]: "smap_ok m \<Longrightarrow> smap_ok (smap_put k v m)"
  unfolding smap_ok_def
proof (induction m)
  case (Cons p m)
  obtain k' v' where p: "p = (k', v')" by (cases p)
  have "\<forall>x \<in> insert k (fst ` set m). k' < x" if "\<not> k < k'" "k \<noteq> k'"
    using Cons.prems that by (auto simp: p)
  then have "\<forall>x \<in> set (map fst (smap_put k v m)). k' < x" if "\<not> k < k'" "k \<noteq> k'"
    using that fst_smap_put [of k v m] by (metis image_set)
  moreover have "\<forall>x \<in> set (map fst m). k < x" if "k < k'"
    using Cons.prems that by (force simp: p)
  ultimately show ?case using Cons by (auto simp: p)
qed simp

lemma smap_erase_ok [simp]: "smap_ok m \<Longrightarrow> smap_ok (smap_erase k m)"
  unfolding smap_ok_def smap_erase_def by (induction m) auto

lemma smap_of_put [simp]: "map_of (smap_put k v m) = (map_of m)(k \<mapsto> v)"
  by (induction m) auto

lemma smap_of_erase [simp]: "map_of (smap_erase k m) = (map_of m)(k := None)"
  by (induction m) (auto simp: smap_erase_def)

text \<open>Entries inserted in key order are appended.\<close>

lemma smap_put_last:
  "\<forall>x \<in> fst ` set m. x < k \<Longrightarrow> smap_put k v m = m @ [(k, v)]"
proof (induction m)
  case (Cons p m)
  obtain k' v' where "p = (k', v')" by (cases p)
  with Cons show ?case by auto
qed simp

lemma smap_put_sorted_append:
  assumes "smap_ok (m @ (k, v) # m')"
  shows "smap_put k v m = m @ [(k, v)]"
  using assms by (intro smap_put_last) (auto simp: smap_ok_def sorted_wrt_append)

end
