(* ===== verification/Http_Message.thy ===== *)
theory Http_Message
  imports Buffer Std_Text
begin

text \<open>
  The messages of \<^verbatim>\<open>voyager/http\<close>: \<^verbatim>\<open>HttpMessage\<close>, and its subclasses \<^verbatim>\<open>HttpRequest\<close> and
  \<^verbatim>\<open>HttpResponse\<close> as extensions of its record. The header map is a \<^verbatim>\<open>std::map\<close>, so printing
  visits it in key order. A range \<^verbatim>\<open>[begin, end)\<close> of characters is the string it holds.
\<close>

section \<open>HttpMessage\<close>

datatype HttpVersion = kHttp10 | kHttp11 | kHttp20

record http_message =
  version :: HttpVersion
  header_map :: "string std_map"
  body :: string

definition kConnection :: string where
  "kConnection = ''Connection''"

definition kContentLength :: string where
  "kContentLength = ''Content-Length''"

definition kHost :: string where
  "kHost = ''Host''"

definition SetVersion :: "string \<Rightarrow> 'm http_message_scheme \<Rightarrow> bool \<times> 'm http_message_scheme" where
  "SetVersion s m =
     (let sz = length s in
      if strncaseeq sz s ''HTTP/1.0'' then (True, m\<lparr>version := kHttp10\<rparr>)
      else if strncaseeq sz s ''HTTP/1.1'' then (True, m\<lparr>version := kHttp11\<rparr>)
      else if strncaseeq sz s ''HTTP/2'' then (True, m\<lparr>version := kHttp20\<rparr>)
      else (False, m))"

fun VersionToString :: "HttpVersion \<Rightarrow> string" where
  "VersionToString kHttp10 = ''HTTP/1.0''"
| "VersionToString kHttp11 = ''HTTP/1.1''"
| "VersionToString kHttp20 = ''HTTP/2''"

definition TransferField :: "string \<Rightarrow> string" where
  "TransferField s =
     (if strcaseeq s kConnection then kConnection
      else if strcaseeq s kContentLength then kContentLength
      else if strcaseeq s kHost then kHost
      else s)"

definition AddHeader :: "string \<Rightarrow> string \<Rightarrow> 'm http_message_scheme \<Rightarrow> 'm http_message_scheme" where
  "AddHeader field value m =
     (if field \<noteq> [] \<and> value \<noteq> []
      then m\<lparr>header_map := smap_put (TransferField field) value (header_map m)\<rparr>
      else m)"

text \<open>\<open>AddHeader_range line colon\<close>: \<^verbatim>\<open>begin\<close> and \<^verbatim>\<open>end\<close> delimit the line, \<open>colon\<close> is an
  offset in it.\<close>

definition AddHeader_range ::
  "string \<Rightarrow> nat \<Rightarrow> 'm http_message_scheme \<Rightarrow> 'm http_message_scheme" where
  "AddHeader_range line colon m =
     AddHeader (take colon line) (dropWhile (\<lambda>c. c = CHR '' '') (drop (Suc colon) line)) m"

definition RemoveHeader :: "string \<Rightarrow> 'm http_message_scheme \<Rightarrow> 'm http_message_scheme" where
  "RemoveHeader field m = m\<lparr>header_map := smap_erase field (header_map m)\<rparr>"

definition Value :: "string \<Rightarrow> 'm http_message_scheme \<Rightarrow> string" where
  "Value field m = (case map_of (header_map m) field of None \<Rightarrow> [] | Some v \<Rightarrow> v)"

section \<open>HttpRequest\<close>

datatype Method =
  kOptions | kHead | kGet | kPost | kPut | kDelete | kTrace | kConnect | kPatch

record http_request = http_message +
  meth :: Method
  path :: string
  query :: string
  request_message :: buffer

text \<open>The constructor leaves \<^verbatim>\<open>method_\<close> uninitialised: its first value is an argument here.\<close>

definition HttpRequest_new :: "Method \<Rightarrow> http_request" where
  "HttpRequest_new m0 =
     \<lparr>version = kHttp10, header_map = [], body = [], meth = m0, path = [], query = [],
      request_message = new_Buffer kInitBufferSize\<rparr>"

definition SetMethod :: "string \<Rightarrow> http_request \<Rightarrow> bool \<times> http_request" where
  "SetMethod s r =
     (let sz = length s in
      if strncaseeq sz s ''OPTIONS'' then (True, r\<lparr>meth := kOptions\<rparr>)
      else if strncaseeq sz s ''HEAD'' then (True, r\<lparr>meth := kHead\<rparr>)
      else if strncaseeq sz s ''GET'' then (True, r\<lparr>meth := kGet\<rparr>)
      else if strncaseeq sz s ''POST'' then (True, r\<lparr>meth := kPost\<rparr>)
      else if strncaseeq sz s ''PUT'' then (True, r\<lparr>meth := kPut\<rparr>)
      else if strncaseeq sz s ''DELETE'' then (True, r\<lparr>meth := kDelete\<rparr>)
      else if strncaseeq sz s ''TRACE'' then (True, r\<lparr>meth := kTrace\<rparr>)
      else if strncaseeq sz s ''CONNECT'' then (True, r\<lparr>meth := kConnect\<rparr>)
      else if strncaseeq sz s ''PATCH'' then (True, r\<lparr>meth := kPatch\<rparr>)
      else (False, r))"

fun MethodToString :: "Method \<Rightarrow> string" where
  "MethodToString kOptions = ''OPTIONS''"
| "MethodToString kHead = ''HEAD''"
| "MethodToString kGet = ''GET''"
| "MethodToString kPost = ''POST''"
| "MethodToString kPut = ''PUT''"
| "MethodToString kDelete = ''DELETE''"
| "MethodToString kTrace = ''TRACE''"
| "MethodToString kConnect = ''CONNECT''"
| "MethodToString kPatch = ''PATCH''"

text \<open>A run of \<^verbatim>\<open>message_.Append\<close> calls.\<close>

fun append_all :: "string list \<Rightarrow> buffer \<Rightarrow> buffer res" where
  "append_all [] b = Inr b"
| "append_all (x # xs) b = rbind (Append x b) (append_all xs)"

text \<open>What the calls append, in order: the loop over the header map contributes four strings
  for each entry.\<close>

definition request_chunks :: "http_request \<Rightarrow> string list" where
  "request_chunks r =
     [MethodToString (meth r), '' '', path r]
     @ (if query r \<noteq> [] then [''?'', query r] else [])
     @ ['' '', VersionToString (version r), kCRLF]
     @ concat (map (\<lambda>(k, v). [k, '':'', v, kCRLF]) (header_map r))
     @ [kCRLF, body r]"

definition RequestMessage :: "http_request \<Rightarrow> (buffer \<times> http_request) res" where
  "RequestMessage r =
     rbind (append_all (request_chunks r) (request_message r))
       (\<lambda>b. Inr (b, r\<lparr>request_message := b\<rparr>))"

section \<open>HttpResponse\<close>

record http_response = http_message +
  close_state :: bool
  status_code :: string
  reason_parse :: string
  response_message :: buffer

definition HttpResponse_new :: http_response where
  "HttpResponse_new =
     \<lparr>version = kHttp10, header_map = [], body = [], close_state = False,
      status_code = ''200'', reason_parse = ''OK'',
      response_message = new_Buffer kInitBufferSize\<rparr>"

definition response_chunks :: "http_response \<Rightarrow> string list" where
  "response_chunks r =
     [VersionToString (version r), '' '', status_code r, '' '', reason_parse r, kCRLF]
     @ concat (map (\<lambda>(k, v). [k, '': '', v, kCRLF]) (header_map r))
     @ [kCRLF, body r]"

definition ResponseMessage :: "http_response \<Rightarrow> (buffer \<times> http_response) res" where
  "ResponseMessage r =
     rbind (append_all (response_chunks r) (response_message r))
       (\<lambda>b. Inr (b, r\<lparr>response_message := b\<rparr>))"

section \<open>Lemmas\<close>

lemma append_all_ok:
  "buffer_ok b \<Longrightarrow> \<exists>b'. append_all xs b = Inr b' \<and> buffer_ok b' \<and> Peek b' = Peek b @ concat xs"
proof (induction xs arbitrary: b)
  case (Cons x xs)
  obtain b1 where "Append x b = Inr b1" "buffer_ok b1" "Peek b1 = Peek b @ x"
    using Append_ok [OF Cons.prems, of x] by blast
  with Cons.IH [of b1] show ?case by auto
qed simp

text \<open>Printing a request appends its text to the request's own buffer.\<close>

lemma RequestMessage_ok:
  assumes "buffer_ok (request_message r)"
  shows "\<exists>b. RequestMessage r = Inr (b, r\<lparr>request_message := b\<rparr>) \<and> buffer_ok b
    \<and> Peek b = Peek (request_message r) @ concat (request_chunks r)"
  using append_all_ok [OF assms, of "request_chunks r"] by (auto simp: RequestMessage_def)

lemma ResponseMessage_ok:
  assumes "buffer_ok (response_message r)"
  shows "\<exists>b. ResponseMessage r = Inr (b, r\<lparr>response_message := b\<rparr>) \<and> buffer_ok b
    \<and> Peek b = Peek (response_message r) @ concat (response_chunks r)"
  using append_all_ok [OF assms, of "response_chunks r"] by (auto simp: ResponseMessage_def)

text \<open>The names of methods and versions read back as themselves.\<close>

lemma SetMethod_name: "SetMethod (MethodToString m) r = (True, r\<lparr>meth := m\<rparr>)"
  by (cases m) (simp_all add: SetMethod_def Let_def tolower_def nat_of_def)

lemma SetVersion_name: "SetVersion (VersionToString v) m = (True, m\<lparr>version := v\<rparr>)"
  by (cases v) (simp_all add: SetVersion_def Let_def tolower_def nat_of_def)

lemma Value_AddHeader:
  "field \<noteq> [] \<Longrightarrow> value \<noteq> [] \<Longrightarrow>
     Value k (AddHeader field value m) = (if k = TransferField field then value else Value k m)"
  by (simp add: Value_def AddHeader_def)

lemma AddHeader_ok: "smap_ok (header_map m) \<Longrightarrow> smap_ok (header_map (AddHeader field value m))"
  by (simp add: AddHeader_def)

end
