(* ===== verification/Http_Parser.thy ===== *)
theory Http_Parser
  imports Http_Message
begin

text \<open>
  The incremental parsers \<^verbatim>\<open>HttpRequestParser\<close> and \<^verbatim>\<open>HttpResponseParser\<close>. Their
  \<^verbatim>\<open>ParseBuffer\<close> methods are the same loop around different readers of the first line and of
  the body, so the loop is one definition with these two as arguments. The loop may not return
  (a parser that has finished spins in it), hence \<open>partial_function (option)\<close>. The locale
  \<open>message_parser\<close> relates the loop over buffers to a total reading of the text.
\<close>

section \<open>The parse loop\<close>

datatype ParserState = kLine | kHeaders | kBody | kEnd

record 'm parser =
  pstate :: ParserState
  pmsg :: 'm

type_synonym 'm line_reader = "string \<Rightarrow> 'm http_message_scheme \<Rightarrow> bool \<times> 'm http_message_scheme"
type_synonym 'm body_reader =
  "'m http_message_scheme \<Rightarrow> buffer \<Rightarrow> (bool \<times> 'm http_message_scheme \<times> buffer) res"

text \<open>One round of the loop: \<^verbatim>\<open>ok\<close>, \<^verbatim>\<open>flag\<close>, the parser and the buffer after it.\<close>

definition parse_step :: "'m line_reader \<Rightarrow> 'm body_reader \<Rightarrow> 'm http_message_scheme parser \<Rightarrow> buffer
    \<Rightarrow> (bool \<times> bool \<times> 'm http_message_scheme parser \<times> buffer) res" where
  "parse_step rd_line rd_body p b =
     (case pstate p of
        kLine \<Rightarrow>
          (case FindCRLF b of
             Some crlf \<Rightarrow>
               (case rd_line (take crlf (Peek b)) (pmsg p) of (ok, m) \<Rightarrow>
                  if ok then rbind (RetrieveUntil (crlf + 2) b)
                               (\<lambda>b. Inr (True, True, p\<lparr>pmsg := m, pstate := kHeaders\<rparr>, b))
                  else Inr (False, False, p\<lparr>pmsg := m\<rparr>, b))
           | None \<Rightarrow> Inr (True, False, p, b))
      | kHeaders \<Rightarrow>
          (case FindCRLF b of
             Some crlf \<Rightarrow>
               (let line = take crlf (Peek b);
                    colon = length (takeWhile (\<lambda>c. c \<noteq> CHR '':'') line);
                    (ok, p) = (if crlf = 0 then (True, p\<lparr>pstate := kBody\<rparr>)
                               else if colon = 0 \<or> colon = crlf then (False, p)
                               else (True, p\<lparr>pmsg := AddHeader_range line colon (pmsg p)\<rparr>))
                in rbind (RetrieveUntil (crlf + 2) b) (\<lambda>b. Inr (ok, True, p, b)))
           | None \<Rightarrow> Inr (True, False, p, b))
      | kBody \<Rightarrow>
          rbind (rd_body (pmsg p) b)
            (\<lambda>(done, m, b). Inr (done, False,
                p\<lparr>pmsg := m, pstate := (if done then kEnd else kBody)\<rparr>, b))
      | kEnd \<Rightarrow> Inr (True, True, p, b))"

partial_function (option) parse_loop ::
  "'m line_reader \<Rightarrow> 'm body_reader \<Rightarrow> 'm http_message_scheme parser \<Rightarrow> buffer
    \<Rightarrow> (bool \<times> 'm http_message_scheme parser \<times> buffer) res option" where
  "parse_loop rd_line rd_body p b =
     (case parse_step rd_line rd_body p b of
        Inl e \<Rightarrow> Some (Inl e)
      | Inr (ok, flag, p, b) \<Rightarrow>
          if flag \<and> ok then parse_loop rd_line rd_body p b else Some (Inr (ok, p, b)))"

declare parse_loop.simps [code]

definition FinishParse :: "'m parser \<Rightarrow> bool" where
  "FinishParse p \<longleftrightarrow> pstate p = kEnd"

section \<open>Requests\<close>

type_synonym request_parser = "http_request parser"

definition HttpRequestParser_new :: "Method \<Rightarrow> request_parser" where
  "HttpRequestParser_new m0 = \<lparr>pstate = kLine, pmsg = HttpRequest_new m0\<rparr>"

definition HttpRequestParser_Reset :: "Method \<Rightarrow> request_parser \<Rightarrow> request_parser" where
  "HttpRequestParser_Reset m0 p = p\<lparr>pstate := kLine, pmsg := HttpRequest_new m0\<rparr>"

text \<open>The offset of the last question mark, \<^verbatim>\<open>p\<close> in the second loop of
  \<^verbatim>\<open>ParseRequestLine\<close>.\<close>

fun last_question :: "string \<Rightarrow> nat option" where
  "last_question [] = None"
| "last_question (c # s) =
     (case last_question s of Some i \<Rightarrow> Some (Suc i)
      | None \<Rightarrow> if c = CHR ''?'' then Some 0 else None)"

definition ParseRequestLine :: "string \<Rightarrow> http_request \<Rightarrow> bool \<times> http_request" where
  "ParseRequestLine line r =
     (let word = takeWhile (\<lambda>c. \<not> isspace c) line;
          rest = drop (length word) line
      in if rest = [] then (False, r)
         else case SetMethod word r of (ok, r) \<Rightarrow>
           if \<not> ok then (False, r)
           else
             (let rest = tl rest;
                  target = takeWhile (\<lambda>c. \<not> isspace c) rest;
                  after = drop (length target) rest
              in if after = [] then (False, r)
                 else SetVersion (tl after)
                   (case last_question target of
                      Some q \<Rightarrow> r\<lparr>path := take q target, query := drop q target\<rparr>
                    | None \<Rightarrow> r\<lparr>path := target\<rparr>)))"

definition ParseRequestBody :: "http_request \<Rightarrow> buffer \<Rightarrow> (bool \<times> http_request \<times> buffer) res" where
  "ParseRequestBody r b =
     (let s = Value kContentLength r in
      if meth r \<noteq> kPost \<or> s = [] then Inr (True, r, b)
      else if to_int (ReadableSize b) = atoi s
      then rbind (RetrieveAllAsString b) (\<lambda>(t, b). Inr (True, r\<lparr>body := t\<rparr>, b))
      else Inr (False, r, b))"

definition Request_ParseBuffer ::
  "request_parser \<Rightarrow> buffer \<Rightarrow> (bool \<times> request_parser \<times> buffer) res option" where
  "Request_ParseBuffer = parse_loop ParseRequestLine ParseRequestBody"

section \<open>Responses\<close>

type_synonym response_parser = "http_response parser"

definition HttpResponseParser_new :: response_parser where
  "HttpResponseParser_new = \<lparr>pstate = kLine, pmsg = HttpResponse_new\<rparr>"

definition HttpResponseParser_Reset :: "response_parser \<Rightarrow> response_parser" where
  "HttpResponseParser_Reset p = p\<lparr>pstate := kLine, pmsg := HttpResponse_new\<rparr>"

definition ParseResponseLine :: "string \<Rightarrow> http_response \<Rightarrow> bool \<times> http_response" where
  "ParseResponseLine line r =
     (let ver = takeWhile (\<lambda>c. \<not> isspace c) line;
          (_, r) = SetVersion ver r;
          rest = dropWhile isspace (dropWhile (\<lambda>c. \<not> isspace c) line);
          code = takeWhile (\<lambda>c. \<not> isspace c) rest;
          reason = dropWhile isspace (dropWhile (\<lambda>c. \<not> isspace c) rest)
      in (True, r\<lparr>status_code := code, reason_parse := reason\<rparr>))"

definition ParseResponseBody :: "http_response \<Rightarrow> buffer \<Rightarrow> (bool \<times> http_response \<times> buffer) res" where
  "ParseResponseBody r b =
     (let s = Value kContentLength r in
      if s = [] then Inr (True, r, b)
      else if to_int (ReadableSize b) = atoi s
      then rbind (RetrieveAllAsString b) (\<lambda>(t, b). Inr (True, r\<lparr>body := t\<rparr>, b))
      else Inr (False, r, b))"

definition Response_ParseBuffer ::
  "response_parser \<Rightarrow> buffer \<Rightarrow> (bool \<times> response_parser \<times> buffer) res option" where
  "Response_ParseBuffer = parse_loop ParseResponseLine ParseResponseBody"

section \<open>Reading the text\<close>

text \<open>
  The specification of the loop, on the text instead of the buffer: a header section is a
  sequence of lines \<open>field: value\<close> up to an empty line. It is total; the loop is related to it
  by the locale below.
\<close>

function text_headers ::
  "'m http_message_scheme \<Rightarrow> string \<Rightarrow> bool \<times> ParserState \<times> 'm http_message_scheme \<times> string" where
  "text_headers m s =
     (case search_from kCRLF s of
        None \<Rightarrow> (True, kHeaders, m, s)
      | Some i \<Rightarrow>
          let line = take i s; colon = length (takeWhile (\<lambda>c. c \<noteq> CHR '':'') line) in
          if i = 0 then (True, kBody, m, drop 2 s)
          else if colon = 0 \<or> colon = i then (False, kHeaders, m, drop (i + 2) s)
          else text_headers (AddHeader_range line colon m) (drop (i + 2) s))"
  by pat_completeness auto

termination
  by (relation "measure (\<lambda>(m, s). length s)") (auto dest: search_from_bound)

declare text_headers.simps [simp del]

definition text_body :: "('m http_message_scheme \<Rightarrow> string \<Rightarrow> bool \<times> 'm http_message_scheme \<times> string)
    \<Rightarrow> 'm http_message_scheme \<Rightarrow> string \<Rightarrow> bool \<times> 'm http_message_scheme parser \<times> string" where
  "text_body rd_text m s =
     (case rd_text m s of (fin, m, s) \<Rightarrow>
        (fin, \<lparr>pstate = (if fin then kEnd else kBody), pmsg = m\<rparr>, s))"

definition text_rest :: "('m http_message_scheme \<Rightarrow> string \<Rightarrow> bool \<times> 'm http_message_scheme \<times> string)
    \<Rightarrow> 'm http_message_scheme \<Rightarrow> string \<Rightarrow> bool \<times> 'm http_message_scheme parser \<times> string" where
  "text_rest rd_text m s =
     (case text_headers m s of (ok, st, m, s) \<Rightarrow>
        if st = kBody then text_body rd_text m s else (ok, \<lparr>pstate = st, pmsg = m\<rparr>, s))"

definition parse_text :: "'m line_reader
    \<Rightarrow> ('m http_message_scheme \<Rightarrow> string \<Rightarrow> bool \<times> 'm http_message_scheme \<times> string)
    \<Rightarrow> 'm http_message_scheme parser \<Rightarrow> string
    \<Rightarrow> bool \<times> 'm http_message_scheme parser \<times> string" where
  "parse_text rd_line rd_text p s =
     (case pstate p of
        kLine \<Rightarrow>
          (case search_from kCRLF s of
             None \<Rightarrow> (True, p, s)
           | Some i \<Rightarrow>
               (case rd_line (take i s) (pmsg p) of (ok, m) \<Rightarrow>
                  if ok then text_rest rd_text m (drop (i + 2) s)
                  else (False, p\<lparr>pmsg := m\<rparr>, s)))
      | kHeaders \<Rightarrow> text_rest rd_text (pmsg p) s
      | _ \<Rightarrow> text_body rd_text (pmsg p) s)"

definition request_text_body :: "http_request \<Rightarrow> string \<Rightarrow> bool \<times> http_request \<times> string" where
  "request_text_body r s =
     (let l = Value kContentLength r in
      if meth r \<noteq> kPost \<or> l = [] then (True, r, s)
      else if to_int (length s) = atoi l then (True, r\<lparr>body := s\<rparr>, []) else (False, r, s))"

definition response_text_body :: "http_response \<Rightarrow> string \<Rightarrow> bool \<times> http_response \<times> string" where
  "response_text_body r s =
     (let l = Value kContentLength r in
      if l = [] then (True, r, s)
      else if to_int (length s) = atoi l then (True, r\<lparr>body := s\<rparr>, []) else (False, r, s))"

section \<open>The loop reads the text\<close>

locale message_parser =
  fixes rd_line :: "'m line_reader"
    and rd_body :: "'m body_reader"
    and rd_text :: "'m http_message_scheme \<Rightarrow> string \<Rightarrow> bool \<times> 'm http_message_scheme \<times> string"
  assumes body_refines:
    "buffer_ok b \<Longrightarrow> \<exists>b'. rd_body m b =
       Inr (fst (rd_text m (Peek b)), fst (snd (rd_text m (Peek b))), b')
       \<and> buffer_ok b' \<and> Peek b' = snd (snd (rd_text m (Peek b)))"
begin

abbreviation loop where "loop \<equiv> parse_loop rd_line rd_body"

text \<open>The loop on a buffer with text \<open>s\<close> gives what the reading of \<open>s\<close> gives.\<close>

definition reads where
  "reads p b r \<longleftrightarrow> (case r of (ok, p', s') \<Rightarrow>
     \<exists>b'. loop p b = Some (Inr (ok, p', b')) \<and> buffer_ok b' \<and> Peek b' = s')"

lemma reads_body:
  assumes "buffer_ok b" and "pstate p = kBody"
  shows "reads p b (text_body rd_text (pmsg p) (Peek b))"
proof -
  obtain b' where "rd_body (pmsg p) b =
       Inr (fst (rd_text (pmsg p) (Peek b)), fst (snd (rd_text (pmsg p) (Peek b))), b')"
    and "buffer_ok b'" and "Peek b' = snd (snd (rd_text (pmsg p) (Peek b)))"
    using body_refines [OF assms(1)] by blast
  then show ?thesis
    using assms(2)
    by (subst reads_def, subst parse_loop.simps)
       (auto simp: parse_step_def text_body_def split: prod.splits)
qed

lemma reads_headers:
  assumes "buffer_ok b" and "pstate p = kHeaders"
  shows "reads p b (text_rest rd_text (pmsg p) (Peek b))"
  using assms
proof (induction "length (Peek b)" arbitrary: p b rule: less_induct)
  case less
  show ?case
  proof (cases "FindCRLF b")
    case None
    then have none: "search_from kCRLF (Peek b) = None" by (simp add: FindCRLF_def)
    then have "text_rest rd_text (pmsg p) (Peek b) = (True, p, Peek b)"
      using less.prems by (subst text_rest_def, subst text_headers.simps) simp
    then show ?thesis
      using None less.prems by (subst reads_def, subst parse_loop.simps) (simp add: parse_step_def)
  next
    case (Some i)
    then have some: "search_from kCRLF (Peek b) = Some i" by (simp add: FindCRLF_def)
    obtain b1 where b1: "RetrieveUntil (i + 2) b = Inr b1" "buffer_ok b1"
        "Peek b1 = drop (i + 2) (Peek b)"
      using RetrieveUntil_line [OF less.prems(1) Some] by blast
    have shorter: "length (Peek b1) < length (Peek b)"
      using search_from_bound [OF some] by (simp add: b1(3))
    let ?line = "take i (Peek b)"
    let ?colon = "length (takeWhile (\<lambda>c. c \<noteq> CHR '':'') ?line)"
    consider (blank) "i = 0" | (bad) "i \<noteq> 0" "?colon = 0 \<or> ?colon = i"
      | (good) "i \<noteq> 0" "?colon \<noteq> 0" "?colon \<noteq> i" by blast
    then show ?thesis
    proof cases
      case blank
      let ?p = "p\<lparr>pstate := kBody\<rparr>"
      have "reads ?p b1 (text_body rd_text (pmsg p) (Peek b1))"
        using reads_body [OF b1(2), of ?p] by simp
      moreover have "loop p b = loop ?p b1"
        using blank Some b1(1) less.prems(2) by (subst parse_loop.simps) (simp add: parse_step_def)
      moreover have "text_rest rd_text (pmsg p) (Peek b) = text_body rd_text (pmsg p) (Peek b1)"
        using blank some b1(3)
        by (subst text_rest_def, subst text_headers.simps) (simp add: numeral_2_eq_2)
      ultimately show ?thesis by (simp add: reads_def)
    next
      case bad
      then have "text_rest rd_text (pmsg p) (Peek b) = (False, p, Peek b1)"
        using some b1(3) less.prems(2) by (subst text_rest_def, subst text_headers.simps) (simp add: Let_def)
      moreover have "loop p b = Some (Inr (False, p, b1))"
        using bad Some b1(1) less.prems(2) by (subst parse_loop.simps) (simp add: parse_step_def Let_def)
      ultimately show ?thesis using b1(2) by (simp add: reads_def)
    next
      case good
      let ?p = "p\<lparr>pmsg := AddHeader_range ?line ?colon (pmsg p)\<rparr>"
      have "reads ?p b1 (text_rest rd_text (pmsg ?p) (Peek b1))"
        using less.hyps [OF shorter b1(2), of ?p] less.prems(2) by simp
      moreover have "loop p b = loop ?p b1"
        using good Some b1(1) less.prems(2) by (subst parse_loop.simps) (simp add: parse_step_def Let_def)
      moreover have "text_rest rd_text (pmsg p) (Peek b) = text_rest rd_text (pmsg ?p) (Peek b1)"
        using good some b1(3) unfolding text_rest_def
        by (subst text_headers.simps) (simp add: Let_def)
      ultimately show ?thesis by (simp add: reads_def)
    qed
  qed
qed

lemma reads_line:
  assumes "buffer_ok b" and "pstate p = kLine"
  shows "reads p b (parse_text rd_line rd_text p (Peek b))"
proof (cases "FindCRLF b")
  case None
  then show ?thesis
    using assms by (subst reads_def, subst parse_loop.simps) (simp add: parse_step_def parse_text_def FindCRLF_def)
next
  case (Some i)
  then have some: "search_from kCRLF (Peek b) = Some i" by (simp add: FindCRLF_def)
  obtain ok m where line: "rd_line (take i (Peek b)) (pmsg p) = (ok, m)" by fastforce
  obtain b1 where b1: "RetrieveUntil (i + 2) b = Inr b1" "buffer_ok b1"
      "Peek b1 = drop (i + 2) (Peek b)"
    using RetrieveUntil_line [OF assms(1) Some] by blast
  show ?thesis
  proof (cases ok)
    case True
    let ?p = "p\<lparr>pmsg := m, pstate := kHeaders\<rparr>"
    have "reads ?p b1 (text_rest rd_text m (Peek b1))"
      using reads_headers [OF b1(2), of ?p] by simp
    moreover have "loop p b = loop ?p b1"
      using True Some b1(1) line assms(2) by (subst parse_loop.simps) (simp add: parse_step_def)
    ultimately show ?thesis
      using True some line assms(2) b1(3) by (simp add: reads_def parse_text_def)
  next
    case False
    then show ?thesis
      using Some some line assms
      by (subst reads_def, subst parse_loop.simps) (simp add: parse_step_def parse_text_def)
  qed
qed

lemma loop_reads_text:
  assumes "buffer_ok b" and "pstate p \<noteq> kEnd"
  shows "reads p b (parse_text rd_line rd_text p (Peek b))"
  using assms reads_line [of b p] reads_headers [of b p] reads_body [of b p]
  by (cases "pstate p") (simp_all add: parse_text_def)

text \<open>A parser that has finished never returns from the loop.\<close>

lemma loop_finished_diverges:
  assumes "pstate p = kEnd"
  shows "loop p b = None"
proof -
  have "pstate p \<noteq> kEnd" if "loop p b = Some y" for y
    using that
    by (rule parse_loop.raw_induct [where P = "\<lambda>_ _ p _ _. pstate p \<noteq> kEnd", rotated])
       (auto simp: parse_step_def split: ParserState.splits)
  with assms show ?thesis by (cases "loop p b") auto
qed

end

lemma ParseRequestBody_refines:
  assumes "buffer_ok b"
  shows "\<exists>b'. ParseRequestBody m b =
       Inr (fst (request_text_body m (Peek b)), fst (snd (request_text_body m (Peek b))), b')
       \<and> buffer_ok b' \<and> Peek b' = snd (snd (request_text_body m (Peek b)))"
proof -
  obtain b' where "RetrieveAllAsString b = Inr (Peek b, b')" "buffer_ok b'" "Peek b' = []"
    using assms by (rule RetrieveAllAsString_ok)
  with assms show ?thesis by (simp add: ParseRequestBody_def request_text_body_def Let_def)
qed

lemma ParseResponseBody_refines:
  assumes "buffer_ok b"
  shows "\<exists>b'. ParseResponseBody m b =
       Inr (fst (response_text_body m (Peek b)), fst (snd (response_text_body m (Peek b))), b')
       \<and> buffer_ok b' \<and> Peek b' = snd (snd (response_text_body m (Peek b)))"
proof -
  obtain b' where "RetrieveAllAsString b = Inr (Peek b, b')" "buffer_ok b'" "Peek b' = []"
    using assms by (rule RetrieveAllAsString_ok)
  with assms show ?thesis by (simp add: ParseResponseBody_def response_text_body_def Let_def)
qed

interpretation rq: message_parser ParseRequestLine ParseRequestBody request_text_body
  by unfold_locales (rule ParseRequestBody_refines)

interpretation rs: message_parser ParseResponseLine ParseResponseBody response_text_body
  by unfold_locales (rule ParseResponseBody_refines)

section \<open>When parsing returns\<close>

text \<open>C27: \<^verbatim>\<open>HttpRequestParser::ParseBuffer\<close> returns on every buffer unless the parser has already
  finished: a parser in \<^verbatim>\<open>kEnd\<close> that is given more data, without a \<^verbatim>\<open>Reset\<close>, loops forever.
  When it returns, no assertion has failed, and the outcome, the request and the text that is
  left are those of the reading \<open>parse_text\<close>.\<close>

theorem request_parser_returns:
  assumes "buffer_ok b"
  shows "((\<exists>r. Request_ParseBuffer p b = Some r) \<longleftrightarrow> pstate p \<noteq> kEnd)
    \<and> (pstate p \<noteq> kEnd \<longrightarrow>
        (\<exists>ok p' b'. Request_ParseBuffer p b = Some (Inr (ok, p', b')) \<and> buffer_ok b'
          \<and> parse_text ParseRequestLine request_text_body p (Peek b) = (ok, p', Peek b')))"
proof (cases "pstate p = kEnd")
  case True
  then show ?thesis by (simp add: Request_ParseBuffer_def rq.loop_finished_diverges)
next
  case False
  from rq.loop_reads_text [OF assms False] show ?thesis
    using False unfolding rq.reads_def Request_ParseBuffer_def
    by (auto split: prod.splits)
qed

theorem request_parser_returns_witness:
  "(\<exists>r. Request_ParseBuffer (HttpRequestParser_new kGet) (new_Buffer 8) = Some r)
   \<and> Request_ParseBuffer \<lparr>pstate = kEnd, pmsg = HttpRequest_new kGet\<rparr> (new_Buffer 8) = None"
  using request_parser_returns [OF new_Buffer_ok, of "HttpRequestParser_new kGet" 8]
    request_parser_returns [OF new_Buffer_ok, of "\<lparr>pstate = kEnd, pmsg = HttpRequest_new kGet\<rparr>" 8]
  by (cases "Request_ParseBuffer \<lparr>pstate = kEnd, pmsg = HttpRequest_new kGet\<rparr> (new_Buffer 8)")
     (simp_all add: HttpRequestParser_new_def)

section \<open>Fragments\<close>

lemma text_headers_append:
  assumes "text_headers m s = (True, st, m', s')"
  shows "(if st = kHeaders then text_headers m (s @ t) = text_headers m' (s' @ t)
          else st = kBody \<and> text_headers m (s @ t) = (True, kBody, m', s' @ t))"
  using assms
proof (induction m s arbitrary: st m' s' rule: text_headers.induct)
  case (1 m s)
  show ?case
  proof (cases "search_from kCRLF s")
    case None
    with "1.prems" show ?thesis by (simp add: text_headers.simps [of m s])
  next
    case (Some i)
    note app = search_from_append [OF Some, of t]
    have bound: "i + 2 \<le> length s" using search_from_bound [OF Some] by simp
    let ?line = "take i s"
    let ?colon = "length (takeWhile (\<lambda>c. c \<noteq> CHR '':'') ?line)"
    consider (blank) "i = 0" | (bad) "i \<noteq> 0" "?colon = 0 \<or> ?colon = i"
      | (good) "i \<noteq> 0" "?colon \<noteq> 0" "?colon \<noteq> i" by blast
    then show ?thesis
    proof cases
      case blank
      have "st = kBody" "m' = m" "s' = drop 2 s"
        using blank "1.prems" Some by (simp_all add: text_headers.simps [of m s])
      with blank app bound show ?thesis by (simp add: text_headers.simps [of m "s @ t"])
    next
      case bad
      with "1.prems" Some show ?thesis by (simp add: text_headers.simps [of m s] Let_def)
    next
      case good
      let ?m = "AddHeader_range ?line ?colon m"
      have "text_headers ?m (drop (i + 2) s) = (True, st, m', s')"
        using good Some "1.prems" by (simp add: text_headers.simps [of m s] Let_def)
      moreover have "text_headers m (s @ t) = text_headers ?m (drop (i + 2) s @ t)"
        using good app bound by (simp add: text_headers.simps [of m "s @ t"] Let_def)
      moreover have "\<not> (?colon = 0 \<or> ?colon = i)" using good by blast
      ultimately show ?thesis
        using "1.IH" [OF Some refl refl good(1)] by presburger
    qed
  qed
qed

lemma text_headers_state:
  "text_headers m s = (ok, st, m', s') \<Longrightarrow> st = kHeaders \<or> st = kBody"
  by (induction m s arbitrary: m' s' rule: text_headers.induct)
     (subst (asm) (2) text_headers.simps, auto simp: Let_def split: option.splits if_splits)

lemma text_rest_append:
  assumes "text_rest rd m s = (True, p', s')" and "pstate p' \<noteq> kEnd"
  shows "pstate p' = kHeaders \<and> text_rest rd m (s @ t) = text_rest rd (pmsg p') (s' @ t)"
proof -
  obtain ok st m1 s1 where h: "text_headers m s = (ok, st, m1, s1)" by (metis prod_cases4)
  have "st = kHeaders"
    using text_headers_state [OF h] assms h
    by (auto simp: text_rest_def text_body_def split: prod.splits if_splits)
  with assms h have eq: "ok" "p' = \<lparr>pstate = kHeaders, pmsg = m1\<rparr>" "s' = s1"
    by (auto simp: text_rest_def)
  with h \<open>st = kHeaders\<close> show ?thesis
    using text_headers_append [of m s st m1 s1 t] by (simp add: text_rest_def)
qed

lemma parse_text_append:
  assumes "parse_text l rd p s = (True, p', s')" and "pstate p' \<noteq> kEnd" and "pstate p \<noteq> kBody"
    and "pstate p \<noteq> kEnd"
  shows "parse_text l rd p (s @ t) = parse_text l rd p' (s' @ t)"
proof (cases "pstate p")
  case kHeaders
  then show ?thesis
    using assms text_rest_append [of rd "pmsg p" s p' s' t] by (simp add: parse_text_def)
next
  case kLine
  show ?thesis
  proof (cases "search_from kCRLF s")
    case None
    with kLine assms show ?thesis by (simp add: parse_text_def)
  next
    case (Some i)
    obtain ok m where m: "l (take i s) (pmsg p) = (ok, m)" by fastforce
    have bound: "i + 2 \<le> length s" using search_from_bound [OF Some] by simp
    have ok: ok and rest: "text_rest rd m (drop (i + 2) s) = (True, p', s')"
      using kLine Some m assms(1) by (auto simp: parse_text_def split: if_splits)
    then have p': "pstate p' = kHeaders"
        "text_rest rd m (drop (i + 2) s @ t) = text_rest rd (pmsg p') (s' @ t)"
      using text_rest_append [OF rest assms(2)] by auto
    have "parse_text l rd p (s @ t) = text_rest rd m (drop (i + 2) s @ t)"
      using kLine m ok bound by (simp add: parse_text_def search_from_append [OF Some])
    with p' show ?thesis by (simp add: parse_text_def)
  qed
qed (use assms in simp_all)

text \<open>C9: Arrival in pieces does not matter up to the end of the headers. When
  \<^verbatim>\<open>HttpRequestParser::ParseBuffer\<close> has accepted a first piece and waits for more, parsing what
  it left together with a second piece gives the same outcome, the same request and the same
  remaining text as parsing both pieces at once.\<close>

theorem request_parser_fragments:
  assumes "Request_ParseBuffer p b = Some (Inr (True, p1, b1))" and "pstate p1 \<noteq> kEnd"
    and "pstate p \<in> {kLine, kHeaders}"
    and "buffer_ok b" and "buffer_ok b2" and "Peek b2 = Peek b1 @ t"
    and "buffer_ok b12" and "Peek b12 = Peek b @ t"
  shows "\<exists>ok p' b2' b12'. Request_ParseBuffer p1 b2 = Some (Inr (ok, p', b2'))
    \<and> Request_ParseBuffer p b12 = Some (Inr (ok, p', b12')) \<and> Peek b2' = Peek b12'"
proof -
  let ?R = "parse_text ParseRequestLine request_text_body"
  have p: "pstate p \<noteq> kEnd" "pstate p \<noteq> kBody" using assms(3) by auto
  have "?R p (Peek b) = (True, p1, Peek b1)"
    using rq.loop_reads_text [OF assms(4) p(1)] assms(1)
    by (auto simp: rq.reads_def Request_ParseBuffer_def split: prod.splits)
  then have eq: "?R p (Peek b12) = ?R p1 (Peek b2)"
    unfolding assms(6,8) by (rule parse_text_append [OF _ assms(2) p(2,1)])
  obtain ok p' s' where r: "?R p1 (Peek b2) = (ok, p', s')" by (metis prod_cases3)
  from rq.loop_reads_text [OF assms(5,2)] rq.loop_reads_text [OF assms(7) p(1)]
  show ?thesis
    unfolding eq r by (auto simp: rq.reads_def Request_ParseBuffer_def)
qed

definition example_buffer :: "string \<Rightarrow> buffer" where
  "example_buffer s = \<lparr>buf = s, read_index = 0, write_index = length s\<rparr>"

lemma example_buffer_ok [simp]: "buffer_ok (example_buffer s)" "Peek (example_buffer s) = s"
  by (simp_all add: example_buffer_def buffer_defs segment_def)

theorem request_parser_fragments_witness:
  "\<exists>p1 b1 ok p' b2' b12'.
     Request_ParseBuffer (HttpRequestParser_new kGet) (example_buffer (''GET / HTTP/1.1'' @ kCRLF @ ''Ho''))
       = Some (Inr (True, p1, b1))
     \<and> Request_ParseBuffer p1 (example_buffer (Peek b1 @ ''st: a'' @ kCRLF @ kCRLF))
       = Some (Inr (ok, p', b2'))
     \<and> Request_ParseBuffer (HttpRequestParser_new kGet)
         (example_buffer ((''GET / HTTP/1.1'' @ kCRLF @ ''Ho'') @ ''st: a'' @ kCRLF @ kCRLF))
       = Some (Inr (ok, p', b12')) \<and> Peek b2' = Peek b12'"
proof -
  let ?p = "HttpRequestParser_new kGet" and ?s = "''GET / HTTP/1.1'' @ kCRLF @ ''Ho''"
  have reading: "parse_text ParseRequestLine request_text_body ?p ?s
    = (True, \<lparr>pstate = kHeaders, pmsg = HttpRequest_new kGet\<lparr>version := kHttp11, path := ''/''\<rparr>\<rparr>, ''Ho'')"
    by code_simp
  obtain b1 where b1: "Request_ParseBuffer ?p (example_buffer ?s)
      = Some (Inr (True, \<lparr>pstate = kHeaders, pmsg = HttpRequest_new kGet\<lparr>version := kHttp11, path := ''/''\<rparr>\<rparr>, b1))"
    using rq.loop_reads_text [of "example_buffer ?s" ?p] reading
    by (auto simp: rq.reads_def Request_ParseBuffer_def HttpRequestParser_new_def)
  show ?thesis
    using request_parser_fragments [OF b1, of "example_buffer (Peek b1 @ ''st: a'' @ kCRLF @ kCRLF)"
        "''st: a'' @ kCRLF @ kCRLF" "example_buffer (?s @ ''st: a'' @ kCRLF @ kCRLF)"] b1
    by (simp add: HttpRequestParser_new_def)
qed

section \<open>Round trips\<close>



text \<open>Header entries that can be printed and read back: a non-empty field without colon, in the
  spelling the map uses, and a non-empty value that does not start with a blank, both without
  line feed.\<close>

definition header_ok :: "string \<times> string \<Rightarrow> bool" where
  "header_ok h \<longleftrightarrow>
     fst h \<noteq> [] \<and> CHR '':'' \<notin> set (fst h) \<and> kLF \<notin> set (fst h) \<and> TransferField (fst h) = fst h
     \<and> snd h \<noteq> [] \<and> kLF \<notin> set (snd h) \<and> hd (snd h) \<noteq> CHR '' ''"

definition headers_text :: "string \<Rightarrow> string std_map \<Rightarrow> string" where
  "headers_text sep hs = concat (map (\<lambda>(k, v). k @ sep @ v @ kCRLF) hs)"

lemma takeWhile_upto:
  "(\<forall>x \<in> set xs. P x) \<Longrightarrow> \<not> P y \<Longrightarrow> takeWhile P (xs @ y # ys) = xs"
  by (induction xs) auto

lemma dropWhile_upto:
  "(\<forall>x \<in> set xs. P x) \<Longrightarrow> \<not> P y \<Longrightarrow> dropWhile P (xs @ y # ys) = y # ys"
  by (induction xs) auto

lemma text_headers_line:
  assumes "kLF \<notin> set l" and "takeWhile (\<lambda>c. c \<noteq> CHR '':'') l = k" and "k \<noteq> []" and "k \<noteq> l"
  shows "text_headers m (l @ kCRLF @ t) = text_headers (AddHeader_range l (length k) m) t"
proof -
  have "length k \<noteq> length l" using assms(2,4) by (metis takeWhile_eq_take take_all order_refl)
  moreover have "l \<noteq> []" using assms(2,3) by auto
  ultimately show ?thesis
    using assms drop_line [of l t]
    by (subst text_headers.simps) (simp add: search_line Let_def)
qed

lemma parse_text_line:
  assumes "pstate p = kLine" and "kLF \<notin> set l" and "rd_line l (pmsg p) = (True, m)"
  shows "parse_text rd_line rd p (l @ kCRLF @ t) = text_rest rd m t"
  using assms search_line [of l t] drop_line [of l t] by (simp add: parse_text_def)

lemma AddHeader_line:
  assumes "header_ok (k, v)"
  shows "AddHeader_range (k @ CHR '':'' # replicate n (CHR '' '') @ v) (length k) m
    = m\<lparr>header_map := smap_put k v (header_map m)\<rparr>"
proof -
  obtain c v' where v: "v = c # v'" using assms by (cases v) (auto simp: header_ok_def)
  then have "c \<noteq> CHR '' ''" using assms by (auto simp: header_ok_def)
  then have "dropWhile (\<lambda>c. c = CHR '' '') (replicate n (CHR '' '') @ v) = v"
    unfolding v by (intro dropWhile_upto) auto
  then show ?thesis
    using assms by (simp add: AddHeader_range_def AddHeader_def header_ok_def)
qed

lemma text_headers_print:
  assumes "\<forall>h \<in> set hs. header_ok h" and "smap_ok (header_map m @ hs)"
  shows "text_headers m (headers_text (CHR '':'' # replicate n (CHR '' '')) hs @ kCRLF @ t)
    = (True, kBody, m\<lparr>header_map := header_map m @ hs\<rparr>, t)"
  using assms
proof (induction hs arbitrary: m)
  case Nil
  have "search_from kCRLF (kCRLF @ t) = Some 0" using search_line [of "[]" t] by simp
  then show ?case
    by (subst text_headers.simps) (simp add: headers_text_def kCRLF_def)
next
  case (Cons h hs)
  obtain k v where h: "h = (k, v)" by (cases h)
  let ?sep = "CHR '':'' # replicate n (CHR '' '')"
  let ?line = "k @ ?sep @ v" and ?rest = "headers_text ?sep hs @ kCRLF @ t"
  have ok: "header_ok (k, v)" using Cons.prems h by simp
  have put: "smap_put k v (header_map m) = header_map m @ [(k, v)]"
    using Cons.prems(2) unfolding h by (rule smap_put_sorted_append)
  let ?m = "m\<lparr>header_map := header_map m @ [(k, v)]\<rparr>"
  have "takeWhile (\<lambda>c. c \<noteq> CHR '':'') ?line = k"
    unfolding append_Cons using ok by (intro takeWhile_upto) (auto simp: header_ok_def)
  then have "text_headers m (?line @ kCRLF @ ?rest)
      = text_headers (AddHeader_range ?line (length k) m) ?rest"
    using ok by (intro text_headers_line) (auto simp: header_ok_def kLF_def)
  also have "\<dots> = text_headers ?m ?rest"
    using AddHeader_line [OF ok, of n m] put by simp
  also have "\<dots> = (True, kBody, ?m\<lparr>header_map := header_map ?m @ hs\<rparr>, t)"
    using Cons.prems h by (intro Cons.IH) auto
  finally show ?case by (simp add: h headers_text_def)
qed

text \<open>A request that can be sent and read back: the target has no white space, the query no
  question mark, the headers are printable, and a body is announced by its length in a POST.\<close>

definition body_announced :: "nat \<Rightarrow> string \<Rightarrow> bool" where
  "body_announced n l \<longleftrightarrow> n = 0 \<and> l = [] \<or> l = print_nat n \<and> n < 2 ^ 31"

definition request_ok :: "http_request \<Rightarrow> bool" where
  "request_ok r \<longleftrightarrow>
     (\<forall>c \<in> set (path r) \<union> set (query r). \<not> isspace c) \<and> CHR ''?'' \<notin> set (query r)
     \<and> (query r = [] \<longrightarrow> CHR ''?'' \<notin> set (path r))
     \<and> smap_ok (header_map r) \<and> (\<forall>h \<in> set (header_map r). header_ok h)
     \<and> (if meth r = kPost then body_announced (length (body r)) (Value kContentLength r)
        else body r = [])"

text \<open>A request whose head can be sent and read back, whatever its method and body.\<close>

definition request_head_ok :: "http_request \<Rightarrow> bool" where
  "request_head_ok r \<longleftrightarrow>
     (\<forall>c \<in> set (path r) \<union> set (query r). \<not> isspace c) \<and> CHR ''?'' \<notin> set (query r)
     \<and> (query r = [] \<longrightarrow> CHR ''?'' \<notin> set (path r))
     \<and> smap_ok (header_map r) \<and> (\<forall>h \<in> set (header_map r). header_ok h)"

lemma request_ok_head: "request_ok r \<Longrightarrow> request_head_ok r"
  by (simp add: request_ok_def request_head_ok_def)

definition request_line :: "http_request \<Rightarrow> string" where
  "request_line r = MethodToString (meth r) @ '' '' @ path r
     @ (if query r \<noteq> [] then ''?'' @ query r else []) @ '' '' @ VersionToString (version r)"

lemma request_text:
  "concat (request_chunks r)
    = request_line r @ kCRLF @ headers_text '':'' (header_map r) @ kCRLF @ body r"
proof -
  have "concat (concat (map (\<lambda>(k, v). [k, '':'', v, kCRLF]) hs)) = headers_text '':'' hs" for hs
    by (induction hs) (auto simp: headers_text_def)
  then show ?thesis by (simp add: request_chunks_def request_line_def)
qed

lemma last_question_none: "CHR ''?'' \<notin> set s \<Longrightarrow> last_question s = None"
  by (induction s) auto

lemma last_question_some:
  "CHR ''?'' \<notin> set q \<Longrightarrow> last_question (s @ CHR ''?'' # q) = Some (length s)"
  by (induction s) (auto simp: last_question_none)

lemma name_no_space:
  "c \<in> set (MethodToString m) \<Longrightarrow> \<not> isspace c" "c \<in> set (VersionToString v) \<Longrightarrow> \<not> isspace c"
  by (cases m; auto simp: isspace_def nat_of_def) (cases v; auto simp: isspace_def nat_of_def)

lemma isspace_space [simp]: "isspace (CHR '' '')"
  by (simp add: isspace_def nat_of_def)

lemma isspace_kLF: "isspace kLF"
  by (simp add: isspace_def nat_of_def kLF_def)

text \<open>The words of the line are found again.\<close>

lemma ParseRequestLine_print:
  assumes "request_head_ok r"
  shows "ParseRequestLine (request_line r) r0 = (True, r0\<lparr>meth := meth r, version := version r,
    path := path r, query := (if query r = [] then query r0 else CHR ''?'' # query r)\<rparr>)"
proof -
  define M V where "M = MethodToString (meth r)" and "V = VersionToString (version r)"
  define T where "T = path r @ (if query r \<noteq> [] then ''?'' @ query r else [])"
  have word: "takeWhile (\<lambda>c. \<not> isspace c) (M @ CHR '' '' # s) = M" for s
    unfolding M_def by (intro takeWhile_upto) (auto dest: name_no_space)
  have target: "takeWhile (\<lambda>c. \<not> isspace c) (T @ CHR '' '' # s) = T" for s
    unfolding T_def
    using assms by (intro takeWhile_upto) (auto simp: request_head_ok_def isspace_def nat_of_def)
  have line: "request_line r = M @ CHR '' '' # (T @ CHR '' '' # V)"
    by (simp add: request_line_def M_def V_def T_def)
  have "ParseRequestLine (request_line r) r0 = SetVersion V
      (case last_question T of
         Some q \<Rightarrow> r0\<lparr>meth := meth r, path := take q T, query := drop q T\<rparr>
       | None \<Rightarrow> r0\<lparr>meth := meth r, path := T\<rparr>)"
    unfolding ParseRequestLine_def line
    by (simp add: Let_def word) (simp add: M_def SetMethod_name Let_def target cong: option.case_cong)
  also have "\<dots> = (True, r0\<lparr>meth := meth r, version := version r, path := path r,
      query := (if query r = [] then query r0 else CHR ''?'' # query r)\<rparr>)"
    using assms last_question_some [of "query r" "path r"]
    by (simp add: V_def T_def SetVersion_name request_head_ok_def last_question_none)
  finally show ?thesis .
qed

lemma request_line_no_LF: "request_head_ok r \<Longrightarrow> kLF \<notin> set (request_line r)"
  using name_no_space(1) [of kLF "meth r"] name_no_space(2) [of kLF "version r"] isspace_kLF
  by (auto simp: request_head_ok_def request_line_def kLF_def)

lemma body_announced_read:
  "body_announced n l \<Longrightarrow> l \<noteq> [] \<Longrightarrow> to_int n = atoi l"
  by (auto simp: body_announced_def atoi_print_nat to_int_small)

text \<open>Reading a printed request, with some text \<open>t\<close> in place of its body.\<close>

lemma parse_text_request:
  assumes "request_head_ok r"
  shows "parse_text ParseRequestLine request_text_body (HttpRequestParser_new m0)
      (request_line r @ kCRLF @ headers_text '':'' (header_map r) @ kCRLF @ t)
    = text_body request_text_body
        (r\<lparr>query := (if query r = [] then [] else CHR ''?'' # query r), body := [],
           request_message := new_Buffer kInitBufferSize\<rparr>) t"
proof -
  let ?p = "HttpRequestParser_new m0" and ?hs = "headers_text '':'' (header_map r) @ kCRLF @ t"
  let ?r = "(HttpRequest_new m0)\<lparr>meth := meth r, version := version r, path := path r,
    query := (if query r = [] then [] else CHR ''?'' # query r)\<rparr>"
  have "ParseRequestLine (request_line r) (pmsg ?p) = (True, ?r)"
    using ParseRequestLine_print [OF assms, of "HttpRequest_new m0"]
    by (simp add: HttpRequestParser_new_def HttpRequest_new_def)
  then have "parse_text ParseRequestLine request_text_body ?p (request_line r @ kCRLF @ ?hs)
      = text_rest request_text_body ?r ?hs"
    using request_line_no_LF [OF assms]
    by (intro parse_text_line) (simp_all add: HttpRequestParser_new_def)
  also have "text_headers ?r ?hs = (True, kBody, ?r\<lparr>header_map := header_map r\<rparr>, t)"
    using text_headers_print [of "header_map r" ?r 0 t] assms
    by (simp add: request_head_ok_def HttpRequest_new_def)
  then have "text_rest request_text_body ?r ?hs
      = text_body request_text_body (?r\<lparr>header_map := header_map r\<rparr>) t"
    by (simp add: text_rest_def)
  also have "?r\<lparr>header_map := header_map r\<rparr>
      = r\<lparr>query := (if query r = [] then [] else CHR ''?'' # query r), body := [],
           request_message := new_Buffer kInitBufferSize\<rparr>"
    by (cases r) (simp add: HttpRequest_new_def)
  finally show ?thesis .
qed

lemma Value_upd [simp]:
  "Value k (r\<lparr>body := x\<rparr>) = Value k r" "Value k (r\<lparr>version := v\<rparr>) = Value k r"
  "Value k (rq\<lparr>query := q\<rparr>) = Value k rq" "Value k (rq\<lparr>request_message := b\<rparr>) = Value k rq"
  "Value k (rs\<lparr>response_message := b\<rparr>) = Value k rs" "Value k (rs\<lparr>close_state := c\<rparr>) = Value k rs"
  by (simp_all add: Value_def)

lemma body_upd_same: "body r = x \<Longrightarrow> r\<lparr>query := q, body := x, request_message := m\<rparr> = r\<lparr>query := q, request_message := m\<rparr>"
  by auto

lemma request_text_body_print:
  assumes "if meth r = kPost then body_announced (length (body r)) (Value kContentLength r)
    else body r = []"
  shows "request_text_body (r\<lparr>query := q, body := [], request_message := m\<rparr>) (body r)
    = (True, r\<lparr>query := q, request_message := m\<rparr>, [])"
proof (cases "meth r \<noteq> kPost \<or> Value kContentLength r = []")
  case True
  then have "body r = []" using assms print_nat_not_empty
    by (auto simp: body_announced_def simp del: print_nat_not_empty split: if_splits) metis
  with True body_upd_same [of r "[]"] show ?thesis by (simp add: request_text_body_def)
next
  case False
  then have "to_int (length (body r)) = atoi (Value kContentLength r)"
    using assms body_announced_read by simp
  with False show ?thesis by (simp add: request_text_body_def)
qed

lemma request_print_parse:
  assumes "request_ok r" and "buffer_ok (request_message r)" and "Peek (request_message r) = []"
  shows "\<exists>b r' p b'. RequestMessage r = Inr (b, r')
    \<and> Request_ParseBuffer (HttpRequestParser_new m0) b = Some (Inr (True, p, b'))
    \<and> FinishParse p \<and> Peek b' = []
    \<and> pmsg p = r\<lparr>query := (if query r = [] then [] else CHR ''?'' # query r),
                  request_message := new_Buffer kInitBufferSize\<rparr>"
proof -
  obtain b where b: "RequestMessage r = Inr (b, r\<lparr>request_message := b\<rparr>)" "buffer_ok b"
      "Peek b = concat (request_chunks r)"
    using RequestMessage_ok [OF assms(2)] assms(3) by auto
  have "request_text_body (r\<lparr>query := q, body := [], request_message := m\<rparr>) (body r)
      = (True, r\<lparr>query := q, request_message := m\<rparr>, [])" for q m
    by (rule request_text_body_print) (use assms(1) in \<open>simp_all add: request_ok_def\<close>)
  then have "parse_text ParseRequestLine request_text_body (HttpRequestParser_new m0) (Peek b)
      = (True, \<lparr>pstate = kEnd, pmsg = r\<lparr>query := (if query r = [] then [] else CHR ''?'' # query r),
           request_message := new_Buffer kInitBufferSize\<rparr>\<rparr>, [])"
    unfolding b(3) request_text parse_text_request [OF request_ok_head [OF assms(1)]] by (simp add: text_body_def)
  then show ?thesis
    using rq.loop_reads_text [OF b(2), of "HttpRequestParser_new m0"] b(1)
    by (auto simp: rq.reads_def Request_ParseBuffer_def FinishParse_def HttpRequestParser_new_def)
qed

lemma request_text_body_cases:
  "request_text_body (r\<lparr>query := q, body := [], request_message := m\<rparr>) (body r) =
     (if meth r \<noteq> kPost \<or> Value kContentLength r = [] then (True, r\<lparr>query := q, body := [], request_message := m\<rparr>, body r)
      else if to_int (length (body r)) = atoi (Value kContentLength r) then (True, r\<lparr>query := q, request_message := m\<rparr>, [])
      else (False, r\<lparr>query := q, body := [], request_message := m\<rparr>, body r))"
  by (simp add: request_text_body_def)

text \<open>C10: What becomes of any request with a printable head that \<^verbatim>\<open>HttpRequest::RequestMessage\<close> prints and a fresh
  \<^verbatim>\<open>HttpRequestParser\<close> reads. Method, path, version and headers come back the same; the query comes back with its
  question mark, which printing would put in front of it again. The body depends on the method: of a
  POST with a \<^verbatim>\<open>Content-Length\<close> that is the length of the body it is read back, nothing is left in the buffer
  and the parser has finished; with another \<^verbatim>\<open>Content-Length\<close> the request is refused. Of any other method, or
  without a \<^verbatim>\<open>Content-Length\<close>, the parser finishes with an empty body and leaves the body that was
  printed in the buffer, where the next request is looked for.\<close>

theorem request_roundtrip:
  assumes "request_head_ok r" and "buffer_ok (request_message r)" and "Peek (request_message r) = []"
  shows "\<exists>b r' ok p b'. RequestMessage r = Inr (b, r')
    \<and> Request_ParseBuffer (HttpRequestParser_new m0) b = Some (Inr (ok, p, b'))
    \<and> (let r0 = r\<lparr>query := (if query r = [] then [] else CHR ''?'' # query r),
                   request_message := new_Buffer kInitBufferSize\<rparr>
       in if meth r = kPost \<and> Value kContentLength r \<noteq> []
          then if to_int (length (body r)) = atoi (Value kContentLength r)
               then ok \<and> FinishParse p \<and> pmsg p = r0 \<and> Peek b' = []
               else \<not> ok \<and> \<not> FinishParse p \<and> pmsg p = r0\<lparr>body := []\<rparr> \<and> Peek b' = body r
          else ok \<and> FinishParse p \<and> pmsg p = r0\<lparr>body := []\<rparr> \<and> Peek b' = body r)"
proof -
  obtain b where b: "RequestMessage r = Inr (b, r\<lparr>request_message := b\<rparr>)" "buffer_ok b"
      "Peek b = concat (request_chunks r)"
    using RequestMessage_ok [OF assms(2)] assms(3) by auto
  note read = parse_text_request [OF assms(1), of m0 "body r", unfolded text_body_def request_text_body_cases,
      folded request_text, folded b(3)]
  show ?thesis
    using rq.loop_reads_text [OF b(2), of "HttpRequestParser_new m0"] b(1) read
    by (auto simp: rq.reads_def Request_ParseBuffer_def FinishParse_def HttpRequestParser_new_def Let_def split: if_splits)
qed

definition example_request :: http_request where
  "example_request = (HttpRequest_new kPost)\<lparr>version := kHttp11, path := ''/a'', query := ''x=1'',
     header_map := [(''Content-Length'', ''2''), (''Host'', ''h'')], body := ''hi''\<rparr>"

lemma example_request_ok: "request_ok example_request"
proof -
  have "print_nat (Suc (Suc 0)) = ''2''" by code_simp
  moreover have "\<not> isspace c" if "c \<in> set ''/a'' \<union> set ''x=1''" for c
    using that by (auto simp: isspace_def nat_of_def)
  moreover have "smap_ok [(''Content-Length'', ''2''), (''Host'', ''h'')]"
    by (simp add: smap_ok_def less_char_def)
  moreover have "header_ok (''Content-Length'', ''2'')" "header_ok (''Host'', ''h'')"
    by (simp_all add: header_ok_def TransferField_def strcaseeq_def c_str_def kLF_def
        kConnection_def kContentLength_def kHost_def tolower_def nat_of_def)
  ultimately show ?thesis
    by (simp add: request_ok_def example_request_def HttpRequest_new_def body_announced_def
        Value_def kContentLength_def)
qed

theorem request_roundtrip_witness:
  "\<exists>b r' p b'. RequestMessage example_request = Inr (b, r')
    \<and> Request_ParseBuffer (HttpRequestParser_new kGet) b = Some (Inr (True, p, b'))
    \<and> FinishParse p \<and> Peek b' = []
    \<and> pmsg p = example_request\<lparr>query := ''?x=1'',
                  request_message := new_Buffer kInitBufferSize\<rparr>"
proof -
  have "body_announced (length (body example_request)) (Value kContentLength example_request)"
    using example_request_ok by (simp add: request_ok_def example_request_def HttpRequest_new_def)
  moreover have e: "meth example_request = kPost" "Value kContentLength example_request \<noteq> []"
      "query example_request = ''x=1''" "buffer_ok (request_message example_request)" "Peek (request_message example_request) = []"
    by (simp_all add: example_request_def HttpRequest_new_def Value_def kContentLength_def)
  ultimately have "to_int (length (body example_request)) = atoi (Value kContentLength example_request)"
    using body_announced_read by simp
  with request_roundtrip [OF request_ok_head [OF example_request_ok] e(4,5), of kGet] e(1-3) show ?thesis by (auto simp: Let_def)
qed

text \<open>A body that arrives in pieces is refused. When the head of a POST request with a
  \<^verbatim>\<open>Content-Length\<close> is in the buffer with less, or more, than the announced body, as when TCP
  splits the request or the client pipelines another one, \<^verbatim>\<open>ParseBuffer\<close> does not wait: it
  reports a bad request.\<close>

theorem request_body_must_be_whole:
  assumes "request_ok r" and "meth r = kPost" and "Value kContentLength r \<noteq> []"
    and "buffer_ok b"
    and "Peek b = request_line r @ kCRLF @ headers_text '':'' (header_map r) @ kCRLF @ t"
    and "length t \<noteq> length (body r)" and "length t < 2 ^ 31"
  shows "\<exists>p b'. Request_ParseBuffer (HttpRequestParser_new m0) b = Some (Inr (False, p, b'))
    \<and> pstate p = kBody \<and> Peek b' = t"
proof -
  have "body_announced (length (body r)) (Value kContentLength r)"
    using assms(1,2) by (simp add: request_ok_def)
  then have "atoi (Value kContentLength r) = int (length (body r))"
    using assms(3) by (auto simp: body_announced_def atoi_print_nat)
  then have "request_text_body (r\<lparr>query := q, body := [], request_message := m\<rparr>) t
      = (False, r\<lparr>query := q, body := [], request_message := m\<rparr>, t)" for q m
    using assms(2,3,6,7) by (simp add: request_text_body_def to_int_small)
  then have "\<exists>m. parse_text ParseRequestLine request_text_body (HttpRequestParser_new m0) (Peek b)
      = (False, \<lparr>pstate = kBody, pmsg = m\<rparr>, t)"
    unfolding assms(5) parse_text_request [OF request_ok_head [OF assms(1)]] by (simp add: text_body_def)
  then show ?thesis
    using rq.loop_reads_text [OF assms(4), of "HttpRequestParser_new m0"]
    by (auto simp: rq.reads_def Request_ParseBuffer_def HttpRequestParser_new_def)
qed

theorem request_body_must_be_whole_witness:
  "\<exists>p b'. Request_ParseBuffer (HttpRequestParser_new kGet)
      (example_buffer (request_line example_request @ kCRLF
        @ headers_text '':'' (header_map example_request) @ kCRLF @ ''h''))
     = Some (Inr (False, p, b')) \<and> pstate p = kBody \<and> Peek b' = ''h''"
proof -
  have "meth example_request = kPost" "Value kContentLength example_request \<noteq> []"
      "length (body example_request) = 2"
    by (simp_all add: example_request_def HttpRequest_new_def Value_def kContentLength_def)
  then show ?thesis
    by (intro request_body_must_be_whole [OF example_request_ok]) simp_all
qed

section \<open>Responses\<close>

definition response_ok :: "http_response \<Rightarrow> bool" where
  "response_ok r \<longleftrightarrow>
     status_code r \<noteq> [] \<and> (\<forall>c \<in> set (status_code r). \<not> isspace c)
     \<and> (reason_parse r = [] \<or> \<not> isspace (hd (reason_parse r))) \<and> kLF \<notin> set (reason_parse r)
     \<and> smap_ok (header_map r) \<and> (\<forall>h \<in> set (header_map r). header_ok h)
     \<and> body_announced (length (body r)) (Value kContentLength r)"

definition response_line :: "http_response \<Rightarrow> string" where
  "response_line r = VersionToString (version r) @ '' '' @ status_code r @ '' '' @ reason_parse r"

lemma response_text:
  "concat (response_chunks r)
    = response_line r @ kCRLF @ headers_text '': '' (header_map r) @ kCRLF @ body r"
proof -
  have "concat (concat (map (\<lambda>(k, v). [k, '': '', v, kCRLF]) hs)) = headers_text '': '' hs" for hs
    by (induction hs) (auto simp: headers_text_def)
  then show ?thesis by (simp add: response_chunks_def response_line_def)
qed

lemma ParseResponseLine_print:
  assumes "response_ok r"
  shows "ParseResponseLine (response_line r) r0 = (True, r0\<lparr>version := version r,
    status_code := status_code r, reason_parse := reason_parse r\<rparr>)"
proof -
  define V where "V = VersionToString (version r)"
  have ver: "takeWhile (\<lambda>c. \<not> isspace c) (V @ CHR '' '' # s) = V"
      "dropWhile (\<lambda>c. \<not> isspace c) (V @ CHR '' '' # s) = CHR '' '' # s" for s
    unfolding V_def by (intro takeWhile_upto dropWhile_upto; auto dest: name_no_space)+
  have code: "takeWhile (\<lambda>c. \<not> isspace c) (status_code r @ CHR '' '' # s) = status_code r"
      "dropWhile (\<lambda>c. \<not> isspace c) (status_code r @ CHR '' '' # s) = CHR '' '' # s"
      "dropWhile isspace (status_code r @ s) = status_code r @ s" for s
    using assms by (intro takeWhile_upto dropWhile_upto; auto simp: response_ok_def)+
       (use assms in \<open>cases "status_code r"; auto simp: response_ok_def\<close>)
  have reason: "dropWhile isspace (reason_parse r) = reason_parse r"
    using assms by (cases "reason_parse r") (auto simp: response_ok_def)
  have "response_line r = V @ CHR '' '' # status_code r @ CHR '' '' # reason_parse r"
    by (simp add: response_line_def V_def)
  then show ?thesis
    by (simp add: ParseResponseLine_def Let_def ver code reason)
       (simp add: V_def SetVersion_name)
qed

lemma response_line_no_LF: "response_ok r \<Longrightarrow> kLF \<notin> set (response_line r)"
  using name_no_space(2) [of kLF "version r"] isspace_kLF
  by (auto simp: response_ok_def response_line_def kLF_def)

lemma response_text_body_print:
  assumes "body_announced (length (body r)) (Value kContentLength r)"
  shows "response_text_body (r\<lparr>body := [], close_state := c, response_message := m\<rparr>) (body r)
    = (True, r\<lparr>close_state := c, response_message := m\<rparr>, [])"
proof (cases "Value kContentLength r = []")
  case True
  then have "body r = []" using assms print_nat_not_empty
    by (auto simp: body_announced_def simp del: print_nat_not_empty) metis
  moreover from this have "r\<lparr>body := []\<rparr> = r" by (cases r) simp
  ultimately show ?thesis using True by (simp add: response_text_body_def)
next
  case False
  then have "to_int (length (body r)) = atoi (Value kContentLength r)"
    using assms body_announced_read by simp
  with False show ?thesis by (simp add: response_text_body_def)
qed

lemma response_print_parse:
  assumes "response_ok r" and "buffer_ok (response_message r)" and "Peek (response_message r) = []"
  shows "\<exists>b r' p b'. ResponseMessage r = Inr (b, r')
    \<and> Response_ParseBuffer HttpResponseParser_new b = Some (Inr (True, p, b'))
    \<and> FinishParse p \<and> Peek b' = []
    \<and> pmsg p = r\<lparr>close_state := False, response_message := new_Buffer kInitBufferSize\<rparr>"
proof -
  obtain b where b: "ResponseMessage r = Inr (b, r\<lparr>response_message := b\<rparr>)" "buffer_ok b"
      "Peek b = concat (response_chunks r)"
    using ResponseMessage_ok [OF assms(2)] assms(3) by auto
  let ?p = "HttpResponseParser_new" and ?hs = "headers_text '': '' (header_map r) @ kCRLF @ body r"
  let ?r = "HttpResponse_new\<lparr>version := version r, status_code := status_code r,
    reason_parse := reason_parse r\<rparr>"
  let ?r' = "r\<lparr>close_state := False, response_message := new_Buffer kInitBufferSize\<rparr>"
  have "parse_text ParseResponseLine response_text_body ?p (Peek b)
      = text_rest response_text_body ?r ?hs"
    unfolding b(3) response_text
    using response_line_no_LF [OF assms(1)] ParseResponseLine_print [OF assms(1), of HttpResponse_new]
    by (intro parse_text_line) (simp_all add: HttpResponseParser_new_def)
  also have "text_headers ?r ?hs = (True, kBody, ?r\<lparr>header_map := header_map r\<rparr>, body r)"
    using text_headers_print [of "header_map r" ?r 1 "body r"] assms(1)
    by (simp add: response_ok_def HttpResponse_new_def)
  then have "text_rest response_text_body ?r ?hs
      = text_body response_text_body (?r\<lparr>header_map := header_map r\<rparr>) (body r)"
    by (simp add: text_rest_def)
  also have "?r\<lparr>header_map := header_map r\<rparr>
      = r\<lparr>body := [], close_state := False, response_message := new_Buffer kInitBufferSize\<rparr>"
    by (cases r) (simp add: HttpResponse_new_def)
  also have "text_body response_text_body \<dots> (body r) = (True, \<lparr>pstate = kEnd, pmsg = ?r'\<rparr>, [])"
    using response_text_body_print [of r] assms(1)
    by (simp add: text_body_def response_ok_def)
  finally show ?thesis
    using rs.loop_reads_text [OF b(2), of ?p] b(1)
    by (auto simp: rs.reads_def Response_ParseBuffer_def FinishParse_def HttpResponseParser_new_def)
qed

text \<open>A response printed by \<^verbatim>\<open>HttpResponse::ResponseMessage\<close> and given to a fresh
  \<^verbatim>\<open>HttpResponseParser\<close> is read back completely: version, status code, reason, headers and body
  are the same, nothing is left in the buffer and the parser has finished.\<close>

theorem response_roundtrip:
  assumes "response_ok r" and "buffer_ok (response_message r)" and "Peek (response_message r) = []"
  shows "\<exists>b r' p b'. ResponseMessage r = Inr (b, r')
    \<and> Response_ParseBuffer HttpResponseParser_new b = Some (Inr (True, p, b'))
    \<and> FinishParse p \<and> Peek b' = []
    \<and> pmsg p = r\<lparr>close_state := False, response_message := new_Buffer kInitBufferSize\<rparr>"
  using assms by (rule response_print_parse)

lemma HttpResponse_new_ok: "response_ok HttpResponse_new"
  by (simp add: response_ok_def HttpResponse_new_def smap_ok_def body_announced_def Value_def
      isspace_def nat_of_def kLF_def)

theorem response_roundtrip_witness:
  "\<exists>b r' p b'. ResponseMessage HttpResponse_new = Inr (b, r')
    \<and> Response_ParseBuffer HttpResponseParser_new b = Some (Inr (True, p, b'))
    \<and> FinishParse p \<and> Peek b' = [] \<and> status_code (pmsg p) = ''200'' \<and> reason_parse (pmsg p) = ''OK''"
  using response_roundtrip [OF HttpResponse_new_ok] by (simp add: HttpResponse_new_def) auto

end
