(* ===== verification/Tcp_Connection.thy ===== *)
theory Tcp_Connection
  imports Buffer Dispatch
begin

text \<open>
  A connection, \<^verbatim>\<open>voyager/core/tcp_connection.h\<close> and \<^verbatim>\<open>tcp_connection.cc\<close>: its state machine, its read
  and write buffers, its dispatch. The results of \<^verbatim>\<open>write\<close> and \<^verbatim>\<open>readv\<close> are parameters. The user
  callbacks are a parameter \<open>cb\<close> that transforms the connection, since they call back into it while a
  handler runs; a callback that is not set leaves the connection as it is. The poller's side of an
  update of the dispatch is its contract: the dispatch becomes registered. Closures that
  \<^verbatim>\<open>RunInLoop\<close> or \<^verbatim>\<open>QueueInLoop\<close> put into the loop's queue are the list \<open>tasks\<close>. The handlers and the
  tasks run in the loop's thread only, so that their \<^verbatim>\<open>AssertInMyLoop\<close> holds. \<open>accepted\<close> and \<open>wire\<close>
  record the bytes that were handed to \<^verbatim>\<open>SendInLoop\<close> and the bytes the kernel took.
\<close>

section \<open>State\<close>

datatype ConnectState = kDisconnected | kDisconnecting | kConnected | kConnecting

datatype errno = EPIPE | ECONNRESET | EWOULDBLOCK | EAGAIN | OtherErrno

datatype write_result = Wrote nat | WriteError errno

datatype read_result = ReadBytes string | ReadError errno

datatype conn_event = OnConnection | OnMessage | OnWriteComplete | OnClose | OnHighWaterMark nat

datatype conn_task = StartReadTask | StopReadTask | ShutDownTask | ForceCloseTask | SendTask string
  | HighWaterMarkTask nat

record conn =
  conn_state :: ConnectState
  disp :: dispatch
  registered :: bool
  in_connections :: bool
  readbuf :: buffer
  writebuf :: buffer
  high_water_mark :: nat
  high_water_mark_cb :: bool
  write_shut :: bool
  tasks :: "conn_task list"
  accepted :: string
  wire :: string
  close_calls :: nat

type_synonym callbacks = "conn_event \<Rightarrow> conn \<Rightarrow> conn res"

definition TcpConnection_new :: "int \<Rightarrow> conn" where
  "TcpConnection_new f = \<lparr>conn_state = kConnecting,
     disp = (Dispatch_new f)\<lparr>callbacks := {ReadCb, WriteCb, CloseCb, ErrorCb}\<rparr>,
     registered = False, in_connections = False,
     readbuf = new_Buffer kInitBufferSize, writebuf = new_Buffer kInitBufferSize,
     high_water_mark = 64 * 1024 * 1024, high_water_mark_cb = False, write_shut = False, tasks = [],
     accepted = [], wire = [], close_calls = 0\<rparr>"

section \<open>Handlers\<close>

definition conn_EnableRead :: "conn \<Rightarrow> conn" where
  "conn_EnableRead c = c\<lparr>disp := EnableRead_d (disp c), registered := True\<rparr>"

definition conn_DisableRead :: "conn \<Rightarrow> conn" where
  "conn_DisableRead c = c\<lparr>disp := DisableRead_d (disp c), registered := True\<rparr>"

definition conn_EnableWrite :: "conn \<Rightarrow> conn" where
  "conn_EnableWrite c = c\<lparr>disp := EnableWrite_d (disp c), registered := True\<rparr>"

definition conn_DisableWrite :: "conn \<Rightarrow> conn" where
  "conn_DisableWrite c =
     (if add_write (disp c) then c\<lparr>disp := DisableWrite_d (disp c), registered := True\<rparr> else c)"

definition conn_DisableAll :: "conn \<Rightarrow> conn" where
  "conn_DisableAll c =
     (if IsReading (disp c) \<or> add_write (disp c) then c\<lparr>disp := DisableAll_d (disp c), registered := True\<rparr>
      else c\<lparr>disp := (disp c)\<lparr>modify := kNoModify\<rparr>\<rparr>)"

definition conn_RemoveEvents :: "conn \<Rightarrow> conn res" where
  "conn_RemoveEvents c = guard AssertionFailed (IsNoneEvent (disp c)) (
     guard AssertionFailed (registered c) (Inr (c\<lparr>registered := False\<rparr>)))"

definition StartWorking :: "callbacks \<Rightarrow> conn \<Rightarrow> conn res" where
  "StartWorking cb c = guard AssertionFailed (conn_state c = kConnecting) (
     let c = c\<lparr>conn_state := kConnected, disp := Tie (disp c)\<rparr>; c = conn_EnableRead c in
     guard AssertionFailed (\<not> in_connections c) (cb OnConnection (c\<lparr>in_connections := True\<rparr>)))"

definition HandleClose :: "callbacks \<Rightarrow> conn \<Rightarrow> conn res" where
  "HandleClose cb c =
     guard AssertionFailed (conn_state c = kConnected \<or> conn_state c = kDisconnecting) (
       rbind (conn_RemoveEvents (conn_DisableAll (c\<lparr>conn_state := kDisconnected\<rparr>))) (\<lambda>c.
         guard AssertionFailed (in_connections c)
           (cb OnClose (c\<lparr>in_connections := False, close_calls := close_calls c + 1\<rparr>))))"

definition HandleRead :: "callbacks \<Rightarrow> read_result \<Rightarrow> conn \<Rightarrow> conn res" where
  "HandleRead cb rd c =
     (case rd of
        ReadBytes data \<Rightarrow> rbind (ReadV (Some data) (readbuf c)) (\<lambda>(n, b).
          if n > 0 then cb OnMessage (c\<lparr>readbuf := b\<rparr>) else HandleClose cb (c\<lparr>readbuf := b\<rparr>))
      | ReadError e \<Rightarrow> if e = EPIPE \<or> e = ECONNRESET then HandleClose cb c else Inr c)"

text \<open>The kernel takes at most what it is offered.\<close>

definition HandleWrite :: "callbacks \<Rightarrow> write_result \<Rightarrow> conn \<Rightarrow> conn res" where
  "HandleWrite cb wr c =
     (if IsWriting (disp c) then
        (case wr of
           Wrote k \<Rightarrow>
             let n = min k (ReadableSize (writebuf c)) in
             rbind (Retrieve n (writebuf c)) (\<lambda>b.
               let c = c\<lparr>wire := wire c @ take n (Peek (writebuf c)), writebuf := b\<rparr> in
               if ReadableSize b = 0 then
                 rbind (cb OnWriteComplete (conn_DisableWrite c)) (\<lambda>c.
                   if conn_state c = kDisconnecting then HandleClose cb c else Inr c)
               else Inr c)
         | WriteError e \<Rightarrow> if e = EPIPE \<or> e = ECONNRESET then HandleClose cb c else Inr c)
      else Inr c)"

text \<open>\<^verbatim>\<open>HandleError\<close> only logs.\<close>

definition HandleError :: "conn \<Rightarrow> conn res" where
  "HandleError c = Inr c"

definition conn_handler :: "callbacks \<Rightarrow> read_result \<Rightarrow> write_result \<Rightarrow> event_cb \<Rightarrow> conn \<Rightarrow> conn res" where
  "conn_handler cb rd wr k c =
     (case k of CloseCb \<Rightarrow> HandleClose cb c | ErrorCb \<Rightarrow> HandleError c
      | ReadCb \<Rightarrow> HandleRead cb rd c | WriteCb \<Rightarrow> HandleWrite cb wr c)"

text \<open>An event on the connection: its dispatch runs the handlers in the order of \<open>event_plan\<close>.\<close>

fun run_handlers :: "callbacks \<Rightarrow> read_result \<Rightarrow> write_result \<Rightarrow> event_cb list \<Rightarrow> conn \<Rightarrow> conn res" where
  "run_handlers cb rd wr [] c = Inr c"
| "run_handlers cb rd wr (k # ks) c = rbind (conn_handler cb rd wr k c) (run_handlers cb rd wr ks)"

section \<open>Sending\<close>

text \<open>The direct \<^verbatim>\<open>write\<close> of \<^verbatim>\<open>SendInLoop\<close>: the bytes written, the bytes remaining, the fault flag.\<close>

definition send_direct :: "callbacks \<Rightarrow> write_result \<Rightarrow> string \<Rightarrow> conn \<Rightarrow> (nat \<times> nat \<times> bool \<times> conn) res" where
  "send_direct cb wr data c =
     (if \<not> IsWriting (disp c) \<and> ReadableSize (writebuf c) = 0 then
        (case wr of
           Wrote k \<Rightarrow>
             let nwrote = min k (length data); remaining = length data - nwrote;
                 c = c\<lparr>wire := wire c @ take nwrote data\<rparr> in
             if remaining = 0 then rbind (cb OnWriteComplete c) (\<lambda>c. Inr (nwrote, remaining, False, c))
             else Inr (nwrote, remaining, False, c)
         | WriteError e \<Rightarrow>
             if e = EPIPE \<or> e = ECONNRESET then rbind (HandleClose cb c) (\<lambda>c. Inr (0, length data, True, c))
             else Inr (0, length data, False, c))
      else Inr (0, length data, False, c))"

text \<open>The rest of the data goes to the write buffer.\<close>

definition send_buffered :: "string \<Rightarrow> conn \<Rightarrow> conn res" where
  "send_buffered rest c =
     (let old = ReadableSize (writebuf c); total = old + length rest;
          c = (if high_water_mark_cb c \<and> old < high_water_mark c \<and> total \<ge> high_water_mark c
               then c\<lparr>tasks := tasks c @ [HighWaterMarkTask total]\<rparr> else c)
      in rbind (Append rest (writebuf c)) (\<lambda>b.
           let c = c\<lparr>writebuf := b\<rparr> in Inr (if IsWriting (disp c) then c else conn_EnableWrite c)))"

definition SendInLoop :: "callbacks \<Rightarrow> write_result \<Rightarrow> string \<Rightarrow> conn \<Rightarrow> conn res" where
  "SendInLoop cb wr data c =
     (if conn_state c = kDisconnected then Inr c
      else rbind (send_direct cb wr data (c\<lparr>accepted := accepted c @ data\<rparr>)) (\<lambda>(nwrote, remaining, fault, c).
             if \<not> fault \<and> remaining > 0 then send_buffered (drop nwrote data) c else Inr c))"

definition SendMessage :: "callbacks \<Rightarrow> bool \<Rightarrow> write_result \<Rightarrow> string \<Rightarrow> conn \<Rightarrow> conn res" where
  "SendMessage cb in_loop wr message c =
     (if conn_state c = kConnected then
        if in_loop then SendInLoop cb wr message c else Inr (c\<lparr>tasks := tasks c @ [SendTask message]\<rparr>)
      else Inr c)"

section \<open>Closing and reading on demand\<close>

text \<open>\<^verbatim>\<open>compare_exchange_weak\<close> may fail although the state is the expected one: \<open>spurious\<close>.\<close>

definition run_shutdown :: "conn \<Rightarrow> conn" where
  "run_shutdown c = (if \<not> IsWriting (disp c) then c\<lparr>write_shut := True\<rparr> else c)"

definition ShutDown :: "bool \<Rightarrow> bool \<Rightarrow> conn \<Rightarrow> conn" where
  "ShutDown spurious in_loop c =
     (if conn_state c = kConnected \<and> \<not> spurious then
        let c = c\<lparr>conn_state := kDisconnecting\<rparr> in
        if in_loop then run_shutdown c else c\<lparr>tasks := tasks c @ [ShutDownTask]\<rparr>
      else c)"

definition ForceClose :: "bool \<Rightarrow> conn \<Rightarrow> conn" where
  "ForceClose spurious c =
     (if conn_state c = kConnected \<and> \<not> spurious \<or> conn_state c = kDisconnecting then
        c\<lparr>conn_state := kDisconnecting, tasks := tasks c @ [ForceCloseTask]\<rparr>
      else c)"

definition run_start_read :: "conn \<Rightarrow> conn" where
  "run_start_read c = (if \<not> IsReading (disp c) then conn_EnableRead c else c)"

definition run_stop_read :: "conn \<Rightarrow> conn" where
  "run_stop_read c = (if IsReading (disp c) then conn_DisableRead c else c)"

definition StartRead :: "bool \<Rightarrow> conn \<Rightarrow> conn" where
  "StartRead in_loop c = (if in_loop then run_start_read c else c\<lparr>tasks := tasks c @ [StartReadTask]\<rparr>)"

definition StopRead :: "bool \<Rightarrow> conn \<Rightarrow> conn" where
  "StopRead in_loop c = (if in_loop then run_stop_read c else c\<lparr>tasks := tasks c @ [StopReadTask]\<rparr>)"

definition run_task :: "callbacks \<Rightarrow> write_result \<Rightarrow> conn_task \<Rightarrow> conn \<Rightarrow> conn res" where
  "run_task cb wr t c =
     (case t of
        StartReadTask \<Rightarrow> Inr (run_start_read c)
      | StopReadTask \<Rightarrow> Inr (run_stop_read c)
      | ShutDownTask \<Rightarrow> Inr (run_shutdown c)
      | ForceCloseTask \<Rightarrow>
          if conn_state c = kConnected \<or> conn_state c = kDisconnecting then HandleClose cb c else Inr c
      | SendTask s \<Rightarrow> SendInLoop cb wr s c
      | HighWaterMarkTask n \<Rightarrow> cb (OnHighWaterMark n) c)"

definition StateToString :: "ConnectState \<Rightarrow> string" where
  "StateToString s = (case s of kDisconnected \<Rightarrow> ''Disconnected'' | kDisconnecting \<Rightarrow> ''Disconnecting''
     | kConnected \<Rightarrow> ''Connected'' | kConnecting \<Rightarrow> ''Connecting'')"

section \<open>Invariant\<close>

abbreviation is_open :: "conn \<Rightarrow> bool" where
  "is_open c \<equiv> conn_state c = kConnected \<or> conn_state c = kDisconnecting"

text \<open>
  While the connection is open: the bytes accepted are the bytes on the wire followed by those in the
  write buffer, and the dispatch watches for writing exactly when that buffer is not empty. Once it is
  closed, it is out of the loop's table, does not watch for writing and has been reported closed once; it
  is out of the poller unless a \<^verbatim>\<open>StartRead\<close> has put it back there.
\<close>

definition conn_ok :: "conn \<Rightarrow> bool" where
  "conn_ok c \<longleftrightarrow>
     buffer_ok (readbuf c) \<and> buffer_ok (writebuf c) \<and> dispatch_ok (disp c) \<and> prefix (wire c) (accepted c) \<and>
     close_calls c = (if conn_state c = kDisconnected then 1 else 0) \<and>
     (case conn_state c of
        kDisconnected \<Rightarrow> \<not> IsWriting (disp c) \<and> \<not> add_write (disp c) \<and> (IsReading (disp c) \<longrightarrow> registered c) \<and>
          \<not> in_connections c
      | kConnecting \<Rightarrow> IsNoneEvent (disp c) \<and> \<not> add_write (disp c) \<and> \<not> registered c \<and> \<not> in_connections c \<and>
          accepted c = [] \<and> Peek (writebuf c) = [] \<and> tasks c = []
      | _ \<Rightarrow> registered c \<and> in_connections c \<and> accepted c = wire c @ Peek (writebuf c) \<and>
          (IsWriting (disp c) \<longleftrightarrow> Peek (writebuf c) \<noteq> []))"

text \<open>What the library may rely on of the user's callbacks: they leave a well-formed connection
  well-formed and a closed one closed, as every sequence of calls of the public operations does.\<close>

definition cb_ok :: "callbacks \<Rightarrow> bool" where
  "cb_ok cb \<longleftrightarrow> (\<forall>e c. conn_ok c \<longrightarrow> conn_state c \<noteq> kConnecting \<longrightarrow>
     (\<exists>c'. cb e c = Inr c' \<and> conn_ok c' \<and> conn_state c' \<noteq> kConnecting \<and>
        (conn_state c = kDisconnected \<longrightarrow> conn_state c' = kDisconnected)))"

abbreviation live :: "conn \<Rightarrow> bool" where
  "live c \<equiv> conn_ok c \<and> conn_state c \<noteq> kConnecting"

definition stays_live :: "conn res \<Rightarrow> bool" where
  "stays_live r \<longleftrightarrow> (\<exists>c. r = Inr c \<and> live c)"

lemma stays_live_Inr [simp]: "stays_live (Inr c) \<longleftrightarrow> live c"
  by (simp add: stays_live_def)

lemma stays_live_rbind: "stays_live r \<Longrightarrow> (\<And>c. live c \<Longrightarrow> stays_live (f c)) \<Longrightarrow> stays_live (rbind r f)"
  by (auto simp: stays_live_def)

lemma cb_live: "cb_ok cb \<Longrightarrow> live c \<Longrightarrow> stays_live (cb e c)"
  by (fastforce simp: cb_ok_def stays_live_def)

lemma cb_closed:
  assumes "cb_ok cb" and "conn_ok c" and "conn_state c = kDisconnected"
  obtains c' where "cb e c = Inr c'" "live c'" "conn_state c' = kDisconnected"
  using assms unfolding cb_ok_def by (metis ConnectState.distinct(5))

lemma live_open: "is_open c \<Longrightarrow> conn_ok c \<Longrightarrow> registered c \<and> in_connections c \<and>
    accepted c = wire c @ Peek (writebuf c) \<and> (IsWriting (disp c) \<longleftrightarrow> Peek (writebuf c) \<noteq> [])"
  by (auto simp: conn_ok_def)

lemma conn_ok_openI:
  "is_open c \<Longrightarrow> buffer_ok (readbuf c) \<Longrightarrow> buffer_ok (writebuf c) \<Longrightarrow> dispatch_ok (disp c) \<Longrightarrow> close_calls c = 0 \<Longrightarrow>
     registered c \<Longrightarrow> in_connections c \<Longrightarrow> accepted c = wire c @ Peek (writebuf c) \<Longrightarrow>
     (IsWriting (disp c) \<longleftrightarrow> Peek (writebuf c) \<noteq> []) \<Longrightarrow> live c"
  by (auto simp: conn_ok_def)

lemma conn_okD:
  assumes "conn_ok c"
  shows "buffer_ok (readbuf c)" "buffer_ok (writebuf c)" "dispatch_ok (disp c)" "prefix (wire c) (accepted c)"
    "close_calls c = (if conn_state c = kDisconnected then 1 else 0)"
  using assms by (simp_all add: conn_ok_def)

text \<open>Closing needs less than the whole invariant: the write buffer may be out of step with the wire.\<close>

definition closable :: "conn \<Rightarrow> bool" where
  "closable c \<longleftrightarrow> is_open c \<and> buffer_ok (readbuf c) \<and> buffer_ok (writebuf c) \<and> dispatch_ok (disp c) \<and>
     prefix (wire c) (accepted c) \<and> close_calls c = 0 \<and> registered c \<and> in_connections c"

lemma closable_open: "conn_ok c \<Longrightarrow> is_open c \<Longrightarrow> closable c"
  by (auto simp: conn_ok_def closable_def)

lemma DisableAll_none:
  assumes "dispatch_ok (disp c)" and "registered c"
  defines "c' \<equiv> conn_DisableAll c"
  shows "dispatch_ok (disp c') \<and> IsNoneEvent (disp c') \<and> \<not> add_write (disp c') \<and> registered c'"
proof (cases "IsReading (disp c) \<or> add_write (disp c)")
  case True
  note ch = dispatch_changes(9,10) [OF assms(1)]
  from ch(1) [OF True] dispatch_change_ok have ok: "dispatch_ok (DisableAll_d (disp c))" by blast
  with ch(2) IsNoneEvent_mask [OF ok] True show ?thesis
    by (simp add: c'_def conn_DisableAll_def) (simp add: DisableAll_d_def Let_def)
next
  case False
  then have "\<not> IsWriting (disp c)" using assms(1) by (auto simp: dispatch_ok_def)
  with False assms(1,2) IsNoneEvent_mask [OF assms(1)] show ?thesis
    by (auto simp: c'_def conn_DisableAll_def dispatch_ok_def IsNoneEvent_def IsReading_def IsWriting_def)
qed

lemma conn_DisableAll_rest [simp]:
  "conn_state (conn_DisableAll c) = conn_state c" "readbuf (conn_DisableAll c) = readbuf c"
  "writebuf (conn_DisableAll c) = writebuf c" "accepted (conn_DisableAll c) = accepted c"
  "wire (conn_DisableAll c) = wire c" "close_calls (conn_DisableAll c) = close_calls c"
  "in_connections (conn_DisableAll c) = in_connections c" "tasks (conn_DisableAll c) = tasks c"
  by (simp_all add: conn_DisableAll_def)

lemma HandleClose_run:
  assumes "closable c"
  obtains c' where "HandleClose cb c = cb OnClose c'" "conn_ok c'" "conn_state c' = kDisconnected"
    "wire c' = wire c" "accepted c' = accepted c" "writebuf c' = writebuf c"
proof -
  let ?c = "conn_DisableAll (c\<lparr>conn_state := kDisconnected\<rparr>)"
  let ?c' = "?c\<lparr>registered := False, in_connections := False, close_calls := close_calls ?c + 1\<rparr>"
  have d: "dispatch_ok (disp ?c) \<and> IsNoneEvent (disp ?c) \<and> \<not> add_write (disp ?c) \<and> registered ?c"
    using assms by (intro DisableAll_none) (auto simp: closable_def)
  have "HandleClose cb c = cb OnClose ?c'"
    using assms d by (simp add: HandleClose_def conn_RemoveEvents_def closable_def)
  moreover have "conn_ok ?c'"
    using assms d IsNoneEvent_mask [of "disp ?c"] by (simp add: conn_ok_def closable_def)
  ultimately show ?thesis by (rule that) simp_all
qed

lemma HandleClose_ok: "cb_ok cb \<Longrightarrow> closable c \<Longrightarrow> stays_live (HandleClose cb c)"
  by (erule HandleClose_run [where cb = cb]) (simp add: cb_live)

lemma EnableRead_ok: "is_open c \<Longrightarrow> conn_ok c \<Longrightarrow> live (conn_EnableRead c)"
  using dispatch_changes(1,2) [of "disp c"] dispatch_change_ok conn_okD [of c] live_open [of c]
  by (intro conn_ok_openI) (auto simp: conn_EnableRead_def)

lemma DisableRead_ok: "is_open c \<Longrightarrow> conn_ok c \<Longrightarrow> live (conn_DisableRead c)"
  using dispatch_changes(5,6) [of "disp c"] dispatch_change_ok conn_okD [of c] live_open [of c]
  by (intro conn_ok_openI) (auto simp: conn_DisableRead_def)

lemma StartWorking_ok:
  assumes "cb_ok cb" and "conn_ok c" and "conn_state c = kConnecting"
  shows "stays_live (StartWorking cb c)"
proof -
  let ?d = "Tie (disp c)"
  have "dispatch_ok ?d" "watch_of ?d = (False, False)"
    using assms(2,3) IsNoneEvent_mask [of "disp c"] conn_okD(3) [OF assms(2)]
    by (auto simp: conn_ok_def Tie_def dispatch_ok_def IsReading_def IsWriting_def)
  with dispatch_changes(1,2) [of ?d] dispatch_change_ok have d: "dispatch_ok (EnableRead_d ?d)" "\<not> IsWriting (EnableRead_d ?d)"
    by auto
  let ?c = "conn_EnableRead (c\<lparr>conn_state := kConnected, disp := ?d\<rparr>)"
  have "live (?c\<lparr>in_connections := True\<rparr>)"
    using assms(2,3) d by (intro conn_ok_openI) (auto simp: conn_EnableRead_def conn_ok_def)
  moreover have "StartWorking cb c = cb OnConnection (?c\<lparr>in_connections := True\<rparr>)"
    using assms(2,3) by (simp add: StartWorking_def Let_def conn_EnableRead_def conn_ok_def)
  ultimately show ?thesis using cb_live [OF assms(1)] by simp
qed

lemma HandleRead_ok:
  assumes "cb_ok cb" and "conn_ok c" and "is_open c"
    and "case rd of ReadBytes data \<Rightarrow> length data \<le> readv_capacity (readbuf c) | ReadError e \<Rightarrow> True"
  shows "stays_live (HandleRead cb rd c)"
proof (cases rd)
  case (ReadBytes data)
  with assms(4) have fits: "length data \<le> readv_capacity (readbuf c)" by simp
  obtain b where b: "ReadV (Some data) (readbuf c) = Inr (int (length data), b)" "buffer_ok b"
      "Peek b = Peek (readbuf c) @ data"
    by (rule ReadV_ok [OF conn_okD(1) [OF assms(2)] fits])
  have ok: "conn_ok (c\<lparr>readbuf := b\<rparr>)" using assms(2) b(2) by (simp add: conn_ok_def split: ConnectState.splits)
  show ?thesis
    using ReadBytes b(1) ok assms(3) cb_live [OF assms(1)] HandleClose_ok [OF assms(1) closable_open [OF ok]]
    by (auto simp: HandleRead_def)
next
  case (ReadError e)
  with assms HandleClose_ok [OF assms(1) closable_open [OF assms(2,3)]] show ?thesis
    by (auto simp: HandleRead_def)
qed

lemma peek_empty: "buffer_ok b \<Longrightarrow> ReadableSize b = 0 \<longleftrightarrow> Peek b = []"
  by (metis length_0_conv length_Peek)

lemma DisableWrite_ok:
  assumes "is_open c" and "buffer_ok (readbuf c)" "buffer_ok (writebuf c)" "dispatch_ok (disp c)" "close_calls c = 0"
    "registered c" "in_connections c" "accepted c = wire c @ Peek (writebuf c)" and "Peek (writebuf c) = []"
    and "IsWriting (disp c)"
  shows "live (conn_DisableWrite c)"
proof -
  have "add_write (disp c)" using assms(4,10) by (simp add: dispatch_ok_def)
  with dispatch_changes(7,8) [OF assms(4)] dispatch_change_ok assms show ?thesis
    by (intro conn_ok_openI) (auto simp: conn_DisableWrite_def)
qed

lemma HandleWrite_ok:
  assumes cb: "cb_ok cb" and ok: "conn_ok c" and not: "conn_state c \<noteq> kConnecting"
  shows "stays_live (HandleWrite cb wr c)"
proof (cases "IsWriting (disp c)")
  case True
  then have o: "is_open c"
    using ok not by (cases "conn_state c") (auto simp: conn_ok_def)
  note lo = live_open [OF o ok] and D = conn_okD [OF ok]
  show ?thesis
  proof (cases wr)
    case (Wrote k)
    let ?n = "min k (ReadableSize (writebuf c))"
    obtain b where b: "Retrieve ?n (writebuf c) = Inr b" "buffer_ok b" "Peek b = drop ?n (Peek (writebuf c))"
      using D(2) by (rule Retrieve_ok [of _ ?n]) simp
    let ?c = "c\<lparr>wire := wire c @ take ?n (Peek (writebuf c)), writebuf := b\<rparr>"
    have calls: "close_calls c = 0" using D(5) o by auto
    have acc: "accepted ?c = wire ?c @ Peek (writebuf ?c)" using lo b(3) by simp
    show ?thesis
    proof (cases "ReadableSize b = 0")
      case empty: True
      then have "live (conn_DisableWrite ?c)"
        using o D b lo acc True calls peek_empty [OF b(2)] by (intro DisableWrite_ok) auto
      from cb_live [OF cb this] have "stays_live (cb OnWriteComplete (conn_DisableWrite ?c))" .
      then have "stays_live (rbind (cb OnWriteComplete (conn_DisableWrite ?c))
          (\<lambda>c. if conn_state c = kDisconnecting then HandleClose cb c else Inr c))"
        by (rule stays_live_rbind) (auto intro!: HandleClose_ok [OF cb closable_open])
      with True Wrote b(1) empty show ?thesis by (simp add: HandleWrite_def Let_def)
    next
      case False
      then have "live ?c"
        using o D b lo acc True calls peek_empty [OF b(2)] by (intro conn_ok_openI) auto
      with True Wrote b(1) False show ?thesis by (simp add: HandleWrite_def Let_def)
    qed
  next
    case (WriteError e)
    with True ok not HandleClose_ok [OF cb closable_open [OF ok o]] show ?thesis
      by (simp add: HandleWrite_def)
  qed
next
  case False
  with ok not show ?thesis by (simp add: HandleWrite_def)
qed

lemma EnableWrite_ok:
  assumes "is_open c" and "buffer_ok (readbuf c)" "buffer_ok (writebuf c)" "dispatch_ok (disp c)" "close_calls c = 0"
    "registered c" "in_connections c" "accepted c = wire c @ Peek (writebuf c)" and "Peek (writebuf c) \<noteq> []"
  shows "live (if IsWriting (disp c) then c else conn_EnableWrite c)"
proof (cases "IsWriting (disp c)")
  case True
  with assms show ?thesis by (simp add: conn_ok_openI)
next
  case False
  have "live (conn_EnableWrite c)"
    using dispatch_changes(3,4) [OF assms(4)] dispatch_change_ok assms
    by (intro conn_ok_openI) (auto simp: conn_EnableWrite_def)
  with False show ?thesis by simp
qed

text \<open>Buffering completes a partly written message.\<close>

lemma send_buffered_ok:
  assumes o: "is_open c" and b: "buffer_ok (readbuf c)" "buffer_ok (writebuf c)" and d: "dispatch_ok (disp c)"
    and r: "close_calls c = 0" "registered c" "in_connections c"
    and acc: "accepted c = wire c @ Peek (writebuf c) @ rest" and rest: "rest \<noteq> []"
  shows "stays_live (send_buffered rest c)"
proof -
  obtain w where w: "Append rest (writebuf c) = Inr w" "buffer_ok w" "Peek w = Peek (writebuf c) @ rest"
    using b(2) by (rule Append_ok)
  have live: "live (if IsWriting (disp c') then c' else conn_EnableWrite c')"
    if "c' = c\<lparr>tasks := ts, writebuf := w\<rparr> \<or> c' = c\<lparr>writebuf := w\<rparr>" for ts c'
    using o b d r acc rest w that by (intro EnableWrite_ok) auto
  show ?thesis
    using live [OF disjI2 [OF refl]] w(1)
      live [OF disjI1 [OF refl], of "tasks c @ [HighWaterMarkTask (ReadableSize (writebuf c) + length rest)]"]
    by (simp add: send_buffered_def Let_def)
qed

lemma SendInLoop_ok:
  assumes cb: "cb_ok cb" and ok: "conn_ok c" and not: "conn_state c \<noteq> kConnecting"
  shows "stays_live (SendInLoop cb wr data c)"
proof (cases "conn_state c = kDisconnected")
  case True
  with ok show ?thesis by (simp add: SendInLoop_def)
next
  case False
  then have o: "is_open c" using not by (cases "conn_state c") auto
  note lo = live_open [OF o ok] and D = conn_okD [OF ok]
  have calls: "close_calls c = 0" using D(5) o by auto
  let ?c = "c\<lparr>accepted := accepted c @ data\<rparr>"
  have buf: "stays_live (if \<not> False \<and> length data - n > 0 then send_buffered (drop n data) c' else Inr c')"
    if c': "c' = ?c\<lparr>wire := wire c @ take n data\<rparr>" and n: "Peek (writebuf c) = [] \<or> n = 0" and "n < length data" for n c'
  proof -
    have "stays_live (send_buffered (drop n data) c')"
      using o D lo calls that by (intro send_buffered_ok) auto
    with that(3) show ?thesis by simp
  qed
  show ?thesis
  proof (cases "\<not> IsWriting (disp c) \<and> ReadableSize (writebuf c) = 0")
    case direct: True
    then have empty: "Peek (writebuf c) = []" using peek_empty [OF D(2)] by simp
    show ?thesis
    proof (cases wr)
      case (Wrote k)
      let ?n = "min k (length data)"
      let ?w = "?c\<lparr>wire := wire c @ take ?n data\<rparr>"
      show ?thesis
      proof (cases "length data - ?n = 0")
        case True
        then have "live ?w"
          using o D lo calls empty by (intro conn_ok_openI) auto
        from cb_live [OF cb this] obtain c2 where "cb OnWriteComplete ?w = Inr c2" "live c2"
          by (auto simp: stays_live_def)
        with True Wrote direct False show ?thesis by (simp add: SendInLoop_def send_direct_def Let_def)
      next
        case more: False
        with buf [of ?w ?n] empty Wrote direct False show ?thesis
          by (simp add: SendInLoop_def send_direct_def Let_def)
      qed
    next
      case (WriteError e)
      show ?thesis
      proof (cases "e = EPIPE \<or> e = ECONNRESET")
        case True
        have "closable ?c" using closable_open [OF ok o] by (auto simp: closable_def)
        from HandleClose_ok [OF cb this] obtain c2 where "HandleClose cb ?c = Inr c2" "live c2"
          by (auto simp: stays_live_def)
        with True WriteError direct False show ?thesis by (auto simp: SendInLoop_def send_direct_def)
      next
        case noclose: False
        show ?thesis
        proof (cases "data = []")
          case True
          with noclose WriteError direct False ok not show ?thesis
            by (simp add: SendInLoop_def send_direct_def)
        next
          case nonempty: False
          with buf [of ?c 0] noclose WriteError direct False show ?thesis
            by (auto simp: SendInLoop_def send_direct_def)
        qed
      qed
    qed
  next
    case buffered: False
    then have run: "SendInLoop cb wr data c = (if length data > 0 then send_buffered data ?c else Inr ?c)"
      using False by (auto simp: SendInLoop_def send_direct_def)
    show ?thesis
    proof (cases "data = []")
      case True
      with run ok not show ?thesis by simp
    next
      case nonempty: False
      with run buf [of ?c 0] show ?thesis by simp
    qed
  qed
qed

subsection \<open>Tasks, public operations, events\<close>

lemma live_tasks: "live c \<Longrightarrow> live (c\<lparr>tasks := ts\<rparr>)"
  by (simp add: conn_ok_def split: ConnectState.splits)

lemma live_disconnecting: "live c \<Longrightarrow> is_open c \<Longrightarrow> live (c\<lparr>conn_state := kDisconnecting\<rparr>)"
  by (auto simp: conn_ok_def split: ConnectState.splits)

lemma live_write_shut: "live c \<Longrightarrow> live (c\<lparr>write_shut := True\<rparr>)"
  by (simp add: conn_ok_def split: ConnectState.splits)

lemma live_closed: "conn_state c = kDisconnected \<Longrightarrow> conn_ok c \<Longrightarrow>
    \<not> IsWriting (disp c) \<and> \<not> add_write (disp c) \<and> (IsReading (disp c) \<longrightarrow> registered c) \<and> \<not> in_connections c"
  by (simp add: conn_ok_def)

lemma not_connecting: "conn_state c \<noteq> kConnecting \<Longrightarrow> conn_state c \<noteq> kDisconnected \<Longrightarrow> is_open c"
  by (cases "conn_state c") auto

text \<open>Reading on demand also of a closed connection: the dispatch goes back into the poller.\<close>

lemma closed_read_ok:
  assumes "conn_ok c" and "conn_state c = kDisconnected"
  shows "live (conn_EnableRead c)" "live (conn_DisableRead c)"
proof -
  note ch = dispatch_changes(1,2,5,6) [OF conn_okD(3) [OF assms(1)]] and cl = live_closed [OF assms(2,1)]
  have "add_write (EnableRead_d (disp c)) = add_write (disp c)" "add_write (DisableRead_d (disp c)) = add_write (disp c)"
    by (simp_all add: EnableRead_d_def DisableRead_d_def)
  then show "live (conn_EnableRead c)" "live (conn_DisableRead c)"
    using ch(2,4) ch(1,3) [THEN dispatch_change_ok] cl conn_okD [OF assms(1)] assms(2)
    by (simp_all add: conn_EnableRead_def conn_DisableRead_def conn_ok_def)
qed

lemma run_stop_read_ok: "live c \<Longrightarrow> live (run_stop_read c)"
  using DisableRead_ok [of c] closed_read_ok(2) [of c] not_connecting [of c] by (auto simp: run_stop_read_def)

lemma run_start_read_ok: "live c \<Longrightarrow> live (run_start_read c)"
  using EnableRead_ok [of c] closed_read_ok(1) [of c] not_connecting [of c] by (auto simp: run_start_read_def)

lemma run_task_ok:
  assumes "cb_ok cb" and "live c"
  shows "stays_live (run_task cb wr t c)"
proof (cases t)
  case ForceCloseTask
  with assms show ?thesis by (auto simp: run_task_def intro!: HandleClose_ok closable_open)
next
  case (SendTask s)
  with assms SendInLoop_ok show ?thesis by (simp add: run_task_def)
next
  case (HighWaterMarkTask n)
  with assms cb_live show ?thesis by (simp add: run_task_def)
qed (use assms run_start_read_ok run_stop_read_ok live_write_shut in \<open>auto simp: run_task_def run_shutdown_def\<close>)

lemma ShutDown_ok: "live c \<Longrightarrow> live (ShutDown sp in_loop c)"
  using live_disconnecting [of c] live_tasks live_write_shut
  by (auto simp: ShutDown_def run_shutdown_def Let_def)

lemma ForceClose_ok: "live c \<Longrightarrow> live (ForceClose sp c)"
  using live_disconnecting [of c] live_tasks by (auto simp: ForceClose_def)

lemma SendMessage_ok: "cb_ok cb \<Longrightarrow> live c \<Longrightarrow> stays_live (SendMessage cb in_loop wr s c)"
  using SendInLoop_ok [of cb c] live_tasks [of c] by (auto simp: SendMessage_def)

text \<open>\<^verbatim>\<open>readv\<close> returns no more than it is offered; what it is offered depends on the state that the handlers
  before the read handler leave.\<close>

definition read_fits :: "conn \<Rightarrow> read_result \<Rightarrow> bool" where
  "read_fits c rd \<longleftrightarrow> (case rd of ReadBytes data \<Rightarrow> length data \<le> readv_capacity (readbuf c) | ReadError e \<Rightarrow> True)"

definition read_fits_at :: "callbacks \<Rightarrow> read_result \<Rightarrow> write_result \<Rightarrow> event_cb list \<Rightarrow> conn \<Rightarrow> bool" where
  "read_fits_at cb rd wr ks c \<longleftrightarrow>
     (case run_handlers cb rd wr (takeWhile (\<lambda>k. k \<noteq> ReadCb) ks) c of Inl e \<Rightarrow> True | Inr c' \<Rightarrow> read_fits c' rd)"

text \<open>The read results on which the read handler closes the connection, and the events that run the close
  handler on a connection that is closed already.\<close>

definition ends_stream :: "read_result \<Rightarrow> bool" where
  "ends_stream rd \<longleftrightarrow> rd = ReadBytes [] \<or> rd = ReadError EPIPE \<or> rd = ReadError ECONNRESET"

definition hits_closed :: "u32 \<Rightarrow> read_result \<Rightarrow> conn \<Rightarrow> bool" where
  "hits_closed evs rd c \<longleftrightarrow>
     (let close = CloseCb \<in> set (event_plan evs); read = ReadCb \<in> set (event_plan evs) \<and> ends_stream rd
      in if conn_state c = kDisconnected then close \<or> read else close \<and> read)"

lemma run_handlers_append:
  "run_handlers cb rd wr (ks @ ks') c = rbind (run_handlers cb rd wr ks c) (run_handlers cb rd wr ks')"
proof (induction ks arbitrary: c)
  case (Cons k ks)
  then show ?case by (cases "conn_handler cb rd wr k c") simp_all
qed simp

lemma run_handlers_one: "run_handlers cb rd wr [k] c = conn_handler cb rd wr k c"
  by (cases "conn_handler cb rd wr k c") simp_all

lemma HandleError_handlers: "run_handlers cb rd wr (if b then [ErrorCb] else []) c = Inr c"
  by (simp add: conn_handler_def HandleError_def)

lemma write_handlers_ok: "cb_ok cb \<Longrightarrow> live c \<Longrightarrow> stays_live (run_handlers cb rd wr (if b then [WriteCb] else []) c)"
  using HandleWrite_ok [of cb c wr] by (cases b) (simp_all add: run_handlers_one conn_handler_def del: run_handlers.simps(2))

lemma HandleClose_closed: "conn_state c = kDisconnected \<Longrightarrow> HandleClose cb c = Inl AssertionFailed"
  by (simp add: HandleClose_def)

lemma HandleRead_closed:
  assumes "cb_ok cb" and "conn_ok c" and "conn_state c = kDisconnected" and fits: "read_fits c rd"
  shows "if ends_stream rd then HandleRead cb rd c = Inl AssertionFailed else stays_live (HandleRead cb rd c)"
proof (cases rd)
  case (ReadBytes data)
  with fits have "length data \<le> readv_capacity (readbuf c)" by (simp add: read_fits_def)
  then obtain b where b: "ReadV (Some data) (readbuf c) = Inr (int (length data), b)" "buffer_ok b"
    by (rule ReadV_ok [OF conn_okD(1) [OF assms(2)]])
  have "live (c\<lparr>readbuf := b\<rparr>)" using assms(2,3) b(2) by (simp add: conn_ok_def)
  from cb_live [OF assms(1) this] ReadBytes b(1) assms(3) show ?thesis
    by (auto simp: HandleRead_def ends_stream_def HandleClose_closed)
next
  case (ReadError e)
  with assms(2,3) show ?thesis by (auto simp: HandleRead_def ends_stream_def HandleClose_closed)
qed

lemma HandleClose_closes:
  assumes "cb_ok cb" and "conn_ok c" and "is_open c"
  obtains c' where "HandleClose cb c = Inr c'" "live c'" "conn_state c' = kDisconnected"
proof -
  obtain c1 where c1: "HandleClose cb c = cb OnClose c1" "conn_ok c1" "conn_state c1 = kDisconnected"
    by (rule HandleClose_run [OF closable_open [OF assms(2,3)], of cb])
  obtain c' where "cb OnClose c1 = Inr c'" "live c'" "conn_state c' = kDisconnected"
    by (rule cb_closed [OF assms(1) c1(2,3)])
  with c1(1) that show thesis by simp
qed

text \<open>The close and read parts of an event.\<close>

lemma close_read_outcome:
  assumes cb: "cb_ok cb" and ok: "live c"
    and fits: "b3 \<Longrightarrow> case run_handlers cb rd wr (if b1 then [CloseCb] else []) c of Inl e \<Rightarrow> True | Inr c' \<Rightarrow> read_fits c' rd"
  defines "r \<equiv> rbind (run_handlers cb rd wr (if b1 then [CloseCb] else []) c) (run_handlers cb rd wr (if b3 then [ReadCb] else []))"
  shows "if (if conn_state c = kDisconnected then b1 \<or> b3 \<and> ends_stream rd else b1 \<and> b3 \<and> ends_stream rd)
    then r = Inl AssertionFailed else stays_live r"
proof (cases "conn_state c = kDisconnected")
  case True
  show ?thesis
  proof (cases b1)
    case b1: True
    with True show ?thesis by (simp add: r_def conn_handler_def HandleClose_closed)
  next
    case False
    then have "b3 \<Longrightarrow> read_fits c rd" using fits by simp
    with HandleRead_closed [OF cb _ True, of rd] ok False True show ?thesis
      by (cases b3) (simp_all add: r_def run_handlers_one conn_handler_def del: run_handlers.simps(2))
  qed
next
  case False
  then have o: "is_open c" using ok not_connecting by blast
  show ?thesis
  proof (cases b1)
    case b1: True
    obtain c' where c': "HandleClose cb c = Inr c'" "live c'" "conn_state c' = kDisconnected"
      using ok o by (auto intro: HandleClose_closes [OF cb])
    then have "b3 \<Longrightarrow> read_fits c' rd" using fits b1 by (simp add: conn_handler_def)
    with HandleRead_closed [OF cb _ c'(3), of rd] c' False b1 show ?thesis
      by (cases b3) (simp_all add: r_def run_handlers_one conn_handler_def del: run_handlers.simps(2))
  next
    case nb1: False
    then have "b3 \<Longrightarrow> read_fits c rd" using fits by simp
    with HandleRead_ok [OF cb, of c rd] ok o nb1 False show ?thesis
      by (cases b3) (simp_all add: r_def run_handlers_one conn_handler_def read_fits_def del: run_handlers.simps(2))
  qed
qed

lemma event_outcome:
  assumes cb: "cb_ok cb" and ok: "live c" and fits: "read_fits_at cb rd wr (event_plan evs) c"
  shows "if hits_closed evs rd c then run_handlers cb rd wr (event_plan evs) c = Inl AssertionFailed
    else stays_live (run_handlers cb rd wr (event_plan evs) c)"
proof -
  let ?p = "\<lambda>b k. run_handlers cb rd wr (if b then [k] else [])"
  obtain b1 b2 b3 b4 where plan: "event_plan evs = (if b1 then [CloseCb] else []) @ (if b2 then [ErrorCb] else []) @
      (if b3 then [ReadCb] else []) @ (if b4 then [WriteCb] else [])"
    unfolding event_plan_def by blast
  let ?r = "rbind (?p b1 CloseCb c) (?p b3 ReadCb)"
  have mem: "CloseCb \<in> set (event_plan evs) \<longleftrightarrow> b1" "ReadCb \<in> set (event_plan evs) \<longleftrightarrow> b3"
    unfolding plan by auto
  have before: "takeWhile (\<lambda>k. k \<noteq> ReadCb) (event_plan evs) = (if b1 then [CloseCb] else []) @ (if b2 then [ErrorCb] else [])" if b3
    unfolding plan using that by simp
  have "case ?p b1 CloseCb c of Inl e \<Rightarrow> True | Inr c' \<Rightarrow> read_fits c' rd" if b3
    using fits unfolding read_fits_at_def before [OF that] run_handlers_append
    by (cases "?p b1 CloseCb c") (simp_all add: HandleError_handlers)
  with close_read_outcome [OF cb ok, of b3 rd wr b1]
  have "if (if conn_state c = kDisconnected then b1 \<or> b3 \<and> ends_stream rd else b1 \<and> b3 \<and> ends_stream rd)
      then ?r = Inl AssertionFailed else stays_live ?r" by blast
  then have "if hits_closed evs rd c then ?r = Inl AssertionFailed else stays_live ?r"
    by (simp only: hits_closed_def Let_def mem)
  moreover have "run_handlers cb rd wr (event_plan evs) c = rbind ?r (?p b4 WriteCb)"
    unfolding plan run_handlers_append by (cases "?p b1 CloseCb c") (simp_all add: HandleError_handlers)
  moreover have "stays_live (rbind ?r (?p b4 WriteCb))" if "stays_live ?r"
    using that by (rule stays_live_rbind) (rule write_handlers_ok [OF cb])
  ultimately show ?thesis by (auto split: if_splits)
qed

section \<open>Properties\<close>

text \<open>
  The life of a connection. It is started; from then on any thread may call the public operations at any
  time. The loop runs the handlers of every event that is reported while the dispatch is registered, whatever
  its mask and whether the connection is still open, and the queued tasks in order. A \<^verbatim>\<open>StartRead\<close> that runs
  on a closed connection hands the poller a dispatch that was removed from it before: the poll poller refuses
  it with a failed assertion (\<open>poll_refusal\<close>), the others register it again.
\<close>

inductive conn_step :: "callbacks \<Rightarrow> conn \<Rightarrow> conn res \<Rightarrow> bool" for cb where
  start: "conn_state c = kConnecting \<Longrightarrow> conn_step cb c (StartWorking cb c)"
| event: "registered c \<Longrightarrow> read_fits_at cb rd wr (event_plan evs) c \<Longrightarrow>
     conn_step cb c (run_handlers cb rd wr (event_plan evs) c)"
| task: "tasks c = t # ts \<Longrightarrow> conn_step cb c (run_task cb wr t (c\<lparr>tasks := ts\<rparr>))"
| send: "conn_step cb c (SendMessage cb in_loop wr s c)"
| shutdown: "conn_state c \<noteq> kConnecting \<Longrightarrow> conn_step cb c (Inr (ShutDown spurious in_loop c))"
| force_close: "conn_state c \<noteq> kConnecting \<Longrightarrow> conn_step cb c (Inr (ForceClose spurious c))"
| start_read: "conn_state c \<noteq> kConnecting \<Longrightarrow> conn_step cb c (Inr (StartRead in_loop c))"
| stop_read: "conn_state c \<noteq> kConnecting \<Longrightarrow> conn_step cb c (Inr (StopRead in_loop c))"
| task_refused: "tasks c = StartReadTask # ts \<Longrightarrow> conn_state c = kDisconnected \<Longrightarrow> \<not> registered c \<Longrightarrow>
     conn_step cb c (Inl AssertionFailed)"
| start_read_refused: "conn_state c = kDisconnected \<Longrightarrow> \<not> registered c \<Longrightarrow> conn_step cb c (Inl AssertionFailed)"

inductive conn_reach :: "callbacks \<Rightarrow> int \<Rightarrow> conn \<Rightarrow> bool" for cb f where
  new: "conn_reach cb f (TcpConnection_new f)"
| step: "conn_reach cb f c \<Longrightarrow> conn_step cb c (Inr c') \<Longrightarrow> conn_reach cb f c'"

text \<open>A step keeps the invariant, or it is one of the two ways in which a closed connection is hit again.\<close>

lemma conn_step_ok:
  assumes cb: "cb_ok cb" and ok: "conn_ok c" and st: "conn_step cb c r"
  shows "(\<exists>c'. r = Inr c' \<and> conn_ok c') \<or>
    r = Inl AssertionFailed \<and>
      (conn_state c = kDisconnected \<and> \<not> registered c \<or>
       registered c \<and> (\<exists>evs rd wr. hits_closed evs rd c \<and> r = run_handlers cb rd wr (event_plan evs) c))"
  using st
proof (cases rule: conn_step.cases)
  case start
  with StartWorking_ok [OF cb ok] show ?thesis by (auto simp: stays_live_def)
next
  case (event rd wr evs)
  then have "live c" using ok by (cases "conn_state c") (auto simp: conn_ok_def)
  note out = event_outcome [OF cb this event(3)]
  show ?thesis
  proof (cases "hits_closed evs rd c")
    case True
    with out event(1) have "r = Inl AssertionFailed" by simp
    with True event(1,2) show ?thesis by blast
  next
    case False
    with out event(1) show ?thesis by (auto simp: stays_live_def)
  qed
next
  case (task t ts wr)
  then have "conn_state c \<noteq> kConnecting" using ok by (auto simp: conn_ok_def)
  then have "live (c\<lparr>tasks := ts\<rparr>)" using ok live_tasks [of c ts] by simp
  from run_task_ok [OF cb this, of wr t] task show ?thesis by (auto simp: stays_live_def)
next
  case (send in_loop wr s)
  with ok SendMessage_ok [OF cb, of c in_loop wr s] show ?thesis
    by (cases "conn_state c = kConnecting") (auto simp: stays_live_def SendMessage_def)
next
  case (start_read in_loop)
  with ok run_start_read_ok [of c] live_tasks [of c] show ?thesis by (auto simp: StartRead_def)
next
  case (stop_read in_loop)
  with ok run_stop_read_ok [of c] live_tasks [of c] show ?thesis by (auto simp: StopRead_def)
qed (use ok ShutDown_ok ForceClose_ok in auto)

lemma TcpConnection_new_ok: "0 \<le> f \<Longrightarrow> conn_ok (TcpConnection_new f)"
  using Dispatch_new_ok [of f]
  by (auto simp: conn_ok_def TcpConnection_new_def dispatch_ok_def IsReading_def IsWriting_def IsNoneEvent_def
      Dispatch_new_def kNoneEvent_def)

lemma conn_reach_ok:
  assumes "cb_ok cb" and "0 \<le> f"
  shows "conn_reach cb f c \<Longrightarrow> conn_ok c"
proof (induction rule: conn_reach.induct)
  case new
  show ?case by (rule TcpConnection_new_ok [OF assms(2)])
next
  case (step c c')
  from conn_step_ok [OF assms(1) step.IH step.hyps(2)] show ?case by auto
qed


definition echo_cb :: callbacks where
  "echo_cb e c = (if e = OnMessage \<and> conn_state c \<noteq> kConnecting
     then rbind (RetrieveAllAsString (readbuf c)) (\<lambda>(s, b). SendMessage (\<lambda>e c. Inr c) True (Wrote 2) s (c\<lparr>readbuf := b\<rparr>))
     else Inr c)"

lemma echo_cb_ok: "cb_ok echo_cb"
  unfolding cb_ok_def
proof (intro allI impI)
  fix e c assume c: "conn_ok c" "conn_state c \<noteq> kConnecting"
  obtain b where b: "RetrieveAllAsString (readbuf c) = Inr (Peek (readbuf c), b)" "buffer_ok b" "Peek b = []"
    using conn_okD(1) [OF c(1)] by (rule RetrieveAllAsString_ok)
  have "live (c\<lparr>readbuf := b\<rparr>)" using c b(2) by (simp add: conn_ok_def split: ConnectState.splits)
  moreover have "cb_ok (\<lambda>e c. Inr c)" by (simp add: cb_ok_def)
  ultimately have "stays_live (SendMessage (\<lambda>e c. Inr c) True (Wrote 2) (Peek (readbuf c)) (c\<lparr>readbuf := b\<rparr>))"
    using SendMessage_ok by blast
  with b(1) c show "\<exists>c'. echo_cb e c = Inr c' \<and> conn_ok c' \<and> conn_state c' \<noteq> kConnecting \<and>
      (conn_state c = kDisconnected \<longrightarrow> conn_state c' = kDisconnected)"
    by (auto simp: echo_cb_def stays_live_def SendMessage_def)
qed


text \<open>C24: A shutdown with data pending is graceful. On a connection that is being shut down and still has bytes
  to write, for every answer of the kernel: when it takes everything, the write handler closes the connection
  with all that was accepted for sending on the wire; when it takes less, the connection stays open, nothing is
  lost, and it keeps waiting to write the rest; an error closes it only if the peer is gone, and else changes
  nothing. The write-complete callback adds nothing here.\<close>
theorem shutdown_drains_before_close:
  assumes "conn_ok c" and "conn_state c = kDisconnecting" and "IsWriting (disp c)"
    and "\<And>c. cb OnWriteComplete c = Inr c"
  shows "case wr of
      Wrote k \<Rightarrow>
        if ReadableSize (writebuf c) \<le> k
        then \<exists>c'. HandleWrite cb wr c = cb OnClose c' \<and> conn_state c' = kDisconnected \<and> wire c' = accepted c
        else \<exists>c'. HandleWrite cb wr c = Inr c' \<and> conn_ok c' \<and> conn_state c' = kDisconnecting \<and> IsWriting (disp c') \<and>
          wire c' = wire c @ take k (Peek (writebuf c)) \<and> Peek (writebuf c') = drop k (Peek (writebuf c)) \<and>
          accepted c' = accepted c
    | WriteError e \<Rightarrow>
        if e = EPIPE \<or> e = ECONNRESET
        then \<exists>c'. HandleWrite cb wr c = cb OnClose c' \<and> conn_state c' = kDisconnected \<and> wire c' = wire c
        else HandleWrite cb wr c = Inr c"
proof (cases wr)
  case (Wrote k)
  note D = conn_okD [OF assms(1)] and lo = live_open [OF _ assms(1)]
  let ?n = "min k (ReadableSize (writebuf c))"
  obtain b where b: "Retrieve ?n (writebuf c) = Inr b" "buffer_ok b" "Peek b = drop ?n (Peek (writebuf c))"
    using D(2) by (rule Retrieve_ok [of _ ?n]) simp
  let ?c = "c\<lparr>wire := wire c @ take ?n (Peek (writebuf c)), writebuf := b\<rparr>"
  show ?thesis
  proof (cases "ReadableSize (writebuf c) \<le> k")
    case True
    have e: "Peek b = []" "ReadableSize b = 0" using True b(2,3) D(2) peek_empty by auto
    have live: "live (conn_DisableWrite ?c)" using D lo assms(2,3) b e by (intro DisableWrite_ok) auto
    have st: "conn_state (conn_DisableWrite ?c) = kDisconnecting" "wire (conn_DisableWrite ?c) = accepted c"
      using True assms(2) lo D(2) by (auto simp: conn_DisableWrite_def)
    have cl: "closable (conn_DisableWrite ?c)" using live st(1) by (intro closable_open) auto
    obtain c' where c': "HandleClose cb (conn_DisableWrite ?c) = cb OnClose c'" "conn_state c' = kDisconnected"
        "wire c' = wire (conn_DisableWrite ?c)"
      by (rule HandleClose_run [OF cl, of cb])
    have "HandleWrite cb wr c = HandleClose cb (conn_DisableWrite ?c)"
      using Wrote assms(3,4) b(1) e(2) st(1) by (simp add: HandleWrite_def Let_def)
    with c' st(2) True Wrote show ?thesis by auto
  next
    case False
    then have n: "?n = k" and ne: "ReadableSize b \<noteq> 0" "Peek b \<noteq> []"
      using b(2,3) D(2) peek_empty [of b] length_Peek [OF D(2)] by auto
    have "live ?c" using D lo assms(2,3) b n ne by (intro conn_ok_openI) auto
    moreover have "HandleWrite cb wr c = Inr ?c"
      using Wrote assms(3) b(1) ne(1) by (simp add: HandleWrite_def Let_def)
    ultimately show ?thesis using False Wrote n b(3) assms(2,3) by auto
  qed
next
  case (WriteError e)
  obtain c' where "HandleClose cb c = cb OnClose c'" "conn_state c' = kDisconnected" "wire c' = wire c"
    using assms(2) by (auto intro: HandleClose_run [OF closable_open [OF assms(1)], of cb])
  with WriteError assms(3) show ?thesis by (auto simp: HandleWrite_def)
qed

definition draining :: conn where
  "draining = (TcpConnection_new 5)\<lparr>conn_state := kDisconnecting, registered := True, in_connections := True,
     disp := EnableWrite_d (Dispatch_new 5), accepted := ''abc'', wire := ''a'',
     writebuf := \<lparr>buf = ''bc'', read_index = 0, write_index = 2\<rparr>\<rparr>"

lemma draining_ok: "conn_ok draining" "IsWriting (disp draining)" "conn_state draining = kDisconnecting"
  "ReadableSize (writebuf draining) = 2"
proof -
  have "dispatch_ok (EnableWrite_d (Dispatch_new 5)) \<and> IsWriting (EnableWrite_d (Dispatch_new 5))"
    using dispatch_changes(3,4) [of "Dispatch_new 5"] Dispatch_new_ok [of 5] dispatch_change_ok by auto
  then show "conn_ok draining" "IsWriting (disp draining)" "conn_state draining = kDisconnecting"
    "ReadableSize (writebuf draining) = 2"
    by (auto simp: draining_def TcpConnection_new_def conn_ok_def ReadableSize_def Peek_def segment_def buffer_ok_def
        new_Buffer_def)
qed

theorem shutdown_drains_before_close_witness:
  "\<exists>c'. HandleWrite (\<lambda>e c. Inr c) (Wrote 7) draining = Inr c' \<and> wire c' = ''abc''"
proof -
  have "accepted draining = ''abc''" by (simp add: draining_def)
  with shutdown_drains_before_close [OF draining_ok(1,3,2), of "\<lambda>e c. Inr c" "Wrote 7"] draining_ok(4) show ?thesis by auto
qed

text \<open>The high-water mark is reported when it is crossed and only then: a send that has to be
  buffered queues the callback, with the new amount of pending data, exactly if the callback is set, the
  amount was below the mark before, and is not below it now.\<close>
theorem high_water_mark_on_crossing:
  assumes "conn_ok c" and "is_open c" and "IsWriting (disp c)" and "data \<noteq> []"
  shows "\<exists>c'. SendInLoop cb wr data c = Inr c' \<and> Peek (writebuf c') = Peek (writebuf c) @ data \<and>
    tasks c' = tasks c @
      (let old = length (Peek (writebuf c)); total = old + length data in
       if high_water_mark_cb c \<and> old < high_water_mark c \<and> high_water_mark c \<le> total then [HighWaterMarkTask total] else [])"
proof -
  note D = conn_okD [OF assms(1)]
  obtain w where w: "Append data (writebuf c) = Inr w" "buffer_ok w" "Peek w = Peek (writebuf c) @ data"
    using D(2) by (rule Append_ok)
  show ?thesis
    using assms(2-4) w(1,3) D(2)
    by (auto simp: SendInLoop_def send_direct_def send_buffered_def Let_def)
qed

theorem high_water_mark_on_crossing_witness:
  "\<exists>c'. SendInLoop (\<lambda>e c. Inr c) (Wrote 9) ''xy'' (draining\<lparr>high_water_mark := 4, high_water_mark_cb := True\<rparr>) = Inr c' \<and>
     tasks c' = [HighWaterMarkTask 4]"
proof -
  let ?c = "draining\<lparr>high_water_mark := 4, high_water_mark_cb := True\<rparr>"
  have "conn_ok ?c" using draining_ok(1) by (simp add: conn_ok_def split: ConnectState.splits)
  moreover have "is_open ?c" "IsWriting (disp ?c)" "(''xy'' :: string) \<noteq> []" using draining_ok by auto
  moreover have "Peek (writebuf ?c) = ''bc''" "tasks ?c = []"
    by (simp_all add: draining_def TcpConnection_new_def Peek_def segment_def)
  ultimately show ?thesis
    using high_water_mark_on_crossing [of ?c "''xy''" "\<lambda>e c. Inr c" "Wrote 9"] by auto
qed

text \<open>A callback that, when everything is written, sends a last message and shuts down.\<close>

definition goodbye_cb :: callbacks where
  "goodbye_cb e c = (if e = OnWriteComplete
     then rbind (SendMessage (\<lambda>e c. Inr c) True (WriteError EAGAIN) ''bye'' c) (\<lambda>c. Inr (ShutDown False True c))
     else Inr c)"

lemma send_would_block:
  assumes "conn_ok c" and "is_open c" and "data \<noteq> []" and "\<not> IsWriting (disp c)"
  shows "\<exists>c'. SendInLoop (\<lambda>e c. Inr c) (WriteError EAGAIN) data c = Inr c' \<and> live c' \<and> IsWriting (disp c') \<and>
    accepted c' = accepted c @ data \<and> wire c' = wire c \<and> conn_state c' = conn_state c"
proof -
  have "cb_ok (\<lambda>e c. Inr c)" by (simp add: cb_ok_def)
  from SendInLoop_ok [OF this assms(1), of "WriteError EAGAIN" data] assms(2) obtain c' where
    c': "SendInLoop (\<lambda>e c. Inr c) (WriteError EAGAIN) data c = Inr c'" "live c'" by (auto simp: stays_live_def)
  obtain w where w: "Append data (writebuf c) = Inr w" using conn_okD(2) [OF assms(1)] by (rule Append_ok)
  have "IsWriting (EnableWrite_d (disp c))" using dispatch_changes(4) [OF conn_okD(3) [OF assms(1)]] by simp
  with c' w assms(2-4) show ?thesis
    by (auto simp: SendInLoop_def send_direct_def send_buffered_def Let_def conn_EnableWrite_def split: if_splits)
qed

text \<open>A write-complete callback that sends a last message and then shuts the connection down loses
  that message: when the callback returns, the write handler closes the connection at once, because
  its state is disconnecting, although the write buffer is not empty.\<close>
theorem goodbye_message_lost:
  assumes "conn_ok c" and "conn_state c = kConnected" and "IsWriting (disp c)" and "ReadableSize (writebuf c) \<le> k"
  shows "\<exists>c'. HandleWrite goodbye_cb (Wrote k) c = Inr c' \<and> conn_state c' = kDisconnected \<and>
    accepted c' = accepted c @ ''bye'' \<and> wire c' = accepted c"
proof -
  note D = conn_okD [OF assms(1)] and lo = live_open [OF _ assms(1)]
  let ?n = "ReadableSize (writebuf c)"
  have n: "min k ?n = ?n" using assms(4) by simp
  obtain b where b: "Retrieve ?n (writebuf c) = Inr b" "buffer_ok b" "Peek b = drop ?n (Peek (writebuf c))"
    using D(2) by (rule Retrieve_ok [of _ ?n]) simp
  have e: "Peek b = []" "ReadableSize b = 0" using b(2,3) D(2) peek_empty by auto
  let ?c = "conn_DisableWrite (c\<lparr>wire := wire c @ take ?n (Peek (writebuf c)), writebuf := b\<rparr>)"
  have live: "live ?c" using D lo assms(2,3) b e by (intro DisableWrite_ok) auto
  have st: "conn_state ?c = kConnected" "wire ?c = accepted c" "accepted ?c = accepted c"
      "\<not> IsWriting (disp ?c)"
    using assms(2) lo D(2) live_open [of ?c] live e by (auto simp: conn_DisableWrite_def)
  obtain c2 where c2: "SendInLoop (\<lambda>e c. Inr c) (WriteError EAGAIN) ''bye'' ?c = Inr c2" "live c2" "IsWriting (disp c2)"
      "accepted c2 = accepted c @ ''bye''" "wire c2 = accepted c" "conn_state c2 = kConnected"
    using send_would_block [of ?c "''bye''"] live st by auto
  let ?c3 = "c2\<lparr>conn_state := kDisconnecting\<rparr>"
  have cb: "goodbye_cb OnWriteComplete ?c = Inr ?c3"
    using c2 st(1) by (simp add: goodbye_cb_def SendMessage_def ShutDown_def run_shutdown_def)
  have "live ?c3" using live_disconnecting [of c2] c2 by simp
  then have cl: "closable ?c3" by (intro closable_open) auto
  obtain c' where c': "HandleClose goodbye_cb ?c3 = goodbye_cb OnClose c'" "conn_state c' = kDisconnected"
      "wire c' = wire ?c3" "accepted c' = accepted ?c3"
    by (rule HandleClose_run [OF cl, of goodbye_cb])
  have "HandleWrite goodbye_cb (Wrote k) c = HandleClose goodbye_cb ?c3"
    using assms(3) b(1) e(2) n cb by (simp add: HandleWrite_def Let_def)
  with c' c2 show ?thesis by (simp add: goodbye_cb_def)
qed

theorem goodbye_message_lost_witness:
  "\<exists>c'. HandleWrite goodbye_cb (Wrote 2) (draining\<lparr>conn_state := kConnected\<rparr>) = Inr c' \<and>
     accepted c' = ''abcbye'' \<and> wire c' = ''abc''"
proof -
  let ?c = "draining\<lparr>conn_state := kConnected\<rparr>"
  have "conn_ok ?c" using draining_ok(1,3) by (auto simp: conn_ok_def)
  moreover have "accepted ?c = ''abc''" by (simp add: draining_def)
  ultimately show ?thesis
    using goodbye_message_lost [of ?c 2] draining_ok(2,4) by auto
qed

lemma HandleRead_eof_closed:
  assumes "buffer_ok (readbuf c)" and "conn_state c = kDisconnected"
  shows "HandleRead cb (ReadBytes []) c = Inl AssertionFailed"
proof -
  obtain b where "ReadV (Some []) (readbuf c) = Inr (int (length ([] :: string)), b)" "buffer_ok b"
      "Peek b = Peek (readbuf c) @ []"
    by (rule ReadV_ok [OF assms(1), of "[]"]) simp
  with assms(2) show ?thesis by (simp add: HandleRead_def HandleClose_def)
qed

text \<open>A closed connection can be hit again. \<^verbatim>\<open>StartRead\<close> after the close puts its dispatch back into
  the poller, and the end of file then reported fails the assertion of the close handler; and an
  event mask with a hang-up and priority data but no ordinary data runs the close and the read
  handler in one go, which fails it too.\<close>
theorem closed_connection_hit_again:
  assumes "conn_ok c"
  shows "(conn_state c = kDisconnected \<longrightarrow> registered (run_start_read c) \<and>
      HandleRead cb (ReadBytes []) (run_start_read c) = Inl AssertionFailed) \<and>
    (is_open c \<longrightarrow> run_handlers (\<lambda>e c. Inr c) (ReadBytes []) wr (event_plan (POLLHUP OR POLLPRI)) c = Inl AssertionFailed)"
proof (intro conjI impI)
  assume closed: "conn_state c = kDisconnected"
  then show "registered (run_start_read c)"
    using live_closed [OF _ assms] by (simp add: run_start_read_def conn_EnableRead_def)
  show "HandleRead cb (ReadBytes []) (run_start_read c) = Inl AssertionFailed"
    using closed conn_okD(1) [OF assms] by (intro HandleRead_eof_closed) (auto simp: run_start_read_def conn_EnableRead_def)
next
  assume o: "is_open c"
  have plan: "event_plan (POLLHUP OR POLLPRI) = [CloseCb, ReadCb]" by (simp add: event_plan_def event_masks)
  obtain c' where c': "HandleClose (\<lambda>e c. Inr c) c = Inr c'" "conn_ok c'" "conn_state c' = kDisconnected"
    by (rule HandleClose_run [OF closable_open [OF assms o], of "\<lambda>e c. Inr c"])
  with c' show "run_handlers (\<lambda>e c. Inr c) (ReadBytes []) wr (event_plan (POLLHUP OR POLLPRI)) c = Inl AssertionFailed"
    unfolding plan using HandleRead_eof_closed [OF conn_okD(1) [OF c'(2)]] by (simp add: conn_handler_def)
qed

theorem closed_connection_hit_again_witness:
  "run_handlers (\<lambda>e c. Inr c) (ReadBytes []) (Wrote 0) (event_plan (POLLHUP OR POLLPRI)) draining = Inl AssertionFailed"
  using closed_connection_hit_again [OF draining_ok(1)] draining_ok(3) by blast

end
