(* ===== verification/String_Util.thy ===== *)
theory String_Util
  imports Std_Text "HOL-Library.Sublist"
begin

text \<open>
  The string helpers of \<^verbatim>\<open>voyager/util/string_util.h\<close> and \<^verbatim>\<open>string_util.cc\<close>: character classes, prefixes and
  suffixes, stripping, replacing, splitting and joining. A \<^verbatim>\<open>const char*\<close> argument is read up to its
  first NUL (\<open>c_str\<close>); an output argument is passed in and returned.
\<close>

unbundle bit_operations_syntax

section \<open>Characters\<close>

definition ascii_isdigit :: "char \<Rightarrow> bool" where
  "ascii_isdigit c \<longleftrightarrow> CHR ''0'' \<le> c \<and> c \<le> CHR ''9''"

definition ascii_isalnum :: "char \<Rightarrow> bool" where
  "ascii_isalnum c \<longleftrightarrow>
     (CHR ''a'' \<le> c \<and> c \<le> CHR ''z'') \<or> (CHR ''A'' \<le> c \<and> c \<le> CHR ''Z'') \<or>
     (CHR ''0'' \<le> c \<and> c \<le> CHR ''9'')"

definition ascii_isspace :: "char \<Rightarrow> bool" where
  "ascii_isspace c \<longleftrightarrow>
     c = CHR '' '' \<or> c = CHR 0x09 \<or> c = CHR 0x0A \<or> c = CHR 0x0B \<or> c = CHR 0x0C \<or> c = CHR 0x0D"

definition ascii_isupper :: "char \<Rightarrow> bool" where
  "ascii_isupper c \<longleftrightarrow> c \<ge> CHR ''A'' \<and> c \<le> CHR ''Z''"

definition ascii_islower :: "char \<Rightarrow> bool" where
  "ascii_islower c \<longleftrightarrow> c \<ge> CHR ''a'' \<and> c \<le> CHR ''z''"

definition ascii_toupper :: "char \<Rightarrow> char" where
  "ascii_toupper c = (if ascii_islower c then char_of (nat_of c - 32) else c)"

definition ascii_tolower :: "char \<Rightarrow> char" where
  "ascii_tolower c = (if ascii_isupper c then char_of (nat_of c + 32) else c)"

definition hex_digit_to_int :: "char \<Rightarrow> int" where
  "hex_digit_to_int c =
     (let x = int (nat_of c); x = (if x > 57 then x + 9 else x) in x AND 0xf)"

definition LowerString :: "string \<Rightarrow> string" where
  "LowerString s = map ascii_tolower s"

definition UpperString :: "string \<Rightarrow> string" where
  "UpperString s = map ascii_toupper s"

definition ToLower :: "string \<Rightarrow> string" where
  "ToLower s = LowerString s"

definition ToUpper :: "string \<Rightarrow> string" where
  "ToUpper s = UpperString s"

section \<open>Prefixes and suffixes\<close>

definition HasPrefixString :: "string \<Rightarrow> string \<Rightarrow> bool" where
  "HasPrefixString str prefx \<longleftrightarrow>
     length str \<ge> length prefx \<and> take (length prefx) str = prefx"

definition StripPrefixString :: "string \<Rightarrow> string \<Rightarrow> string" where
  "StripPrefixString str prefx =
     (if HasPrefixString str prefx then drop (length prefx) str else str)"

definition HasSuffixString :: "string \<Rightarrow> string \<Rightarrow> bool" where
  "HasSuffixString str suffx \<longleftrightarrow>
     length str \<ge> length suffx \<and>
     take (length suffx) (drop (length str - length suffx) str) = suffx"

definition StripSuffixString :: "string \<Rightarrow> string \<Rightarrow> string" where
  "StripSuffixString str suffx =
     (if HasSuffixString str suffx then take (length str - length suffx) str else str)"

section \<open>Stripping\<close>

text \<open>\<^verbatim>\<open>strpbrk\<close>: the offset of the first character of the C string that is in the set.\<close>

definition strpbrk :: "string \<Rightarrow> string \<Rightarrow> nat option" where
  "strpbrk s accept =
     (let k = length (takeWhile (\<lambda>c. c \<noteq> CHR 0x00 \<and> c \<notin> set (c_str accept)) s)
      in if k < length s \<and> s ! k \<noteq> CHR 0x00 then Some k else None)"

function strip_loop :: "string \<Rightarrow> char \<Rightarrow> string \<Rightarrow> nat \<Rightarrow> string" where
  "strip_loop remove replacewith s str =
     (case strpbrk (drop str s) remove of
        None \<Rightarrow> s
      | Some k \<Rightarrow> strip_loop remove replacewith (s[str + k := replacewith]) (str + k + 1))"
  by pat_completeness auto
termination
  by (relation "measure (\<lambda>(remove, replacewith, s, str). length s - str)")
    (auto simp: strpbrk_def Let_def split: if_splits)

declare strip_loop.simps [simp del]

definition StripString :: "string \<Rightarrow> string \<Rightarrow> char \<Rightarrow> string" where
  "StripString s remove replacewith = strip_loop remove replacewith s 0"

text \<open>The length is an \<^verbatim>\<open>int\<close>, so are the positions the loops count with.\<close>

function first_nonspace :: "string \<Rightarrow> int \<Rightarrow> nat \<Rightarrow> nat" where
  "first_nonspace str str_length first =
     (if int first < str_length \<and> ascii_isspace (str ! first)
      then first_nonspace str str_length (first + 1) else first)"
  by pat_completeness auto
termination by (relation "measure (\<lambda>(str, str_length, first). nat (str_length - int first))") auto

declare first_nonspace.simps [simp del]

text \<open>\<open>n\<close> stands for \<^verbatim>\<open>last + 1\<close>, so that \<^verbatim>\<open>last >= 0\<close> is \<open>n > 0\<close>.\<close>

fun last_nonspace :: "string \<Rightarrow> nat \<Rightarrow> nat" where
  "last_nonspace str 0 = 0"
| "last_nonspace str (Suc n) = (if ascii_isspace (str ! n) then last_nonspace str n else Suc n)"

definition StripWhitespace :: "string \<Rightarrow> string" where
  "StripWhitespace str =
     (let str_length = to_int (length str);
          first = first_nonspace str str_length 0
      in if int first = str_length then []
         else let str1 = (if first > 0 then drop first str else str);
                  str_length1 = (if first > 0 then str_length - int first else str_length);
                  n = last_nonspace str1 (nat str_length1)
              in if int n \<noteq> str_length1 \<and> n > 0 then take n str1 else str1)"

section \<open>Replacing\<close>

text \<open>\<^verbatim>\<open>s.find(sub, 0)\<close>: the first offset at which \<open>sub\<close> starts.\<close>

fun find_sub :: "string \<Rightarrow> string \<Rightarrow> nat option" where
  "find_sub sub [] = (if sub = [] then Some 0 else None)"
| "find_sub sub (c # s) =
     (if take (length sub) (c # s) = sub then Some 0 else map_option Suc (find_sub sub s))"

lemma find_sub_length: "find_sub sub s = Some k \<Longrightarrow> k + length sub \<le> length s"
proof (induction s arbitrary: k)
  case (Cons c s)
  show ?case
  proof (cases "take (length sub) (c # s) = sub")
    case True
    then have "length sub \<le> length (c # s)" by (metis length_take min.cobounded1)
    then show ?thesis using True Cons.prems by simp
  qed (use Cons in auto)
qed (auto split: if_splits)

text \<open>The loop is entered with a pattern that is not empty.\<close>

function replace_loop :: "string \<Rightarrow> string \<Rightarrow> string \<Rightarrow> bool \<Rightarrow> nat \<Rightarrow> string \<Rightarrow> string" where
  "replace_loop s oldsub newsub replace_all start_pos res =
     (case find_sub oldsub (drop start_pos s) of
        None \<Rightarrow> res @ drop start_pos s
      | Some k \<Rightarrow>
          let res1 = res @ take k (drop start_pos s) @ newsub;
              start1 = start_pos + k + length oldsub
          in if replace_all \<and> oldsub \<noteq> [] then replace_loop s oldsub newsub replace_all start1 res1
             else res1 @ drop start1 s)"
  by pat_completeness auto
termination
  by (relation "measure (\<lambda>(s, oldsub, newsub, replace_all, start_pos, res). length s - start_pos)")
    (auto dest!: find_sub_length simp: neq_Nil_conv)

declare replace_loop.simps [simp del]

definition StringReplace :: "string \<Rightarrow> string \<Rightarrow> string \<Rightarrow> bool \<Rightarrow> string \<Rightarrow> string" where
  "StringReplace s oldsub newsub replace_all res =
     (if oldsub = [] then res @ s
      else replace_loop s oldsub newsub replace_all 0 res)"

definition StringReplace_new :: "string \<Rightarrow> string \<Rightarrow> string \<Rightarrow> bool \<Rightarrow> string" where
  "StringReplace_new s oldsub newsub replace_all = StringReplace s oldsub newsub replace_all []"

section \<open>Splitting and joining\<close>

definition find_first_of :: "string \<Rightarrow> string \<Rightarrow> nat \<Rightarrow> nat option" where
  "find_first_of full delim pos =
     (let k = pos + length (takeWhile (\<lambda>c. c \<notin> set (c_str delim)) (drop pos full))
      in if k < length full then Some k else None)"

definition find_first_not_of :: "string \<Rightarrow> string \<Rightarrow> nat \<Rightarrow> nat option" where
  "find_first_not_of full delim pos =
     (let k = pos + length (takeWhile (\<lambda>c. c \<in> set (c_str delim)) (drop pos full))
      in if k < length full then Some k else None)"

text \<open>The loop for a single delimiter, and the loop for a set of delimiters.\<close>

function scan_piece :: "string \<Rightarrow> char \<Rightarrow> nat \<Rightarrow> nat" where
  "scan_piece full c p = (if p < length full \<and> full ! p \<noteq> c then scan_piece full c (p + 1) else p)"
  by pat_completeness auto
termination by (relation "measure (\<lambda>(full, c, p). length full - p)") auto

declare scan_piece.simps [simp del]

lemma scan_piece_bounds: "p \<le> scan_piece full c p"
  by (induction full c p rule: scan_piece.induct) (subst scan_piece.simps, auto)

lemma scan_piece_progress: "p < scan_piece full c (Suc p)"
  using scan_piece_bounds [of "Suc p" full c] by simp

function split_char_loop :: "string \<Rightarrow> char \<Rightarrow> nat \<Rightarrow> string list \<Rightarrow> string list" where
  "split_char_loop full c p result =
     (if p < length full then
        if full ! p = c then split_char_loop full c (p + 1) result
        else let start = p; q = scan_piece full c (p + 1)
             in split_char_loop full c q (result @ [segment start q full])
      else result)"
  by pat_completeness auto
termination
  by (relation "measure (\<lambda>(full, c, p, result). length full - p)")
    (auto simp: scan_piece_progress intro!: diff_less_mono2)

declare split_char_loop.simps [simp del]

lemma find_first_of_SomeD:
  assumes "find_first_of full delim pos = Some k"
  shows "pos \<le> k" "k < length full" "full ! k \<in> set (c_str delim)"
proof -
  let ?n = "length (takeWhile (\<lambda>c. c \<notin> set (c_str delim)) (drop pos full))"
  have k: "k = pos + ?n" "k < length full"
    using assms by (auto simp: find_first_of_def Let_def split: if_splits)
  then show "pos \<le> k" "k < length full" by simp_all
  show "full ! k \<in> set (c_str delim)"
    using k nth_length_takeWhile [of "\<lambda>c. c \<notin> set (c_str delim)" "drop pos full"] by simp
qed

lemma find_first_of_less: "find_first_of full delim pos = Some k \<Longrightarrow> pos < length full"
  using find_first_of_SomeD [of full delim pos k] by simp

lemma find_first_not_of_SomeD:
  assumes "find_first_not_of full delim pos = Some k"
  shows "pos \<le> k" "k < length full" "full ! k \<notin> set (c_str delim)"
proof -
  let ?n = "length (takeWhile (\<lambda>c. c \<in> set (c_str delim)) (drop pos full))"
  have k: "k = pos + ?n" "k < length full"
    using assms by (auto simp: find_first_not_of_def Let_def split: if_splits)
  then show "pos \<le> k" "k < length full" by simp_all
  show "full ! k \<notin> set (c_str delim)"
    using k nth_length_takeWhile [of "\<lambda>c. c \<in> set (c_str delim)" "drop pos full"] by simp
qed

function split_set_loop :: "string \<Rightarrow> string \<Rightarrow> nat option \<Rightarrow> string list \<Rightarrow> string list" where
  "split_set_loop full delim None result = result"
| "split_set_loop full delim (Some begin_index) result =
     (case find_first_of full delim begin_index of
        None \<Rightarrow> result @ [drop begin_index full]
      | Some end_index \<Rightarrow>
          split_set_loop full delim (find_first_not_of full delim end_index)
            (result @ [segment begin_index end_index full]))"
  by pat_completeness auto
termination
proof (relation "measure (\<lambda>(full, delim, b, result).
    case b of None \<Rightarrow> 0 | Some b \<Rightarrow> Suc (length full - b))", goal_cases)
  case (2 full delim begin_index result end_index)
  then show ?case
    using find_first_of_SomeD [OF 2] find_first_not_of_SomeD [of full delim end_index]
    by (cases "find_first_not_of full delim end_index")
      (auto, metis diff_less_mono2 le_neq_implies_less order.strict_trans1)
qed simp

declare split_set_loop.simps(2) [simp del]

definition SplitStringToIteratorUsing :: "string \<Rightarrow> string \<Rightarrow> string list \<Rightarrow> string list" where
  "SplitStringToIteratorUsing full delim result =
     (if hd0 delim \<noteq> CHR 0x00 \<and> hd0 (tl delim) = CHR 0x00
      then split_char_loop full (hd0 delim) 0 result
      else split_set_loop full delim (find_first_not_of full delim 0) result)"

definition SplitStringUsing :: "string \<Rightarrow> string \<Rightarrow> string list \<Rightarrow> string list" where
  "SplitStringUsing full delim result = SplitStringToIteratorUsing full delim result"

function split_empty_loop ::
  "string \<Rightarrow> string \<Rightarrow> int \<Rightarrow> int \<Rightarrow> nat \<Rightarrow> string list \<Rightarrow> string list" where
  "split_empty_loop full delim pieces i begin_index result =
     (if i < pieces - 1 \<or> pieces = 0 then
        (case find_first_of full delim begin_index of
           None \<Rightarrow> result @ [drop begin_index full]
         | Some end_index \<Rightarrow>
             split_empty_loop full delim pieces (i + 1) (end_index + 1)
               (result @ [segment begin_index end_index full]))
      else result @ [drop begin_index full])"
  by pat_completeness auto
termination
  by (relation "measure (\<lambda>(full, delim, pieces, i, begin_index, result). length full - begin_index)")
    (auto dest: find_first_of_SomeD(1) intro!: diff_less_mono2 le_imp_less_Suc find_first_of_less)

declare split_empty_loop.simps [simp del]

definition SplitStringToIteratorAllowEmpty ::
  "string \<Rightarrow> string \<Rightarrow> int \<Rightarrow> string list \<Rightarrow> string list" where
  "SplitStringToIteratorAllowEmpty full delim pieces result =
     split_empty_loop full delim pieces 0 0 result"

definition SplitStringAllowEmpty :: "string \<Rightarrow> string \<Rightarrow> string list \<Rightarrow> string list" where
  "SplitStringAllowEmpty full delim result = SplitStringToIteratorAllowEmpty full delim 0 result"

definition Split :: "string \<Rightarrow> string \<Rightarrow> bool \<Rightarrow> string list" where
  "Split full delim skip_empty =
     (if skip_empty then SplitStringUsing full delim [] else SplitStringAllowEmpty full delim [])"

text \<open>The loop of \<^verbatim>\<open>JoinStringsIterator\<close>; \<open>start\<close> holds for the first component only. Reserving memory
  beforehand does not show.\<close>

fun join_loop :: "string \<Rightarrow> bool \<Rightarrow> string list \<Rightarrow> string \<Rightarrow> string" where
  "join_loop delim start [] result = result"
| "join_loop delim start (s # ss) result =
     join_loop delim False ss ((if start then result else result @ c_str delim) @ s)"

definition JoinStrings :: "string list \<Rightarrow> string \<Rightarrow> string" where
  "JoinStrings components delim = join_loop delim True components []"

section \<open>Reference definitions\<close>

text \<open>Cutting a text at every delimiter.\<close>

fun pieces_of :: "(char \<Rightarrow> bool) \<Rightarrow> string \<Rightarrow> string list" where
  "pieces_of P [] = [[]]"
| "pieces_of P (c # s) =
     (if P c then [] # pieces_of P s
      else (c # hd (pieces_of P s)) # tl (pieces_of P s))"

text \<open>Replacing from left to right, every occurrence that does not overlap the one before.\<close>

fun replaced :: "string \<Rightarrow> string \<Rightarrow> nat \<Rightarrow> string \<Rightarrow> string" where
  "replaced oldsub newsub (Suc k) (c # s) = replaced oldsub newsub k s"
| "replaced oldsub newsub 0 (c # s) =
     (if prefix oldsub (c # s) then newsub @ replaced oldsub newsub (length oldsub - 1) s
      else c # replaced oldsub newsub 0 s)"
| "replaced oldsub newsub k [] = []"

fun replaced_first :: "string \<Rightarrow> string \<Rightarrow> string \<Rightarrow> string" where
  "replaced_first oldsub newsub [] = []"
| "replaced_first oldsub newsub (c # s) =
     (if prefix oldsub (c # s) then newsub @ drop (length oldsub) (c # s)
      else c # replaced_first oldsub newsub s)"

section \<open>Splitting and joining are what they say\<close>

lemma pieces_of_not_Nil [simp]: "pieces_of P s \<noteq> []"
  by (cases s) auto

lemma pieces_of_Cons_hd: "pieces_of P s = hd (pieces_of P s) # tl (pieces_of P s)"
  by simp

lemma pieces_of_takeWhile:
  "pieces_of P s =
     takeWhile (\<lambda>c. \<not> P c) s #
     (case dropWhile (\<lambda>c. \<not> P c) s of [] \<Rightarrow> [] | _ # r \<Rightarrow> pieces_of P r)"
proof (induction s)
  case (Cons c s)
  then show ?case by (subst pieces_of.simps) (simp add: Cons)
qed simp

definition tokens_of :: "(char \<Rightarrow> bool) \<Rightarrow> string \<Rightarrow> string list" where
  "tokens_of P s = filter (\<lambda>t. t \<noteq> []) (pieces_of P s)"

lemma tokens_of_delim: "P c \<Longrightarrow> tokens_of P (c # s) = tokens_of P s"
  by (simp add: tokens_of_def)

lemma tokens_of_Nil [simp]: "tokens_of P [] = []"
  by (simp add: tokens_of_def)

lemma tokens_of_dropWhile: "tokens_of P (dropWhile P s) = tokens_of P s"
  by (induction s) (auto simp: tokens_of_delim)

lemma tokens_of_token:
  assumes "\<not> P c"
  shows "tokens_of P (c # s) =
    (c # takeWhile (\<lambda>c. \<not> P c) s) # tokens_of P (dropWhile (\<lambda>c. \<not> P c) s)"
proof -
  have "dropWhile (\<lambda>c. \<not> P c) s = d # r \<Longrightarrow> P d" for d r
    by (metis hd_dropWhile list.distinct(1) list.sel(1))
  moreover have "(\<And>d r. u = d # r \<Longrightarrow> P d) \<Longrightarrow>
      tokens_of P u = filter (\<lambda>t. t \<noteq> []) (case u of [] \<Rightarrow> [] | _ # r \<Rightarrow> pieces_of P r)" for u
    by (cases u) (auto simp: tokens_of_def)
  ultimately have "tokens_of P (dropWhile (\<lambda>c. \<not> P c) s) =
      filter (\<lambda>t. t \<noteq> []) (case dropWhile (\<lambda>c. \<not> P c) s of [] \<Rightarrow> [] | _ # r \<Rightarrow> pieces_of P r)"
    by blast
  then show ?thesis
    using assms arg_cong [OF pieces_of_takeWhile, of hd P s] arg_cong [OF pieces_of_takeWhile, of tl P s]
    by (simp add: tokens_of_def)
qed

lemma scan_piece_eq: "p \<le> length full \<Longrightarrow> scan_piece full c p = p + length (takeWhile (\<lambda>x. x \<noteq> c) (drop p full))"
proof (induction full c p rule: scan_piece.induct)
  case (1 full c p)
  show ?case
  proof (cases "p < length full")
    case True
    then have "drop p full = full ! p # drop (Suc p) full" by (simp add: Cons_nth_drop_Suc)
    then show ?thesis using 1 True by (subst scan_piece.simps) auto
  qed (use 1 in \<open>simp add: scan_piece.simps\<close>)
qed

lemma split_char_tokens:
  "p \<le> length full \<Longrightarrow>
   split_char_loop full c p result = result @ tokens_of (\<lambda>x. x = c) (drop p full)"
proof (induction full c p result rule: split_char_loop.induct)
  case (1 full c p result)
  show ?case
  proof (cases "p < length full")
    case False
    then show ?thesis by (subst split_char_loop.simps) simp
  next
    case p: True
    let ?r = "drop (Suc p) full"
    let ?w = "takeWhile (\<lambda>x. x \<noteq> c) ?r"
    have d: "drop p full = full ! p # ?r" using p by (simp add: Cons_nth_drop_Suc)
    show ?thesis
    proof (cases "full ! p = c")
      case True
      then show ?thesis
        using 1(1) [OF p True] p by (subst split_char_loop.simps) (simp add: d tokens_of_delim)
    next
      case False
      define q where "q = scan_piece full c (Suc p)"
      have q: "q = Suc p + length ?w" using p by (simp add: q_def scan_piece_eq)
      have "length ?w \<le> length ?r" by (rule length_takeWhile_le)
      then have le: "q \<le> length full" using p q by simp
      have dq: "drop q full = dropWhile (\<lambda>x. x \<noteq> c) ?r"
        by (simp add: q dropWhile_eq_drop add.commute)
      have sq: "segment p q full = full ! p # ?w"
        by (simp add: segment_def q d flip: takeWhile_eq_take)
      have "split_char_loop full c p result = split_char_loop full c q (result @ [segment p q full])"
        using p False by (subst split_char_loop.simps) (simp add: q_def Let_def)
      also have "\<dots> = (result @ [segment p q full]) @ tokens_of (\<lambda>x. x = c) (drop q full)"
        using 1(2) [OF p False refl refl] le unfolding q_def by simp
      finally show ?thesis by (simp add: d dq sq tokens_of_token [where P = "\<lambda>x. x = c", OF False])
    qed
  qed
qed

abbreviation delims :: "string \<Rightarrow> char \<Rightarrow> bool" where
  "delims delim c \<equiv> c \<in> set (c_str delim)"

lemma find_first_of_case:
  assumes "pos \<le> length full"
  shows "find_first_of full delim pos = None \<Longrightarrow> dropWhile (\<lambda>c. \<not> delims delim c) (drop pos full) = []"
    and "find_first_of full delim pos = Some k \<Longrightarrow>
      segment pos k full = takeWhile (\<lambda>c. \<not> delims delim c) (drop pos full) \<and>
      drop k full = dropWhile (\<lambda>c. \<not> delims delim c) (drop pos full)"
proof -
  let ?w = "takeWhile (\<lambda>c. \<not> delims delim c) (drop pos full)"
  have w: "find_first_of full delim pos = (if pos + length ?w < length full then Some (pos + length ?w) else None)"
    by (simp add: find_first_of_def Let_def)
  have split: "dropWhile (\<lambda>c. \<not> delims delim c) (drop pos full) = drop (pos + length ?w) full"
    by (simp add: dropWhile_eq_drop add.commute)
  show "find_first_of full delim pos = None \<Longrightarrow> dropWhile (\<lambda>c. \<not> delims delim c) (drop pos full) = []"
    unfolding split w by (simp split: if_splits)
  show "find_first_of full delim pos = Some k \<Longrightarrow>
      segment pos k full = ?w \<and> drop k full = dropWhile (\<lambda>c. \<not> delims delim c) (drop pos full)"
    unfolding split w by (auto simp: segment_def simp flip: takeWhile_eq_take split: if_splits)
qed

lemma find_first_not_of_case:
  assumes "pos \<le> length full"
  shows "find_first_not_of full delim pos = None \<Longrightarrow> dropWhile (delims delim) (drop pos full) = []"
    and "find_first_not_of full delim pos = Some k \<Longrightarrow> drop k full = dropWhile (delims delim) (drop pos full)"
proof -
  let ?w = "takeWhile (delims delim) (drop pos full)"
  have w: "find_first_not_of full delim pos = (if pos + length ?w < length full then Some (pos + length ?w) else None)"
    by (simp add: find_first_not_of_def Let_def)
  have split: "dropWhile (delims delim) (drop pos full) = drop (pos + length ?w) full"
    by (simp add: dropWhile_eq_drop add.commute)
  show "find_first_not_of full delim pos = None \<Longrightarrow> dropWhile (delims delim) (drop pos full) = []"
    and "find_first_not_of full delim pos = Some k \<Longrightarrow> drop k full = dropWhile (delims delim) (drop pos full)"
    unfolding split w by (auto split: if_splits)
qed

lemma split_set_tokens:
  shows "(case b of None \<Rightarrow> True | Some k \<Rightarrow> k < length full \<and> \<not> delims delim (full ! k)) \<Longrightarrow>
    split_set_loop full delim b result =
      result @ (case b of None \<Rightarrow> [] | Some k \<Rightarrow> tokens_of (delims delim) (drop k full))"
proof (induction full delim b result rule: split_set_loop.induct)
  case (2 full delim k result)
  have k: "k \<le> length full" "\<not> delims delim (full ! k)" using 2(2) by auto
  have d: "drop k full = full ! k # drop (Suc k) full" using 2(2) by (simp add: Cons_nth_drop_Suc)
  have tok: "tokens_of (delims delim) (drop k full) =
      takeWhile (\<lambda>c. \<not> delims delim c) (drop k full) # tokens_of (delims delim) (dropWhile (\<lambda>c. \<not> delims delim c) (drop k full))"
    using k(2) unfolding d by (simp add: tokens_of_token)
  show ?case
  proof (cases "find_first_of full delim k")
    case None
    then have "takeWhile (\<lambda>c. \<not> delims delim c) (drop k full) = drop k full"
      using find_first_of_case(1) [OF k(1) None] by (metis append_Nil2 takeWhile_dropWhile_id)
    then show ?thesis
      using find_first_of_case(1) [OF k(1) None] None tok by (simp add: split_set_loop.simps del: dropWhile_eq_Nil_conv takeWhile_eq_all_conv)
  next
    case (Some e)
    note e = find_first_of_case(2) [OF k(1) Some] find_first_of_SomeD [OF Some]
    then have le: "e \<le> length full" by simp
    let ?b = "find_first_not_of full delim e"
    have "case ?b of None \<Rightarrow> True | Some k \<Rightarrow> k < length full \<and> \<not> delims delim (full ! k)"
      using find_first_not_of_SomeD [of full delim e] by (auto split: option.splits)
    then have "split_set_loop full delim (Some k) result = (result @ [segment k e full]) @
        (case ?b of None \<Rightarrow> [] | Some k \<Rightarrow> tokens_of (delims delim) (drop k full))"
      using 2(1) [OF Some] Some by (simp add: split_set_loop.simps)
    also have "(case ?b of None \<Rightarrow> [] | Some k \<Rightarrow> tokens_of (delims delim) (drop k full)) =
        tokens_of (delims delim) (dropWhile (delims delim) (drop e full))"
      using find_first_not_of_case [OF le] by (cases ?b) (simp_all del: dropWhile_eq_Nil_conv takeWhile_eq_all_conv)
    finally show ?thesis using e(1) tok by (simp add: tokens_of_dropWhile)
  qed
qed simp

lemma SplitStringUsing_tokens:
  "SplitStringUsing full delim result = result @ tokens_of (delims delim) full"
proof (cases "hd0 delim \<noteq> CHR 0x00 \<and> hd0 (tl delim) = CHR 0x00")
  case True
  then have "delims delim = (\<lambda>x. x = hd0 delim)"
    by (cases delim; cases "tl delim") (auto simp: c_str_def)
  then show ?thesis
    using True split_char_tokens [of 0 full "hd0 delim" result]
    by (simp add: SplitStringUsing_def SplitStringToIteratorUsing_def)
next
  case False
  let ?b = "find_first_not_of full delim 0"
  have "case ?b of None \<Rightarrow> True | Some k \<Rightarrow> k < length full \<and> \<not> delims delim (full ! k)"
    using find_first_not_of_SomeD [of full delim 0] by (auto split: option.splits)
  then have "split_set_loop full delim ?b result =
      result @ (case ?b of None \<Rightarrow> [] | Some k \<Rightarrow> tokens_of (delims delim) (drop k full))"
    by (rule split_set_tokens)
  also have "(case ?b of None \<Rightarrow> [] | Some k \<Rightarrow> tokens_of (delims delim) (drop k full)) =
      tokens_of (delims delim) (dropWhile (delims delim) (drop 0 full))"
    using find_first_not_of_case [of 0 full delim] by (cases ?b) (simp_all del: dropWhile_eq_Nil_conv takeWhile_eq_all_conv)
  finally show ?thesis
    using False by (auto simp: SplitStringUsing_def SplitStringToIteratorUsing_def tokens_of_dropWhile)
qed

lemma split_empty_pieces:
  "b \<le> length full \<Longrightarrow> split_empty_loop full delim 0 i b result = result @ pieces_of (delims delim) (drop b full)"
proof (induction full delim "0::int" i b result rule: split_empty_loop.induct)
  case (1 full delim i b result)
  show ?case
  proof (cases "find_first_of full delim b")
    case None
    then have "takeWhile (\<lambda>c. \<not> delims delim c) (drop b full) = drop b full"
      using find_first_of_case(1) [OF 1(2) None] by (metis append_Nil2 takeWhile_dropWhile_id)
    then show ?thesis
      using find_first_of_case(1) [OF 1(2) None] None
      by (subst split_empty_loop.simps) (simp add: pieces_of_takeWhile [of _ "drop b full"] del: dropWhile_eq_Nil_conv takeWhile_eq_all_conv)
  next
    case (Some e)
    note e = find_first_of_case(2) [OF 1(2) Some] find_first_of_SomeD [OF Some]
    have "drop e full = full ! e # drop (Suc e) full" using e by (simp add: Cons_nth_drop_Suc)
    then have "pieces_of (delims delim) (drop b full) = segment b e full # pieces_of (delims delim) (drop (Suc e) full)"
      using e(1) by (simp add: pieces_of_takeWhile [of _ "drop b full"])
    then show ?thesis
      using 1(1) [OF disjI2 [OF refl] Some] e Some by (subst split_empty_loop.simps) simp
  qed
qed

lemma SplitStringAllowEmpty_pieces:
  "SplitStringAllowEmpty full delim result = result @ pieces_of (delims delim) full"
  using split_empty_pieces [of 0 full delim 0 result]
  by (simp add: SplitStringAllowEmpty_def SplitStringToIteratorAllowEmpty_def)

lemma join_loop_eq: "join_loop delim False ss result = result @ concat (map (\<lambda>s. c_str delim @ s) ss)"
  by (induction ss arbitrary: result) auto

lemma JoinStrings_eq:
  "JoinStrings [] delim = []"
  "JoinStrings (s # ss) delim = s @ concat (map (\<lambda>s. c_str delim @ s) ss)"
  by (simp_all add: JoinStrings_def join_loop_eq)

lemma delims_single: "c \<noteq> CHR 0x00 \<Longrightarrow> delims [c] = (\<lambda>x. x = c)" "c \<noteq> CHR 0x00 \<Longrightarrow> c_str [c] = [c]"
  by (auto simp: c_str_def)

lemma join_pieces: "c \<noteq> CHR 0x00 \<Longrightarrow> JoinStrings (pieces_of (\<lambda>x. x = c) s) [c] = s"
proof (induction s)
  case (Cons d s)
  obtain h r where "pieces_of (\<lambda>x. x = c) s = h # r" by (cases "pieces_of (\<lambda>x. x = c) s") simp_all
  then show ?case using Cons by (auto simp: JoinStrings_eq delims_single)
qed (simp add: JoinStrings_eq)

lemma pieces_append: "\<forall>x \<in> set s. \<not> P x \<Longrightarrow> pieces_of P (s @ t) = (s @ hd (pieces_of P t)) # tl (pieces_of P t)"
  by (induction s) auto

lemma pieces_join:
  assumes "c \<noteq> CHR 0x00" and "ss \<noteq> []" and "\<forall>s \<in> set ss. c \<notin> set s"
  shows "pieces_of (\<lambda>x. x = c) (JoinStrings ss [c]) = ss"
  using assms(2,3)
proof (induction ss rule: list_nonempty_induct)
  case (single s)
  then show ?case using pieces_append [of s "\<lambda>x. x = c" "[]"] by (auto simp: JoinStrings_eq)
next
  case (cons s ss)
  then obtain s' ss' where ss: "ss = s' # ss'" by (cases ss) auto
  have "JoinStrings (s # ss) [c] = s @ c # JoinStrings ss [c]"
    using assms(1) by (simp add: JoinStrings_eq ss delims_single)
  then show ?case using cons pieces_append [of s "\<lambda>x. x = c" "c # JoinStrings ss [c]"] by auto
qed

section \<open>Replacing and stripping\<close>

lemma replaced_skip: "replaced oldsub newsub k s = replaced oldsub newsub 0 (drop k s)"
  by (induction oldsub newsub k s rule: replaced.induct) auto

lemma take_eq_prefix: "take (length p) s = p \<longleftrightarrow> prefix p s"
  by (metis append_eq_conv_conj append_take_drop_id prefixE prefixI)

lemma find_sub_None:
  assumes "find_sub oldsub s = None"
  shows "replaced oldsub newsub 0 s = s" "replaced_first oldsub newsub s = s"
  using assms by (induction s) (auto simp: take_eq_prefix split: if_splits)

lemma drop_length_pred: "oldsub \<noteq> [] \<Longrightarrow> drop (length oldsub) (c # s) = drop (length oldsub - 1) s"
  by (cases oldsub) auto

lemma find_sub_Some:
  assumes "find_sub oldsub s = Some k" and "oldsub \<noteq> []"
  shows "replaced oldsub newsub 0 s = take k s @ newsub @ replaced oldsub newsub 0 (drop (k + length oldsub) s)"
    and "replaced_first oldsub newsub s = take k s @ newsub @ drop (k + length oldsub) s"
  using assms(1)
proof (induction s arbitrary: k)
  case Nil
  { case 1 then show ?case using assms(2) by simp }
  { case 2 then show ?case using assms(2) by simp }
next
  case (Cons c s)
  { case 1
    show ?case
    proof (cases "prefix oldsub (c # s)")
      case True
      then show ?thesis
        using 1 drop_length_pred [OF assms(2), of c s] replaced_skip [of oldsub newsub "length oldsub - 1" s]
        by (simp add: take_eq_prefix del: drop_Cons')
    qed (use 1 Cons(1) in \<open>auto simp: take_eq_prefix\<close>) }
  { case 2
    show ?case using 2 Cons(2) by (auto simp: take_eq_prefix split: if_splits) }
qed

lemma replace_loop_all:
  assumes "oldsub \<noteq> []"
  shows "replace_loop s oldsub newsub True start res = res @ replaced oldsub newsub 0 (drop start s)"
  using assms
proof (induction s oldsub newsub True start res rule: replace_loop.induct)
  case (1 s oldsub newsub start res)
  show ?case
  proof (cases "find_sub oldsub (drop start s)")
    case None
    then show ?thesis by (subst replace_loop.simps) (simp add: find_sub_None)
  next
    case (Some k)
    then show ?thesis
      using 1(1) [OF Some refl refl] 1(2) find_sub_Some(1) [OF Some 1(2), of newsub]
      by (subst replace_loop.simps) (simp add: Let_def ac_simps)
  qed
qed

lemma replace_loop_first:
  "oldsub \<noteq> [] \<Longrightarrow> replace_loop s oldsub newsub False 0 res = res @ replaced_first oldsub newsub s"
  using find_sub_None(2) [of oldsub s newsub] find_sub_Some(2) [of oldsub s _ newsub]
  by (subst replace_loop.simps) (auto simp: Let_def split: option.splits)

lemma strpbrk_None:
  assumes "strpbrk t remove = None"
  shows "map (\<lambda>c. if delims remove c then r else c) (c_str t) = c_str t"
proof -
  have "\<not> delims remove c" if "c \<in> set (c_str t)" for c
    using assms that
  proof (induction t)
    case (Cons d t)
    then show ?case by (auto simp: strpbrk_def c_str_def Let_def split: if_splits)
  qed (simp add: c_str_def)
  then show ?thesis by (simp add: map_idI)
qed

lemma strpbrk_Some:
  assumes "strpbrk t remove = Some k"
  shows "k < length t" "delims remove (t ! k)"
    "c_str t = take k t @ t ! k # c_str (drop (Suc k) t)"
    "map (\<lambda>c. if delims remove c then r else c) (take k t) = take k t"
proof -
  let ?w = "takeWhile (\<lambda>c. c \<noteq> CHR 0x00 \<and> \<not> delims remove c) t"
  have k: "k = length ?w" "k < length t" "t ! k \<noteq> CHR 0x00"
    using assms by (auto simp: strpbrk_def Let_def split: if_splits)
  then have w: "take k t = ?w" by (metis takeWhile_eq_take)
  show "k < length t" by fact
  show "delims remove (t ! k)"
    using k nth_length_takeWhile [of "\<lambda>c. c \<noteq> CHR 0x00 \<and> \<not> delims remove c" t] by auto
  show "map (\<lambda>c. if delims remove c then r else c) (take k t) = take k t"
    unfolding w by (rule map_idI) (auto dest: set_takeWhileD)
  have "t = take k t @ t ! k # drop (Suc k) t" using k(2) by (rule id_take_nth_drop)
  then have "c_str t = c_str (take k t @ t ! k # drop (Suc k) t)" by simp
  also have "\<dots> = take k t @ t ! k # c_str (drop (Suc k) t)"
    using k(3) w unfolding c_str_def by (subst takeWhile_append2) (auto dest: set_takeWhileD)
  finally show "c_str t = take k t @ t ! k # c_str (drop (Suc k) t)" .
qed

lemma strip_loop_eq:
  "strip_loop remove r s k = take k s @
     map (\<lambda>c. if delims remove c then r else c) (c_str (drop k s)) @ drop (k + length (c_str (drop k s))) s"
proof (induction remove r s k rule: strip_loop.induct)
  case (1 remove r s k)
  show ?case
  proof (cases "strpbrk (drop k s) remove")
    case None
    have "take k s @ c_str (drop k s) @ drop (k + length (c_str (drop k s))) s = s"
      unfolding c_str_def by (metis add.commute append_take_drop_id drop_drop takeWhile_eq_take)
    then show ?thesis using None by (subst strip_loop.simps) (simp add: strpbrk_None)
  next
    case (Some j)
    note j = strpbrk_Some [OF Some]
    let ?s = "s[k + j := r]"
    have len: "k + j < length s" using j(1) by simp
    have dr: "drop (Suc (k + j)) ?s = drop (Suc (k + j)) s" by simp
    have "take (Suc (k + j)) ?s = take (k + j) s @ [r]" using len by (simp add: take_Suc_conv_app_nth)
    then have tk: "take (Suc (k + j)) ?s = take k s @ take j (drop k s) @ [r]" by (simp add: take_add)
    show ?thesis
      using 1 [OF Some] Some dr tk j(2,4) min_absorb1 [of j "length s - k"] len
      by (subst strip_loop.simps) (simp add: j(3) ac_simps)
  qed
qed

lemma first_nonspace_eq:
  "f \<le> length s \<Longrightarrow> first_nonspace s (int (length s)) f = f + length (takeWhile ascii_isspace (drop f s))"
proof (induction s "int (length s)" f rule: first_nonspace.induct)
  case (1 s f)
  show ?case
  proof (cases "f < length s")
    case True
    then have "drop f s = s ! f # drop (Suc f) s" by (simp add: Cons_nth_drop_Suc)
    then show ?thesis using 1 True by (subst first_nonspace.simps) auto
  qed (use 1 in \<open>simp add: first_nonspace.simps\<close>)
qed

lemma last_nonspace_eq:
  "n \<le> length s \<Longrightarrow> take (last_nonspace s n) s = rev (dropWhile ascii_isspace (rev (take n s)))"
  by (induction n) (auto simp: take_Suc_conv_app_nth)

definition trimmed :: "string \<Rightarrow> string" where
  "trimmed s = rev (dropWhile ascii_isspace (rev (dropWhile ascii_isspace s)))"

lemma last_nonspace_pos: "\<not> ascii_isspace (hd s) \<Longrightarrow> s \<noteq> [] \<Longrightarrow> 0 < n \<Longrightarrow> 0 < last_nonspace s n"
proof (induction n)
  case (Suc n)
  then show ?case by (cases n) (simp_all add: hd_conv_nth)
qed simp

lemma StripWhitespace_eq:
  assumes "length s < 2 ^ 31"
  shows "StripWhitespace s = trimmed s"
proof -
  let ?f = "length (takeWhile ascii_isspace s)" and ?t = "dropWhile ascii_isspace s"
  have first: "first_nonspace s (int (length s)) 0 = ?f" using first_nonspace_eq [of 0 s] by simp
  have drop: "drop ?f s = ?t" by (simp add: dropWhile_eq_drop)
  have len: "length s = ?f + length ?t" by (metis length_append takeWhile_dropWhile_id)
  have all: "int ?f = int (length s) \<longleftrightarrow> ?t = []" using len by (simp del: dropWhile_eq_Nil_conv)
  have rest: "(if ?f > 0 then drop ?f s else s) = ?t" using drop by (cases "?f = 0") simp_all
  have size: "(if ?f > 0 then int (length s) - int ?f else int (length s)) = int (length ?t)"
    using len by (cases "?f = 0") simp_all
  define n where "n = last_nonspace ?t (length ?t)"
  have "StripWhitespace s =
      (if ?t = [] then [] else if int n \<noteq> int (length ?t) \<and> n > 0 then take n ?t else ?t)"
    unfolding StripWhitespace_def Let_def to_int_small [OF assms] first all rest size n_def by simp
  moreover have n: "take n ?t = trimmed s"
    using last_nonspace_eq [of "length ?t" ?t] by (simp add: n_def trimmed_def)
  moreover have "0 < n" if "?t \<noteq> []"
    using last_nonspace_pos [OF hd_dropWhile [OF that]] that by (simp add: n_def)
  ultimately show ?thesis by (auto simp: trimmed_def simp del: dropWhile_eq_Nil_conv)
qed

section \<open>Prefixes, suffixes, case and hexadecimal digits\<close>

lemma strip_prefix_suffix:
  "HasPrefixString str p \<longleftrightarrow> prefix p str" "HasSuffixString str p \<longleftrightarrow> suffix p str"
  "StripPrefixString (p @ s) p = s" "StripSuffixString (s @ p) p = s"
proof -
  show "HasPrefixString str p \<longleftrightarrow> prefix p str"
    by (auto simp: HasPrefixString_def take_eq_prefix prefix_length_le)
  show "HasSuffixString str p \<longleftrightarrow> suffix p str"
  proof
    assume "HasSuffixString str p"
    then have "drop (length str - length p) str = p" by (simp add: HasSuffixString_def)
    then show "suffix p str" by (metis suffix_drop)
  next
    assume "suffix p str"
    then show "HasSuffixString str p" by (auto simp: HasSuffixString_def suffix_def)
  qed
qed (simp_all add: StripPrefixString_def StripSuffixString_def HasPrefixString_def HasSuffixString_def)

lemma hex_digit_to_int_digits:
  "map hex_digit_to_int ''0123456789abcdefABCDEF'' = [0..9] @ [10..15] @ [10..15]"
  by code_simp

section \<open>Properties\<close>

text \<open>Splitting. The loop for a single delimiter and the loop for a set of delimiters both append the
  non-empty pieces between delimiters, in order, whatever characters the text holds; the variant
  that keeps empty pieces appends all of them, one more than there are delimiters.\<close>

theorem split_is_tokens:
  "SplitStringUsing full delim result =
     result @ filter (\<lambda>t. t \<noteq> []) (pieces_of (\<lambda>c. c \<in> set (c_str delim)) full) \<and>
   SplitStringAllowEmpty full delim result =
     result @ pieces_of (\<lambda>c. c \<in> set (c_str delim)) full \<and>
   length (pieces_of (\<lambda>c. c \<in> set (c_str delim)) full) =
     length (filter (\<lambda>c. c \<in> set (c_str delim)) full) + 1"
proof -
  have "length (pieces_of P s) = length (filter P s) + 1" for P s
    by (induction s) auto
  then show ?thesis
    by (simp add: SplitStringUsing_tokens tokens_of_def SplitStringAllowEmpty_pieces)
qed

text \<open>Joining with a delimiter undoes splitting at it, and splitting at a delimiter that occurs in no
  component undoes joining, as long as there is a component.\<close>

theorem split_join_roundtrip:
  assumes "c \<noteq> CHR 0x00"
  shows "JoinStrings (Split s [c] False) [c] = s \<and>
    (ss \<noteq> [] \<and> (\<forall>t \<in> set ss. c \<notin> set t) \<longrightarrow> Split (JoinStrings ss [c]) [c] False = ss)"
  using assms join_pieces [OF assms, of s] pieces_join [OF assms, of ss]
  by (simp add: Split_def SplitStringAllowEmpty_pieces delims_single)

theorem split_join_roundtrip_witness:
  "JoinStrings (Split '',a,,b'' '','' False) '','' = '',a,,b'' \<and>
   Split (JoinStrings [''x'', [], ''y''] '','') '','' False = [''x'', [], ''y'']"
  using split_join_roundtrip [of "CHR '',''" "'',a,,b''" "[''x'', [], ''y'']"] by simp

text \<open>\<^verbatim>\<open>StringReplace\<close> replaces the occurrences of a non-empty pattern from left to right, none
  overlapping the one before and none inside what it inserted (or the first one only), and leaves
  the text alone when the pattern is empty.\<close>

theorem string_replace_leftmost:
  "StringReplace s oldsub newsub True res = res @ (if oldsub = [] then s else replaced oldsub newsub 0 s) \<and>
   StringReplace s oldsub newsub False res =
     res @ (if oldsub = [] then s else replaced_first oldsub newsub s)"
  by (simp add: StringReplace_def replace_loop_all replace_loop_first)

text \<open>\<^verbatim>\<open>StripString\<close> overwrites the listed characters up to the first NUL of the string and nothing
  after it; \<^verbatim>\<open>StripWhitespace\<close> cuts white space at both ends and nothing else, for strings below 2 GiB.\<close>

theorem strip_functions:
  assumes "length s < 2 ^ 31"
  shows "StripString s remove r =
      map (\<lambda>c. if c \<in> set (c_str remove) then r else c) (c_str s) @ drop (length (c_str s)) s \<and>
    StripWhitespace s = rev (dropWhile ascii_isspace (rev (dropWhile ascii_isspace s)))"
  using strip_loop_eq [of remove r s 0] StripWhitespace_eq [OF assms]
  by (simp add: StripString_def trimmed_def)

theorem strip_functions_witness:
  "StripString ''a-b_c'' ''-_'' CHR '' '' = ''a b c'' \<and> StripWhitespace '' x y  '' = ''x y''"
  using strip_functions [of "''a-b_c''" "''-_''" "CHR '' ''"] strip_functions [of "'' x y  ''" "[]" "CHR '' ''"]
  by (simp add: c_str_def ascii_isspace_def)

end
