(* ===== verification/Sock_Addr.thy ===== *)
theory Sock_Addr
  imports String_Util
begin

text \<open>
  Socket addresses (\<^verbatim>\<open>voyager/core/sockaddr.cc\<close>). A \<^verbatim>\<open>sockaddr_storage\<close> is its family and the 126 bytes that
  follow, in which the port and the address stand in network order. Character arrays are lists of the
  array's size. What is in a variable before it is assigned is a parameter, \<open>junk\<close>: the code hands out
  some of it. \<^verbatim>\<open>inet_ntop\<close> and \<^verbatim>\<open>inet_pton\<close> are modelled for IPv4; the text of an IPv6 address, \<open>ntop6\<close> and
  \<open>pton6\<close>, and the resolver \<open>gai\<close> are parameters.
\<close>

section \<open>Addresses in memory\<close>

record sockaddr_storage =
  ss_family :: u16
  ss_data :: "byte list"

definition AF_INET :: u16 where "AF_INET = 2"
definition AF_INET6 :: u16 where "AF_INET6 = 10"
definition INET_ADDRSTRLEN :: nat where "INET_ADDRSTRLEN = 16"
definition INET6_ADDRSTRLEN :: nat where "INET6_ADDRSTRLEN = 46"

definition storage_ok :: "sockaddr_storage \<Rightarrow> bool" where
  "storage_ok sa \<longleftrightarrow> length (ss_data sa) = 126"

text \<open>\<^verbatim>\<open>ntohs(sa4->sin_port)\<close>, \<^verbatim>\<open>sin_addr\<close>, \<^verbatim>\<open>sin6_addr\<close>.\<close>

definition sin_port :: "sockaddr_storage \<Rightarrow> u16" where
  "sin_port sa = of_nat (unat (ss_data sa ! 0) * 256 + unat (ss_data sa ! 1))"

definition sin_addr :: "sockaddr_storage \<Rightarrow> byte list" where
  "sin_addr sa = segment 2 6 (ss_data sa)"

definition sin6_addr :: "sockaddr_storage \<Rightarrow> byte list" where
  "sin6_addr sa = segment 6 22 (ss_data sa)"

definition htons :: "u16 \<Rightarrow> byte list" where
  "htons p = [of_nat (unat p div 256), of_nat (unat p mod 256)]"

section \<open>The C library\<close>

definition NUL :: char where
  "NUL = CHR 0x00"

definition put_str :: "string \<Rightarrow> string \<Rightarrow> string" where
  "put_str s arr = write_at 0 (s @ [NUL]) arr"

definition snprintf :: "string \<Rightarrow> string \<Rightarrow> int \<times> string" where
  "snprintf s arr = (int (length s), if arr = [] then [] else put_str (take (length arr - 1) s) arr)"

fun dotted :: "byte list \<Rightarrow> string" where
  "dotted [] = ''''"
| "dotted [a] = print_nat (unat a)"
| "dotted (a # as) = print_nat (unat a) @ ''.'' @ dotted as"

text \<open>\<^verbatim>\<open>inet_ntop\<close> writes the text and its terminator when they fit and fails otherwise.\<close>

definition inet_ntop :: "string \<Rightarrow> string \<Rightarrow> string option" where
  "inet_ntop s arr = (if length s < length arr then Some (put_str s arr) else None)"

definition octet :: "string \<Rightarrow> byte option" where
  "octet t =
     (if t \<noteq> [] \<and> list_all isdigit t \<and> (hd t = CHR ''0'' \<longrightarrow> length t = 1) \<and> decimal_value t \<le> 255
      then Some (of_int (decimal_value t)) else None)"

definition inet_pton4 :: "string \<Rightarrow> byte list option" where
  "inet_pton4 s =
     (let os = map octet (pieces_of (\<lambda>c. c = CHR ''.'') s)
      in if length os = 4 \<and> None \<notin> set os then Some (map the os) else None)"

section \<open>Text of an address\<close>

definition SockAddrToIP :: "(byte list \<Rightarrow> string) \<Rightarrow> sockaddr_storage \<Rightarrow> string \<Rightarrow> (bool \<times> string) res" where
  "SockAddrToIP ntop6 sa buf =
     (if ss_family sa = AF_INET then
        guard AssertionFailed (length buf \<ge> INET_ADDRSTRLEN)
          (case inet_ntop (dotted (sin_addr sa)) buf of Some buf' \<Rightarrow> Inr (True, buf') | None \<Rightarrow> Inr (False, buf))
      else if ss_family sa = AF_INET6 then
        guard AssertionFailed (length buf \<ge> INET6_ADDRSTRLEN)
          (case inet_ntop (ntop6 (sin6_addr sa)) buf of Some buf' \<Rightarrow> Inr (True, buf') | None \<Rightarrow> Inr (False, buf))
      else Inr (False, buf))"

text \<open>\<^verbatim>\<open>FormatAddress(ip, port, buf, len)\<close>; \<open>ip\<close> is the array, read up to its terminator.\<close>

definition address_text :: "string \<Rightarrow> u16 \<Rightarrow> string" where
  "address_text s port =
     (if CHR '':'' \<in> set s then ''['' @ s @ '']:'' @ print_nat (unat port) else s @ '':'' @ print_nat (unat port))"

definition FormatAddress_ip :: "string \<Rightarrow> u16 \<Rightarrow> string \<Rightarrow> (int \<times> string) res" where
  "FormatAddress_ip ip port buf =
     guard OutOfBounds (NUL \<in> set ip) (Inr (snprintf (address_text (c_str ip) port) buf))"

definition FormatAddress :: "(byte list \<Rightarrow> string) \<Rightarrow> string \<Rightarrow> sockaddr_storage \<Rightarrow> string \<Rightarrow> (int \<times> string) res" where
  "FormatAddress ntop6 junk sa buf =
     rbind (SockAddrToIP ntop6 sa (take INET6_ADDRSTRLEN junk)) (\<lambda>(ok, ip).
       if \<not> ok then Inr (-1, buf) else FormatAddress_ip ip (sin_port sa) buf)"

section \<open>The class\<close>

record sock_addr =
  addr_sa :: sockaddr_storage
  addr_ip :: string
  addr_port :: u16
  addr_ipbuf :: string

text \<open>\<open>junk\<close> holds what is in the arrays \<^verbatim>\<open>ip\<close> and \<^verbatim>\<open>ipbuf\<close> on entry.\<close>

definition GetIpPort :: "(byte list \<Rightarrow> string) \<Rightarrow> string \<times> string \<Rightarrow> sockaddr_storage \<Rightarrow> sock_addr \<Rightarrow> sock_addr res" where
  "GetIpPort ntop6 junk sa s =
     rbind (SockAddrToIP ntop6 sa (fst junk)) (\<lambda>(_, ip).
       let port = sin_port sa in
       rbind (FormatAddress_ip ip port (snd junk)) (\<lambda>(_, ipbuf).
         Inr (s\<lparr>addr_ip := c_str ip, addr_port := port, addr_ipbuf := ipbuf\<rparr>)))"

type_synonym resolver = "string \<Rightarrow> string \<Rightarrow> int + (u16 \<times> byte list)"

text \<open>\<^verbatim>\<open>getaddrinfo\<close> gives an error code, or the family and the bytes that follow it; \<^verbatim>\<open>memcpy\<close> leaves the
  rest of \<^verbatim>\<open>sa_\<close> as it was. \<open>pjunk\<close> is what is in \<^verbatim>\<open>portbuf\<close>.\<close>

definition GetAddrInfo :: "resolver \<Rightarrow> (byte list \<Rightarrow> string) \<Rightarrow> string \<Rightarrow> string \<times> string \<Rightarrow>
    string \<Rightarrow> u16 \<Rightarrow> sock_addr \<Rightarrow> (bool \<times> sock_addr) res" where
  "GetAddrInfo gai ntop6 pjunk junk host port s =
     (let portbuf = snd (snprintf (print_nat (unat port)) pjunk) in
      case gai (c_str host) (c_str portbuf) of
        Inl ret \<Rightarrow> Inr (False, s)
      | Inr (family, addr) \<Rightarrow>
          rbind (vec_copy 0 addr (ss_data (addr_sa s))) (\<lambda>d.
            let s = s\<lparr>addr_sa := \<lparr>ss_family = family, ss_data = d\<rparr>\<rparr> in
            rbind (GetIpPort ntop6 junk (addr_sa s) s) (\<lambda>s. Inr (True, s))))"

text \<open>The members that the constructors do not initialise are those of \<open>mem\<close>.\<close>

definition uninit :: "sock_addr \<Rightarrow> sock_addr" where
  "uninit mem = mem\<lparr>addr_ip := [], addr_ipbuf := []\<rparr>"

definition SockAddr_host :: "resolver \<Rightarrow> (byte list \<Rightarrow> string) \<Rightarrow> string \<Rightarrow> string \<times> string \<Rightarrow> sock_addr \<Rightarrow>
    string \<Rightarrow> u16 \<Rightarrow> sock_addr res" where
  "SockAddr_host gai ntop6 pjunk junk mem host port =
     rbind (GetAddrInfo gai ntop6 pjunk junk host port (uninit mem)) (\<lambda>(_, s). Inr s)"

definition SockAddr_port :: "resolver \<Rightarrow> (byte list \<Rightarrow> string) \<Rightarrow> string \<Rightarrow> string \<times> string \<Rightarrow> sock_addr \<Rightarrow>
    u16 \<Rightarrow> sock_addr res" where
  "SockAddr_port gai ntop6 pjunk junk mem port = SockAddr_host gai ntop6 pjunk junk mem ''127.0.0.1'' port"

definition SockAddr_storage :: "(byte list \<Rightarrow> string) \<Rightarrow> string \<times> string \<Rightarrow> sock_addr \<Rightarrow>
    sockaddr_storage \<Rightarrow> sock_addr res" where
  "SockAddr_storage ntop6 junk mem sa =
     (let s = (uninit mem)\<lparr>addr_sa := sa\<rparr> in GetIpPort ntop6 junk (addr_sa s) s)"

text \<open>\<^verbatim>\<open>IPPortToSockAddr\<close>, for the two kinds of address.\<close>

definition IPPortToSockAddr4 :: "string \<Rightarrow> u16 \<Rightarrow> sockaddr_storage \<Rightarrow> bool \<times> sockaddr_storage" where
  "IPPortToSockAddr4 ip port sa =
     (let sa = \<lparr>ss_family = AF_INET, ss_data = write_at 0 (htons port) (ss_data sa)\<rparr> in
      case inet_pton4 (c_str ip) of
        None \<Rightarrow> (False, sa)
      | Some a \<Rightarrow> (True, sa\<lparr>ss_data := write_at 2 a (ss_data sa)\<rparr>))"

definition IPPortToSockAddr6 :: "(string \<Rightarrow> byte list option) \<Rightarrow> string \<Rightarrow> u16 \<Rightarrow> sockaddr_storage \<Rightarrow>
    bool \<times> sockaddr_storage" where
  "IPPortToSockAddr6 pton6 ip port sa =
     (let sa = \<lparr>ss_family = AF_INET6, ss_data = write_at 0 (htons port) (ss_data sa)\<rparr> in
      case pton6 (c_str ip) of
        None \<Rightarrow> (False, sa)
      | Some a \<Rightarrow> (True, sa\<lparr>ss_data := write_at 6 a (ss_data sa)\<rparr>))"

text \<open>\<^verbatim>\<open>LocalSockAddr\<close> and \<^verbatim>\<open>PeerSockAddr\<close>: \<open>None\<close> when the system call fails, otherwise the family and the
  bytes it writes.\<close>

definition socket_name :: "(u16 \<times> byte list) option \<Rightarrow> sockaddr_storage \<Rightarrow> sockaddr_storage" where
  "socket_name r junk =
     (case r of None \<Rightarrow> junk | Some (family, addr) \<Rightarrow> \<lparr>ss_family = family, ss_data = write_at 0 addr (ss_data junk)\<rparr>)"

definition LocalSockAddr :: "(u16 \<times> byte list) option \<Rightarrow> sockaddr_storage \<Rightarrow> sockaddr_storage" where
  "LocalSockAddr getsockname junk = socket_name getsockname junk"

definition PeerSockAddr :: "(u16 \<times> byte list) option \<Rightarrow> sockaddr_storage \<Rightarrow> sockaddr_storage" where
  "PeerSockAddr getpeername junk = socket_name getpeername junk"

definition FormatPeer :: "(byte list \<Rightarrow> string) \<Rightarrow> string \<Rightarrow> (u16 \<times> byte list) option \<Rightarrow> sockaddr_storage \<Rightarrow>
    string \<Rightarrow> (int \<times> string) res" where
  "FormatPeer ntop6 junk getpeername sjunk buf = FormatAddress ntop6 junk (PeerSockAddr getpeername sjunk) buf"

definition FormatLocal :: "(byte list \<Rightarrow> string) \<Rightarrow> string \<Rightarrow> (u16 \<times> byte list) option \<Rightarrow> sockaddr_storage \<Rightarrow>
    string \<Rightarrow> (int \<times> string) res" where
  "FormatLocal ntop6 junk getsockname sjunk buf = FormatAddress ntop6 junk (LocalSockAddr getsockname sjunk) buf"

section \<open>Decimal text\<close>

lemma length_print_nat: "0 < d \<Longrightarrow> n < 10 ^ d \<Longrightarrow> length (print_nat n) \<le> d"
proof (induction n arbitrary: d rule: print_nat.induct)
  case (1 n)
  show ?case
  proof (cases "n < 10")
    case True
    then show ?thesis using 1 by (subst print_nat.simps) simp
  next
    case False
    then obtain d' where d: "d = Suc d'" "0 < d'" using 1(2,3) by (cases d; cases "d - 1") auto
    then have "n div 10 < 10 ^ d'" using 1(3) by (simp add: div_less_iff_less_mult mult.commute)
    then show ?thesis using 1(1) [OF False d(2)] False by (subst print_nat.simps) (simp add: d)
  qed
qed

lemma digit_char: "isdigit c \<Longrightarrow> char_of (48 + nat (digit_value c)) = c"
  by (simp add: isdigit_def digit_value_def nat_of_def nat_diff_distrib)

lemma digit_value_bounds: "isdigit c \<Longrightarrow> 0 \<le> digit_value c \<and> digit_value c < 10"
  by (simp add: isdigit_def digit_value_def)

lemma decimal_value_nonneg: "list_all isdigit t \<Longrightarrow> 0 \<le> decimal_value t"
  by (induction t rule: rev_induct) (auto simp: decimal_value_append digit_value_bounds decimal_value_def)

lemma nat_of_zero: "nat_of c = 48 \<longleftrightarrow> c = CHR ''0''"
proof -
  have "nat_of (CHR ''0'') = 48" by (simp add: nat_of_def)
  then show ?thesis by (metis nat_of_def of_char_eq_iff)
qed

lemma decimal_value_pos:
  "list_all isdigit t \<Longrightarrow> t \<noteq> [] \<Longrightarrow> hd t \<noteq> CHR ''0'' \<Longrightarrow> 0 < decimal_value t"
proof (induction t rule: rev_induct)
  case (snoc c t)
  show ?case
  proof (cases t)
    case Nil
    have "nat_of c \<noteq> 48" using snoc Nil by (simp add: nat_of_zero)
    then show ?thesis using snoc Nil by (auto simp: decimal_value_def digit_value_def isdigit_def)
  next
    case (Cons d u)
    then have "0 < decimal_value t" using snoc by simp
    then show ?thesis using snoc.prems(1) digit_value_bounds [of c] by (simp add: decimal_value_append)
  qed
qed simp

lemma print_nat_decimal_value:
  "list_all isdigit t \<Longrightarrow> t \<noteq> [] \<Longrightarrow> (hd t = CHR ''0'' \<longrightarrow> length t = 1) \<Longrightarrow> print_nat (nat (decimal_value t)) = t"
proof (induction t rule: rev_induct)
  case (snoc c t)
  have c: "isdigit c" using snoc by simp
  show ?case
  proof (cases "t = []")
    case True
    then show ?thesis
      using digit_value_bounds [OF c] digit_char [OF c] by (subst print_nat.simps) (auto simp: decimal_value_def)
  next
    case False
    let ?v = "decimal_value t" and ?d = "digit_value c"
    have t: "list_all isdigit t" "hd t \<noteq> CHR ''0''" using snoc False by auto
    then have pos: "0 < ?v" using decimal_value_pos False by blast
    obtain k e where k: "?v = int k" "?d = int e" "0 < k" "e < 10"
      using pos digit_value_bounds [OF c] by (metis int_nat_eq nat_int of_nat_0_less_iff of_nat_less_numeral_iff order_less_imp_le)
    then have "nat (10 * ?v + ?d) = 10 * k + e" by simp
    then show ?thesis
      using snoc.IH t False digit_char [OF c] k by (subst print_nat.simps) (simp add: decimal_value_append)
  qed
qed simp

lemma hd_print_nat: "0 < n \<Longrightarrow> hd (print_nat n) \<noteq> CHR ''0''"
proof (induction n rule: print_nat.induct)
  case (1 n)
  show ?case
  proof (cases "n < 10")
    case True
    have "nat_of (char_of (48 + n)) \<noteq> 48" using True 1(2) by simp
    then have "char_of (48 + n) \<noteq> CHR ''0''" by (simp only: nat_of_zero not_False_eq_True)
    then show ?thesis using True by (subst print_nat.simps) simp
  next
    case False
    then have "hd (print_nat (n div 10)) \<noteq> CHR ''0''" using 1(1) by simp
    then show ?thesis using False by (subst print_nat.simps) simp
  qed
qed

lemma octet_print: "n < 256 \<Longrightarrow> octet (print_nat n) = Some (of_nat n)"
  using print_nat_digits [of n] hd_print_nat [of n]
    length_print_nat [of 1 0] length_greater_0_conv [of "print_nat 0"]
  by (cases "n = 0") (auto simp: octet_def list_all_iff le_Suc_eq)

lemma octet_SomeD:
  assumes "octet t = Some a"
  shows "print_nat (unat a) = t"
proof -
  have t: "list_all isdigit t" "t \<noteq> []" "hd t = CHR ''0'' \<longrightarrow> length t = 1" "decimal_value t \<le> 255"
      and a: "a = of_int (decimal_value t)"
    using assms by (auto simp: octet_def split: if_splits)
  obtain k where k: "decimal_value t = int k" using zero_le_imp_eq_int [OF decimal_value_nonneg [OF t(1)]] by blast
  then have "unat a = nat (decimal_value t)" using t(4) by (simp add: a unat_of_nat take_bit_nat_eq_self)
  then show ?thesis using print_nat_decimal_value [OF t(1-3)] by simp
qed

section \<open>Writing and reading texts\<close>

lemma length_put_str [simp]: "length s < length arr \<Longrightarrow> length (put_str s arr) = length arr"
  by (simp add: put_str_def write_at_def)

lemma put_str_eq: "put_str s arr = s @ NUL # drop (Suc (length s)) arr"
  by (simp add: put_str_def write_at_def)

lemma c_str_put [simp]: "NUL \<notin> set s \<Longrightarrow> c_str (put_str s arr) = s"
  unfolding c_str_def put_str_eq NUL_def [symmetric] by (subst takeWhile_append2) auto

lemma NUL_in_put [simp]: "NUL \<in> set (put_str s arr)"
  by (simp add: put_str_eq)

lemma c_str_id: "NUL \<notin> set s \<Longrightarrow> c_str s = s"
  by (induction s) (auto simp: c_str_def NUL_def)

lemma NUL_not_digit: "NUL \<notin> set (print_nat n)" "CHR ''.'' \<notin> set (print_nat n)" "CHR '':'' \<notin> set (print_nat n)"
  using print_nat_digits [of n] by (auto simp: isdigit_def nat_of_def NUL_def)

lemma length_4: "length a = 4 \<Longrightarrow> \<exists>x y z w. a = [x, y, z, w]"
  by (auto simp: length_Suc_conv eval_nat_numeral)

lemma dotted_4: "dotted [x, y, z, w] = print_nat (unat x) @ ''.'' @ print_nat (unat y) @ ''.'' @ print_nat (unat z) @ ''.'' @ print_nat (unat w)"
  by simp

lemma unat_octet_less: "unat (b :: byte) < 256"
  using unsigned_less [of b, where ?'a = nat] by simp

lemma dotted_text:
  assumes "length a = 4"
  shows "NUL \<notin> set (dotted a)" "CHR '':'' \<notin> set (dotted a)" "length (dotted a) \<le> 15" "dotted a \<noteq> []"
proof -
  obtain x y z w where a: "a = [x, y, z, w]" using length_4 [OF assms] by blast
  have "length (print_nat (unat b)) \<le> 3" for b :: byte
    using length_print_nat [of 3 "unat b"] unat_octet_less [of b] by simp
  from this [of x] this [of y] this [of z] this [of w] show "length (dotted a) \<le> 15" by (simp add: a)
  show "NUL \<notin> set (dotted a)" "CHR '':'' \<notin> set (dotted a)" "dotted a \<noteq> []"
    by (simp_all add: a NUL_not_digit NUL_def [symmetric]) (simp add: NUL_def)
qed

lemma pieces_dot: "c \<notin> set x \<Longrightarrow> pieces_of (\<lambda>d. d = c) (x @ c # y) = x # pieces_of (\<lambda>d. d = c) y"
  by (induction x) auto

lemma pieces_none: "c \<notin> set x \<Longrightarrow> pieces_of (\<lambda>d. d = c) x = [x]"
  by (induction x) auto

lemma pton_ntop:
  assumes "length a = 4"
  shows "inet_pton4 (dotted a) = Some a"
proof -
  obtain x y z w where a: "a = [x, y, z, w]" using length_4 [OF assms] by blast
  have "pieces_of (\<lambda>c. c = CHR ''.'') (dotted a) = map (\<lambda>b. print_nat (unat b)) a"
    by (simp add: a pieces_dot pieces_none NUL_not_digit)
  then show ?thesis by (simp add: inet_pton4_def a octet_print unat_octet_less)
qed

lemma ntop_pton:
  assumes "inet_pton4 s = Some a"
  shows "length a = 4 \<and> dotted a = s"
proof -
  let ?ps = "pieces_of (\<lambda>c. c = CHR ''.'') s"
  have len: "length ?ps = 4" and some: "None \<notin> set (map octet ?ps)" and a: "a = map the (map octet ?ps)"
    using assms by (auto simp: inet_pton4_def Let_def split: if_splits)
  obtain p q r t where ps: "?ps = [p, q, r, t]" using len by (auto simp: length_Suc_conv eval_nat_numeral)
  obtain w x y z where "octet p = Some w" "octet q = Some x" "octet r = Some y" "octet t = Some z"
    using some by (cases "octet p"; cases "octet q"; cases "octet r"; cases "octet t") (auto simp: ps)
  then have "dotted a = p @ ''.'' @ q @ ''.'' @ r @ ''.'' @ t" by (simp add: a ps octet_SomeD)
  also have "\<dots> = s" using join_pieces [of "CHR ''.''" s] by (simp add: ps JoinStrings_eq delims_single)
  finally show ?thesis using len by (simp add: a)
qed

section \<open>The text of an address\<close>

text \<open>An address that has a text: an IPv4 address, or an IPv6 address whose text fits its array and holds
  no NUL, which is what the code relies on.\<close>

definition has_text :: "(byte list \<Rightarrow> string) \<Rightarrow> sockaddr_storage \<Rightarrow> bool" where
  "has_text ntop6 sa \<longleftrightarrow> storage_ok sa \<and>
     (ss_family sa = AF_INET \<or>
      ss_family sa = AF_INET6 \<and> length (ntop6 (sin6_addr sa)) < INET6_ADDRSTRLEN \<and> NUL \<notin> set (ntop6 (sin6_addr sa)))"

definition ip_text :: "(byte list \<Rightarrow> string) \<Rightarrow> sockaddr_storage \<Rightarrow> string" where
  "ip_text ntop6 sa = (if ss_family sa = AF_INET then dotted (sin_addr sa) else ntop6 (sin6_addr sa))"

lemma AF_distinct [simp]: "AF_INET6 \<noteq> AF_INET" "AF_INET \<noteq> AF_INET6"
  by (simp_all add: AF_INET_def AF_INET6_def)

lemma length_sin_addr: "storage_ok sa \<Longrightarrow> length (sin_addr sa) = 4" "storage_ok sa \<Longrightarrow> length (sin6_addr sa) = 16"
  by (simp_all add: storage_ok_def sin_addr_def sin6_addr_def)

lemma ip_text_ok:
  assumes "has_text ntop6 sa"
  shows "length (ip_text ntop6 sa) < INET6_ADDRSTRLEN" "NUL \<notin> set (ip_text ntop6 sa)"
  using assms dotted_text(1,3) [of "sin_addr sa"] length_sin_addr(1) [of sa]
  by (auto simp: ip_text_def has_text_def INET6_ADDRSTRLEN_def)

lemma SockAddrToIP_ok:
  assumes "has_text ntop6 sa" "INET6_ADDRSTRLEN \<le> length buf"
  shows "SockAddrToIP ntop6 sa buf = Inr (True, put_str (ip_text ntop6 sa) buf)"
  using assms ip_text_ok [OF assms(1)]
  by (auto simp: SockAddrToIP_def has_text_def ip_text_def inet_ntop_def INET6_ADDRSTRLEN_def INET_ADDRSTRLEN_def)

lemma length_port: "length (print_nat (unat (p :: u16))) \<le> 5"
  using length_print_nat [of 5 "unat p"] unsigned_less [of p, where ?'a = nat] by simp

lemma address_text_ok:
  assumes "NUL \<notin> set s"
  shows "NUL \<notin> set (address_text s port)" "length (address_text s port) \<le> length s + 8"
  using assms length_port [of port] NUL_not_digit(1)
  by (auto simp: address_text_def) (auto simp: NUL_def)

lemma GetIpPort_ok:
  assumes "has_text ntop6 sa" and "length (fst junk) = 64" "length (snd junk) = 128"
  shows "GetIpPort ntop6 junk sa s = Inr (s\<lparr>addr_ip := ip_text ntop6 sa, addr_port := sin_port sa,
    addr_ipbuf := put_str (address_text (ip_text ntop6 sa) (sin_port sa)) (snd junk)\<rparr>)"
proof -
  note t = ip_text_ok [OF assms(1)]
  have "length (address_text (ip_text ntop6 sa) (sin_port sa)) \<le> 127"
    using t(1) address_text_ok(2) [OF t(2), of "sin_port sa"] by (simp add: INET6_ADDRSTRLEN_def)
  then have "snprintf (address_text (ip_text ntop6 sa) (sin_port sa)) (snd junk) =
      (int (length (address_text (ip_text ntop6 sa) (sin_port sa))),
       put_str (address_text (ip_text ntop6 sa) (sin_port sa)) (snd junk))"
    using assms(3) by (auto simp: snprintf_def)
  then show ?thesis
    using assms t(2) SockAddrToIP_ok [OF assms(1), of "fst junk"]
    by (simp add: GetIpPort_def FormatAddress_ip_def INET6_ADDRSTRLEN_def Let_def)
qed

lemma GetIpPort_unknown:
  assumes "ss_family sa \<notin> {AF_INET, AF_INET6}"
  shows "GetIpPort ntop6 junk sa s =
    (if NUL \<in> set (fst junk)
     then Inr (s\<lparr>addr_ip := c_str (fst junk), addr_port := sin_port sa,
       addr_ipbuf := snd (snprintf (address_text (c_str (fst junk)) (sin_port sa)) (snd junk))\<rparr>)
     else Inl OutOfBounds)"
  using assms by (simp add: GetIpPort_def SockAddrToIP_def FormatAddress_ip_def guard_def Let_def case_prod_beta)

lemma port_bytes: "of_nat (unat (of_nat (unat p div 256) :: byte) * 256 + unat (of_nat (unat p mod 256) :: byte)) = (p :: u16)"
proof -
  have "unat p < 65536" using unsigned_less [of p, where ?'a = nat] by simp
  then have "unat p div 256 < 256" by (simp add: div_less_iff_less_mult)
  then have "unat (of_nat (unat p div 256) :: byte) * 256 + unat (of_nat (unat p mod 256) :: byte) = unat p"
    by (simp add: unat_of_nat take_bit_nat_eq_self)
  then show ?thesis by simp
qed

lemma IPPortToSockAddr4_ok:
  assumes "storage_ok sa" and "inet_pton4 (c_str ip) = Some a"
  shows "\<exists>sa'. IPPortToSockAddr4 ip port sa = (True, sa') \<and> storage_ok sa' \<and> ss_family sa' = AF_INET \<and>
    sin_port sa' = port \<and> sin_addr sa' = a"
proof -
  have a: "length a = 4" using ntop_pton [OF assms(2)] by simp
  have d: "length (ss_data sa) = 126" using assms(1) by (simp add: storage_ok_def)
  let ?d = "write_at 2 a (write_at 0 (htons port) (ss_data sa))"
  have e: "?d = htons port @ a @ drop 6 (ss_data sa)" using a d by (simp add: write_at_def htons_def)
  have "sin_port \<lparr>ss_family = AF_INET, ss_data = ?d\<rparr> = port"
    unfolding sin_port_def e using port_bytes [of port] by (simp add: htons_def)
  moreover have "sin_addr \<lparr>ss_family = AF_INET, ss_data = ?d\<rparr> = a"
    unfolding sin_addr_def sockaddr_storage.simps e using a by (simp add: htons_def segment_def)
  moreover have "length ?d = 126" using a d by (simp add: e htons_def)
  ultimately show ?thesis
    using assms(2) by (simp add: IPPortToSockAddr4_def storage_ok_def Let_def)
qed

section \<open>Properties\<close>

text \<open>C34: IPv4 addresses go through text and back. A \<^verbatim>\<open>SockAddr\<close> made from a stored address has its dotted text
  and its port, from which \<^verbatim>\<open>IPPortToSockAddr\<close> makes the same address again; and every text that
  \<^verbatim>\<open>IPPortToSockAddr\<close> accepts is the text of the address it makes.\<close>

theorem address_text_roundtrip:
  assumes "storage_ok sa" and "storage_ok sa0" and "length (fst junk) = 64" "length (snd junk) = 128"
  shows "(ss_family sa = AF_INET \<longrightarrow>
      (\<exists>s sa'. SockAddr_storage ntop6 junk mem sa = Inr s \<and>
        IPPortToSockAddr4 (addr_ip s) (addr_port s) sa0 = (True, sa') \<and>
        ss_family sa' = AF_INET \<and> sin_addr sa' = sin_addr sa \<and> sin_port sa' = sin_port sa)) \<and>
    (NUL \<notin> set ip \<and> IPPortToSockAddr4 ip port sa0 = (True, sa') \<longrightarrow>
      (\<exists>s. SockAddr_storage ntop6 junk mem sa' = Inr s \<and> addr_ip s = ip \<and> addr_port s = port))"
proof -
  have ok: "GetIpPort ntop6 junk sa s = Inr (s\<lparr>addr_ip := dotted (sin_addr sa), addr_port := sin_port sa,
      addr_ipbuf := put_str (address_text (dotted (sin_addr sa)) (sin_port sa)) (snd junk)\<rparr>)"
    if "storage_ok sa" "ss_family sa = AF_INET" for sa s
    using GetIpPort_ok [of ntop6 sa junk s] that assms(3,4) by (simp add: has_text_def ip_text_def)
  show ?thesis
  proof (intro conjI impI, goal_cases)
    case 1
    let ?ip = "dotted (sin_addr sa)"
    have a: "length (sin_addr sa) = 4" using assms(1) by (rule length_sin_addr)
    then have "inet_pton4 (c_str ?ip) = Some (sin_addr sa)" by (simp add: c_str_id dotted_text pton_ntop)
    from IPPortToSockAddr4_ok [OF assms(2) this, of "sin_port sa"] ok [OF assms(1) 1] show ?case
      by (auto simp: SockAddr_storage_def Let_def)
  next
    case 2
    then obtain a where a: "inet_pton4 (c_str ip) = Some a" by (auto simp: IPPortToSockAddr4_def Let_def split: option.splits)
    from IPPortToSockAddr4_ok [OF assms(2) a, of port] 2
    have sa': "storage_ok sa'" "ss_family sa' = AF_INET" "sin_port sa' = port" "sin_addr sa' = a" by auto
    have "dotted a = ip" using ntop_pton [OF a] 2 by (simp add: c_str_id)
    then show ?case using ok [OF sa'(1,2)] sa'(3,4) by (simp add: SockAddr_storage_def Let_def)
  qed
qed

definition loopback :: sockaddr_storage where
  "loopback = \<lparr>ss_family = AF_INET, ss_data = [0x1F, 0x90, 127, 0, 0, 1] @ replicate 120 0\<rparr>"

definition zero_junk :: "string \<times> string" where
  "zero_junk = (replicate 64 NUL, replicate 128 NUL)"

definition no_addr :: sock_addr where
  "no_addr = \<lparr>addr_sa = loopback\<lparr>ss_data := replicate 126 0\<rparr>, addr_ip = [], addr_port = 0, addr_ipbuf = []\<rparr>"

lemma loopback_ok: "storage_ok loopback" "ss_family loopback = AF_INET" "sin_addr loopback = [127, 0, 0, 1]" "sin_port loopback = 8080"
  by (simp_all add: loopback_def storage_ok_def sin_addr_def sin_port_def segment_def)

theorem address_text_roundtrip_witness:
  "(\<exists>s sa'. SockAddr_storage (\<lambda>_. []) zero_junk no_addr loopback = Inr s \<and>
      IPPortToSockAddr4 (addr_ip s) (addr_port s) loopback = (True, sa') \<and> sin_addr sa' = [127, 0, 0, 1] \<and> sin_port sa' = 8080)"
  using address_text_roundtrip [of loopback loopback zero_junk "\<lambda>_. []" no_addr "[]" 0 loopback] loopback_ok
  by (auto simp: zero_junk_def)

text \<open>The members of a \<^verbatim>\<open>SockAddr\<close> that was made from an address with a text. \<^verbatim>\<open>ip_\<close> and \<^verbatim>\<open>port_\<close> are those
  of the address and the text for both fits its array; but \<^verbatim>\<open>ipbuf_\<close> is the whole array: always
  128 characters, the text followed by a NUL and by what the stack held before, so that the
  string differs between two objects for the same address whenever the stack did.\<close>

theorem ipbuf_keeps_stack:
  assumes "has_text ntop6 sa" and "length ip_junk = 64" and "length buf_junk = 128"
  shows "\<exists>s. SockAddr_storage ntop6 (ip_junk, buf_junk) mem sa = Inr s \<and>
    addr_ip s = ip_text ntop6 sa \<and> addr_port s = sin_port sa \<and>
    length (address_text (addr_ip s) (addr_port s)) < 64 \<and> length (addr_ipbuf s) = 128 \<and>
    c_str (addr_ipbuf s) = address_text (addr_ip s) (addr_port s) \<and>
    drop (length (address_text (addr_ip s) (addr_port s)) + 1) (addr_ipbuf s) =
      drop (length (address_text (addr_ip s) (addr_port s)) + 1) buf_junk"
proof -
  let ?t = "address_text (ip_text ntop6 sa) (sin_port sa)"
  note t = ip_text_ok [OF assms(1)]
  have "length ?t < 64" "NUL \<notin> set ?t"
    using t address_text_ok [OF t(2), of "sin_port sa"] by (simp_all add: INET6_ADDRSTRLEN_def)
  then show ?thesis
    using GetIpPort_ok [OF assms(1), of "(ip_junk, buf_junk)"] assms(2,3)
    by (simp add: SockAddr_storage_def Let_def) (simp add: put_str_eq)
qed

theorem ipbuf_keeps_stack_witness:
  "\<exists>s s'. SockAddr_storage (\<lambda>_. []) zero_junk no_addr loopback = Inr s \<and>
     SockAddr_storage (\<lambda>_. []) (replicate 64 NUL, replicate 128 (CHR ''x'')) no_addr loopback = Inr s' \<and>
     addr_ip s = addr_ip s' \<and> addr_port s = addr_port s' \<and> addr_ipbuf s \<noteq> addr_ipbuf s'"
proof -
  have ok: "has_text (\<lambda>_. []) loopback" using loopback_ok by (simp add: has_text_def)
  obtain s where s: "SockAddr_storage (\<lambda>_. []) (replicate 64 NUL, replicate 128 NUL) no_addr loopback = Inr s"
      "addr_ip s = ip_text (\<lambda>_. []) loopback" "addr_port s = sin_port loopback"
      "drop (length (address_text (addr_ip s) (addr_port s)) + 1) (addr_ipbuf s) =
       drop (length (address_text (addr_ip s) (addr_port s)) + 1) (replicate 128 NUL)"
    using ipbuf_keeps_stack [OF ok, of "replicate 64 NUL" "replicate 128 NUL" no_addr] by auto
  obtain s' where s': "SockAddr_storage (\<lambda>_. []) (replicate 64 NUL, replicate 128 (CHR ''x'')) no_addr loopback = Inr s'"
      "addr_ip s' = ip_text (\<lambda>_. []) loopback" "addr_port s' = sin_port loopback"
      "length (address_text (addr_ip s') (addr_port s')) < 64"
      "drop (length (address_text (addr_ip s') (addr_port s')) + 1) (addr_ipbuf s') =
       drop (length (address_text (addr_ip s') (addr_port s')) + 1) (replicate 128 (CHR ''x''))"
    using ipbuf_keeps_stack [OF ok, of "replicate 64 NUL" "replicate 128 (CHR ''x'')" no_addr] by auto
  have "addr_ipbuf s \<noteq> addr_ipbuf s'"
    using s(2-4) s'(2-5) by (auto simp: drop_replicate replicate_eq_replicate NUL_def)
  then show ?thesis using s s' by (auto simp: zero_junk_def)
qed

text \<open>What an address that has no text, or a name that does not resolve, leaves. The constructors ignore the
  failure: for another family the array the text should be in is read as it was, past its end when
  no NUL is in it; after a failed lookup family, address and port of the object are those of the
  memory it was made in. The port's text always fits the array of six characters it is
  written to.\<close>

theorem address_failures_ignored:
  "(ss_family sa \<notin> {AF_INET, AF_INET6} \<longrightarrow>
      (if NUL \<in> set ip_junk
       then \<exists>s. SockAddr_storage ntop6 (ip_junk, buf_junk) mem sa = Inr s \<and> addr_ip s = c_str ip_junk
       else SockAddr_storage ntop6 (ip_junk, buf_junk) mem sa = Inl OutOfBounds)) \<and>
   (length pjunk = 6 \<and> gai (c_str host) (print_nat (unat port)) = Inl e \<longrightarrow>
      SockAddr_host gai ntop6 pjunk junk mem host port = Inr (mem\<lparr>addr_ip := [], addr_ipbuf := []\<rparr>))"
proof (intro conjI impI, goal_cases)
  case 1
  then show ?case by (simp add: SockAddr_storage_def GetIpPort_unknown Let_def)
next
  case 2
  then have "snd (snprintf (print_nat (unat port)) pjunk) = put_str (print_nat (unat port)) pjunk"
    using length_port [of port] by (auto simp: snprintf_def)
  then show ?case using 2 by (simp add: SockAddr_host_def GetAddrInfo_def uninit_def NUL_not_digit)
qed

theorem address_failures_ignored_witness:
  "SockAddr_storage (\<lambda>_. []) (replicate 64 (CHR ''x''), replicate 128 NUL) no_addr (loopback\<lparr>ss_family := 1\<rparr>) = Inl OutOfBounds \<and>
   SockAddr_host (\<lambda>_ _. Inl (-2)) (\<lambda>_. []) (replicate 6 NUL) zero_junk no_addr ''nowhere'' 80 = Inr no_addr"
proof -
  have "ss_family (loopback\<lparr>ss_family := 1\<rparr>) \<notin> {AF_INET, AF_INET6}" by (simp add: AF_INET_def AF_INET6_def)
  moreover have "NUL \<notin> set (replicate 64 (CHR ''x''))" by (simp add: NUL_def)
  ultimately show ?thesis
    using address_failures_ignored [of "loopback\<lparr>ss_family := 1\<rparr>" "replicate 64 (CHR ''x'')" "\<lambda>_. []" "replicate 128 NUL" no_addr
        "replicate 6 NUL" "\<lambda>_ _. Inl (-2)" "''nowhere''" 80 "-2" zero_junk]
    by (simp add: no_addr_def)
qed

end
