(* ===== verification/Sockets.thy ===== *)
theory Sockets
  imports Sock_Addr
begin

text \<open>
  Sockets and the acceptor (\<^verbatim>\<open>voyager/core/base_socket.cc\<close>, \<^verbatim>\<open>server_socket.cc\<close>, \<^verbatim>\<open>client_socket.cc\<close>,
  \<^verbatim>\<open>tcp_acceptor.cc\<close>). The state of a descriptor that the code sets through the kernel (flags, options,
  whether it is open) is part of the state; whether a system call succeeds, and what it returns, is a
  parameter. \<^verbatim>\<open>VOYAGER_LOG(FATAL)\<close> aborts.
\<close>

section \<open>Sockets\<close>

datatype sock_option = SO_REUSEADDR | SO_REUSEPORT | SO_KEEPALIVE | TCP_NODELAY

record base_socket =
  sock_fd :: int
  need_close :: bool
  status_flags :: u32
  fd_flags :: u32
  sock_options :: "sock_option \<Rightarrow> int"
  write_closed :: bool
  fd_closed :: bool

definition O_NONBLOCK :: u32 where "O_NONBLOCK = 0x800"
definition FD_CLOEXEC :: u32 where "FD_CLOEXEC = 1"

text \<open>The four calls of \<^verbatim>\<open>fcntl\<close> succeed or not; the result of the third is not looked at, so that its
  failure, \<^verbatim>\<open>-1\<close>, is taken for the flags.\<close>

definition SetNonBlockAndCloseOnExec :: "bool \<times> bool \<times> bool \<times> bool \<Rightarrow> bool \<Rightarrow> base_socket \<Rightarrow> int \<times> base_socket" where
  "SetNonBlockAndCloseOnExec ok on s =
     (case ok of (getfl, setfl, getfd, setfd) \<Rightarrow>
        if \<not> getfl then (-1, s)
        else
          let flags = (if on then status_flags s OR O_NONBLOCK else status_flags s AND NOT O_NONBLOCK) in
          if \<not> setfl then (-1, s)
          else
            let s = s\<lparr>status_flags := flags\<rparr>;
                flags = (if getfd then fd_flags s else -1) OR FD_CLOEXEC in
            if \<not> setfd then (-1, s) else (0, s\<lparr>fd_flags := flags\<rparr>))"

text \<open>\<open>f\<close> is what \<^verbatim>\<open>socket\<close> returns.\<close>

definition BaseSocket_new :: "int \<Rightarrow> bool \<times> bool \<times> bool \<times> bool \<Rightarrow> bool \<Rightarrow> base_socket res" where
  "BaseSocket_new f ok nonblocking =
     guard Fatal (f \<noteq> -1)
       (Inr (snd (SetNonBlockAndCloseOnExec ok nonblocking
          \<lparr>sock_fd = f, need_close = True, status_flags = 0, fd_flags = 0, sock_options = (\<lambda>_. 0),
           write_closed = False, fd_closed = False\<rparr>)))"

definition BaseSocket_of :: "base_socket \<Rightarrow> base_socket" where
  "BaseSocket_of s = s\<lparr>need_close := True\<rparr>"

definition BaseSocket_destroy :: "bool \<Rightarrow> base_socket \<Rightarrow> base_socket" where
  "BaseSocket_destroy ok s = (if need_close s \<and> ok then s\<lparr>fd_closed := True\<rparr> else s)"

definition SetNoAutoCloseFd :: "base_socket \<Rightarrow> base_socket" where
  "SetNoAutoCloseFd s = s\<lparr>need_close := False\<rparr>"

definition socket_ShutDownWrite :: "bool \<Rightarrow> base_socket \<Rightarrow> int \<times> base_socket" where
  "socket_ShutDownWrite ok s = (if ok then (0, s\<lparr>write_closed := True\<rparr>) else (-1, s))"

definition set_option :: "sock_option \<Rightarrow> bool \<Rightarrow> bool \<Rightarrow> base_socket \<Rightarrow> int \<times> base_socket" where
  "set_option opt ok on s =
     (if ok then (0, s\<lparr>sock_options := (sock_options s)(opt := if on then 1 else 0)\<rparr>) else (-1, s))"

definition SetReuseAddr :: "bool \<Rightarrow> bool \<Rightarrow> base_socket \<Rightarrow> int \<times> base_socket" where
  "SetReuseAddr = set_option SO_REUSEADDR"

definition SetReusePort :: "bool \<Rightarrow> bool \<Rightarrow> base_socket \<Rightarrow> int \<times> base_socket" where
  "SetReusePort = set_option SO_REUSEPORT"

definition SetKeepAlive :: "bool \<Rightarrow> bool \<Rightarrow> base_socket \<Rightarrow> int \<times> base_socket" where
  "SetKeepAlive = set_option SO_KEEPALIVE"

definition SetTcpNoDelay :: "bool \<Rightarrow> bool \<Rightarrow> base_socket \<Rightarrow> int \<times> base_socket" where
  "SetTcpNoDelay = set_option TCP_NODELAY"

text \<open>\<^verbatim>\<open>getsockopt(SO_ERROR)\<close>: the pending error, or \<open>None\<close> when the call itself fails.\<close>

definition CheckSocketError :: "int option \<Rightarrow> int" where
  "CheckSocketError r = (case r of None \<Rightarrow> 0 | Some err \<Rightarrow> err)"

text \<open>\<^verbatim>\<open>memcmp\<close> over the whole of both variables, of which the kernel wrote the length of the address.\<close>

definition IsSelfConnect :: "(u16 \<times> byte list) option \<Rightarrow> (u16 \<times> byte list) option \<Rightarrow>
    sockaddr_storage \<Rightarrow> sockaddr_storage \<Rightarrow> bool" where
  "IsSelfConnect getsockname getpeername junk1 junk2 \<longleftrightarrow>
     socket_name getsockname junk1 = socket_name getpeername junk2"

section \<open>Server and client sockets\<close>

definition ServerSocket_Bind :: "(sockaddr_storage \<Rightarrow> nat \<Rightarrow> bool) \<Rightarrow> sockaddr_storage \<Rightarrow> nat \<Rightarrow> unit res" where
  "ServerSocket_Bind bind sa salen = guard Fatal (bind sa salen) (Inr ())"

definition ServerSocket_Listen :: "bool \<Rightarrow> unit res" where
  "ServerSocket_Listen ok = guard Fatal ok (Inr ())"

datatype accept_errno = EAGAIN | ECONNABORTED | EINTR | EPROTO | EPERM | EMFILE
  | EBADF | EFAULT | EINVAL | ENFILE | ENOBUFS | ENOMEM | ENOTSOCK | EOPNOTSUPP | OtherAcceptErrno

text \<open>The result of \<^verbatim>\<open>accept\<close> is an error or the new descriptor; the code returns \<^verbatim>\<open>-1\<close> with \<^verbatim>\<open>errno\<close> set.\<close>

definition ServerSocket_Accept :: "accept_errno + int \<Rightarrow> (accept_errno + int) res" where
  "ServerSocket_Accept r =
     (case r of
        Inr connectfd \<Rightarrow> Inr (Inr connectfd)
      | Inl err \<Rightarrow> if err \<in> {EAGAIN, ECONNABORTED, EINTR, EPROTO, EPERM, EMFILE} then Inr (Inl err) else Inl Fatal)"

definition ClientSocket_Connect :: "(sockaddr_storage \<Rightarrow> nat \<Rightarrow> 'e) \<Rightarrow> sockaddr_storage \<Rightarrow> nat \<Rightarrow> 'e" where
  "ClientSocket_Connect connect sa salen = connect sa salen"

section \<open>The acceptor\<close>

text \<open>\<open>open_fds\<close> are the descriptors of the process that came from the acceptor: its socket, the spare one, and
  the connections it handed to the callback that are not closed yet, \<open>handed_out\<close>.\<close>

record acceptor =
  acc_sock :: base_socket
  listenning :: bool
  reading :: bool
  has_conn_cb :: bool
  idlefd :: int
  open_fds :: "int set"
  handed_out :: "int list"

text \<open>\<^verbatim>\<open>sizeof(*(addr.GetSockAddr()))\<close> is the size of a \<^verbatim>\<open>struct sockaddr\<close>, whatever the address is.\<close>

definition sizeof_sockaddr :: nat where
  "sizeof_sockaddr = 16"

definition TcpAcceptor_new :: "(sockaddr_storage \<Rightarrow> nat \<Rightarrow> bool) \<Rightarrow> int \<Rightarrow> int \<Rightarrow> bool \<Rightarrow> sock_addr \<Rightarrow> acceptor res" where
  "TcpAcceptor_new bind f idle reuseport addr =
     rbind (BaseSocket_new f (True, True, True, True) True) (\<lambda>s.
       guard AssertionFailed (idle \<ge> 0)
         (let s = snd (SetReuseAddr True True s); s = snd (SetReusePort True reuseport s) in
          rbind (ServerSocket_Bind bind (addr_sa addr) sizeof_sockaddr) (\<lambda>_.
            Inr \<lparr>acc_sock = s, listenning = False, reading = False, has_conn_cb = False, idlefd = idle,
              open_fds = {f, idle}, handed_out = []\<rparr>)))"

definition SetNewConnectionCallback :: "acceptor \<Rightarrow> acceptor" where
  "SetNewConnectionCallback a = a\<lparr>has_conn_cb := True\<rparr>"

definition EnableListen :: "bool \<Rightarrow> acceptor \<Rightarrow> acceptor res" where
  "EnableListen ok a =
     (let a = a\<lparr>listenning := True\<rparr> in
      rbind (ServerSocket_Listen ok) (\<lambda>_. Inr (a\<lparr>reading := True\<rparr>)))"

definition close_fd :: "int \<Rightarrow> acceptor \<Rightarrow> acceptor" where
  "close_fd f a = a\<lparr>open_fds := open_fds a - {f}\<rparr>"

definition open_fd :: "int \<Rightarrow> acceptor \<Rightarrow> acceptor" where
  "open_fd f a = (if f = -1 then a else a\<lparr>open_fds := insert f (open_fds a)\<rparr>)"

text \<open>\<open>r\<close> is the result of \<^verbatim>\<open>accept\<close>; when it is \<^verbatim>\<open>EMFILE\<close>, \<open>f2\<close> is the result of the second call and \<open>spare\<close>
  that of \<^verbatim>\<open>open\<close>.\<close>

definition Accept :: "accept_errno + int \<Rightarrow> int \<Rightarrow> int \<Rightarrow> acceptor \<Rightarrow> acceptor res" where
  "Accept r f2 spare a =
     rbind (ServerSocket_Accept r) (\<lambda>r.
       case r of
         Inr connectfd \<Rightarrow>
           let a = open_fd connectfd a in
           Inr (if has_conn_cb a then a\<lparr>handed_out := handed_out a @ [connectfd]\<rparr> else close_fd connectfd a)
       | Inl err \<Rightarrow>
           if err = EMFILE then
             let a = close_fd (idlefd a) a;
                 a = (open_fd f2 a)\<lparr>idlefd := f2\<rparr>;
                 a = close_fd (idlefd a) a
             in Inr ((open_fd spare a)\<lparr>idlefd := spare\<rparr>)
           else Inr a)"

definition TcpAcceptor_destroy :: "acceptor \<Rightarrow> acceptor" where
  "TcpAcceptor_destroy a =
     (let a = close_fd (idlefd (a\<lparr>reading := False\<rparr>)) (a\<lparr>reading := False\<rparr>);
          s = BaseSocket_destroy True (acc_sock a)
      in (if need_close s then close_fd (sock_fd s) a else a)\<lparr>acc_sock := s\<rparr>)"

section \<open>Runs of the acceptor\<close>

text \<open>The kernel gives out descriptors that are not open.\<close>

definition fresh_fd :: "int \<Rightarrow> int set \<Rightarrow> bool" where
  "fresh_fd f fds \<longleftrightarrow> f \<ge> 0 \<and> f \<notin> fds"

text \<open>
  What happens to an acceptor that listens. Each call of \<^verbatim>\<open>accept\<close> gives a connection or an error. When the
  process is out of descriptors, other threads may take the place of the spare one at any moment, so that the
  second \<^verbatim>\<open>accept\<close> and the \<^verbatim>\<open>open\<close> may both fail. The owner of a connection closes it at some time.
\<close>

inductive acceptor_run :: "acceptor \<Rightarrow> acceptor \<Rightarrow> bool" for a0 where
  start: "acceptor_run a0 a0"
| accepted: "acceptor_run a0 a \<Longrightarrow> fresh_fd f (open_fds a) \<Longrightarrow> Accept (Inr f) f2 spare a = Inr a' \<Longrightarrow> acceptor_run a0 a'"
| failed: "acceptor_run a0 a \<Longrightarrow> err \<noteq> EMFILE \<Longrightarrow> Accept (Inl err) f2 spare a = Inr a' \<Longrightarrow> acceptor_run a0 a'"
| full: "acceptor_run a0 a \<Longrightarrow> f2 = -1 \<or> fresh_fd f2 (open_fds a - {idlefd a}) \<Longrightarrow>
    spare = -1 \<or> fresh_fd spare (open_fds a - {idlefd a}) \<Longrightarrow>
    Accept (Inl EMFILE) f2 spare a = Inr a' \<Longrightarrow> acceptor_run a0 a'"
| closed: "acceptor_run a0 a \<Longrightarrow> f \<in> set (handed_out a) \<Longrightarrow>
    acceptor_run a0 ((close_fd f a)\<lparr>handed_out := remove1 f (handed_out a)\<rparr>)"

text \<open>The spare descriptor, if there is one.\<close>

definition idle_fds :: "acceptor \<Rightarrow> int list" where
  "idle_fds a = (if idlefd a = -1 then [] else [idlefd a])"

definition acceptor_ok :: "acceptor \<Rightarrow> bool" where
  "acceptor_ok a \<longleftrightarrow>
     open_fds a = set (sock_fd (acc_sock a) # idle_fds a @ handed_out a) \<and>
     distinct (sock_fd (acc_sock a) # idle_fds a @ handed_out a) \<and> -1 \<notin> open_fds a"

lemma Accept_connection:
  assumes "acceptor_ok a" and "Accept (Inr f) f2 spare a = Inr a'" and "fresh_fd f (open_fds a)"
  shows "acceptor_ok a' \<and> acc_sock a' = acc_sock a"
proof -
  have f: "f \<noteq> -1" "f \<notin> open_fds a" using assms(3) by (auto simp: fresh_fd_def)
  have "a' = (if has_conn_cb a then a\<lparr>open_fds := insert f (open_fds a), handed_out := handed_out a @ [f]\<rparr> else a)"
    using assms(2) f by (auto simp: Accept_def ServerSocket_Accept_def open_fd_def close_fd_def Let_def)
  then show ?thesis using assms(1) f by (auto simp: acceptor_ok_def idle_fds_def)
qed

lemma Accept_other_error:
  assumes "Accept (Inl err) f2 spare a = Inr a'" and "err \<noteq> EMFILE"
  shows "a' = a"
  using assms by (simp add: Accept_def ServerSocket_Accept_def split: if_splits)

lemma Accept_full:
  assumes ok: "acceptor_ok a" and run: "Accept (Inl EMFILE) f2 spare a = Inr a'"
    and f: "f2 = -1 \<or> fresh_fd f2 (open_fds a - {idlefd a})" "spare = -1 \<or> fresh_fd spare (open_fds a - {idlefd a})"
  shows "acceptor_ok a' \<and> acc_sock a' = acc_sock a"
proof -
  let ?rest = "open_fds a - {idlefd a}"
  have rest: "?rest = insert (sock_fd (acc_sock a)) (set (handed_out a))" "-1 \<notin> ?rest"
    using ok by (auto simp: acceptor_ok_def idle_fds_def)
  have "f2 \<notin> ?rest" using f(1) rest(2) by (auto simp: fresh_fd_def)
  then have "a' = a\<lparr>open_fds := (if spare = -1 then ?rest else insert spare ?rest), idlefd := spare\<rparr>"
    using run by (simp add: Accept_def ServerSocket_Accept_def open_fd_def close_fd_def Let_def split: if_splits)
  then show ?thesis using ok f(2) rest by (auto simp: acceptor_ok_def fresh_fd_def idle_fds_def)
qed

lemma connection_closed:
  assumes "acceptor_ok a" and "f \<in> set (handed_out a)"
  shows "acceptor_ok ((close_fd f a)\<lparr>handed_out := remove1 f (handed_out a)\<rparr>)"
proof -
  have d: "distinct (handed_out a)" using assms(1) by (simp add: acceptor_ok_def)
  have "idle_fds ((close_fd f a)\<lparr>handed_out := remove1 f (handed_out a)\<rparr>) = idle_fds a" by (simp add: idle_fds_def close_fd_def)
  then show ?thesis
    using assms set_remove1_eq [OF d, of f] d by (auto simp: acceptor_ok_def close_fd_def)
qed

lemma acceptor_run_ok:
  assumes "acceptor_run a0 a" and "acceptor_ok a0"
  shows "acceptor_ok a \<and> acc_sock a = acc_sock a0"
  using assms
proof induction
  case start
  then show ?case by simp
next
  case (accepted a f f2 spare a')
  then show ?case using Accept_connection [of a f f2 spare a'] by simp
next
  case (failed a err f2 spare a')
  then show ?case using Accept_other_error [of err f2 spare a a'] by simp
next
  case (full a f2 spare a')
  then show ?case using Accept_full [of a f2 spare a'] by simp
next
  case (closed a f)
  then show ?case using connection_closed [of a f] by (simp add: close_fd_def)
qed

section \<open>Properties\<close>

lemma TcpAcceptor_new_ok:
  assumes "TcpAcceptor_new bind f idle reuseport addr = Inr a" and "f \<ge> 0" and "idle \<noteq> f"
  shows "acceptor_ok a" "sock_fd (acc_sock a) = f" "need_close (acc_sock a)" "handed_out a = []"
  using assms
  by (auto simp: TcpAcceptor_new_def BaseSocket_new_def SetNonBlockAndCloseOnExec_def SetReuseAddr_def SetReusePort_def
      set_option_def ServerSocket_Bind_def acceptor_ok_def idle_fds_def Let_def res_elims)

text \<open>C26: The acceptor loses no descriptor. Whatever \<^verbatim>\<open>accept\<close> returns, also when the process has no descriptor
  left, the spare one is given up for a moment and another thread takes its place, so that it cannot be opened
  again: the open descriptors are the listening socket, the spare one if there is one, and the
  connections handed to the callback and not closed since, all different; when the acceptor is
  destroyed only these connections are left. Each time the process is full the spare one becomes what \<^verbatim>\<open>open\<close>
  returns: none (\<^verbatim>\<open>idlefd_\<close> is \<open>-1\<close>) when it fails, and again a descriptor when it succeeds. The process
  is aborted exactly for the errors that are not among the six expected ones.\<close>

theorem acceptor_accounts_descriptors:
  assumes "TcpAcceptor_new bind f idle reuseport addr = Inr a0" and "f \<ge> 0" and "idle \<noteq> f"
    and "acceptor_run (SetNewConnectionCallback a0) a"
  shows "open_fds a = {f} \<union> (if idlefd a = -1 then {} else {idlefd a}) \<union> set (handed_out a) \<and>
    distinct (f # idlefd a # handed_out a) \<and>
    open_fds (TcpAcceptor_destroy a) = set (handed_out a) \<and>
    (\<exists>a'. Accept (Inl EMFILE) f2 spare a = Inr a' \<and> idlefd a' = spare \<and> handed_out a' = handed_out a) \<and>
    (Accept (Inl err) f2 spare a = Inl Fatal \<longleftrightarrow> err \<notin> {EAGAIN, ECONNABORTED, EINTR, EPROTO, EPERM, EMFILE})"
proof -
  note new = TcpAcceptor_new_ok [OF assms(1-3)]
  have "acceptor_ok (SetNewConnectionCallback a0)"
    using new(1) by (auto simp: SetNewConnectionCallback_def acceptor_ok_def idle_fds_def)
  from acceptor_run_ok [OF assms(4) this] have ok: "acceptor_ok a" "acc_sock a = acc_sock a0"
    by (simp_all add: SetNewConnectionCallback_def)
  have fds: "open_fds a = {f} \<union> (if idlefd a = -1 then {} else {idlefd a}) \<union> set (handed_out a)"
      "distinct (f # idlefd a # handed_out a)"
    using ok new(2) assms(2) by (auto simp: acceptor_ok_def idle_fds_def split: if_splits)
  moreover have "open_fds (TcpAcceptor_destroy a) = set (handed_out a)"
    using fds ok(2) new(2,3) by (auto simp: TcpAcceptor_destroy_def BaseSocket_destroy_def close_fd_def Let_def)
  moreover have "Accept (Inl err) f2 spare a = Inl Fatal \<longleftrightarrow> err \<notin> {EAGAIN, ECONNABORTED, EINTR, EPROTO, EPERM, EMFILE}"
    by (simp add: Accept_def ServerSocket_Accept_def Let_def)
  moreover have "\<exists>a'. Accept (Inl EMFILE) f2 spare a = Inr a' \<and> idlefd a' = spare \<and> handed_out a' = handed_out a"
    by (simp add: Accept_def ServerSocket_Accept_def Let_def open_fd_def close_fd_def)
  ultimately show ?thesis by blast
qed

lemma example_acceptor:
  "\<exists>a0. TcpAcceptor_new (\<lambda>_ _. True) 3 4 False no_addr = Inr a0 \<and> open_fds a0 = {3, 4} \<and> idlefd a0 = 4 \<and> handed_out a0 = []"
  by (simp add: TcpAcceptor_new_def BaseSocket_new_def ServerSocket_Bind_def Let_def)

theorem acceptor_accounts_descriptors_witness:
  "\<exists>a0 a1 a2. TcpAcceptor_new (\<lambda>_ _. True) 3 4 False no_addr = Inr a0 \<and>
     Accept (Inr 5) 0 0 (SetNewConnectionCallback a0) = Inr a1 \<and> Accept (Inl EMFILE) 4 (-1) a1 = Inr a2 \<and>
     idlefd a2 = -1 \<and> open_fds a2 = {3, 5} \<and> open_fds (TcpAcceptor_destroy a2) = {5} \<and>
     Accept (Inl ENFILE) 0 0 a2 = Inl Fatal"
proof -
  obtain a0 where a0: "TcpAcceptor_new (\<lambda>_ _. True) 3 4 False no_addr = Inr a0"
    "open_fds a0 = {3, 4}" "idlefd a0 = 4" "handed_out a0 = []" using example_acceptor by blast
  let ?a = "SetNewConnectionCallback a0"
  let ?a1 = "?a\<lparr>open_fds := {5, 3, 4}, handed_out := [5]\<rparr>"
  let ?a2 = "?a1\<lparr>open_fds := {5, 3}, idlefd := -1\<rparr>"
  have a1: "Accept (Inr 5) 0 0 ?a = Inr ?a1"
    using a0(2-) by (simp add: Accept_def ServerSocket_Accept_def open_fd_def SetNewConnectionCallback_def Let_def)
  have set: "insert 4 ({5, 3, 4} - {4}) - {4} = {5, 3 :: int}" by auto
  have a2: "Accept (Inl EMFILE) 4 (-1) ?a1 = Inr ?a2"
    unfolding Accept_def ServerSocket_Accept_def open_fd_def close_fd_def SetNewConnectionCallback_def Let_def
    using a0(3) set by simp
  have "acceptor_run ?a ?a1"
    using acceptor_run.accepted [OF acceptor_run.start _ a1] a0(2) by (simp add: fresh_fd_def SetNewConnectionCallback_def)
  then have "acceptor_run ?a ?a2"
    by (rule acceptor_run.full [OF _ _ _ a2]) (use a0(3) in \<open>simp_all add: fresh_fd_def SetNewConnectionCallback_def\<close>)
  from acceptor_accounts_descriptors [OF a0(1) _ _ this, of 0 0 ENFILE]
  have "open_fds (TcpAcceptor_destroy ?a2) = {5}" "Accept (Inl ENFILE) 0 0 ?a2 = Inl Fatal" by simp_all
  moreover have "idlefd ?a2 = -1" "open_fds ?a2 = {3, 5}" by auto
  ultimately show ?thesis using a0(1) a1 a2 by blast
qed

lemma socket_name_eq:
  "socket_name (Some (f, a)) j1 = socket_name (Some (f, b)) j2 \<longleftrightarrow>
   a @ drop (length a) (ss_data j1) = b @ drop (length b) (ss_data j2)"
  by (simp add: socket_name_def write_at_def)

text \<open>Whether a socket is connected to itself is decided by comparing two whole \<^verbatim>\<open>sockaddr_storage\<close>, of which
  the kernel fills the first part. A socket that is connected to itself is recognised exactly when
  the two variables happened to hold the same bytes behind their addresses, and when neither
  address can be had the answer is whether the variables were equal.\<close>

theorem self_connect_compares_stack:
  assumes "storage_ok junk1" and "storage_ok junk2" and "length addr \<le> 126"
  shows "(IsSelfConnect (Some (fam, addr)) (Some (fam, addr)) junk1 junk2 \<longleftrightarrow>
      drop (length addr) (ss_data junk1) = drop (length addr) (ss_data junk2)) \<and>
    (IsSelfConnect None None junk1 junk2 \<longleftrightarrow> junk1 = junk2) \<and>
    (length addr' = length addr \<and> addr' \<noteq> addr \<longrightarrow> \<not> IsSelfConnect (Some (fam, addr)) (Some (fam, addr')) junk1 junk2)"
proof (intro conjI impI)
  show "IsSelfConnect (Some (fam, addr)) (Some (fam, addr)) junk1 junk2 \<longleftrightarrow>
      drop (length addr) (ss_data junk1) = drop (length addr) (ss_data junk2)"
    unfolding IsSelfConnect_def socket_name_eq by blast
  show "IsSelfConnect None None junk1 junk2 \<longleftrightarrow> junk1 = junk2"
    by (simp add: IsSelfConnect_def socket_name_def)
  assume "length addr' = length addr \<and> addr' \<noteq> addr"
  then show "\<not> IsSelfConnect (Some (fam, addr)) (Some (fam, addr')) junk1 junk2"
    unfolding IsSelfConnect_def socket_name_eq by (metis append_eq_append_conv)
qed

theorem self_connect_compares_stack_witness:
  "storage_ok loopback \<and> \<not> IsSelfConnect (Some (AF_INET, [0x1F, 0x90, 127, 0, 0, 1, 0, 0, 0, 0, 0, 0, 0, 0]))
     (Some (AF_INET, [0x1F, 0x90, 127, 0, 0, 1, 0, 0, 0, 0, 0, 0, 0, 0])) loopback (loopback\<lparr>ss_data := replicate 126 1\<rparr>)"
proof -
  let ?junk = "loopback\<lparr>ss_data := replicate 126 1\<rparr>"
  have "storage_ok ?junk" by (simp add: storage_ok_def)
  moreover have "last (drop 14 (ss_data loopback)) \<noteq> last (drop 14 (ss_data ?junk))"
    by (simp add: loopback_def drop_replicate)
  then have "drop 14 (ss_data loopback) \<noteq> drop 14 (ss_data ?junk)" by metis
  moreover have len: "length [0x1F, 0x90, 127, 0, 0, 1, 0, 0, 0, 0, 0, 0, 0, 0 :: byte] = 14" by simp
  ultimately show ?thesis
    using conjunct1 [OF self_connect_compares_stack [OF loopback_ok(1), of ?junk
        "[0x1F, 0x90, 127, 0, 0, 1, 0, 0, 0, 0, 0, 0, 0, 0]" AF_INET]] loopback_ok(1)
    unfolding len by simp
qed

text \<open>\<^verbatim>\<open>SetNonBlockAndCloseOnExec\<close>, when it reports success: the descriptor is non-blocking exactly when
  asked to be, its other status flags are as before, and it is closed on \<^verbatim>\<open>exec\<close>.\<close>

theorem nonblock_sets_flags:
  assumes "SetNonBlockAndCloseOnExec ok on s = (0, s')"
  shows "(bit (status_flags s') 11 \<longleftrightarrow> on) \<and> (\<forall>n. n \<noteq> 11 \<longrightarrow> bit (status_flags s') n = bit (status_flags s) n) \<and>
    bit (fd_flags s') 0 \<and> s' = s\<lparr>status_flags := status_flags s', fd_flags := fd_flags s'\<rparr>"
proof -
  have e: "O_NONBLOCK = 2 ^ 11" by (simp add: O_NONBLOCK_def)
  have nb: "bit O_NONBLOCK n \<longleftrightarrow> n = 11" for n unfolding e bit_exp_iff by auto
  have s': "status_flags s' = (if on then status_flags s OR O_NONBLOCK else status_flags s AND NOT O_NONBLOCK)"
    "fd_flags s' = (if fst (snd (snd ok)) then fd_flags s else -1) OR FD_CLOEXEC"
    "s' = s\<lparr>status_flags := status_flags s', fd_flags := fd_flags s'\<rparr>"
    using assms by (auto simp: SetNonBlockAndCloseOnExec_def Let_def split: prod.splits if_splits)
  have b: "bit (status_flags s') n = (if n = 11 then on else bit (status_flags s) n)" for n
    unfolding s'(1) by (auto simp: bit_or_iff bit_and_iff bit_not_iff nb dest: bit_imp_le_length)
  have "bit (fd_flags s') 0" unfolding s'(2) by (simp add: FD_CLOEXEC_def bit_simps)
  then show ?thesis using b s'(3) by simp
qed

end
