(* ===== verification/Tcp_Endpoints.thy ===== *)
theory Tcp_Endpoints
  imports Tcp_Connection Sockets
begin

text \<open>
  How connections come about: the connector of a client (\<^verbatim>\<open>voyager/core/tcp_connector.cc\<close>), the client
  (\<^verbatim>\<open>tcp_client.cc\<close>), the server on its acceptor (\<^verbatim>\<open>tcp_server.cc\<close>), the choice of a
  loop for a new connection (\<^verbatim>\<open>schedule.cc\<close>) and the limits on connections (\<^verbatim>\<open>tcp_monitor.cc\<close>). Results
  of system calls are parameters; what the code asks of the loop (a delayed call, a queued closure) and
  of the user's callbacks is recorded in the state.
\<close>

section \<open>The connector\<close>

datatype ConnectorState = kDisConnected | kConnected | kConnecting

datatype connect_errno = ConnectOk | EINPROGRESS | EINTR | EISCONN
  | EAGAIN | EADDRINUSE | EADDRNOTAVAIL | ECONNREFUSED | ENETUNREACH
  | EACCES | EPERM | EAFNOSUPPORT | EALREADY | EBADF | EFAULT | ENOTSOCK | ENAMETOOLONG | OtherConnectErrno

datatype connector_call = NewConnectionCall int | ConnectFailureCall

definition kMaxRetryTime :: u64 where "kMaxRetryTime = 30000"
definition kInitRetryTime :: u64 where "kInitRetryTime = 1000"

text \<open>\<open>dispatch_obj\<close> is the dispatch the connector owns, numbered by creation; \<open>in_poller\<close> are the
  dispatches the poller has. \<open>reset_tasks\<close> counts the queued closures that reset the owned dispatch,
  \<open>delayed\<close> lists the delays of the calls of \<^verbatim>\<open>StartInLoop\<close> it scheduled.\<close>

record connector =
  cstate :: ConnectorState
  connect_flag :: bool
  retry_flag :: bool
  retry_time :: u64
  dispatch_obj :: "nat option"
  next_dispatch :: nat
  in_poller :: "nat set"
  sock :: "int option"
  reset_tasks :: nat
  delayed :: "u64 list"
  calls :: "connector_call list"

definition TcpConnector_new :: connector where
  "TcpConnector_new = \<lparr>cstate = kDisConnected, connect_flag = False, retry_flag = True, retry_time = kInitRetryTime,
     dispatch_obj = None, next_dispatch = 0, in_poller = {}, sock = None, reset_tasks = 0, delayed = [], calls = []\<rparr>"

definition next_retry_time :: "u64 \<Rightarrow> u64" where
  "next_retry_time t = (if t * 2 < kMaxRetryTime then t * 2 else kMaxRetryTime)"

definition Retry :: "connector \<Rightarrow> connector" where
  "Retry c =
     (let c = c\<lparr>cstate := kDisConnected\<rparr> in
      if \<not> retry_flag c then c\<lparr>calls := calls c @ [ConnectFailureCall]\<rparr>
      else if connect_flag c
      then c\<lparr>delayed := delayed c @ [retry_time c], retry_time := next_retry_time (retry_time c)\<rparr>
      else c)"

text \<open>\<^verbatim>\<open>dispatch_.reset(new Dispatch)\<close> deletes the old dispatch.\<close>

definition Connecting :: "connector \<Rightarrow> connector" where
  "Connecting c = c\<lparr>cstate := kConnecting, dispatch_obj := Some (next_dispatch c),
     in_poller := insert (next_dispatch c) (in_poller c), next_dispatch := next_dispatch c + 1\<rparr>"

definition Connect :: "int \<Rightarrow> connect_errno \<Rightarrow> connector \<Rightarrow> connector" where
  "Connect f err c =
     (let c = c\<lparr>sock := Some f\<rparr> in
      if err \<in> {ConnectOk, EINPROGRESS, EINTR, EISCONN} then Connecting c
      else if err \<in> {EAGAIN, EADDRINUSE, EADDRNOTAVAIL, ECONNREFUSED, ENETUNREACH} then Retry c
      else c\<lparr>sock := None, calls := calls c @ [ConnectFailureCall]\<rparr>)"

definition StartInLoop :: "int \<Rightarrow> connect_errno \<Rightarrow> connector \<Rightarrow> connector res" where
  "StartInLoop f err c = guard AssertionFailed (cstate c = kDisConnected)
     (Inr (if connect_flag c then Connect f err c else c))"

definition Start :: "bool \<Rightarrow> int \<Rightarrow> connect_errno \<Rightarrow> connector \<Rightarrow> connector res" where
  "Start retry f err c = StartInLoop f err (c\<lparr>retry_flag := retry, connect_flag := True\<rparr>)"

definition ResetDispatch :: "connector \<Rightarrow> connector" where
  "ResetDispatch c = (case dispatch_obj c of None \<Rightarrow> c
     | Some d \<Rightarrow> c\<lparr>in_poller := in_poller c - {d}, reset_tasks := reset_tasks c + 1\<rparr>)"

definition StopInLoop :: "connector \<Rightarrow> connector" where
  "StopInLoop c =
     (let c = c\<lparr>connect_flag := False\<rparr> in
      if cstate c = kConnecting then ResetDispatch (c\<lparr>cstate := kDisConnected\<rparr>) else c)"

text \<open>The queued closure: it deletes whatever dispatch the connector owns when it runs.\<close>

definition run_reset_task :: "connector \<Rightarrow> connector" where
  "run_reset_task c = c\<lparr>reset_tasks := reset_tasks c - 1, dispatch_obj := None\<rparr>"

text \<open>\<open>sockerr\<close> is the pending error of the socket, \<open>self\<close> whether it is connected to itself.\<close>

definition connector_HandleEvent :: "bool \<Rightarrow> bool \<Rightarrow> connector \<Rightarrow> connector res" where
  "connector_HandleEvent sockerr self c =
     (if cstate c = kConnecting then
        let c = ResetDispatch c in
        (case sock c of
           None \<Rightarrow> Inl NullPointer
         | Some f \<Rightarrow>
             if sockerr \<or> self then Inr (Retry c)
             else
               let c = c\<lparr>cstate := kConnected\<rparr>;
                   c = (if connect_flag c
                        then c\<lparr>calls := calls c @ [NewConnectionCall f], retry_time := kInitRetryTime\<rparr> else c)
               in Inr (c\<lparr>sock := None\<rparr>))
      else Inr c)"

section \<open>The client\<close>

text \<open>\<open>conn_alive\<close>: the weak pointer to the connection still locks. The loop runs the connector's
  closures at once when the client is called in the loop's thread.\<close>

record client =
  client_addr :: sock_addr
  client_conn_id :: u32
  connector_obj :: connector
  client_connect :: bool
  conn_alive :: bool
  shutdowns :: nat

definition TcpClient_Connect :: "bool \<Rightarrow> int \<Rightarrow> connect_errno \<Rightarrow> client \<Rightarrow> client res" where
  "TcpClient_Connect retry f err c =
     (let c = (if \<not> conn_alive c then c\<lparr>client_connect := False\<rparr> else c) in
      if \<not> client_connect c
      then rbind (Start retry f err (connector_obj c)) (\<lambda>k. Inr (c\<lparr>connector_obj := k, client_connect := True\<rparr>))
      else Inr c)"

definition TcpClient_Close :: "client \<Rightarrow> client" where
  "TcpClient_Close c =
     (if client_connect c then
        let c = c\<lparr>connector_obj := StopInLoop (connector_obj c)\<rparr>;
            c = (if conn_alive c then c\<lparr>shutdowns := shutdowns c + 1\<rparr> else c)
        in c\<lparr>client_connect := False\<rparr>
      else c)"

text \<open>\<^verbatim>\<open>%d\<close> of an \<^verbatim>\<open>int\<close>, and the name of a connection, formatted into an array of 256 characters (\<open>njunk\<close> is what
  is in it).\<close>

definition print_int :: "u32 \<Rightarrow> string" where
  "print_int n = (if sint n \<ge> 0 then print_nat (nat (sint n)) else CHR ''-'' # print_nat (nat (- sint n)))"

definition connection_name :: "sock_addr \<Rightarrow> sock_addr \<Rightarrow> u32 \<Rightarrow> string \<Rightarrow> string" where
  "connection_name a b n njunk =
     c_str (snd (snprintf (c_str (addr_ipbuf a) @ ''-'' @ c_str (addr_ipbuf b) @ ''#'' @ print_int n) njunk))"

text \<open>The connection callback, which \<^verbatim>\<open>StartWorking\<close> runs, may use the client: \<open>user\<close> is what it does with it. Only
  then is the weak pointer set.\<close>

definition TcpClient_NewConnection :: "bool \<Rightarrow> (byte list \<Rightarrow> string) \<Rightarrow> string \<times> string \<Rightarrow> string \<Rightarrow> sock_addr \<Rightarrow>
    (u16 \<times> byte list) option \<Rightarrow> sockaddr_storage \<Rightarrow> callbacks \<Rightarrow> (client \<Rightarrow> client) \<Rightarrow> int \<Rightarrow> client \<Rightarrow>
    (string \<times> conn \<times> client) res" where
  "TcpClient_NewConnection in_loop ntop6 junk njunk mem getsockname sjunk cb user f c = guard Fatal in_loop (
     rbind (SockAddr_storage ntop6 junk mem (LocalSockAddr getsockname sjunk)) (\<lambda>local.
       let n = client_conn_id c + 1; c = c\<lparr>client_conn_id := n\<rparr>;
           name = connection_name (client_addr c) local n njunk in
       rbind (StartWorking cb (TcpConnection_new f)) (\<lambda>cn.
         let c = user c in Inr (name, cn, c\<lparr>conn_alive := True\<rparr>))))"

section \<open>The choice of a loop\<close>

record schedule =
  sched_started :: bool
  sched_size :: nat
  sched_next :: nat
  loops :: "nat list"

definition Schedule_new :: "nat \<Rightarrow> schedule" where
  "Schedule_new n = \<lparr>sched_started = False, sched_size = n, sched_next = 0, loops = []\<rparr>"

text \<open>\<open>baseloop\<close> and the new loops of the background threads are named by numbers.\<close>

definition Schedule_Start :: "nat \<Rightarrow> nat list \<Rightarrow> schedule \<Rightarrow> schedule res" where
  "Schedule_Start baseloop bg s = guard AssertionFailed (\<not> sched_started s)
     (Inr (s\<lparr>sched_started := True, loops := (if sched_size s = 0 then [baseloop] else take (sched_size s) bg)\<rparr>))"

definition GetNextLoop :: "schedule \<Rightarrow> (nat \<times> schedule) res" where
  "GetNextLoop s = guard AssertionFailed (sched_started s \<and> loops s \<noteq> [])
     (let i = (if sched_next s \<ge> length (loops s) then 0 else sched_next s)
      in Inr (loops s ! i, s\<lparr>sched_next := i + 1\<rparr>))"

fun min_loop :: "(nat \<Rightarrow> int) \<Rightarrow> nat \<Rightarrow> int \<Rightarrow> nat list \<Rightarrow> nat" where
  "min_loop sz best m [] = best"
| "min_loop sz best m (l # ls) = (if sz l < m then min_loop sz l (sz l) ls else min_loop sz best m ls)"

definition GetMinLoop :: "(nat \<Rightarrow> int) \<Rightarrow> schedule \<Rightarrow> nat res" where
  "GetMinLoop sz s = guard AssertionFailed (sched_started s \<and> loops s \<noteq> [])
     (Inr (min_loop sz (hd (loops s)) (sz (hd (loops s))) (tl (loops s))))"

definition AssignLoop :: "bool \<Rightarrow> (nat \<Rightarrow> int) \<Rightarrow> schedule \<Rightarrow> (nat \<times> schedule) res" where
  "AssignLoop in_loop sz s = guard Fatal in_loop
     (if sched_size s > 5 then GetNextLoop s else rbind (GetMinLoop sz s) (\<lambda>l. Inr (l, s)))"

section \<open>The server\<close>

record server =
  server_started :: bool
  sched :: schedule
  acc :: acceptor
  server_addr :: sock_addr
  conn_id :: u32

definition TcpServer_Start :: "bool \<Rightarrow> nat \<Rightarrow> nat list \<Rightarrow> server \<Rightarrow> server res" where
  "TcpServer_Start listen_ok baseloop bg s =
     (if server_started s then Inr s
      else rbind (Schedule_Start baseloop bg (sched s)) (\<lambda>sc.
        guard AssertionFailed (\<not> listenning (acc s))
          (rbind (EnableListen listen_ok (acc s)) (\<lambda>a.
            Inr (s\<lparr>server_started := True, sched := sc, acc := a\<rparr>)))))"

text \<open>The name of the new connection, the loop that will run its \<^verbatim>\<open>StartWorking\<close>, and the connection.\<close>

definition TcpServer_NewConnection :: "bool \<Rightarrow> (nat \<Rightarrow> int) \<Rightarrow> (byte list \<Rightarrow> string) \<Rightarrow> string \<times> string \<Rightarrow> string \<Rightarrow>
    sock_addr \<Rightarrow> int \<Rightarrow> sockaddr_storage \<Rightarrow> server \<Rightarrow> (string \<times> nat \<times> conn \<times> server) res" where
  "TcpServer_NewConnection in_loop sz ntop6 junk njunk mem f sa s = guard Fatal in_loop (
     rbind (SockAddr_storage ntop6 junk mem sa) (\<lambda>peer.
       let n = conn_id s + 1; name = connection_name (server_addr s) peer n njunk in
       rbind (AssignLoop in_loop sz (sched s)) (\<lambda>(l, sc).
         Inr (name, l, TcpConnection_new f, s\<lparr>conn_id := n, sched := sc\<rparr>))))"

section \<open>The monitor\<close>

record monitor =
  kMaxAllConnections :: int
  kMaxIpConnections :: int
  counter :: int
  allow_ip_set :: "string set"
  deny_ip_set :: "string set"
  ip_counter :: "string \<rightharpoonup> int"

definition TcpMonitor_new :: "int \<Rightarrow> int \<Rightarrow> monitor" where
  "TcpMonitor_new all ip = \<lparr>kMaxAllConnections = all, kMaxIpConnections = ip, counter = 0,
     allow_ip_set = {}, deny_ip_set = {}, ip_counter = Map.empty\<rparr>"

definition AddAllowIp :: "string \<Rightarrow> monitor \<Rightarrow> monitor" where
  "AddAllowIp ip m = m\<lparr>allow_ip_set := insert ip (allow_ip_set m)\<rparr>"

definition DeleteAllowIp :: "string \<Rightarrow> monitor \<Rightarrow> monitor" where
  "DeleteAllowIp ip m = m\<lparr>allow_ip_set := allow_ip_set m - {ip}\<rparr>"

definition AddDenyIp :: "string \<Rightarrow> monitor \<Rightarrow> monitor" where
  "AddDenyIp ip m = m\<lparr>deny_ip_set := insert ip (deny_ip_set m)\<rparr>"

definition DeleteDenyIp :: "string \<Rightarrow> monitor \<Rightarrow> monitor" where
  "DeleteDenyIp ip m = m\<lparr>deny_ip_set := deny_ip_set m - {ip}\<rparr>"

text \<open>The verdict; a rejected connection is force-closed by the caller's pointer.\<close>

definition TcpMonitor_OnConnection :: "string \<Rightarrow> monitor \<Rightarrow> bool \<times> monitor" where
  "TcpMonitor_OnConnection ip m =
     (let m = m\<lparr>counter := counter m + 1\<rparr>;
          result = (counter m \<le> kMaxAllConnections m);
          (result, m) =
            (if kMaxIpConnections m \<noteq> 0 then
               (case ip_counter m ip of
                  Some n \<Rightarrow> (result \<and> \<not> (n + 1 > kMaxIpConnections m \<and> ip \<notin> allow_ip_set m),
                             m\<lparr>ip_counter := (ip_counter m)(ip \<mapsto> n + 1)\<rparr>)
                | None \<Rightarrow> (result, m\<lparr>ip_counter := (ip_counter m)(ip \<mapsto> 1)\<rparr>))
             else (result, m))
      in (result \<and> ip \<notin> deny_ip_set m, m))"

definition TcpMonitor_OnClose :: "string \<Rightarrow> monitor \<Rightarrow> monitor res" where
  "TcpMonitor_OnClose ip m =
     rbind (if kMaxIpConnections m \<noteq> 0 then
              (case ip_counter m ip of
                 None \<Rightarrow> Inl AssertionFailed
               | Some n \<Rightarrow> Inr (m\<lparr>ip_counter := (if n - 1 \<le> 0 then (ip_counter m)(ip := None)
                                                 else (ip_counter m)(ip \<mapsto> n - 1))\<rparr>))
            else Inr m) (\<lambda>m. Inr (m\<lparr>counter := counter m - 1\<rparr>))"

section \<open>Back-off\<close>

lemma unat_next_retry_time:
  assumes "unat t \<le> 30000"
  shows "unat (next_retry_time t) = min (2 * unat t) 30000"
proof -
  have "unat (t * 2) = unat t * 2"
    using assms by (subst unat_mult_lem [THEN iffD1]) simp_all
  then show ?thesis
    by (auto simp: next_retry_time_def kMaxRetryTime_def word_less_nat_alt min_def)
qed

lemma unat_retry_time: "unat ((next_retry_time ^^ k) kInitRetryTime) = min (1000 * 2 ^ k) 30000"
proof (induction k)
  case 0
  then show ?case by (simp add: kInitRetryTime_def)
next
  case (Suc k)
  then have "unat (next_retry_time ((next_retry_time ^^ k) kInitRetryTime)) = min (2 * min (1000 * 2 ^ k) 30000) 30000"
    by (subst unat_next_retry_time) simp_all
  also have "\<dots> = min (1000 * 2 ^ Suc k) 30000" by simp
  finally show ?case by simp
qed

lemma Retry_armed: "retry_flag c \<Longrightarrow> connect_flag c \<Longrightarrow> Retry c = c\<lparr>cstate := kDisConnected,
    delayed := delayed c @ [retry_time c], retry_time := next_retry_time (retry_time c)\<rparr>"
  by (simp add: Retry_def Let_def)

lemma Retry_iterate:
  assumes "retry_flag c" and "connect_flag c"
  shows "retry_flag ((Retry ^^ k) c) \<and> connect_flag ((Retry ^^ k) c) \<and>
    retry_time ((Retry ^^ k) c) = (next_retry_time ^^ k) (retry_time c) \<and>
    delayed ((Retry ^^ k) c) = delayed c @ map (\<lambda>i. (next_retry_time ^^ i) (retry_time c)) [0..<k]"
  using assms by (induction k) (simp_all add: Retry_armed)

section \<open>Properties\<close>

text \<open>Reconnecting backs off exponentially: while attempts fail, the delays before the next
  attempt are one, two, four, eight, sixteen seconds and then thirty seconds each, in milliseconds.\<close>
theorem connector_backoff:
  assumes "retry_flag c" and "connect_flag c" and "retry_time c = kInitRetryTime"
  shows "map unat (delayed ((Retry ^^ k) c)) = map unat (delayed c) @ map (\<lambda>i. min (1000 * 2 ^ i) 30000) [0..<k]"
  using Retry_iterate [OF assms(1,2), of k] by (simp add: assms(3) unat_retry_time o_def)

theorem connector_backoff_witness:
  "map unat (delayed ((Retry ^^ 7) (TcpConnector_new\<lparr>connect_flag := True\<rparr>)))
     = [1000, 2000, 4000, 8000, 16000, 30000, 30000]"
proof -
  have "map (\<lambda>i. min (1000 * 2 ^ i) 30000) [0..<7] = [1000, 2000, 4000, 8000, 16000, 30000, 30000 :: nat]"
    by (simp add: upt_rec)
  with connector_backoff [of "TcpConnector_new\<lparr>connect_flag := True\<rparr>" 7] show ?thesis
    by (simp add: TcpConnector_new_def)
qed

text \<open>A connector cannot be started again safely. After a successful connection a second start
  fails an assertion, since the state stays connected. A stop and a start while connecting leave
  the closure of the stop in the loop's queue, which then deletes the dispatch of the new attempt
  while the poller has it. And a retry that was scheduled before a stop is not cancelled: it runs into
  the attempt of the next start and fails the assertion.\<close>
theorem connector_restart_unsafe:
  "(\<forall>c. cstate c = kConnected \<longrightarrow> Start retry f err c = Inl AssertionFailed) \<and>
   (\<exists>c1 c2. Start True f EINPROGRESS TcpConnector_new = Inr c1 \<and> Start True g EINPROGRESS (StopInLoop c1) = Inr c2 \<and>
      in_poller (run_reset_task c2) = {1} \<and> dispatch_obj (run_reset_task c2) = None) \<and>
   (\<exists>c1 c2. Start True f ECONNREFUSED TcpConnector_new = Inr c1 \<and> delayed c1 = [1000] \<and>
      Start True g EINPROGRESS (StopInLoop c1) = Inr c2 \<and> StartInLoop h err c2 = Inl AssertionFailed)"
  by (simp add: Start_def StartInLoop_def Connect_def Connecting_def TcpConnector_new_def StopInLoop_def ResetDispatch_def
      run_reset_task_def Retry_def kInitRetryTime_def Let_def)

theorem connector_restart_unsafe_witness:
  "Start True 3 EINPROGRESS (TcpConnector_new\<lparr>cstate := kConnected\<rparr>) = Inl AssertionFailed"
  using connector_restart_unsafe [of True 3 EINPROGRESS] by simp

lemma min_loop_min:
  "m = sz best \<Longrightarrow> min_loop sz best m ls \<in> set (best # ls) \<and> (\<forall>l \<in> set (best # ls). sz (min_loop sz best m ls) \<le> sz l)"
proof (induction sz best m ls rule: min_loop.induct)
  case (2 sz best m l ls)
  show ?case
  proof (cases "sz l < m")
    case True
    with "2.IH"(1) "2.prems" show ?thesis by fastforce
  next
    case False
    with "2.IH"(2) "2.prems" show ?thesis by fastforce
  qed
qed simp

lemma GetNextLoop_round:
  assumes "sched_started s" and "loops s \<noteq> []" and "sched_next s = (if k = 0 then 0 else (k - 1) mod length (loops s) + 1)"
  shows "GetNextLoop s = Inr (loops s ! (k mod length (loops s)), s\<lparr>sched_next := k mod length (loops s) + 1\<rparr>)"
proof -
  let ?n = "length (loops s)"
  have n: "0 < ?n" using assms(2) by simp
  have "(if sched_next s \<ge> ?n then 0 else sched_next s) = k mod ?n"
  proof (cases k)
    case 0
    with assms(3) n show ?thesis by simp
  next
    case (Suc j)
    then have "sched_next s = j mod ?n + 1" using assms(3) by simp
    moreover have "j mod ?n < ?n" using n by simp
    ultimately show ?thesis using Suc mod_Suc [of j ?n] by auto
  qed
  with assms(1,2) show ?thesis by (simp add: GetNextLoop_def Let_def)
qed

fun assign_many :: "nat \<Rightarrow> schedule \<Rightarrow> nat list res" where
  "assign_many 0 s = Inr []"
| "assign_many (Suc n) s = rbind (GetNextLoop s) (\<lambda>(l, s). rbind (assign_many n s) (\<lambda>ls. Inr (l # ls)))"

lemma assign_many_round:
  assumes "sched_started s" and "loops s \<noteq> []" and "sched_next s = (if k = 0 then 0 else (k - 1) mod length (loops s) + 1)"
  shows "assign_many n s = Inr (map (\<lambda>i. loops s ! (i mod length (loops s))) [k..<k + n])"
  using assms
proof (induction n arbitrary: s k)
  case (Suc n)
  let ?s = "s\<lparr>sched_next := k mod length (loops s) + 1\<rparr>"
  have "assign_many n ?s = Inr (map (\<lambda>i. loops s ! (i mod length (loops s))) [Suc k..<Suc k + n])"
    using Suc.IH [of ?s "Suc k"] Suc.prems by simp
  moreover have "[k..<k + Suc n] = k # [Suc k..<Suc k + n]" by (simp add: upt_conv_Cons)
  ultimately show ?case using GetNextLoop_round [OF Suc.prems] by simp
qed simp

text \<open>New connections are spread over the loops: with at most five background loops each goes to
  a loop with the fewest connections, with more of them the loops take turns.\<close>
theorem connections_balanced:
  assumes "sched_started s" and "loops s \<noteq> []"
  shows "(sched_size s \<le> 5 \<longrightarrow> (\<exists>l. AssignLoop True sz s = Inr (l, s) \<and> l \<in> set (loops s) \<and> (\<forall>k \<in> set (loops s). sz l \<le> sz k))) \<and>
    (sched_next s = 0 \<longrightarrow> assign_many n s = Inr (map (\<lambda>i. loops s ! (i mod length (loops s))) [0..<n]))"
proof (intro conjI impI)
  obtain b ls where l: "loops s = b # ls" using assms(2) by (cases "loops s") auto
  assume "sched_size s \<le> 5"
  with assms l min_loop_min [of "sz b" sz b ls]
  show "\<exists>l. AssignLoop True sz s = Inr (l, s) \<and> l \<in> set (loops s) \<and> (\<forall>k \<in> set (loops s). sz l \<le> sz k)"
    by (auto simp: AssignLoop_def GetMinLoop_def)
next
  assume "sched_next s = 0"
  with assign_many_round [OF assms, of 0 n]
  show "assign_many n s = Inr (map (\<lambda>i. loops s ! (i mod length (loops s))) [0..<n])" by simp
qed

theorem connections_balanced_witness:
  "assign_many 4 \<lparr>sched_started = True, sched_size = 6, sched_next = 0, loops = [7, 8, 9]\<rparr> = Inr [7, 8, 9, 7]"
proof -
  let ?s = "\<lparr>sched_started = True, sched_size = 6, sched_next = 0, loops = [7, 8, 9]\<rparr>"
  have "map (\<lambda>i. loops ?s ! (i mod length (loops ?s))) [0..<4] = [7, 8, 9, 7]"
    by (simp add: upt_rec)
  with connections_balanced [of ?s "\<lambda>_. 0" 4] show ?thesis by simp
qed

text \<open>The history of a monitor: the peers of the connections that are open.\<close>

inductive monitor_reach :: "int \<Rightarrow> int \<Rightarrow> monitor \<Rightarrow> string list \<Rightarrow> bool" for all ip where
  new: "monitor_reach all ip (TcpMonitor_new all ip) []"
| conn: "monitor_reach all ip m ps \<Longrightarrow> monitor_reach all ip (snd (TcpMonitor_OnConnection p m)) (p # ps)"
| close: "monitor_reach all ip m ps \<Longrightarrow> p \<in> set ps \<Longrightarrow> TcpMonitor_OnClose p m = Inr m' \<Longrightarrow> monitor_reach all ip m' (remove1 p ps)"
| allow: "monitor_reach all ip m ps \<Longrightarrow> monitor_reach all ip (AddAllowIp p m) ps"
| disallow: "monitor_reach all ip m ps \<Longrightarrow> monitor_reach all ip (DeleteAllowIp p m) ps"
| deny: "monitor_reach all ip m ps \<Longrightarrow> monitor_reach all ip (AddDenyIp p m) ps"
| undeny: "monitor_reach all ip m ps \<Longrightarrow> monitor_reach all ip (DeleteDenyIp p m) ps"

definition monitor_ok :: "int \<Rightarrow> int \<Rightarrow> monitor \<Rightarrow> string list \<Rightarrow> bool" where
  "monitor_ok all ip m ps \<longleftrightarrow> kMaxAllConnections m = all \<and> kMaxIpConnections m = ip \<and> counter m = int (length ps) \<and>
     (ip \<noteq> 0 \<longrightarrow> (\<forall>p. ip_counter m p = (if count_list ps p = 0 then None else Some (int (count_list ps p)))))"

lemma OnConnection_ok: "monitor_ok all ip m ps \<Longrightarrow> monitor_ok all ip (snd (TcpMonitor_OnConnection p m)) (p # ps)"
  by (auto simp: monitor_ok_def TcpMonitor_OnConnection_def Let_def split: option.splits)

lemma count_remove1: "p \<in> set ps \<Longrightarrow> count_list (remove1 p ps) q = count_list ps q - (if p = q then 1 else 0)"
  by (induction ps) (auto simp: count_list_0_iff)

lemma count_pos: "p \<in> set ps \<Longrightarrow> 0 < count_list ps p"
  by (induction ps) auto

lemma OnClose_ok:
  assumes ok: "monitor_ok all ip m ps" and p: "p \<in> set ps"
  shows "\<exists>m'. TcpMonitor_OnClose p m = Inr m' \<and> monitor_ok all ip m' (remove1 p ps)"
proof -
  have c: "0 < count_list ps p" using p by (rule count_pos)
  have l: "int (length (remove1 p ps)) = int (length ps) - 1"
    using p length_pos_if_in_set [OF p] by (simp only: length_remove1 if_True)
  show ?thesis
  proof (cases "ip = 0")
    case True
    with ok l show ?thesis by (auto simp: TcpMonitor_OnClose_def monitor_ok_def)
  next
    case False
    then have "ip_counter m p = Some (int (count_list ps p))" using ok c by (auto simp: monitor_ok_def)
    with False ok l c count_remove1 [OF p] show ?thesis
      by (auto simp: TcpMonitor_OnClose_def monitor_ok_def of_nat_diff Suc_leI)
  qed
qed

lemma monitor_reach_ok: "monitor_reach all ip m ps \<Longrightarrow> monitor_ok all ip m ps"
proof (induction rule: monitor_reach.induct)
  case (close m ps p m')
  then show ?case using OnClose_ok by fastforce
next
  case (conn m ps p)
  then show ?case by (simp add: OnConnection_ok)
qed (auto simp: TcpMonitor_new_def monitor_ok_def AddAllowIp_def DeleteAllowIp_def AddDenyIp_def DeleteDenyIp_def)

text \<open>C25: The monitor counts exactly: in every history of connections and disconnections its counters
  are the numbers of open connections, in all and per peer, its assertion holds when a connection that
  was counted is closed, and a new connection is admitted exactly if it stays within both limits (or its
  peer is exempt from the second one) and its peer is not denied.\<close>
theorem monitor_admits_within_limits:
  assumes "monitor_reach all ip m ps"
  shows "counter m = int (length ps) \<and> (p \<in> set ps \<longrightarrow> (\<exists>m'. TcpMonitor_OnClose p m = Inr m')) \<and>
    (0 \<le> ip \<longrightarrow> (fst (TcpMonitor_OnConnection p m) \<longleftrightarrow>
       int (length ps) + 1 \<le> all \<and> (ip = 0 \<or> int (count_list ps p) + 1 \<le> ip \<or> p \<in> allow_ip_set m) \<and> p \<notin> deny_ip_set m))"
proof -
  note ok = monitor_reach_ok [OF assms]
  have "fst (TcpMonitor_OnConnection p m) \<longleftrightarrow>
       int (length ps) + 1 \<le> all \<and> (ip = 0 \<or> int (count_list ps p) + 1 \<le> ip \<or> p \<in> allow_ip_set m) \<and> p \<notin> deny_ip_set m"
    if "0 \<le> ip"
    using ok that by (auto simp: monitor_ok_def TcpMonitor_OnConnection_def Let_def)
  with ok OnClose_ok [OF ok, of p] show ?thesis by (auto simp: monitor_ok_def)
qed

theorem monitor_admits_within_limits_witness:
  "counter (snd (TcpMonitor_OnConnection ''a'' (TcpMonitor_new 1 0))) = 1 \<and>
   \<not> fst (TcpMonitor_OnConnection ''b'' (snd (TcpMonitor_OnConnection ''a'' (TcpMonitor_new 1 0))))"
proof -
  have "monitor_reach 1 0 (snd (TcpMonitor_OnConnection ''a'' (TcpMonitor_new 1 0))) [''a'']"
    by (rule monitor_reach.conn [OF monitor_reach.new])
  from monitor_admits_within_limits [OF this, of "''b''"] show ?thesis by simp
qed

section \<open>Names and addresses of connections\<close>

lemma print_nat_inj: "print_nat m = print_nat n \<Longrightarrow> m = n"
  by (metis decimal_value_print_nat of_nat_eq_iff)

lemma print_int_inj:
  assumes "print_int m = print_int n"
  shows "m = n"
proof -
  have minus: "print_nat k \<noteq> CHR ''-'' # s" "CHR ''-'' # s \<noteq> print_nat k" for k s
    using hd0_print_nat [of k] digit_not_sign by (metis hd0_Cons)+
  have "sint m = sint n"
    using assms by (auto simp: print_int_def minus dest!: print_nat_inj split: if_splits)
  then show ?thesis by (rule signed_word_eqI)
qed

lemma print_int_text: "NUL \<notin> set (print_int n)" "length (print_int n) \<le> 11" "CHR ''#'' \<notin> set (print_int n)"
proof -
  have "- (2 ^ 31) \<le> sint n" "sint n < 2 ^ 31" using sint_greater_eq [of n] sint_less [of n] by simp_all
  then have "nat (sint n) < 10 ^ 10" "nat (- sint n) < 10 ^ 10" by simp_all
  then have "length (print_nat (nat (sint n))) \<le> 10" "length (print_nat (nat (- sint n))) \<le> 10"
    using length_print_nat [of 10] by simp_all
  then show "length (print_int n) \<le> 11" by (auto simp: print_int_def)
  have "CHR ''#'' \<notin> set (print_nat k)" for k
    using print_nat_digits [of k] by (auto simp: isdigit_def nat_of_def)
  then show "NUL \<notin> set (print_int n)" "CHR ''#'' \<notin> set (print_int n)"
    using NUL_not_digit(1) by (auto simp: print_int_def NUL_def [symmetric]) (auto simp: NUL_def)
qed

text \<open>What the members of the address objects say, from \<open>ipbuf_keeps_stack\<close>'s lemmas.\<close>

lemma SockAddr_storage_ipbuf:
  assumes "has_text ntop6 sa" and "SockAddr_storage ntop6 junk mem sa = Inr a" and "length (fst junk) = 64" "length (snd junk) = 128"
  shows "c_str (addr_ipbuf a) = address_text (ip_text ntop6 sa) (sin_port sa)"
    "length (c_str (addr_ipbuf a)) \<le> 53" "NUL \<notin> set (c_str (addr_ipbuf a))"
proof -
  note t = ip_text_ok [OF assms(1)] note u = address_text_ok [OF t(2), of "sin_port sa"]
  show c: "c_str (addr_ipbuf a) = address_text (ip_text ntop6 sa) (sin_port sa)"
    using assms GetIpPort_ok [OF assms(1,3,4)] u(1) by (auto simp: SockAddr_storage_def Let_def)
  show "length (c_str (addr_ipbuf a)) \<le> 53" "NUL \<notin> set (c_str (addr_ipbuf a))"
    using t(1) u by (simp_all add: c INET6_ADDRSTRLEN_def)
qed

text \<open>The name of a connection. For addresses with a text it is the two addresses and the number of the
  connection; it fits the array of 256 characters, whatever the stack held, and two connections
  between the same addresses have the same name only when their numbers agree.\<close>

theorem connection_names_fit:
  assumes "has_text ntop6 sa1" "has_text ntop6 sa2"
    and "SockAddr_storage ntop6 junk1 mem1 sa1 = Inr a1" "SockAddr_storage ntop6 junk2 mem2 sa2 = Inr a2"
    and "length (fst junk1) = 64" "length (snd junk1) = 128" "length (fst junk2) = 64" "length (snd junk2) = 128"
    and "length njunk = 256" "length njunk' = 256"
  shows "connection_name a1 a2 n njunk = address_text (ip_text ntop6 sa1) (sin_port sa1) @ ''-'' @
      address_text (ip_text ntop6 sa2) (sin_port sa2) @ ''#'' @ print_int n \<and>
    length (connection_name a1 a2 n njunk) < 256 \<and>
    (connection_name a1 a2 n njunk = connection_name a1 a2 m njunk' \<longrightarrow> n = m)"
proof -
  note A = SockAddr_storage_ipbuf [OF assms(1,3,5,6)] and B = SockAddr_storage_ipbuf [OF assms(2,4,7,8)]
  let ?t = "\<lambda>k. c_str (addr_ipbuf a1) @ ''-'' @ c_str (addr_ipbuf a2) @ ''#'' @ print_int k"
  have len: "length (?t k) < 256" and nul: "NUL \<notin> set (?t k)" for k
    using A(2,3) B(2,3) print_int_text(1,2) [of k] by (simp, simp) (simp add: NUL_def)
  have name: "connection_name a1 a2 k j = ?t k" if "length j = 256" for k j
  proof -
    have "j \<noteq> []" "take (length j - 1) (?t k) = ?t k" using that len [of k] by auto
    then show ?thesis by (simp only: connection_name_def snprintf_def snd_conv if_False) (rule c_str_put [OF nul])
  qed
  show ?thesis
    using name [OF assms(9), of n] name [OF assms(10), of m] len [of n] print_int_inj [of n m] by (simp add: A(1) B(1))
qed

text \<open>A client that is closed from within its connection callback stays connected: the weak pointer to
  the connection is set only after the callback, so that \<^verbatim>\<open>Close\<close> finds no connection to shut
  down, and since it clears \<^verbatim>\<open>connect_\<close> a later \<^verbatim>\<open>Close\<close> does nothing either.\<close>

theorem close_in_connection_callback:
  assumes "cb_ok cb" and "0 \<le> f" and "has_text ntop6 (LocalSockAddr r sjunk)" and "length (fst junk) = 64" "length (snd junk) = 128"
    and "client_connect c" "\<not> conn_alive c"
  shows "\<exists>name cn c'. TcpClient_NewConnection True ntop6 junk njunk mem r sjunk cb TcpClient_Close f c = Inr (name, cn, c') \<and>
    conn_alive c' \<and> shutdowns c' = shutdowns c \<and> TcpClient_Close c' = c'"
proof -
  obtain local' where l: "SockAddr_storage ntop6 junk mem (LocalSockAddr r sjunk) = Inr local'"
    using GetIpPort_ok [OF assms(3-5)] by (auto simp: SockAddr_storage_def Let_def)
  obtain cn where cn: "StartWorking cb (TcpConnection_new f) = Inr cn"
    using StartWorking_ok [OF assms(1) TcpConnection_new_ok [OF assms(2)]] by (auto simp: stays_live_def TcpConnection_new_def)
  show ?thesis using assms(6,7) l cn by (simp add: TcpClient_NewConnection_def TcpClient_Close_def Let_def)
qed

text \<open>A kernel that takes no IPv6 address of less than 24 bytes.\<close>

definition refuses_short6 :: "(sockaddr_storage \<Rightarrow> nat \<Rightarrow> bool) \<Rightarrow> bool" where
  "refuses_short6 accepts \<longleftrightarrow> (\<forall>sa len. ss_family sa = AF_INET6 \<longrightarrow> len < 24 \<longrightarrow> \<not> accepts sa len)"

text \<open>Endpoints with an IPv6 address. Both the acceptor and the connector pass the kernel the length of a
  \<^verbatim>\<open>struct sockaddr\<close>, 16 bytes, for every address. Since the kernel refuses an IPv6 address of less
  than 24 bytes, making an acceptor for one aborts, and connecting to one fails at once, without
  a retry.\<close>

theorem ipv6_endpoints_fail:
  assumes "refuses_short6 (\<lambda>sa len. bind sa len)" and "refuses_short6 (\<lambda>sa len. connect sa len \<noteq> OtherConnectErrno)"
    and "ss_family (addr_sa addr) = AF_INET6" and "f \<noteq> -1" "idle \<ge> 0"
  shows "TcpAcceptor_new bind f idle reuseport addr = Inl Fatal \<and>
    Connect f (ClientSocket_Connect connect (addr_sa addr) sizeof_sockaddr) c =
      c\<lparr>sock := None, calls := calls c @ [ConnectFailureCall]\<rparr>"
proof -
  have "\<not> bind (addr_sa addr) sizeof_sockaddr" "connect (addr_sa addr) sizeof_sockaddr = OtherConnectErrno"
    using assms(1-3) by (simp_all add: refuses_short6_def sizeof_sockaddr_def)
  then show ?thesis
    using assms(4,5)
    by (simp add: TcpAcceptor_new_def BaseSocket_new_def ServerSocket_Bind_def ClientSocket_Connect_def Connect_def Let_def)
qed

definition long_enough :: "sockaddr_storage \<Rightarrow> nat \<Rightarrow> bool" where
  "long_enough sa len \<longleftrightarrow> (if ss_family sa = AF_INET6 then 24 else 16) \<le> len"

theorem ipv6_endpoints_fail_witness:
  "TcpAcceptor_new long_enough 3 4 False (no_addr\<lparr>addr_sa := \<lparr>ss_family = AF_INET6, ss_data = replicate 126 0\<rparr>\<rparr>) = Inl Fatal \<and>
   calls (Connect 3 (ClientSocket_Connect (\<lambda>sa len. if long_enough sa len then EINPROGRESS else OtherConnectErrno)
      \<lparr>ss_family = AF_INET6, ss_data = replicate 126 0\<rparr> sizeof_sockaddr) TcpConnector_new) = [ConnectFailureCall]"
proof -
  let ?addr = "no_addr\<lparr>addr_sa := \<lparr>ss_family = AF_INET6, ss_data = replicate 126 0\<rparr>\<rparr>"
  have "refuses_short6 (\<lambda>sa len. long_enough sa len)"
    "refuses_short6 (\<lambda>sa len. (if long_enough sa len then EINPROGRESS else OtherConnectErrno) \<noteq> OtherConnectErrno)"
    by (simp_all add: refuses_short6_def long_enough_def)
  from ipv6_endpoints_fail [OF this, of ?addr 3 4 False TcpConnector_new] show ?thesis
    by (simp add: TcpConnector_new_def)
qed

theorem connection_names_fit_witness:
  "\<exists>a1. SockAddr_storage (\<lambda>_. []) zero_junk no_addr loopback = Inr a1 \<and>
     connection_name a1 a1 7 (replicate 256 NUL) = ''127.0.0.1:8080-127.0.0.1:8080#7''"
proof -
  have t: "has_text (\<lambda>_. []) loopback" using loopback_ok by (simp add: has_text_def)
  obtain a1 where a1: "SockAddr_storage (\<lambda>_. []) zero_junk no_addr loopback = Inr a1"
    using GetIpPort_ok [OF t, of zero_junk] by (auto simp: SockAddr_storage_def zero_junk_def Let_def)
  have num: "print_nat 127 = ''127''" "print_nat 0 = ''0''" "print_nat 1 = ''1''" "print_nat 8080 = ''8080''" "print_nat 7 = ''7''"
    by (simp_all add: print_nat.simps char_of_def bit_0)
  have "address_text (ip_text (\<lambda>_. []) loopback) (sin_port loopback) = ''127.0.0.1:8080''" "print_int 7 = ''7''"
    using num by (simp_all add: address_text_def ip_text_def loopback_ok print_int_def)
  with connection_names_fit [OF t t a1 a1, of "replicate 256 NUL" "replicate 256 NUL" 7 7]
  have "connection_name a1 a1 7 (replicate 256 NUL) = ''127.0.0.1:8080-127.0.0.1:8080#7''" by (simp add: zero_junk_def)
  with a1 show ?thesis by blast
qed

theorem close_in_connection_callback_witness:
  "\<exists>name cn c'. TcpClient_NewConnection True (\<lambda>_. []) zero_junk (replicate 256 NUL) no_addr None loopback (\<lambda>e c. Inr c)
      TcpClient_Close 3 \<lparr>client_addr = no_addr, client_conn_id = 0, connector_obj = TcpConnector_new, client_connect = True,
        conn_alive = False, shutdowns = 0\<rparr> = Inr (name, cn, c') \<and> conn_alive c' \<and> shutdowns c' = 0 \<and> TcpClient_Close c' = c'"
proof -
  have "cb_ok (\<lambda>e c. Inr c)" by (simp add: cb_ok_def)
  moreover have "has_text (\<lambda>_. []) (LocalSockAddr None loopback)"
    using loopback_ok by (simp add: has_text_def LocalSockAddr_def socket_name_def)
  ultimately show ?thesis
    using close_in_connection_callback [of "\<lambda>e c. Inr c" 3 "\<lambda>_. []" None loopback zero_junk "\<lparr>client_addr = no_addr,
        client_conn_id = 0, connector_obj = TcpConnector_new, client_connect = True, conn_alive = False, shutdowns = 0\<rparr>"
        "replicate 256 NUL" no_addr]
    by (simp add: zero_junk_def)
qed

end
