(* ===== verification/Http_Server.thy ===== *)
theory Http_Server
  imports Http_Parser Tcp_Endpoints
begin

text \<open>
  \<^verbatim>\<open>HttpServer\<close> (\<^verbatim>\<open>voyager/http/http_server.cc\<close>): the handlers it installs on its connections, and
  the timing wheel that closes idle connections. A connection is a number; the server sees of
  it the loop that owns it, the address of its peer, whether it is connected, what was sent on it
  and its context. \<^verbatim>\<open>SendMessage\<close> and \<^verbatim>\<open>ShutDown\<close> act on a connected connection only, as in
  \<open>Tcp_Connection\<close>. An \<^verbatim>\<open>Entry\<close> belongs to one connection and has its number; the buckets hold
  the only lasting \<^verbatim>\<open>shared_ptr\<close>s to it, so it is destroyed when it leaves the last bucket.
\<close>

section \<open>Options\<close>

record http_server_options =
  host :: string
  port :: nat
  thread_size :: int
  tick_time :: int
  keep_alive_time_out :: int
  max_all_connections :: int
  max_ip_connections :: int

definition HttpServerOptions_new :: http_server_options where
  "HttpServerOptions_new =
     \<lparr>host = ''127.0.0.1'', port = 5666, thread_size = 0, tick_time = 2000000,
      keep_alive_time_out = 5 * 2000000, max_all_connections = 60000, max_ip_connections = 60\<rparr>"

section \<open>State\<close>

text \<open>\<open>http_context\<close> is the pair of the parser and the weak pointer, which needs no value: it leads to
  the entry of the same connection as long as that exists. The context of a connection is null
  until \<^verbatim>\<open>SetContext\<close>.\<close>

record http_conn =
  conn_loop :: nat
  peer_ip :: string
  connected :: bool
  http_context :: "request_parser option"
  sent :: string

type_synonym bucket_list = "nat list list"

record http_server =
  idle_ticks :: int
  buckets :: "nat \<rightharpoonup> bucket_list \<times> nat"
  entry_index :: "nat \<rightharpoonup> int"
  conns :: "nat \<Rightarrow> http_conn"
  hmonitor :: monitor

type_synonym http_callback = "http_request \<Rightarrow> http_response \<Rightarrow> http_response"

text \<open>\<^verbatim>\<open>int\<close> division rounds towards zero.\<close>

definition c_div :: "int \<Rightarrow> int \<Rightarrow> int" where
  "c_div a b = sgn a * sgn b * (\<bar>a\<bar> div \<bar>b\<bar>)"

definition HttpServer_new :: "http_server_options \<Rightarrow> (nat \<Rightarrow> http_conn) \<Rightarrow> http_server" where
  "HttpServer_new opts cs =
     \<lparr>idle_ticks = c_div (keep_alive_time_out opts) (tick_time opts), buckets = Map.empty,
      entry_index = Map.empty, conns = cs,
      hmonitor = TcpMonitor_new (max_all_connections opts) (max_ip_connections opts)\<rparr>"

definition HttpServer_Start :: "nat list \<Rightarrow> http_server \<Rightarrow> http_server" where
  "HttpServer_Start ls srv =
     (if idle_ticks srv > 0
      then srv\<lparr>buckets := (\<lambda>l. if l \<in> set ls then Some (replicate (nat (idle_ticks srv)) [], 0)
                           else buckets srv l)\<rparr>
      else srv)"

section \<open>Operations\<close>

definition upd_conn :: "nat \<Rightarrow> (http_conn \<Rightarrow> http_conn) \<Rightarrow> http_server \<Rightarrow> http_server" where
  "upd_conn c f srv = srv\<lparr>conns := (conns srv)(c := f (conns srv c))\<rparr>"

definition send_message :: "string \<Rightarrow> http_conn \<Rightarrow> http_conn" where
  "send_message s k = (if connected k then k\<lparr>sent := sent k @ s\<rparr> else k)"

definition shut_down :: "http_conn \<Rightarrow> http_conn" where
  "shut_down k = k\<lparr>connected := False\<rparr>"

text \<open>\<^verbatim>\<open>UpdateBuckets\<close>, with the index the entry has.\<close>

definition UpdateBuckets :: "nat \<Rightarrow> int \<Rightarrow> http_server \<Rightarrow> http_server res" where
  "UpdateBuckets c idx srv =
     (let l = conn_loop (conns srv c) in
      case buckets srv l of
        None \<Rightarrow> Inl AssertionFailed
      | Some (bl, cur) \<Rightarrow>
          if idx \<noteq> int cur
          then guard OutOfBounds (cur < length bl)
                 (Inr (srv\<lparr>buckets := (buckets srv)(l \<mapsto> (bl[cur := bl ! cur @ [c]], cur)),
                           entry_index := (entry_index srv)(c \<mapsto> int cur)\<rparr>))
          else Inr srv)"

text \<open>A rejected connection is force-closed by the monitor. The first request of the new parser
  has an uninitialised method, \<open>m0\<close>.\<close>

definition HttpServer_OnConnection :: "Method \<Rightarrow> nat \<Rightarrow> http_server \<Rightarrow> http_server res" where
  "HttpServer_OnConnection m0 c srv =
     (case TcpMonitor_OnConnection (peer_ip (conns srv c)) (hmonitor srv) of (result, mon) \<Rightarrow>
        let srv = srv\<lparr>hmonitor := mon\<rparr> in
        if result
        then rbind (UpdateBuckets c (-1) srv)
               (\<lambda>srv. Inr (upd_conn c (\<lambda>k. k\<lparr>http_context := Some (HttpRequestParser_new m0)\<rparr>) srv))
        else Inr (upd_conn c shut_down srv))"

definition HttpServer_OnClose :: "nat \<Rightarrow> http_server \<Rightarrow> http_server res" where
  "HttpServer_OnClose c srv =
     rbind (TcpMonitor_OnClose (peer_ip (conns srv c)) (hmonitor srv))
       (\<lambda>mon. Inr (upd_conn c (\<lambda>k. k\<lparr>http_context := None\<rparr>) (srv\<lparr>hmonitor := mon\<rparr>)))"

definition wants_close :: "http_request \<Rightarrow> bool" where
  "wants_close r \<longleftrightarrow>
     (let s = Value kConnection r in
      strcaseeq s ''close'' \<or> (\<not> strcaseeq s ''keep-alive'' \<and> version r = kHttp10))"

text \<open>The part of \<^verbatim>\<open>OnMessage\<close> after a request is complete: the connection and the parser
  afterwards. \<open>cb\<close> is \<^verbatim>\<open>http_cb_\<close>, which may be unset.\<close>

definition answer_request ::
  "Method \<Rightarrow> http_callback option \<Rightarrow> request_parser \<Rightarrow> http_conn \<Rightarrow> (request_parser \<times> http_conn) res" where
  "answer_request m0 cb p k =
     (let request = pmsg p;
          (response, p) =
            (if wants_close request then (HttpResponse_new\<lparr>close_state := True\<rparr>, p)
             else (HttpResponse_new, HttpRequestParser_Reset m0 p));
          response = (case cb of Some f \<Rightarrow> f request response | None \<Rightarrow> response)
      in rbind (ResponseMessage response)
           (\<lambda>(b, response).
              let k = send_message (Peek b) k in
              Inr (p, if close_state response then shut_down k else k)))"

definition bad_request :: string where
  "bad_request = ''HTTP/1.1 400 Bad Request'' @ kCRLF @ kCRLF"

text \<open>The end of \<^verbatim>\<open>OnMessage\<close>: a connection that is still connected is moved to the current
  bucket, if its entry exists.\<close>

definition refresh_entry :: "nat \<Rightarrow> http_server \<Rightarrow> http_server res" where
  "refresh_entry c srv =
     (if connected (conns srv c)
      then (case entry_index srv c of Some idx \<Rightarrow> UpdateBuckets c idx srv | None \<Rightarrow> Inr srv)
      else Inr srv)"

text \<open>\<^verbatim>\<open>OnMessage\<close>: \<open>None\<close> when it does not return, which is when the parser does not.\<close>

definition HttpServer_OnMessage ::
  "Method \<Rightarrow> http_callback option \<Rightarrow> nat \<Rightarrow> buffer \<Rightarrow> http_server \<Rightarrow> (http_server \<times> buffer) res option" where
  "HttpServer_OnMessage m0 cb c b srv =
     (case http_context (conns srv c) of
        None \<Rightarrow> Some (Inl NullPointer)
      | Some parser \<Rightarrow>
          (case Request_ParseBuffer parser b of
             None \<Rightarrow> None
           | Some (Inl e) \<Rightarrow> Some (Inl e)
           | Some (Inr (ok, parser, b)) \<Rightarrow>
               let k = conns srv c;
                   k = (if ok then k else shut_down (send_message bad_request k))
               in Some (rbind (if FinishParse parser then answer_request m0 cb parser k
                               else Inr (parser, k))
                    (\<lambda>(parser, k).
                       rbind (refresh_entry c (upd_conn c (\<lambda>_. k\<lparr>http_context := Some parser\<rparr>) srv))
                         (\<lambda>srv. Inr (srv, b))))))"

text \<open>\<^verbatim>\<open>OnTimer\<close> on loop \<open>l\<close>. Clearing the bucket destroys the entries that are in no other
  bucket, and \<^verbatim>\<open>~Entry\<close> shuts their connections down.\<close>

definition HttpServer_OnTimer :: "nat \<Rightarrow> http_server \<Rightarrow> http_server res" where
  "HttpServer_OnTimer l srv =
     (case buckets srv l of
        None \<Rightarrow> Inl AssertionFailed
      | Some (bl, cur) \<Rightarrow>
          let cur = (if int (Suc cur) = idle_ticks srv then 0 else Suc cur) in
          guard OutOfBounds (cur < length bl)
            (let bl' = bl[cur := []];
                 dead = set (bl ! cur) - set (concat bl')
             in Inr (srv\<lparr>buckets := (buckets srv)(l \<mapsto> (bl', cur)),
                         entry_index := (\<lambda>c. if c \<in> dead then None else entry_index srv c),
                         conns := (\<lambda>c. if c \<in> dead then shut_down (conns srv c)
                                       else conns srv c)\<rparr>)))"

section \<open>The wheel against a clock\<close>

text \<open>
  The specification: per loop a tick counter \<open>now\<close>, and per entry the tick \<open>act\<close> of its last
  activity. \<open>wheel_ok\<close> relates one loop's bucket list to it: the position is the time modulo the
  size, an entry is in the bucket of its last activity, and in any bucket only by an activity
  within the last turn.
\<close>

definition wheel_ok :: "nat \<Rightarrow> nat \<Rightarrow> (nat \<rightharpoonup> nat) \<Rightarrow> bucket_list \<Rightarrow> nat \<Rightarrow> bool" where
  "wheel_ok n now act bl cur \<longleftrightarrow>
     0 < n \<and> length bl = n \<and> cur = now mod n \<and>
     (\<forall>c t. act c = Some t \<longrightarrow> t \<le> now \<and> now < t + n \<and> c \<in> set (bl ! (t mod n))) \<and>
     (\<forall>j < n. \<forall>c \<in> set (bl ! j). \<exists>t u. act c = Some t \<and> u \<le> t \<and> now < u + n \<and> j = u mod n)"

lemma wheel_ok_new: "0 < n \<Longrightarrow> wheel_ok n 0 Map.empty (replicate n []) 0"
  by (simp add: wheel_ok_def)

lemma set_concat_nth: "c \<in> set (concat bl) \<longleftrightarrow> (\<exists>j < length bl. c \<in> set (bl ! j))"
  by (metis UN_iff in_set_conv_nth set_concat)

lemma set_concat_clear:
  assumes "i < length bl"
  shows "c \<in> set (concat (bl[i := []])) \<longleftrightarrow> (\<exists>j < length bl. j \<noteq> i \<and> c \<in> set (bl ! j))"
proof -
  have "(bl[i := []]) ! j = (if j = i then [] else bl ! j)" if "j < length bl" for j
    using that assms by (simp add: nth_list_update)
  then show ?thesis
    by (auto simp: set_concat_nth simp del: set_concat split: if_splits)
qed

lemma mod_window:
  fixes t now n :: nat
  assumes "t \<le> now \<and> now < t + n" and "t mod n = now mod n"
  shows "t = now"
proof -
  have "n dvd now - t" using assms by (metis mod_eq_dvd_iff_nat)
  then have "now - t = 0" using assms(1) by (metis add_diff_inverse_nat dvd_imp_le gr0I leD nat_add_left_cancel_less not_less)
  with assms(1) show ?thesis by simp
qed

lemma mod_turn:
  fixes u n now :: nat
  assumes "u \<le> now" and "now < u + n"
  shows "u mod n = Suc now mod n \<longleftrightarrow> u + n = Suc now"
proof
  assume "u mod n = Suc now mod n"
  then have "n dvd Suc now - u" using assms(1) by (metis mod_eq_dvd_iff_nat le_SucI)
  then have "n \<le> Suc now - u" using assms(1) by (intro dvd_imp_le) auto
  with assms show "u + n = Suc now" by simp
next
  assume "u + n = Suc now"
  then show "u mod n = Suc now mod n" by (metis mod_add_self2)
qed

lemma wheel_ok_window:
  "wheel_ok n now act bl cur \<Longrightarrow> act c = Some t \<Longrightarrow> t \<le> now \<and> now < t + n"
  by (simp add: wheel_ok_def)

text \<open>An activity of \<open>c\<close>: put into the current bucket unless its last activity was in this tick.\<close>

lemma wheel_ok_touch:
  assumes "wheel_ok n now act bl cur"
  shows "wheel_ok n now (act(c \<mapsto> now)) (bl[cur := bl ! cur @ [c]]) cur"
proof -
  have n: "0 < n" "length bl = n" "cur = now mod n" "cur < n" using assms by (auto simp: wheel_ok_def)
  have in_b: "x \<in> set (bl[cur := bl ! cur @ [c]] ! j) \<longleftrightarrow> x \<in> set (bl ! j) \<or> (j = cur \<and> x = c)"
    if "j < n" for x j
    using that n by (auto simp: nth_list_update)
  have "t \<le> now \<and> now < t + n \<and> x \<in> set (bl[cur := bl ! cur @ [c]] ! (t mod n))"
    if "(act(c \<mapsto> now)) x = Some t" for x t
    using that assms n in_b [of "t mod n" x] by (auto simp: wheel_ok_def split: if_splits)
  moreover have "\<exists>t u. (act(c \<mapsto> now)) x = Some t \<and> u \<le> t \<and> now < u + n \<and> j = u mod n"
    if j: "j < n" "x \<in> set (bl[cur := bl ! cur @ [c]] ! j)" for x j
  proof (cases "x \<in> set (bl ! j)")
    case True
    then obtain t u where tu: "act x = Some t" "u \<le> t" "now < u + n" "j = u mod n"
      using assms j(1) unfolding wheel_ok_def by blast
    moreover have "t \<le> now" using assms tu(1) by (auto simp: wheel_ok_def)
    ultimately show ?thesis by (cases "x = c") (auto intro: exI [of _ u])
  next
    case False
    then have "x = c" "j = now mod n" using in_b [OF j(1)] j(2) n by auto
    then show ?thesis using n by (intro exI [of _ now]) auto
  qed
  ultimately show ?thesis using n by (simp add: wheel_ok_def)
qed

text \<open>A tick: the entries whose last activity is \<open>n\<close> ticks ago are exactly those that leave
  their last bucket.\<close>

lemma wheel_ok_tick:
  fixes bl :: bucket_list
  assumes "wheel_ok n now act bl cur"
  defines "cur' \<equiv> Suc now mod n"
  defines "bl' \<equiv> bl[cur' := []]"
  defines "dead \<equiv> set (bl ! cur') - set (concat bl')"
  shows "c \<in> dead \<longleftrightarrow> (\<exists>t. act c = Some t \<and> t + n = Suc now)" (is "?dead c = _")
    and "wheel_ok n (Suc now) (\<lambda>c. if c \<in> dead then None else act c) bl' cur'" (is ?ok)
proof -
  have n: "0 < n" "length bl = n" "cur' < n" using assms(1) by (auto simp: wheel_ok_def cur'_def)
  have act: "t \<le> now \<and> now < t + n \<and> c \<in> set (bl ! (t mod n))" if "act c = Some t" for c t
    using assms(1) that by (simp add: wheel_ok_def)
  have mem: "\<exists>t u. act c = Some t \<and> u \<le> t \<and> now < u + n \<and> j = u mod n"
    if "j < n" "c \<in> set (bl ! j)" for c j
    using assms(1) that unfolding wheel_ok_def by blast
  have turn: "u mod n = cur' \<longleftrightarrow> u + n = Suc now" if "u \<le> now" "now < u + n" for u
    unfolding cur'_def using that by (rule mod_turn)
  have bl': "c \<in> set (concat bl') \<longleftrightarrow> (\<exists>j < n. j \<noteq> cur' \<and> c \<in> set (bl ! j))" for c
    using set_concat_clear [of cur' bl c] n by (simp add: bl'_def)
  have dead: "c \<in> dead \<longleftrightarrow> (\<exists>t. act c = Some t \<and> t + n = Suc now)" for c
  proof
    assume "c \<in> dead"
    then have c: "c \<in> set (bl ! cur')" "c \<notin> set (concat bl')" by (auto simp: dead_def)
    then obtain t where t: "act c = Some t" using mem n(3) by blast
    have "t mod n < n" using n(1) by simp
    then have "t mod n = cur'" using act [OF t] c(2) bl' by blast
    with t act [OF t] turn show "\<exists>t. act c = Some t \<and> t + n = Suc now" by auto
  next
    assume "\<exists>t. act c = Some t \<and> t + n = Suc now"
    then obtain t where t: "act c = Some t" "t + n = Suc now" by blast
    then have "t mod n = cur'" using act [OF t(1)] turn by auto
    moreover have "j = cur'" if in_j: "j < n" "c \<in> set (bl ! j)" for j
    proof -
      obtain u where "u \<le> t" "now < u + n" "j = u mod n" using mem [OF in_j] t(1) by auto
      moreover from this have "u = t" using t(2) by simp
      ultimately show ?thesis using \<open>t mod n = cur'\<close> by simp
    qed
    ultimately have "c \<in> set (bl ! cur')" "c \<notin> set (concat bl')"
      using act [OF t(1)] bl' by metis+
    then show "c \<in> dead" by (simp only: dead_def Diff_iff not_False_eq_True simp_thms)
  qed
  then show "?dead c = (\<exists>t. act c = Some t \<and> t + n = Suc now)" .
  have "t \<le> Suc now \<and> Suc now < t + n \<and> c \<in> set (bl' ! (t mod n))"
    if "c \<notin> dead" "act c = Some t" for c t
  proof -
    have "t + n \<noteq> Suc now" using that dead by blast
    then show ?thesis using act [OF that(2)] turn [of t] n by (auto simp: bl'_def)
  qed
  moreover have "\<exists>t u. (if c \<in> dead then None else act c) = Some t \<and> u \<le> t \<and> Suc now < u + n \<and> j = u mod n"
    if j: "j < n" "c \<in> set (bl' ! j)" for c j
  proof -
    have "j \<noteq> cur'" "c \<in> set (bl ! j)" using j n by (auto simp: bl'_def nth_list_update split: if_splits)
    then obtain t u where tu: "act c = Some t" "u \<le> t" "now < u + n" "j = u mod n"
      using mem [OF j(1)] by blast
    have "u + n \<noteq> Suc now" using turn [of u] tu act [OF tu(1)] \<open>j \<noteq> cur'\<close> by auto
    moreover have "c \<notin> dead" using bl' j(1) \<open>j \<noteq> cur'\<close> \<open>c \<in> set (bl ! j)\<close> by (auto simp: dead_def)
    ultimately show ?thesis using tu by (intro exI [of _ t] exI [of _ u]) auto
  qed
  ultimately show ?ok using n by (simp add: wheel_ok_def cur'_def bl'_def)
qed

section \<open>Runs of a server\<close>

text \<open>Histories of a server whose wheels have \<open>n > 0\<close> buckets, with the clock of every loop and
  the time of the last activity of every connection that has an entry. A connection is
  reported once, on a loop of the server.\<close>

definition idle_due :: "nat \<Rightarrow> http_server \<Rightarrow> (nat \<Rightarrow> nat) \<Rightarrow> (nat \<rightharpoonup> nat) \<Rightarrow> nat \<Rightarrow> nat \<Rightarrow> bool" where
  "idle_due n srv now act l c \<longleftrightarrow>
     conn_loop (conns srv c) = l \<and> (\<exists>t. act c = Some t \<and> t + n = Suc (now l))"

inductive http_run ::
  "Method \<Rightarrow> http_callback option \<Rightarrow> nat \<Rightarrow> http_server \<Rightarrow> (nat \<Rightarrow> nat) \<Rightarrow> (nat \<rightharpoonup> nat) \<Rightarrow> bool"
  for m0 cb n where
  start: "idle_ticks (HttpServer_new opts cs) = int n \<Longrightarrow> 0 < n \<Longrightarrow>
    http_run m0 cb n (HttpServer_Start ls (HttpServer_new opts cs)) (\<lambda>_. 0) Map.empty"
| conn: "http_run m0 cb n srv now act \<Longrightarrow> act c = None \<Longrightarrow>
    buckets srv (conn_loop (conns srv c)) \<noteq> None \<Longrightarrow>
    HttpServer_OnConnection m0 c srv = Inr srv' \<Longrightarrow>
    http_run m0 cb n srv' now
      (if fst (TcpMonitor_OnConnection (peer_ip (conns srv c)) (hmonitor srv))
       then act(c \<mapsto> now (conn_loop (conns srv c))) else act)"
| msg: "http_run m0 cb n srv now act \<Longrightarrow>
    HttpServer_OnMessage m0 cb c b srv = Some (Inr (srv', b')) \<Longrightarrow>
    http_run m0 cb n srv' now
      (if act c \<noteq> None \<and> connected (conns srv' c)
       then act(c \<mapsto> now (conn_loop (conns srv c))) else act)"
| tick: "http_run m0 cb n srv now act \<Longrightarrow> HttpServer_OnTimer l srv = Inr srv' \<Longrightarrow>
    http_run m0 cb n srv' (now(l := Suc (now l)))
      (\<lambda>c. if idle_due n srv now act l c
           then None else act c)"
| close: "http_run m0 cb n srv now act \<Longrightarrow> HttpServer_OnClose c srv = Inr srv' \<Longrightarrow>
    http_run m0 cb n srv' now act"

definition on_loop :: "http_server \<Rightarrow> (nat \<rightharpoonup> nat) \<Rightarrow> nat \<Rightarrow> nat \<rightharpoonup> nat" where
  "on_loop srv act l c = (if conn_loop (conns srv c) = l then act c else None)"

definition server_ok :: "nat \<Rightarrow> http_server \<Rightarrow> (nat \<Rightarrow> nat) \<Rightarrow> (nat \<rightharpoonup> nat) \<Rightarrow> bool" where
  "server_ok n srv now act \<longleftrightarrow>
     idle_ticks srv = int n \<and> 0 < n
     \<and> (\<forall>l bl cur. buckets srv l = Some (bl, cur) \<longrightarrow> wheel_ok n (now l) (on_loop srv act l) bl cur)
     \<and> (\<forall>c. entry_index srv c = map_option (\<lambda>t. int (t mod n)) (act c))
     \<and> (\<forall>c. act c \<noteq> None \<longrightarrow> buckets srv (conn_loop (conns srv c)) \<noteq> None)"

text \<open>Only the wheels, the indices and the owner of a connection matter.\<close>

lemma server_ok_cong:
  assumes "server_ok n srv now act" and "idle_ticks srv' = idle_ticks srv"
    and "buckets srv' = buckets srv" and "entry_index srv' = entry_index srv"
    and "\<And>c. conn_loop (conns srv' c) = conn_loop (conns srv c)"
  shows "server_ok n srv' now act"
proof -
  have "on_loop srv' act = on_loop srv act" using assms(5) by (simp add: on_loop_def fun_eq_iff)
  with assms show ?thesis by (simp add: server_ok_def)
qed

lemma UpdateBuckets_ok:
  assumes ok: "server_ok n srv now act" and l: "l = conn_loop (conns srv c)"
    and bl: "buckets srv l = Some (bl, cur)"
    and idx: "act c = None \<and> idx = -1 \<or> entry_index srv c = Some idx"
  shows "\<exists>srv'. UpdateBuckets c idx srv = Inr srv' \<and> conns srv' = conns srv
    \<and> hmonitor srv' = hmonitor srv \<and> server_ok n srv' now (act(c \<mapsto> now l))"
proof -
  have w: "wheel_ok n (now l) (on_loop srv act l) bl cur" and n: "0 < n"
    using ok bl by (simp_all add: server_ok_def)
  then have cur: "cur = now l mod n" "cur < length bl" by (simp_all add: wheel_ok_def)
  have upd: "(on_loop srv act l)(c \<mapsto> now l) = on_loop srv (act(c \<mapsto> now l)) l"
    using l by (auto simp: on_loop_def fun_eq_iff)
  show ?thesis
  proof (cases "idx = int cur")
    case True
    then obtain t where t: "act c = Some t" "t mod n = cur"
      using idx ok by (auto simp: server_ok_def)
    have "on_loop srv act l c = Some t" using t(1) l by (simp add: on_loop_def)
    then have "t \<le> now l \<and> now l < t + n" by (rule wheel_ok_window [OF w])
    then have "t = now l" using t(2) cur(1) by (metis mod_window)
    then have "act(c \<mapsto> now l) = act" using t(1) by auto
    with True l bl ok show ?thesis by (simp add: UpdateBuckets_def)
  next
    case False
    define srv' where "srv' = srv\<lparr>buckets := (buckets srv)(l \<mapsto> (bl[cur := bl ! cur @ [c]], cur)),
      entry_index := (entry_index srv)(c \<mapsto> int cur)\<rparr>"
    have "UpdateBuckets c idx srv = Inr srv'"
      using False l bl cur(2) by (simp add: UpdateBuckets_def srv'_def Let_def)
    moreover have "server_ok n srv' now (act(c \<mapsto> now l))"
    proof -
      have "on_loop srv' (act(c \<mapsto> now l)) l' = (if l' = l then (on_loop srv act l)(c \<mapsto> now l) else on_loop srv act l')" for l'
        using l by (auto simp: on_loop_def srv'_def fun_eq_iff)
      then show ?thesis
        using ok wheel_ok_touch [OF w, of c] cur(1) l bl by (auto simp: server_ok_def srv'_def)
    qed
    ultimately show ?thesis by (simp add: srv'_def)
  qed
qed

lemma answer_request_conn:
  "answer_request m0 cb p k = Inr (p', k') \<Longrightarrow> conn_loop k' = conn_loop k \<and> peer_ip k' = peer_ip k"
  by (auto simp: answer_request_def send_message_def shut_down_def Let_def rbind_eq_Inr
      split: if_splits option.splits)

lemma server_OnConnection_ok:
  assumes ok: "server_ok n srv now act" and "act c = None"
    and "buckets srv (conn_loop (conns srv c)) \<noteq> None"
  shows "\<exists>srv'. HttpServer_OnConnection m0 c srv = Inr srv' \<and> server_ok n srv' now
      (if fst (TcpMonitor_OnConnection (peer_ip (conns srv c)) (hmonitor srv))
       then act(c \<mapsto> now (conn_loop (conns srv c))) else act)"
proof -
  obtain res mon where m: "TcpMonitor_OnConnection (peer_ip (conns srv c)) (hmonitor srv) = (res, mon)"
    by fastforce
  let ?srv = "srv\<lparr>hmonitor := mon\<rparr>"
  have ok1: "server_ok n ?srv now act" by (rule server_ok_cong [OF ok]) simp_all
  obtain bl cur where "buckets ?srv (conn_loop (conns ?srv c)) = Some (bl, cur)" using assms(3) by auto
  then obtain srv1 where srv1: "UpdateBuckets c (-1) ?srv = Inr srv1" "conns srv1 = conns srv"
      "server_ok n srv1 now (act(c \<mapsto> now (conn_loop (conns srv c))))"
    using UpdateBuckets_ok [OF ok1 refl, of c bl cur "-1"] assms(2) by auto
  show ?thesis
  proof (cases res)
    case True
    have "server_ok n (upd_conn c (\<lambda>k. k\<lparr>http_context := Some (HttpRequestParser_new m0)\<rparr>) srv1) now
        (act(c \<mapsto> now (conn_loop (conns srv c))))"
      by (rule server_ok_cong [OF srv1(3)]) (simp_all add: upd_conn_def)
    with True m srv1 show ?thesis by (simp add: HttpServer_OnConnection_def)
  next
    case False
    have "server_ok n (upd_conn c shut_down ?srv) now act"
      by (rule server_ok_cong [OF ok1]) (simp_all add: upd_conn_def shut_down_def)
    with False m show ?thesis by (simp add: HttpServer_OnConnection_def)
  qed
qed

lemma OnMessage_elim:
  assumes "HttpServer_OnMessage m0 cb c b srv = Some (Inr (srv', b'))"
  obtains p k where "conn_loop k = conn_loop (conns srv c)"
    "refresh_entry c (upd_conn c (\<lambda>_. k\<lparr>http_context := Some p\<rparr>) srv) = Inr srv'"
proof -
  obtain p0 ok p1 where "Request_ParseBuffer p0 b = Some (Inr (ok, p1, b'))"
    and tail: "rbind (if FinishParse p1 then answer_request m0 cb p1
        (if ok then conns srv c else shut_down (send_message bad_request (conns srv c)))
        else Inr (p1, if ok then conns srv c else shut_down (send_message bad_request (conns srv c))))
       (\<lambda>(p, k). rbind (refresh_entry c (upd_conn c (\<lambda>_. k\<lparr>http_context := Some p\<rparr>) srv))
          (\<lambda>srv. Inr (srv, b'))) = Inr (srv', b')"
    using assms by (auto simp: HttpServer_OnMessage_def Let_def rbind_eq_Inr
        split: option.splits sum.splits)
  let ?k = "if ok then conns srv c else shut_down (send_message bad_request (conns srv c))"
  have "conn_loop ?k = conn_loop (conns srv c)" by (simp add: shut_down_def send_message_def)
  with tail that show thesis
    by (cases "FinishParse p1") (auto simp: rbind_eq_Inr dest!: answer_request_conn)
qed

lemma OnMessage_ok:
  assumes ok: "server_ok n srv now act"
    and msg: "HttpServer_OnMessage m0 cb c b srv = Some (Inr (srv', b'))"
  shows "server_ok n srv' now (if act c \<noteq> None \<and> connected (conns srv' c)
       then act(c \<mapsto> now (conn_loop (conns srv c))) else act)"
proof -
  obtain p k where k: "conn_loop k = conn_loop (conns srv c)"
    and rest: "refresh_entry c (upd_conn c (\<lambda>_. k\<lparr>http_context := Some p\<rparr>) srv) = Inr srv'"
    using msg by (rule OnMessage_elim)
  define srv1 where "srv1 = upd_conn c (\<lambda>_. k\<lparr>http_context := Some p\<rparr>) srv"
  have conns1: "conns srv1 c = k\<lparr>http_context := Some p\<rparr>" "entry_index srv1 = entry_index srv"
    by (simp_all add: srv1_def upd_conn_def)
  have ok1: "server_ok n srv1 now act"
    by (rule server_ok_cong [OF ok]) (simp_all add: srv1_def upd_conn_def k)
  have idx: "entry_index srv1 c = map_option (\<lambda>t. int (t mod n)) (act c)"
    using ok1 by (simp add: server_ok_def)
  show ?thesis
  proof (cases "connected k \<and> act c \<noteq> None")
    case True
    then obtain t where t: "act c = Some t" by auto
    obtain bl cur where "buckets srv1 (conn_loop (conns srv1 c)) = Some (bl, cur)"
      using ok1 t by (auto simp: server_ok_def)
    then obtain srv2 where "UpdateBuckets c (int (t mod n)) srv1 = Inr srv2" "conns srv2 = conns srv1"
        "server_ok n srv2 now (act(c \<mapsto> now (conn_loop (conns srv1 c))))"
      using UpdateBuckets_ok [OF ok1 refl, of c bl cur "int (t mod n)"] idx t by auto
    with rest True t idx conns1 k show ?thesis by (simp add: refresh_entry_def flip: srv1_def)
  next
    case False
    with rest idx conns1 have "srv' = srv1"
      by (auto simp: refresh_entry_def simp flip: srv1_def split: if_splits)
    with False ok1 conns1 show ?thesis by auto
  qed
qed

lemma OnTimer_ok:
  assumes ok: "server_ok n srv now act" and bl: "buckets srv l = Some (bl, cur)"
  shows "\<exists>srv'. HttpServer_OnTimer l srv = Inr srv'
    \<and> server_ok n srv' (now(l := Suc (now l)))
        (\<lambda>c. if idle_due n srv now act l c
             then None else act c)
    \<and> conns srv' = (\<lambda>c. if idle_due n srv now act l c
             then shut_down (conns srv c) else conns srv c)"
proof -
  have w: "wheel_ok n (now l) (on_loop srv act l) bl cur" and n: "0 < n" "idle_ticks srv = int n"
    using ok bl by (simp_all add: server_ok_def)
  let ?due = "idle_due n srv now act l"
  let ?cur = "Suc (now l) mod n"
  let ?dead = "set (bl ! ?cur) - set (concat (bl[?cur := []]))"
  have dead: "c \<in> ?dead \<longleftrightarrow> ?due c" for c
    using wheel_ok_tick(1) [OF w, of c] by (auto simp: idle_due_def on_loop_def)
  have len: "cur = now l mod n" "length bl = n" using w by (simp_all add: wheel_ok_def)
  have cur: "(if int (Suc cur) = idle_ticks srv then 0 else Suc cur) = ?cur" "?cur < length bl"
    unfolding len using n by (simp add: mod_Suc, simp only: mod_less_divisor)
  define srv' where "srv' = srv\<lparr>buckets := (buckets srv)(l \<mapsto> (bl[?cur := []], ?cur)),
    entry_index := (\<lambda>c. if ?due c then None else entry_index srv c),
    conns := (\<lambda>c. if ?due c then shut_down (conns srv c) else conns srv c)\<rparr>"
  have step: "HttpServer_OnTimer l srv = Inr srv'"
    unfolding HttpServer_OnTimer_def bl option.case prod.case Let_def cur(1) dead srv'_def
    using cur(2) by simp
  have loop: "conn_loop (conns srv' c) = conn_loop (conns srv c)" for c
    by (simp add: srv'_def shut_down_def)
  let ?act = "\<lambda>c. if ?due c then None else act c"
  have on: "on_loop srv' ?act l' = (if l' = l then (\<lambda>c. if c \<in> ?dead then None else on_loop srv act l c)
      else on_loop srv act l')" for l'
    unfolding dead by (auto simp: on_loop_def loop idle_due_def fun_eq_iff)
  have "wheel_ok n ((now(l := Suc (now l))) l') (on_loop srv' ?act l') bl1 cur1"
    if "buckets srv' l' = Some (bl1, cur1)" for l' bl1 cur1
    using that ok wheel_ok_tick(2) [OF w] unfolding on
    by (cases "l' = l") (auto simp: srv'_def server_ok_def)
  moreover have "entry_index srv' c = map_option (\<lambda>t. int (t mod n)) (?act c)" for c
    using ok by (simp add: srv'_def server_ok_def)
  moreover have "?act c \<noteq> None \<longrightarrow> buckets srv' (conn_loop (conns srv' c)) \<noteq> None" for c
    using ok unfolding loop by (auto simp: srv'_def server_ok_def)
  ultimately have "server_ok n srv' (now(l := Suc (now l))) ?act"
    using n by (simp add: server_ok_def srv'_def)
  then show ?thesis
    using step by (auto simp: srv'_def)
qed

lemma http_run_ok: "http_run m0 cb n srv now act \<Longrightarrow> server_ok n srv now act"
proof (induction rule: http_run.induct)
  case (start opts cs ls)
  have "on_loop srv Map.empty l = Map.empty" for srv l by (simp add: on_loop_def fun_eq_iff)
  then show ?case
    using start wheel_ok_new [of n]
    by (auto simp: server_ok_def HttpServer_Start_def HttpServer_new_def split: if_splits)
next
  case (conn srv now act c srv')
  then show ?case using server_OnConnection_ok [of n srv now act c m0] by auto
next
  case (msg srv now act c b srv' b')
  then show ?case by (blast intro: OnMessage_ok)
next
  case (tick srv now act l srv')
  then obtain bl cur where "buckets srv l = Some (bl, cur)"
    by (auto simp: HttpServer_OnTimer_def split: option.splits)
  from OnTimer_ok [OF tick.IH this] tick.hyps(2) show ?case by (metis Inr_inject)
next
  case (close srv now act c srv')
  then obtain mon where "srv' = upd_conn c (\<lambda>k. k\<lparr>http_context := None\<rparr>) (srv\<lparr>hmonitor := mon\<rparr>)"
    by (auto simp: HttpServer_OnClose_def rbind_eq_Inr)
  then show ?case by (intro server_ok_cong [OF close.IH]) (simp_all add: upd_conn_def)
qed

text \<open>C6: The timing wheel of \<^verbatim>\<open>HttpServer\<close> closes exactly the idle connections. In every history of
  connections, messages, closes and timer ticks, on any number of loops, the timer of a loop
  never fails an assertion or a bounds check, and it shuts down precisely those connections of
  its loop whose last activity is \<open>idle_ticks\<close> ticks of that loop ago; every other connection
  keeps its entry and is untouched.\<close>

theorem idle_connections_closed:
  assumes "http_run m0 cb n srv now act" and "buckets srv l \<noteq> None"
  shows "\<exists>srv'. HttpServer_OnTimer l srv = Inr srv' \<and>
    (\<forall>c. (entry_index srv c \<noteq> None \<longleftrightarrow> act c \<noteq> None) \<and>
       (if conn_loop (conns srv c) = l \<and> (\<exists>t. act c = Some t \<and> t + n = Suc (now l))
        then entry_index srv' c = None \<and> \<not> connected (conns srv' c)
        else (entry_index srv' c = None \<longleftrightarrow> act c = None) \<and> conns srv' c = conns srv c))"
proof -
  note ok = http_run_ok [OF assms(1)]
  obtain bl cur where "buckets srv l = Some (bl, cur)" using assms(2) by auto
  from OnTimer_ok [OF ok this] obtain srv' where srv': "HttpServer_OnTimer l srv = Inr srv'"
    and ok': "server_ok n srv' (now(l := Suc (now l)))
        (\<lambda>c. if idle_due n srv now act l c
             then None else act c)"
    and conns': "conns srv' = (\<lambda>c. if idle_due n srv now act l c
             then shut_down (conns srv c) else conns srv c)"
    by blast
  have "entry_index srv c \<noteq> None \<longleftrightarrow> act c \<noteq> None" for c
    using ok by (simp add: server_ok_def)
  moreover have "entry_index srv' c = None \<longleftrightarrow>
      (if idle_due n srv now act l c then True else act c = None)" for c
  proof -
    have "entry_index srv' c = map_option (\<lambda>t. int (t mod n))
        (if idle_due n srv now act l c then None else act c)"
      using ok' unfolding server_ok_def by blast
    then show ?thesis by simp
  qed
  ultimately show ?thesis
    using srv' by (intro exI [of _ srv']) (simp add: conns' shut_down_def flip: idle_due_def)
qed

definition example_conn :: http_conn where
  "example_conn = \<lparr>conn_loop = 0, peer_ip = ''10.0.0.1'', connected = True, http_context = None, sent = []\<rparr>"

definition example_server :: http_server where
  "example_server = HttpServer_Start [0] (HttpServer_new
     (HttpServerOptions_new\<lparr>keep_alive_time_out := 2000000\<rparr>) (\<lambda>_. example_conn))"

lemma example_server_run: "http_run m0 cb 1 example_server (\<lambda>_. 0) Map.empty"
  unfolding example_server_def
  by (rule http_run.start) (simp_all add: HttpServer_new_def HttpServerOptions_new_def c_div_def)

lemma example_server_sel:
  "buckets example_server 0 = Some ([[]], 0)" "conns example_server c = example_conn"
  "fst (TcpMonitor_OnConnection ''10.0.0.1'' (hmonitor example_server))"
  by (simp_all add: example_server_def HttpServer_Start_def HttpServer_new_def
      HttpServerOptions_new_def c_div_def TcpMonitor_OnConnection_def TcpMonitor_new_def)

theorem idle_connections_closed_witness:
  "\<exists>srv srv'. HttpServer_OnConnection kGet 7 example_server = Inr srv
    \<and> connected (conns srv 7) \<and> HttpServer_OnTimer 0 srv = Inr srv' \<and> \<not> connected (conns srv' 7)"
proof -
  define srv where "srv = projr (HttpServer_OnConnection kGet 7 example_server)"
  have srv: "HttpServer_OnConnection kGet 7 example_server = Inr srv"
    and sel: "buckets srv 0 \<noteq> None" "connected (conns srv 7)" "conn_loop (conns srv 7) = 0"
    using example_server_sel
    by (auto simp: srv_def HttpServer_OnConnection_def UpdateBuckets_def upd_conn_def example_conn_def
        split: prod.splits)
  have "http_run kGet None 1 srv (\<lambda>_. 0) (Map.empty(7 \<mapsto> 0))"
    using http_run.conn [OF example_server_run _ _ srv, of None] example_server_sel
    by (simp add: example_conn_def)
  from idle_connections_closed [OF this sel(1)] srv sel show ?thesis by (auto dest: spec [of _ 7])
qed

section \<open>What goes wrong\<close>

lemma answer_request_close:
  "wants_close (pmsg p) \<Longrightarrow> answer_request m0 cb p k = Inr (p', k') \<Longrightarrow> p' = p"
  by (auto simp: answer_request_def Let_def rbind_eq_Inr)

lemma refresh_entry_conns: "refresh_entry c srv = Inr srv' \<Longrightarrow> conns srv' = conns srv"
  by (auto simp: refresh_entry_def UpdateBuckets_def Let_def guard_eq_Inr split: option.splits if_splits)

text \<open>Without a callback the default response is sent and the connection shut down.\<close>

lemma answer_request_default_close:
  assumes "wants_close (pmsg p)"
  shows "\<exists>k'. answer_request m0 None p k = Inr (p, k') \<and> \<not> connected k'"
proof -
  have "buffer_ok (response_message (HttpResponse_new\<lparr>close_state := True\<rparr>))"
    by (simp add: HttpResponse_new_def)
  from ResponseMessage_ok [OF this] assms show ?thesis
    by (auto simp: answer_request_def shut_down_def)
qed

text \<open>C38: A client can hang the server. When a request has been answered with the intent to close,
  as for every HTTP/1.0 request without keep-alive, the parser of the connection stays finished;
  any further data on that connection before it is torn down makes \<^verbatim>\<open>HttpServer::OnMessage\<close> loop
  forever, and with it the event loop that runs it.\<close>

theorem closing_connection_hangs_server:
  assumes "http_context (conns srv c) = Some p"
    and "Request_ParseBuffer p b = Some (Inr (ok, p', b'))" and "FinishParse p'"
    and "wants_close (pmsg p')"
    and "HttpServer_OnMessage m0 cb c b srv = Some (Inr (srv', b''))"
  shows "HttpServer_OnMessage m0 cb c b2 srv' = None"
proof -
  have "http_context (conns srv' c) = Some p'"
    using assms answer_request_close [OF assms(4)]
    by (auto simp: HttpServer_OnMessage_def Let_def rbind_eq_Inr upd_conn_def dest!: refresh_entry_conns)
  moreover have "Request_ParseBuffer p' b2 = None"
    using assms(3) unfolding Request_ParseBuffer_def FinishParse_def by (rule rq.loop_finished_diverges)
  ultimately show ?thesis by (simp add: HttpServer_OnMessage_def)
qed

theorem closing_connection_hangs_server_witness:
  "\<exists>srv srv' b b'. HttpServer_OnMessage kGet None 0 b srv = Some (Inr (srv', b'))
     \<and> (\<forall>b2. HttpServer_OnMessage kGet None 0 b2 srv' = None)"
proof -
  let ?r = "(HttpRequest_new kGet)\<lparr>path := ''/''\<rparr>"
  have "request_ok ?r" "buffer_ok (request_message ?r)" "Peek (request_message ?r) = []"
    by (simp_all add: request_ok_def HttpRequest_new_def smap_ok_def isspace_def nat_of_def)
  from request_print_parse [OF this, of kGet] obtain b p b'
    where p: "Request_ParseBuffer (HttpRequestParser_new kGet) b = Some (Inr (True, p, b'))"
      "FinishParse p" and msg: "pmsg p = ?r\<lparr>query := [], request_message := new_Buffer kInitBufferSize\<rparr>"
    by (auto simp: HttpRequest_new_def)
  have close: "wants_close (pmsg p)"
    by (simp add: msg wants_close_def Value_def HttpRequest_new_def strcaseeq_def c_str_def)
  let ?srv = "upd_conn 0 (\<lambda>_. example_conn\<lparr>http_context := Some (HttpRequestParser_new kGet)\<rparr>) example_server"
  have ctx: "http_context (conns ?srv 0) = Some (HttpRequestParser_new kGet)"
    by (simp add: upd_conn_def)
  obtain k' where "answer_request kGet None p (conns ?srv 0) = Inr (p, k')" "\<not> connected k'"
    using answer_request_default_close [OF close] by blast
  then obtain srv' where run: "HttpServer_OnMessage kGet None 0 b ?srv = Some (Inr (srv', b'))"
    using p ctx by (simp add: HttpServer_OnMessage_def refresh_entry_def upd_conn_def)
  show ?thesis
    using closing_connection_hangs_server [OF ctx p close run] run by blast
qed

text \<open>A connection that the monitor rejects gets no context. If its peer's first bytes are
  delivered before the queued force-close runs, \<^verbatim>\<open>OnMessage\<close> dereferences the null context,
  whatever the bytes are.\<close>

theorem rejected_connection_null_context:
  assumes "\<not> fst (TcpMonitor_OnConnection (peer_ip (conns srv c)) (hmonitor srv))"
    and "http_context (conns srv c) = None"
  shows "\<exists>srv'. HttpServer_OnConnection m0 c srv = Inr srv'
    \<and> (\<forall>b. HttpServer_OnMessage m0 cb c b srv' = Some (Inl NullPointer))"
  using assms
  by (auto simp: HttpServer_OnConnection_def HttpServer_OnMessage_def upd_conn_def shut_down_def
      split: prod.splits)

theorem rejected_connection_null_context_witness:
  "\<exists>srv srv'. HttpServer_OnConnection kGet 0 srv = Inr srv'
     \<and> (\<forall>b. HttpServer_OnMessage kGet None 0 b srv' = Some (Inl NullPointer))"
proof -
  let ?srv = "HttpServer_new (HttpServerOptions_new\<lparr>max_all_connections := 0\<rparr>) (\<lambda>_. example_conn)"
  have "\<not> fst (TcpMonitor_OnConnection (peer_ip (conns ?srv 0)) (hmonitor ?srv))"
    by (simp add: HttpServer_new_def HttpServerOptions_new_def TcpMonitor_OnConnection_def TcpMonitor_new_def)
  moreover have "http_context (conns ?srv 0) = None"
    by (simp add: HttpServer_new_def example_conn_def)
  ultimately show ?thesis using rejected_connection_null_context [of ?srv 0 kGet None] by blast
qed

text \<open>Without a keep-alive timeout no connection can be accepted. The options allow a value of
  zero or less for "not set"; then \<^verbatim>\<open>Start\<close> makes no buckets, and the first accepted connection
  fails the assertion in \<^verbatim>\<open>UpdateBuckets\<close>.\<close>

theorem no_keep_alive_no_service:
  assumes "keep_alive_time_out opts \<le> 0" and "0 < tick_time opts"
    and "srv = HttpServer_Start ls (HttpServer_new opts cs)"
    and "fst (TcpMonitor_OnConnection (peer_ip (conns srv c)) (hmonitor srv))"
  shows "HttpServer_OnConnection m0 c srv = Inl AssertionFailed"
proof -
  have "0 \<le> \<bar>keep_alive_time_out opts\<bar> div \<bar>tick_time opts\<bar>"
    using assms(2) by (simp add: pos_imp_zdiv_nonneg_iff)
  then have "idle_ticks (HttpServer_new opts cs) \<le> 0"
    using assms(1,2) by (simp add: HttpServer_new_def c_div_def sgn_if)
  then have "buckets srv = Map.empty"
    unfolding assms(3) by (simp add: HttpServer_Start_def HttpServer_new_def)
  with assms(4) show ?thesis
    by (auto simp: HttpServer_OnConnection_def UpdateBuckets_def Let_def split: prod.splits)
qed

theorem no_keep_alive_no_service_witness:
  "HttpServer_OnConnection kGet 0 (HttpServer_Start [0] (HttpServer_new
     (HttpServerOptions_new\<lparr>keep_alive_time_out := 0\<rparr>) (\<lambda>_. example_conn))) = Inl AssertionFailed"
  by (rule no_keep_alive_no_service [OF _ _ refl])
     (simp_all add: HttpServer_Start_def HttpServer_new_def HttpServerOptions_new_def c_div_def
        TcpMonitor_OnConnection_def TcpMonitor_new_def)

end
