(* ===== verification/Framing.thy ===== *)
theory Framing
  imports Buffer
begin

text \<open>
  The interface between a connection and a message callback that takes messages out of the input
  buffer: the connection appends what it reads and calls the callback. The locale \<open>framed_stream\<close>
  states what such a callback promises, and its lemma what follows for a stream that is cut into
  pieces in any way. The protobuf codec and the two programs of the sudoku example provide it.
\<close>

type_synonym 's message_callback = "buffer \<Rightarrow> 's \<Rightarrow> (buffer \<times> 's) res option"

text \<open>The pieces of a stream are appended one after the other, with a call of the callback after each,
  as in \<^verbatim>\<open>TcpConnection::HandleRead\<close>.\<close>

fun receive :: "'s message_callback \<Rightarrow> string list \<Rightarrow> 's message_callback" where
  "receive on_message [] b s = Some (Inr (b, s))"
| "receive on_message (c # cs) b s =
     (case Append c b of
        Inl e \<Rightarrow> Some (Inl e)
      | Inr b \<Rightarrow>
          (case on_message b s of
             None \<Rightarrow> None
           | Some (Inl e) \<Rightarrow> Some (Inl e)
           | Some (Inr (b, s)) \<Rightarrow> receive on_message cs b s))"

lemma prefix_of_frames:
  assumes "prefix x (concat ws)" and "\<forall>w \<in> set ws. w \<noteq> []"
  shows "\<exists>us vs t. ws = us @ vs \<and> x = concat us @ t \<and> (t = [] \<or> vs \<noteq> [] \<and> strict_prefix t (hd vs))"
  using assms
proof (induction ws arbitrary: x)
  case (Cons w ws)
  show ?case
  proof (cases "prefix w x")
    case True
    then obtain y where x: "x = w @ y" by (auto elim: prefixE)
    then have "prefix y (concat ws)" using Cons.prems(1) by simp
    then obtain us vs t where "ws = us @ vs" "y = concat us @ t" "t = [] \<or> vs \<noteq> [] \<and> strict_prefix t (hd vs)"
      using Cons.IH [of y] Cons.prems(2) by auto
    then show ?thesis by (intro exI [of _ "w # us"] exI [of _ vs] exI [of _ t]) (simp add: x)
  next
    case False
    then have "strict_prefix x w"
      using Cons.prems(1) by (metis concat.simps(2) prefix_append prefix_order.dual_order.strict_iff_order prefixI prefix_same_cases)
    then show ?thesis by (intro exI [of _ "[]"] exI [of _ "w # ws"] exI [of _ x]) simp
  qed
qed simp

text \<open>\<open>wire m\<close> is the text of a message, \<open>valid\<close> says for which messages the promise is made, and
  \<open>effect\<close> is what the callback does with one: given complete messages and the beginning of one
  more, it handles the complete ones in order and leaves the beginning in the buffer.\<close>

locale framed_stream =
  fixes on_message :: "'s message_callback"
    and wire :: "'m \<Rightarrow> string"
    and valid :: "'m \<Rightarrow> bool"
    and effect :: "'m \<Rightarrow> 's \<Rightarrow> 's"
  assumes wire_not_Nil: "valid m \<Longrightarrow> wire m \<noteq> []"
    and takes_messages:
      "buffer_ok b \<Longrightarrow> \<forall>m \<in> set ms. valid m \<Longrightarrow> Peek b = concat (map wire ms) @ t \<Longrightarrow>
       t = [] \<or> (\<exists>m. valid m \<and> strict_prefix t (wire m)) \<Longrightarrow>
       \<exists>b'. on_message b s = Some (Inr (b', fold effect ms s)) \<and> buffer_ok b' \<and> Peek b' = t"
begin

lemma begun_message:
  assumes "t = [] \<or> ms \<noteq> [] \<and> strict_prefix t (wire (hd ms))" and "t = concat (map wire ms)" and "\<forall>m \<in> set ms. valid m"
  shows "ms = []"
proof (rule ccontr)
  assume "ms \<noteq> []"
  moreover from this have "t = wire (hd ms) @ concat (map wire (tl ms))" using assms(2) by (cases ms) auto
  ultimately show False
    using assms wire_not_Nil by (cases ms) (auto simp: strict_prefix_def dest: prefix_length_le)
qed

lemma receives_all:
  assumes "buffer_ok b" and "\<forall>m \<in> set ms. valid m"
    and "Peek b @ concat chunks = concat (map wire ms)"
    and "Peek b = [] \<or> ms \<noteq> [] \<and> strict_prefix (Peek b) (wire (hd ms))"
  shows "\<exists>b'. receive on_message chunks b s = Some (Inr (b', fold effect ms s)) \<and> buffer_ok b' \<and> Peek b' = []"
  using assms
proof (induction chunks arbitrary: b s ms)
  case Nil
  then have "ms = []" by (intro begun_message [of "Peek b"]) auto
  then show ?case using Nil.prems by simp
next
  case (Cons c cs)
  obtain b1 where b1: "Append c b = Inr b1" "buffer_ok b1" "Peek b1 = Peek b @ c"
    using Cons.prems(1) by (rule Append_ok)
  have all: "Peek b1 @ concat cs = concat (map wire ms)" using Cons.prems(3) b1(3) by simp
  then have "prefix (Peek b1) (concat (map wire ms))" by (metis prefixI)
  then obtain us vs t where "map wire ms = us @ vs" and t: "Peek b1 = concat us @ t"
      and end_t: "t = [] \<or> vs \<noteq> [] \<and> strict_prefix t (hd vs)"
    using prefix_of_frames [of "Peek b1" "map wire ms"] wire_not_Nil Cons.prems(2) by auto
  then obtain ms1 ms2 where ms: "ms = ms1 @ ms2" "us = map wire ms1" "vs = map wire ms2"
    by (auto simp: map_eq_append_conv)
  have tail: "t = [] \<or> ms2 \<noteq> [] \<and> strict_prefix t (wire (hd ms2))"
    using end_t by (auto simp: ms(3) hd_map)
  then have "t = [] \<or> (\<exists>m. valid m \<and> strict_prefix t (wire m))"
    using Cons.prems(2) ms(1) by (metis Un_iff hd_in_set set_append)
  then obtain b2 where b2: "on_message b1 s = Some (Inr (b2, fold effect ms1 s))" "buffer_ok b2" "Peek b2 = t"
    using takes_messages [OF b1(2), of ms1 t s] Cons.prems(2) t ms by auto
  have "\<exists>b'. receive on_message cs b2 (fold effect ms1 s) = Some (Inr (b', fold effect ms2 (fold effect ms1 s)))
      \<and> buffer_ok b' \<and> Peek b' = []"
    using Cons.prems(2) b2 all t tail ms by (intro Cons.IH) auto
  then show ?case using b1(1) b2(1) ms(1) by simp
qed

end

end
