(* ===== verification/Http_Exchange.thy ===== *)
theory Http_Exchange
  imports Http_Server Framing
begin

text \<open>
  One request on its way: \<^verbatim>\<open>HttpRequest::RequestMessage\<close> prints it, the connection delivers the text to
  \<^verbatim>\<open>HttpServer::OnMessage\<close> in whatever pieces it arrives in, the parser of the connection takes it up piece by
  piece, and the answer is sent when the last piece is there. The lemmas here join the parser, the server and the
  buffer of the connection; the theorem about all of them is in the root theory.
\<close>

section \<open>Beginnings of a request\<close>

text \<open>A header line that is refused is refused whatever follows.\<close>

lemma text_headers_refuses:
  assumes "text_headers m s = (False, st, m', s')"
  shows "fst (text_headers m (s @ t)) = False"
  using assms
proof (induction m s arbitrary: st m' s' rule: text_headers.induct)
  case (1 m s)
  show ?case
  proof (cases "search_from kCRLF s")
    case None
    with "1.prems" show ?thesis by (simp add: text_headers.simps [of m s])
  next
    case (Some i)
    note app = search_from_append [OF Some, of t]
    have bound: "i + 2 \<le> length s" using search_from_bound [OF Some] by simp
    let ?line = "take i s"
    let ?colon = "length (takeWhile (\<lambda>c. c \<noteq> CHR '':'') ?line)"
    consider (blank) "i = 0" | (bad) "i \<noteq> 0" "?colon = 0 \<or> ?colon = i"
      | (good) "i \<noteq> 0" "?colon \<noteq> 0" "?colon \<noteq> i" by blast
    then show ?thesis
    proof cases
      case blank
      with "1.prems" Some show ?thesis by (simp add: text_headers.simps [of m s])
    next
      case bad
      with app bound show ?thesis by (auto simp: text_headers.simps [of m "s @ t"] Let_def)
    next
      case good
      let ?m = "AddHeader_range ?line ?colon m"
      have f: "text_headers ?m (drop (i + 2) s) = (False, st, m', s')"
        using good Some "1.prems" by (simp add: text_headers.simps [of m s] Let_def)
      have e: "text_headers m (s @ t) = text_headers ?m (drop (i + 2) s @ t)"
        using good app bound by (simp add: text_headers.simps [of m "s @ t"] Let_def)
      have "\<not> (?colon = 0 \<or> ?colon = i)" using good by blast
      from "1.IH" [OF Some refl refl good(1) this f] e show ?thesis by simp
    qed
  qed
qed

text \<open>Of a header section that is not whole the parser reads some lines and waits.\<close>

lemma text_headers_waits:
  assumes "text_headers m (s @ t) = (True, kBody, m1, [])" and "t \<noteq> []"
  shows "\<exists>m' s'. text_headers m s = (True, kHeaders, m', s')"
proof -
  obtain ok st m' s' where h: "text_headers m s = (ok, st, m', s')" by (metis prod_cases4)
  have ok: "ok" using text_headers_refuses [of m s st m' s' t] h assms(1) by (cases ok) auto
  then have "st = kHeaders"
    using text_headers_append [of m s st m' s' t] h assms by (auto split: if_splits)
  with h ok show ?thesis by simp
qed

definition request_head :: "http_request \<Rightarrow> string" where
  "request_head r = request_line r @ kCRLF @ headers_text '':'' (header_map r) @ kCRLF"

abbreviation parse_request where "parse_request \<equiv> parse_text ParseRequestLine request_text_body"

lemma request_head_waits:
  assumes "request_ok r" and "request_head r = s @ t" and "t \<noteq> []"
  shows "\<exists>p s'. parse_request (HttpRequestParser_new m0) s = (True, p, s') \<and> pstate p \<in> {kLine, kHeaders}"
proof (cases "search_from kCRLF s")
  case None
  then show ?thesis by (simp add: parse_text_def HttpRequestParser_new_def)
next
  case (Some i)
  let ?hs = "headers_text '':'' (header_map r) @ kCRLF"
  let ?r = "(HttpRequest_new m0)\<lparr>meth := meth r, version := version r, path := path r,
    query := (if query r = [] then [] else CHR ''?'' # query r)\<rparr>"
  have "search_from kCRLF (request_line r @ kCRLF @ ?hs) = Some (length (request_line r))"
    using search_line [OF request_line_no_LF [OF request_ok_head [OF assms(1)]]] by simp
  then have i: "i = length (request_line r)"
    using search_from_append [OF Some, of t] assms(2) by (simp add: request_head_def)
  have bound: "i + 2 \<le> length s" using search_from_bound [OF Some] by simp
  have "s @ t = (request_line r @ kCRLF) @ ?hs" using assms(2) by (simp add: request_head_def)
  then have st: "take i (s @ t) = request_line r" "drop (i + 2) (s @ t) = ?hs"
    using i by (simp_all add: kCRLF_def)
  then have line: "take i s = request_line r" and hs: "?hs = drop (i + 2) s @ t"
    using bound by simp_all
  have "ParseRequestLine (request_line r) (HttpRequest_new m0) = (True, ?r)"
    using ParseRequestLine_print [OF request_ok_head [OF assms(1)], of "HttpRequest_new m0"] by (simp add: HttpRequest_new_def)
  then have parse: "parse_request (HttpRequestParser_new m0) s = text_rest request_text_body ?r (drop (i + 2) s)"
    using Some line by (simp add: parse_text_def HttpRequestParser_new_def)
  have "text_headers ?r ?hs = (True, kBody, ?r\<lparr>header_map := header_map r\<rparr>, [])"
    using text_headers_print [of "header_map r" ?r 0 "[]"] assms(1) by (simp add: request_ok_def HttpRequest_new_def)
  then obtain m' s' where "text_headers ?r (drop (i + 2) s) = (True, kHeaders, m', s')"
    using text_headers_waits [of ?r "drop (i + 2) s" t] assms(3) unfolding hs by blast
  then show ?thesis unfolding parse by (simp add: text_rest_def)
qed

section \<open>The server on a connection\<close>

text \<open>\<^verbatim>\<open>OnMessage\<close> as the callback of a connection.\<close>

definition http_on_message :: "Method \<Rightarrow> http_callback option \<Rightarrow> nat \<Rightarrow> http_server message_callback" where
  "http_on_message m0 cb c b srv = map_option (map_sum id prod.swap) (HttpServer_OnMessage m0 cb c b srv)"

lemma refresh_entry_ok:
  assumes "server_ok n srv now act"
  shows "\<exists>srv'. refresh_entry c srv = Inr srv'"
proof (cases "connected (conns srv c) \<and> act c \<noteq> None")
  case True
  then obtain t where t: "act c = Some t" by auto
  obtain bl cur where "buckets srv (conn_loop (conns srv c)) = Some (bl, cur)"
    using assms t by (auto simp: server_ok_def)
  moreover have "entry_index srv c = Some (int (t mod n))" using assms t by (simp add: server_ok_def)
  ultimately show ?thesis
    using UpdateBuckets_ok [OF assms refl, of c bl cur "int (t mod n)"] True by (auto simp: refresh_entry_def)
next
  case False
  then have "entry_index srv c = None \<or> \<not> connected (conns srv c)" using assms by (auto simp: server_ok_def)
  then show ?thesis by (auto simp: refresh_entry_def)
qed

text \<open>A call of \<^verbatim>\<open>OnMessage\<close> whose parser accepts what is there: it goes through, the wheel stays in order, and the
  connection is as \<open>answer_request\<close> leaves it, or has only taken up the text.\<close>

lemma OnMessage_accepts:
  assumes ok: "server_ok n srv now act" and ctx: "http_context (conns srv c) = Some p"
    and parse: "Request_ParseBuffer p b = Some (Inr (True, p1, b1))"
    and answer: "(if FinishParse p1 then answer_request m0 cb p1 (conns srv c) else Inr (p1, conns srv c)) = Inr (p2, k)"
  shows "\<exists>srv' act'. http_on_message m0 cb c b srv = Some (Inr (b1, srv')) \<and> server_ok n srv' now act' \<and>
    conns srv' = (conns srv)(c := k\<lparr>http_context := Some p2\<rparr>)"
proof -
  let ?srv = "upd_conn c (\<lambda>_. k\<lparr>http_context := Some p2\<rparr>) srv"
  have loop: "conn_loop k = conn_loop (conns srv c)"
    using answer answer_request_conn [of m0 cb p1 "conns srv c" p2 k] by (auto split: if_splits)
  have "server_ok n ?srv now act"
    by (rule server_ok_cong [OF ok]) (simp_all add: upd_conn_def loop)
  then obtain srv' where r: "refresh_entry c ?srv = Inr srv'" using refresh_entry_ok by blast
  have m: "HttpServer_OnMessage m0 cb c b srv = Some (Inr (srv', b1))"
    using ctx parse answer r by (cases "FinishParse p1") (simp_all add: HttpServer_OnMessage_def Let_def)
  have "conns srv' = (conns srv)(c := k\<lparr>http_context := Some p2\<rparr>)"
    using refresh_entry_conns [OF r] by (simp add: upd_conn_def)
  with m OnMessage_ok [OF ok m] show ?thesis by (auto simp: http_on_message_def)
qed

lemma receive_append:
  "receive f (xs @ ys) b s = (case receive f xs b s of Some (Inr (b, s)) \<Rightarrow> receive f ys b s | r \<Rightarrow> r)"
  by (induction xs arbitrary: b s) (auto split: sum.splits option.splits)

text \<open>The server has \<open>x\<close> of a request: the parser has taken up a part of it, the rest is in the buffer.\<close>

definition taken_up :: "Method \<Rightarrow> nat \<Rightarrow> string \<Rightarrow> buffer \<Rightarrow> http_server \<Rightarrow> bool" where
  "taken_up m0 c x b srv \<longleftrightarrow> buffer_ok b \<and> (\<exists>p. http_context (conns srv c) = Some p \<and> pstate p \<in> {kLine, kHeaders} \<and>
     (\<forall>t. parse_request (HttpRequestParser_new m0) (x @ t) = parse_request p (Peek b @ t)))"

lemma parse_buffer_text:
  assumes "buffer_ok b" and "pstate p \<in> {kLine, kHeaders}" and "parse_request p (Peek b) = (ok, p1, s1)"
  shows "\<exists>b1. Request_ParseBuffer p b = Some (Inr (ok, p1, b1)) \<and> buffer_ok b1 \<and> Peek b1 = s1"
proof -
  have "pstate p \<noteq> kEnd" using assms(2) by auto
  from rq.loop_reads_text [OF assms(1) this] assms(3) show ?thesis
    by (auto simp: rq.reads_def Request_ParseBuffer_def)
qed

lemma taken_up_more:
  assumes "taken_up m0 c x b srv" and "server_ok n srv now act" and "request_ok r"
    and "request_head r = (x @ s) @ t" and "t \<noteq> []"
  shows "\<exists>b1 b' srv' act'. Append s b = Inr b1 \<and> http_on_message m0 cb c b1 srv = Some (Inr (b', srv')) \<and>
    server_ok n srv' now act' \<and> taken_up m0 c (x @ s) b' srv' \<and>
    (\<exists>p. conns srv' = (conns srv)(c := (conns srv c)\<lparr>http_context := Some p\<rparr>))"
proof -
  obtain p where ctx: "http_context (conns srv c) = Some p" and p: "pstate p \<in> {kLine, kHeaders}"
    and eq: "\<And>t. parse_request (HttpRequestParser_new m0) (x @ t) = parse_request p (Peek b @ t)"
    using assms(1) by (auto simp: taken_up_def)
  obtain b1 where b1: "Append s b = Inr b1" "buffer_ok b1" "Peek b1 = Peek b @ s"
    using assms(1) Append_ok [of b s] by (auto simp: taken_up_def)
  obtain p1 s1 where r: "parse_request (HttpRequestParser_new m0) (x @ s) = (True, p1, s1)" "pstate p1 \<in> {kLine, kHeaders}"
    using request_head_waits [OF assms(3-5)] by blast
  then have "parse_request p (Peek b1) = (True, p1, s1)" using eq b1(3) by simp
  from parse_buffer_text [OF b1(2) p this] obtain b' where
    b': "Request_ParseBuffer p b1 = Some (Inr (True, p1, b'))" "buffer_ok b'" "Peek b' = s1" by blast
  have nf: "\<not> FinishParse p1" "pstate p1 \<noteq> kEnd" using r(2) by (auto simp: FinishParse_def)
  then obtain srv' act' where srv': "http_on_message m0 cb c b1 srv = Some (Inr (b', srv'))" "server_ok n srv' now act'"
      "conns srv' = (conns srv)(c := (conns srv c)\<lparr>http_context := Some p1\<rparr>)"
    using OnMessage_accepts [OF assms(2) ctx b'(1), of m0 cb p1 "conns srv c"] by auto
  have "parse_request (HttpRequestParser_new m0) ((x @ s) @ t) = parse_request p1 (s1 @ t)" for t
    by (rule parse_text_append [OF r(1) nf(2)]) (simp_all add: HttpRequestParser_new_def)
  then have "taken_up m0 c (x @ s) b' srv'" using b'(2,3) r(2) srv'(3) by (simp add: taken_up_def)
  with b1(1) srv' show ?thesis by blast
qed

lemma receive_waits:
  assumes "taken_up m0 c x b srv" and "server_ok n srv now act" and "request_ok r"
    and "request_head r = (x @ concat pieces) @ t" and "t \<noteq> []"
  shows "\<exists>b' srv' act'. receive (http_on_message m0 cb c) pieces b srv = Some (Inr (b', srv')) \<and>
    server_ok n srv' now act' \<and> taken_up m0 c (x @ concat pieces) b' srv' \<and>
    sent (conns srv' c) = sent (conns srv c) \<and> connected (conns srv' c) = connected (conns srv c)"
  using assms
proof (induction pieces arbitrary: x b srv act)
  case (Cons s pieces)
  have "concat pieces @ t \<noteq> []" "request_head r = (x @ s) @ (concat pieces @ t)" using Cons.prems(4,5) by simp_all
  then obtain b1 b2 srv2 act2 where s: "Append s b = Inr b1" "http_on_message m0 cb c b1 srv = Some (Inr (b2, srv2))"
      "server_ok n srv2 now act2" "taken_up m0 c (x @ s) b2 srv2"
      "\<exists>p. conns srv2 = (conns srv)(c := (conns srv c)\<lparr>http_context := Some p\<rparr>)"
    using taken_up_more [OF Cons.prems(1-3), of s "concat pieces @ t" cb] by blast
  have "request_head r = ((x @ s) @ concat pieces) @ t" using Cons.prems(4) by simp
  from Cons.IH [OF s(4,3) Cons.prems(3) this Cons.prems(5)] s show ?case by auto
qed auto

text \<open>The last piece: the request is answered.\<close>

definition received_request :: "http_request \<Rightarrow> http_request" where
  "received_request r = r\<lparr>query := (if query r = [] then [] else CHR ''?'' # query r), request_message := new_Buffer kInitBufferSize\<rparr>"

lemma request_head_read:
  assumes "request_ok r" and "body r = []"
  shows "parse_request (HttpRequestParser_new m0) (request_head r) = (True, \<lparr>pstate = kEnd, pmsg = received_request r\<rparr>, [])"
proof -
  have "request_text_body (r\<lparr>query := q, body := [], request_message := m\<rparr>) (body r)
      = (True, r\<lparr>query := q, request_message := m\<rparr>, [])" for q m
    by (rule request_text_body_print) (use assms(1) in \<open>simp_all add: request_ok_def\<close>)
  then show ?thesis
    using parse_text_request [OF request_ok_head [OF assms(1)], of m0 "[]"] assms(2)
    by (simp add: request_head_def text_body_def received_request_def)
qed

lemma taken_up_last:
  assumes "taken_up m0 c x b srv" and "server_ok n srv now act" and "request_ok r" and "body r = []"
    and "request_head r = x @ s"
    and "answer_request m0 cb \<lparr>pstate = kEnd, pmsg = received_request r\<rparr> (conns srv c) = Inr (p2, k)"
  shows "\<exists>b' srv'. receive (http_on_message m0 cb c) [s] b srv = Some (Inr (b', srv')) \<and> Peek b' = [] \<and>
    conns srv' c = k\<lparr>http_context := Some p2\<rparr>"
proof -
  obtain p where ctx: "http_context (conns srv c) = Some p" and p: "pstate p \<in> {kLine, kHeaders}"
    and eq: "\<And>t. parse_request (HttpRequestParser_new m0) (x @ t) = parse_request p (Peek b @ t)"
    using assms(1) by (auto simp: taken_up_def)
  obtain b1 where b1: "Append s b = Inr b1" "buffer_ok b1" "Peek b1 = Peek b @ s"
    using assms(1) Append_ok [of b s] by (auto simp: taken_up_def)
  have "parse_request p (Peek b1) = (True, \<lparr>pstate = kEnd, pmsg = received_request r\<rparr>, [])"
    using request_head_read [OF assms(3,4), of m0] eq b1(3) assms(5) by simp
  from parse_buffer_text [OF b1(2) p this] obtain b' where
    b': "Request_ParseBuffer p b1 = Some (Inr (True, \<lparr>pstate = kEnd, pmsg = received_request r\<rparr>, b'))" "Peek b' = []" by blast
  obtain srv' where "http_on_message m0 cb c b1 srv = Some (Inr (b', srv'))" "conns srv' c = k\<lparr>http_context := Some p2\<rparr>"
    using OnMessage_accepts [OF assms(2) ctx b'(1), of m0 cb p2 k] assms(6) by (auto simp: FinishParse_def)
  with b1(1) b'(2) show ?thesis by simp
qed

lemma taken_up_start:
  "http_context (conns srv c) = Some (HttpRequestParser_new m0) \<Longrightarrow> taken_up m0 c [] (new_Buffer kInitBufferSize) srv"
  by (simp add: taken_up_def) (simp add: HttpRequestParser_new_def)

text \<open>What \<open>answer_request\<close> does with the callback's response.\<close>

lemma answer_request_sends:
  assumes "connected k" and "ResponseMessage (f q (HttpResponse_new\<lparr>close_state := wants_close q\<rparr>)) = Inr (rb, resp)"
  shows "\<exists>p2 k'. answer_request m0 (Some f) \<lparr>pstate = kEnd, pmsg = q\<rparr> k = Inr (p2, k') \<and>
    sent k' = sent k @ Peek rb \<and> (connected k' \<longleftrightarrow> \<not> close_state resp) \<and>
    (\<not> wants_close q \<longrightarrow> p2 = HttpRequestParser_new m0)"
proof -
  have "HttpResponse_new = HttpResponse_new\<lparr>close_state := False\<rparr>" by (simp add: HttpResponse_new_def)
  then show ?thesis
    using assms by (auto simp: answer_request_def send_message_def shut_down_def Let_def HttpRequestParser_Reset_def
        HttpRequestParser_new_def)
qed

end
