(* ===== verification/Http_Client.thy ===== *)
theory Http_Client
  imports Http_Parser
begin

text \<open>
  \<^verbatim>\<open>HttpClient\<close> (\<^verbatim>\<open>voyager/http/http_client.cc\<close>): a queue of callbacks and at most one connection.
  Callbacks, timers and the \<^verbatim>\<open>TcpClient\<close> objects it creates are numbered; what it sends is the text
  on the wire of its connection. \<open>handed\<close> records the callbacks as they are handed over, and an
  invoked callback is recorded with the response it got, or \<open>None\<close> for a null response with a
  network error. A callback is user code in the loop's thread and may make further requests while it runs: the
  parameter \<open>user\<close> gives the requests, with their callbacks, that it makes. Resetting \<^verbatim>\<open>client_\<close> destroys the old
  \<^verbatim>\<open>TcpClient\<close>, to which its connector still holds a raw pointer. The weak pointer \<^verbatim>\<open>gaurd_\<close> is a
  flag: it leads to a connection from its establishment until that connection is closed.
\<close>

record http_client =
  queue_cb :: "nat list"
  gaurd :: bool
  client_id :: nat
  client_addr :: "string \<times> u16"
  client_request :: "http_request option"
  connecting :: bool
  timer_id :: nat
  armed :: "nat set"
  response_parser :: "response_parser option"
  wire :: string
  shut :: bool
  handed :: "nat list"
  results :: "(nat \<times> http_response option) list"

type_synonym client_user = "nat \<Rightarrow> http_response option \<Rightarrow> (http_request \<times> nat) list"

definition HttpClient_new :: http_client where
  "HttpClient_new = \<lparr>queue_cb = [], gaurd = False, client_id = 0, client_addr = ([], 0),
     client_request = None, connecting = False, timer_id = 0, armed = {}, response_parser = None,
     wire = [], shut = False, handed = [], results = []\<rparr>"

text \<open>Host and port from the \<^verbatim>\<open>Host\<close> header; the port is cut to 16 bits.\<close>

definition request_addr :: "http_request \<Rightarrow> string \<times> u16" where
  "request_addr r =
     (let h = Value kHost r;
          name = takeWhile (\<lambda>c. c \<noteq> CHR '':'') h;
          rest = drop (length name) h
      in if rest \<noteq> [] then (name, of_int (atoi (tl rest))) else (h, 80))"

definition FirstRequest :: "http_request \<Rightarrow> http_client \<Rightarrow> http_client" where
  "FirstRequest r c =
     c\<lparr>client_id := Suc (client_id c), client_addr := request_addr r, client_request := Some r,
       timer_id := Suc (timer_id c), armed := insert (Suc (timer_id c)) (armed c),
       connecting := True\<rparr>"

text \<open>\<^verbatim>\<open>SendMessage\<close> drops the text of a connection that is being shut down.\<close>

definition send_request :: "http_request \<Rightarrow> http_client \<Rightarrow> http_client res" where
  "send_request r c = rbind (RequestMessage r) (\<lambda>(b, _).
     Inr (if shut c then c else c\<lparr>wire := wire c @ Peek b\<rparr>))"

definition DoHttpRequestInLoop :: "http_request \<Rightarrow> nat \<Rightarrow> http_client \<Rightarrow> http_client res" where
  "DoHttpRequestInLoop r cb c =
     (let c = c\<lparr>queue_cb := queue_cb c @ [cb], handed := handed c @ [cb]\<rparr> in
      if gaurd c then send_request r c else Inr (FirstRequest r c))"

text \<open>The call of a callback: in the loop's thread \<^verbatim>\<open>DoHttpRequest\<close> runs \<^verbatim>\<open>DoHttpRequestInLoop\<close> at once.\<close>

fun DoHttpRequests :: "(http_request \<times> nat) list \<Rightarrow> http_client \<Rightarrow> http_client res" where
  "DoHttpRequests [] c = Inr c"
| "DoHttpRequests ((r, cb) # rs) c = rbind (DoHttpRequestInLoop r cb c) (DoHttpRequests rs)"

definition invoke_cb :: "client_user \<Rightarrow> nat \<Rightarrow> http_response option \<Rightarrow> http_client \<Rightarrow> http_client res" where
  "invoke_cb user cb resp c = DoHttpRequests (user cb resp) (c\<lparr>results := results c @ [(cb, resp)]\<rparr>)"

text \<open>The connection callback installed by \<^verbatim>\<open>FirstRequest\<close>, when the connector of the \<open>k\<close>-th client
  has connected: it goes through \<^verbatim>\<open>TcpClient::NewConnection\<close> of that client.\<close>

definition client_connected :: "nat \<Rightarrow> http_client \<Rightarrow> http_client res" where
  "client_connected k c =
     guard UseAfterFree (k = client_id c)
       (case client_request c of
          None \<Rightarrow> Inl NullPointer
        | Some r \<Rightarrow> send_request r
            (c\<lparr>armed := armed c - {timer_id c}, gaurd := True, connecting := False,
               response_parser := Some HttpResponseParser_new, wire := [], shut := False\<rparr>))"

text \<open>\<^verbatim>\<open>HandleMessage\<close>; \<open>None\<close> when the parser does not return.\<close>

definition client_HandleMessage :: "client_user \<Rightarrow> buffer \<Rightarrow> http_client \<Rightarrow> (http_client \<times> buffer) res option" where
  "client_HandleMessage user b c =
     (if queue_cb c = [] then Some (Inl AssertionFailed)
      else case response_parser c of
        None \<Rightarrow> Some (Inl NullPointer)
      | Some p \<Rightarrow>
          (case Response_ParseBuffer p b of
             None \<Rightarrow> None
           | Some (Inl e) \<Rightarrow> Some (Inl e)
           | Some (Inr (ok, p, b)) \<Rightarrow>
               let c = (if ok then c else c\<lparr>shut := True\<rparr>) in
               if FinishParse p
               then Some (rbind (invoke_cb user (hd (queue_cb c)) (Some (pmsg p))
                            (c\<lparr>queue_cb := tl (queue_cb c), response_parser := Some p\<rparr>))
                      (\<lambda>c. Inr (c\<lparr>response_parser := Some (HttpResponseParser_Reset p)\<rparr>, b)))
               else Some (Inr (c\<lparr>response_parser := Some p\<rparr>, b))))"

text \<open>\<^verbatim>\<open>HandleClose\<close>, called when the connection is closed and drops what is sent on it, goes through \<^verbatim>\<open>queue_cb_\<close> with an iterator. Inserting into a \<^verbatim>\<open>std::deque\<close> makes its iterators
  invalid: after a callback that pushed to the queue, the next step of the iterator is a fault.\<close>

fun close_loop :: "client_user \<Rightarrow> nat list \<Rightarrow> http_client \<Rightarrow> http_client res" where
  "close_loop user [] c = Inr c"
| "close_loop user (cb # cbs) c =
     rbind (invoke_cb user cb None c) (\<lambda>c'.
       guard UseAfterFree (queue_cb c' = queue_cb c) (close_loop user cbs c'))"

definition client_HandleClose :: "client_user \<Rightarrow> http_client \<Rightarrow> http_client res" where
  "client_HandleClose user c =
     rbind (close_loop user (queue_cb c) (c\<lparr>shut := True\<rparr>)) (\<lambda>c.
       Inr (c\<lparr>queue_cb := [], response_parser := None, gaurd := False\<rparr>))"

definition client_HandleTimeout :: "client_user \<Rightarrow> http_client \<Rightarrow> http_client res" where
  "client_HandleTimeout user c =
     (if \<not> gaurd c \<and> queue_cb c \<noteq> []
      then invoke_cb user (hd (queue_cb c)) None (c\<lparr>connecting := False, queue_cb := tl (queue_cb c)\<rparr>)
      else Inr c)"

section \<open>Callbacks\<close>

text \<open>Histories of a client whose callbacks make the requests \<open>user\<close>. A connection is reported
  only while a client is connecting, messages and a close only on a connection.\<close>

inductive client_run :: "client_user \<Rightarrow> http_client \<Rightarrow> bool" for user where
  new: "client_run user HttpClient_new"
| request: "client_run user c \<Longrightarrow> DoHttpRequestInLoop r cb c = Inr c' \<Longrightarrow> client_run user c'"
| connected: "client_run user c \<Longrightarrow> connecting c \<Longrightarrow> client_connected k c = Inr c' \<Longrightarrow> client_run user c'"
| message: "client_run user c \<Longrightarrow> gaurd c \<Longrightarrow>
    client_HandleMessage user b c = Some (Inr (c', b')) \<Longrightarrow> client_run user c'"
| close: "client_run user c \<Longrightarrow> gaurd c \<Longrightarrow> client_HandleClose user c = Inr c' \<Longrightarrow> client_run user c'"
| timeout: "client_run user c \<Longrightarrow> t \<in> armed c \<Longrightarrow>
    client_HandleTimeout user (c\<lparr>armed := armed c - {t}\<rparr>) = Inr c' \<Longrightarrow> client_run user c'"

definition client_ok :: "http_client \<Rightarrow> bool" where
  "client_ok c \<longleftrightarrow> map fst (results c) @ queue_cb c = handed c
     \<and> (gaurd c \<longrightarrow> (\<exists>p. response_parser c = Some p \<and> pstate p \<noteq> kEnd))"

text \<open>The requests of a callback can be printed.\<close>

definition user_ok :: "client_user \<Rightarrow> bool" where
  "user_ok user \<longleftrightarrow> (\<forall>cb resp. \<forall>(r, k) \<in> set (user cb resp). buffer_ok (request_message r))"

lemma send_request_sel:
  "send_request r c = Inr c' \<Longrightarrow> \<exists>w. c' = c\<lparr>wire := w\<rparr>"
  by (auto simp: send_request_def rbind_eq_Inr split: if_splits) (metis http_client.surjective http_client.update_convs(10))

lemma DoHttpRequestInLoop_sel:
  assumes "DoHttpRequestInLoop r cb c = Inr c'"
  shows "queue_cb c' = queue_cb c @ [cb]" "handed c' = handed c @ [cb]" "results c' = results c" "gaurd c' = gaurd c"
    "response_parser c' = response_parser c"
  using assms by (auto simp: DoHttpRequestInLoop_def Let_def FirstRequest_def dest!: send_request_sel split: if_splits)

lemma DoHttpRequests_sel:
  "DoHttpRequests rs c = Inr c' \<Longrightarrow> queue_cb c' = queue_cb c @ map snd rs \<and> handed c' = handed c @ map snd rs \<and>
     results c' = results c \<and> gaurd c' = gaurd c \<and> response_parser c' = response_parser c"
  by (induction rs c rule: DoHttpRequests.induct) (auto simp: rbind_eq_Inr dest: DoHttpRequestInLoop_sel)

lemma invoke_cb_sel:
  assumes "invoke_cb user cb resp c = Inr c'"
  shows "queue_cb c' = queue_cb c @ map snd (user cb resp)" "handed c' = handed c @ map snd (user cb resp)"
    "results c' = results c @ [(cb, resp)]" "gaurd c' = gaurd c" "response_parser c' = response_parser c"
  using DoHttpRequests_sel [OF assms [unfolded invoke_cb_def]] by simp_all

lemma send_request_runs: "buffer_ok (request_message r) \<Longrightarrow> \<exists>c'. send_request r c = Inr c'"
  using RequestMessage_ok [of r] by (auto simp: send_request_def)

lemma DoHttpRequests_runs: "\<forall>(r, k) \<in> set rs. buffer_ok (request_message r) \<Longrightarrow> \<exists>c'. DoHttpRequests rs c = Inr c'"
proof (induction rs c rule: DoHttpRequests.induct)
  case (2 r cb rs c)
  then have "\<exists>c1. DoHttpRequestInLoop r cb c = Inr c1"
    using send_request_runs [of r] by (auto simp: DoHttpRequestInLoop_def Let_def)
  with 2 show ?case by auto
qed simp

lemma invoke_cb_runs: "user_ok user \<Longrightarrow> \<exists>c'. invoke_cb user cb resp c = Inr c'"
  unfolding invoke_cb_def user_ok_def by (rule DoHttpRequests_runs) blast

text \<open>The loop of \<^verbatim>\<open>HandleClose\<close>: it calls all callbacks if none of them makes a request.\<close>

lemma close_loop_quiet:
  "\<forall>cb \<in> set cbs. user cb None = [] \<Longrightarrow> close_loop user cbs c = Inr (c\<lparr>results := results c @ map (\<lambda>cb. (cb, None)) cbs\<rparr>)"
  by (induction cbs arbitrary: c) (auto simp: invoke_cb_def)

lemma close_loop_busy:
  assumes "user_ok user"
  shows "cb \<in> set cbs \<Longrightarrow> user cb None \<noteq> [] \<Longrightarrow> close_loop user cbs c = Inl UseAfterFree"
proof (induction cbs arbitrary: c)
  case (Cons k cbs)
  obtain c' where c': "invoke_cb user k None c = Inr c'" using invoke_cb_runs [OF assms] by blast
  show ?case
  proof (cases "user k None = []")
    case True
    then have "queue_cb c' = queue_cb c" "cb \<in> set cbs" using invoke_cb_sel(1) [OF c'] Cons.prems by auto
    with c' Cons show ?thesis by simp
  next
    case False
    with c' invoke_cb_sel(1) [OF c'] show ?thesis by (simp add: guard_def)
  qed
qed simp

lemma close_loop_sel:
  "close_loop user cbs c = Inr c' \<Longrightarrow>
     results c' = results c @ map (\<lambda>cb. (cb, None)) cbs \<and> handed c' = handed c"
proof (induction cbs arbitrary: c)
  case (Cons k cbs)
  then obtain c1 where c1: "invoke_cb user k None c = Inr c1" "queue_cb c1 = queue_cb c" "close_loop user cbs c1 = Inr c'"
    by (auto simp: rbind_eq_Inr guard_eq_Inr)
  with Cons.IH [OF c1(3)] invoke_cb_sel [OF c1(1)] show ?case by simp
qed simp

lemma client_message_ok:
  assumes "client_ok c" and "client_HandleMessage user b c = Some (Inr (c', b'))"
  shows "client_ok c'"
proof -
  obtain p ok q where p: "queue_cb c \<noteq> []" "response_parser c = Some p" "Response_ParseBuffer p b = Some (Inr (ok, q, b'))"
    using assms(2) by (auto simp: client_HandleMessage_def Let_def rbind_eq_Inr split: if_splits option.splits sum.splits)
  let ?c = "if ok then c else c\<lparr>shut := True\<rparr>"
  have same: "queue_cb ?c = queue_cb c" "results ?c = results c" "handed ?c = handed c" "gaurd ?c = gaurd c" by simp_all
  show ?thesis
  proof (cases "FinishParse q")
    case True
    then obtain c1 where c1: "invoke_cb user (hd (queue_cb ?c)) (Some (pmsg q))
        (?c\<lparr>queue_cb := tl (queue_cb ?c), response_parser := Some q\<rparr>) = Inr c1"
      "c' = c1\<lparr>response_parser := Some (HttpResponseParser_Reset q)\<rparr>"
      using assms(2) p by (auto simp: client_HandleMessage_def Let_def rbind_eq_Inr)
    note inv = invoke_cb_sel [OF c1(1)]
    have "map fst (results c1) @ queue_cb c1 = handed c1"
      unfolding inv using same p(1) assms(1) by (cases "queue_cb c") (auto simp: client_ok_def)
    then show ?thesis
      unfolding c1(2) by (simp add: client_ok_def HttpResponseParser_Reset_def)
  next
    case False
    then have "c' = ?c\<lparr>response_parser := Some q\<rparr>"
      using assms(2) p by (simp add: client_HandleMessage_def Let_def)
    with False assms(1) same show ?thesis by (auto simp: client_ok_def FinishParse_def)
  qed
qed

lemma client_run_ok: "client_run user c \<Longrightarrow> client_ok c"
proof (induction rule: client_run.induct)
  case new
  then show ?case by (simp add: client_ok_def HttpClient_new_def)
next
  case (request c r cb c')
  with DoHttpRequestInLoop_sel [OF request(2)] show ?case by (auto simp: client_ok_def)
next
  case (connected c k c')
  then show ?case
    by (auto simp: client_connected_def guard_eq_Inr client_ok_def HttpResponseParser_new_def
        dest!: send_request_sel split: option.splits)
next
  case (message c b c' b')
  then show ?case by (blast intro: client_message_ok)
next
  case (close c c')
  then show ?case by (auto simp: client_ok_def client_HandleClose_def rbind_eq_Inr o_def dest!: close_loop_sel)
next
  case (timeout c t c')
  show ?case
  proof (cases "\<not> gaurd c \<and> queue_cb c \<noteq> []")
    case True
    with timeout.hyps(3) have "invoke_cb user (hd (queue_cb c)) None
        ((c\<lparr>armed := armed c - {t}\<rparr>)\<lparr>connecting := False, queue_cb := tl (queue_cb c)\<rparr>) = Inr c'"
      by (simp add: client_HandleTimeout_def)
    note inv = invoke_cb_sel [OF this]
    show ?thesis unfolding client_ok_def inv using True timeout.IH by (cases "queue_cb c") (auto simp: client_ok_def)
  next
    case False
    with timeout show ?thesis by (auto simp: client_HandleTimeout_def client_ok_def)
  qed
qed



text \<open>Responses can reach the wrong caller. If a second request is made before the connection
  for the first one is up, the client opens a new connection and drops the first request: only
  the second is ever sent, its response is given to the callback of the first, and the second
  callback waits on. The connector of the dropped client then calls into a deleted object.\<close>

theorem second_request_answers_first:
  assumes "buffer_ok (request_message r2)" and "Peek (request_message r2) = []"
    and "response_ok resp" and "buffer_ok (response_message resp)"
    and "Peek (response_message resp) = []"
    and "DoHttpRequestInLoop r1 cb1 HttpClient_new = Inr c1"
    and "DoHttpRequestInLoop r2 cb2 c1 = Inr c2"
  shows "client_connected (client_id c1) c2 = Inl UseAfterFree
    \<and> (\<exists>c3 b r' c4 b'. client_connected (client_id c2) c2 = Inr c3
      \<and> wire c3 = concat (request_chunks r2)
      \<and> ResponseMessage resp = Inr (b, r')
      \<and> client_HandleMessage (\<lambda>_ _. []) b c3 = Some (Inr (c4, b'))
      \<and> results c4 = [(cb1, Some (resp\<lparr>close_state := False,
                           response_message := new_Buffer kInitBufferSize\<rparr>))]
      \<and> queue_cb c4 = [cb2])"
proof -
  have c1: "c1 = FirstRequest r1 (HttpClient_new\<lparr>queue_cb := [cb1], handed := [cb1]\<rparr>)"
    using assms(6) by (simp add: DoHttpRequestInLoop_def HttpClient_new_def)
  have c2: "c2 = FirstRequest r2 (c1\<lparr>queue_cb := [cb1, cb2], handed := [cb1, cb2]\<rparr>)"
    using assms(7)
    by (auto simp: c1 DoHttpRequestInLoop_def HttpClient_new_def FirstRequest_def)
  have dead: "client_connected (client_id c1) c2 = Inl UseAfterFree"
    by (simp add: client_connected_def c2 FirstRequest_def)
  obtain q where "RequestMessage r2 = Inr (q, r2\<lparr>request_message := q\<rparr>)"
      "Peek q = concat (request_chunks r2)"
    using RequestMessage_ok [OF assms(1)] assms(2) by auto
  then obtain c3 where c3: "client_connected (client_id c2) c2 = Inr c3"
      "wire c3 = concat (request_chunks r2)" "response_parser c3 = Some HttpResponseParser_new"
      "queue_cb c3 = [cb1, cb2]" "results c3 = []"
    by (simp add: client_connected_def c2 c1 FirstRequest_def send_request_def HttpClient_new_def)
  obtain b r' p b' where parse: "ResponseMessage resp = Inr (b, r')"
      "Response_ParseBuffer HttpResponseParser_new b = Some (Inr (True, p, b'))" "FinishParse p"
      "pmsg p = resp\<lparr>close_state := False, response_message := new_Buffer kInitBufferSize\<rparr>"
    using response_print_parse [OF assms(3-5)] by blast
  then obtain c4 where "client_HandleMessage (\<lambda>_ _. []) b c3 = Some (Inr (c4, b'))"
      "results c4 = [(cb1, Some (pmsg p))]" "queue_cb c4 = [cb2]"
    using c3 by (simp add: client_HandleMessage_def invoke_cb_def Let_def)
  with dead c3(1,2) parse show ?thesis by (intro conjI exI) auto
qed

theorem second_request_answers_first_witness:
  "\<exists>c1 c2 c3. DoHttpRequestInLoop (HttpRequest_new kGet) 1 HttpClient_new = Inr c1
    \<and> DoHttpRequestInLoop (HttpRequest_new kHead) 2 c1 = Inr c2
    \<and> client_connected (client_id c1) c2 = Inl UseAfterFree
    \<and> client_connected (client_id c2) c2 = Inr c3
    \<and> (\<exists>b c4 b' r. client_HandleMessage (\<lambda>_ _. []) b c3 = Some (Inr (c4, b')) \<and> results c4 = [(1, Some r)])"
proof -
  obtain c1 where c1: "DoHttpRequestInLoop (HttpRequest_new kGet) 1 HttpClient_new = Inr c1" "\<not> gaurd c1"
    by (simp add: DoHttpRequestInLoop_def HttpClient_new_def FirstRequest_def)
  obtain c2 where c2: "DoHttpRequestInLoop (HttpRequest_new kHead) 2 c1 = Inr c2"
    using c1(2) by (simp add: DoHttpRequestInLoop_def)
  show ?thesis
    using second_request_answers_first [OF _ _ HttpResponse_new_ok _ _ c1(1) c2] c1(1) c2
    by (simp add: HttpRequest_new_def HttpResponse_new_def) blast
qed

end
