(* ===== verification/Slice_Status.thy ===== *)
theory Slice_Status
  imports Coding Std_Text
begin

text \<open>
  \<^verbatim>\<open>Slice\<close> (\<^verbatim>\<open>voyager/util/slice.h\<close>), a pointer and a length into memory owned by someone else, and
  \<^verbatim>\<open>Status\<close> (\<^verbatim>\<open>status.h\<close>, \<^verbatim>\<open>status.cc\<close>), whose state is one character array: four bytes of length in the
  byte order of the host (\<open>le\<close>), the code, the message.
\<close>

section \<open>Slice\<close>

text \<open>\<open>sdata\<close> is the memory from the pointer on.\<close>

record slice =
  sdata :: string
  ssize :: nat

definition slice_ok :: "slice \<Rightarrow> bool" where
  "slice_ok s \<longleftrightarrow> ssize s \<le> length (sdata s)"

definition Slice_empty :: slice where
  "Slice_empty = \<lparr>sdata = [], ssize = 0\<rparr>"

definition Slice_cstr :: "string \<Rightarrow> slice" where
  "Slice_cstr s = \<lparr>sdata = s, ssize = length (c_str s)\<rparr>"

definition Slice_string :: "string \<Rightarrow> slice" where
  "Slice_string s = \<lparr>sdata = s, ssize = length s\<rparr>"

definition slice_at :: "slice \<Rightarrow> nat \<Rightarrow> char res" where
  "slice_at s n = guard AssertionFailed (n < ssize s) (Inr (sdata s ! n))"

definition remove_prefix :: "nat \<Rightarrow> slice \<Rightarrow> slice res" where
  "remove_prefix n s =
     guard AssertionFailed (n \<le> ssize s) (Inr \<lparr>sdata = drop n (sdata s), ssize = ssize s - n\<rparr>)"

definition slice_ToString :: "slice \<Rightarrow> string" where
  "slice_ToString s = take (ssize s) (sdata s)"

text \<open>\<^verbatim>\<open>memcmp\<close>: the difference of the first bytes that differ, as unsigned numbers.\<close>

fun memcmp :: "nat \<Rightarrow> string \<Rightarrow> string \<Rightarrow> int" where
  "memcmp 0 a b = 0"
| "memcmp (Suc n) a b =
     (if hd0 a = hd0 b then memcmp n (tl a) (tl b) else int (nat_of (hd0 a)) - int (nat_of (hd0 b)))"

definition slice_compare :: "slice \<Rightarrow> slice \<Rightarrow> int" where
  "slice_compare x s =
     (let min_len = (if ssize x < ssize s then ssize x else ssize s);
          r = memcmp min_len (sdata x) (sdata s)
      in if r = 0 then if ssize x < ssize s then -1 else if ssize x > ssize s then 1 else r
         else r)"

definition starts_with :: "slice \<Rightarrow> slice \<Rightarrow> bool" where
  "starts_with x s \<longleftrightarrow> ssize x \<ge> ssize s \<and> memcmp (ssize s) (sdata x) (sdata s) = 0"

definition slice_eq :: "slice \<Rightarrow> slice \<Rightarrow> bool" where
  "slice_eq x y \<longleftrightarrow> ssize x = ssize y \<and> memcmp (ssize x) (sdata x) (sdata y) = 0"

section \<open>Status\<close>

datatype Code =
  kOk | kNotFound | kCorruption | kNotSupported | kInvalidArgument | kIOError | kNetworkError

fun code_value :: "Code \<Rightarrow> nat" where
  "code_value kOk = 0"
| "code_value kNotFound = 1"
| "code_value kCorruption = 2"
| "code_value kNotSupported = 3"
| "code_value kInvalidArgument = 4"
| "code_value kIOError = 5"
| "code_value kNetworkError = 6"

type_synonym status = "byte list option"

definition status_OK :: status where
  "status_OK = None"

text \<open>The lengths are cut to 32 bits and so is their sum; a write outside the new array is a
  fault.\<close>

definition Status_new :: "bool \<Rightarrow> Code \<Rightarrow> slice \<Rightarrow> slice \<Rightarrow> status res" where
  "Status_new le c msg msg2 =
     guard AssertionFailed (c \<noteq> kOk)
       (let len1 = (of_nat (ssize msg) :: u32);
            len2 = (of_nat (ssize msg2) :: u32);
            sz = len1 + (if len2 \<noteq> 0 then 2 + len2 else 0);
            result = replicate (unat (sz + 5)) 0;
            text1 = bytes_of_string (take (unat len1) (sdata msg));
            text2 = bytes_of_string (take (unat len2) (sdata msg2))
        in rbind (vec_copy 0 (store_word le 4 sz @ [of_nat (code_value c)] @ text1) result)
             (\<lambda>result. rbind (if len2 \<noteq> 0
                 then vec_copy (5 + unat len1) (bytes_of_string '': '' @ text2) result
                 else Inr result)
               (\<lambda>result. Inr (Some result))))"

definition CopyState :: "bool \<Rightarrow> byte list \<Rightarrow> byte list" where
  "CopyState le st = take (unat (load_word le (take 4 st) + 5 :: u32)) st"

definition copy_Status :: "bool \<Rightarrow> status \<Rightarrow> status" where
  "copy_Status le s = map_option (CopyState le) s"

definition status_ok :: "status \<Rightarrow> bool" where
  "status_ok s \<longleftrightarrow> s = None"

definition status_code :: "status \<Rightarrow> nat" where
  "status_code s = (case s of None \<Rightarrow> 0 | Some st \<Rightarrow> unat (st ! 4))"

definition IsCorruption :: "status \<Rightarrow> bool" where
  "IsCorruption s \<longleftrightarrow> status_code s = code_value kCorruption"

definition type_text :: "nat \<Rightarrow> string" where
  "type_text c =
     (if c = 0 then ''OK'' else if c = 1 then ''NotFound: '' else if c = 2 then ''Corruption: ''
      else if c = 3 then ''No implemented: '' else if c = 4 then ''Invalid argument: ''
      else if c = 5 then ''IO error: '' else if c = 6 then ''NetworkError: ''
      else ''Unknown code('' @ print_nat c @ ''): '')"

definition status_ToString :: "bool \<Rightarrow> status \<Rightarrow> string" where
  "status_ToString le s =
     (case s of None \<Rightarrow> ''OK''
      | Some st \<Rightarrow> type_text (status_code s)
          @ string_of_bytes (take (unat (load_word le (take 4 st) :: u32)) (drop 5 st)))"

section \<open>Comparison\<close>

lemma memcmp_eq_0:
  "n \<le> length a \<Longrightarrow> n \<le> length b \<Longrightarrow> memcmp n a b = 0 \<longleftrightarrow> take n a = take n b"
proof (induction n arbitrary: a b)
  case (Suc n)
  obtain x a' y b' where "a = x # a'" "b = y # b'"
    using Suc.prems by (cases a; cases b) auto
  with Suc show ?case by (auto simp: nat_of_def)
qed simp

lemma memcmp_less:
  "n \<le> length a \<Longrightarrow> n \<le> length b \<Longrightarrow> memcmp n a b < 0 \<longleftrightarrow> take n a < take n b"
proof (induction n arbitrary: a b)
  case (Suc n)
  obtain x a' y b' where "a = x # a'" "b = y # b'"
    using Suc.prems by (cases a; cases b) auto
  with Suc show ?case by (auto simp: nat_of_def less_char_def)
qed simp

lemma take_less_prefix:
  fixes xs ys :: string
  assumes "n \<le> length xs" and "n \<le> length ys" and "take n xs \<noteq> take n ys"
  shows "xs < ys \<longleftrightarrow> take n xs < take n ys"
  using assms
proof (induction n arbitrary: xs ys)
  case (Suc n)
  obtain x xs' y ys' where "xs = x # xs'" "ys = y # ys'"
    using Suc.prems by (cases xs; cases ys) auto
  with Suc show ?case by auto
qed simp

lemma less_append_iff:
  fixes xs ys zs :: string
  shows "xs @ ys < xs @ zs \<longleftrightarrow> ys < zs"
  by (induction xs) auto

text \<open>\<^verbatim>\<open>Slice::compare\<close> is the lexicographic order on the bytes the slices show, as unsigned
  characters, with a proper prefix first: negative, zero or positive exactly when the first
  is less than, equal to or greater than the second. Equality and \<^verbatim>\<open>starts_with\<close> agree with it.\<close>

theorem slice_compare_lexicographic:
  assumes "slice_ok x" and "slice_ok y"
  shows "(slice_compare x y < 0 \<longleftrightarrow> slice_ToString x < slice_ToString y)
    \<and> (slice_compare x y = 0 \<longleftrightarrow> slice_ToString x = slice_ToString y)
    \<and> (slice_eq x y \<longleftrightarrow> slice_compare x y = 0)
    \<and> (starts_with x y \<longleftrightarrow> prefix (slice_ToString y) (slice_ToString x))"
proof -
  define a b where "a = slice_ToString x" and "b = slice_ToString y"
  define n where "n = min (ssize x) (ssize y)"
  have len: "length a = ssize x" "length b = ssize y"
    using assms by (simp_all add: a_def b_def slice_ToString_def slice_ok_def)
  have cmp: "memcmp n (sdata x) (sdata y) = 0 \<longleftrightarrow> take n a = take n b"
      "memcmp n (sdata x) (sdata y) < 0 \<longleftrightarrow> take n a < take n b"
    using assms memcmp_eq_0 [of n "sdata x" "sdata y"] memcmp_less [of n "sdata x" "sdata y"]
    by (simp_all add: a_def b_def slice_ToString_def slice_ok_def n_def min_def split: if_splits)
  have r: "slice_compare x y =
      (if memcmp n (sdata x) (sdata y) = 0
       then if ssize x < ssize y then -1 else if ssize y < ssize x then 1 else 0
       else memcmp n (sdata x) (sdata y))"
    by (simp add: slice_compare_def n_def Let_def min_def)
  have split: "a = take n a @ drop n a" "b = take n b @ drop n b" by simp_all
  have "(slice_compare x y < 0 \<longleftrightarrow> a < b) \<and> (slice_compare x y = 0 \<longleftrightarrow> a = b)"
  proof (cases "take n a = take n b")
    case True
    then have "a < b \<longleftrightarrow> drop n a < drop n b" "a = b \<longleftrightarrow> drop n a = drop n b"
      using split less_append_iff [of "take n a"] by (metis, metis)
    moreover have "drop n a = [] \<or> drop n b = []" using len by (simp add: n_def min_def)
    ultimately show ?thesis
      using True cmp r len by (cases "drop n a"; cases "drop n b") (auto simp: n_def)
  next
    case False
    then show ?thesis
      using take_less_prefix [of n a b] cmp r len by (auto simp: n_def)
  qed
  moreover have "slice_eq x y \<longleftrightarrow> a = b"
  proof (cases "ssize x = ssize y")
    case True
    with assms show ?thesis
      by (simp add: slice_eq_def slice_ok_def a_def b_def slice_ToString_def memcmp_eq_0)
  next
    case False
    with len show ?thesis by (auto simp: slice_eq_def)
  qed
  moreover have "starts_with x y \<longleftrightarrow> prefix b a"
  proof -
    have "prefix b a \<longleftrightarrow> ssize y \<le> ssize x \<and> take (ssize y) a = b"
      using len by (metis append_eq_conv_conj append_take_drop_id prefix_def prefix_length_le)
    also have "\<dots> \<longleftrightarrow> ssize y \<le> ssize x \<and> take (ssize y) (sdata x) = take (ssize y) (sdata y)"
      by (auto simp: a_def b_def slice_ToString_def min_def)
    finally show ?thesis
      using assms memcmp_eq_0 [of "ssize y" "sdata x" "sdata y"]
      by (auto simp: starts_with_def slice_ok_def)
  qed
  ultimately show ?thesis by (simp add: a_def b_def)
qed

theorem slice_compare_lexicographic_witness:
  "slice_compare (Slice_string ''ab'') (Slice_string ''b'') < 0
   \<and> slice_compare (Slice_string ''ab'') (Slice_string ''ab'') = 0"
proof -
  have "slice_ok (Slice_string s)" "slice_ToString (Slice_string s) = s" for s
    by (simp_all add: slice_ok_def Slice_string_def slice_ToString_def)
  then show ?thesis
    using slice_compare_lexicographic [of "Slice_string ''ab''" "Slice_string ''b''"]
      slice_compare_lexicographic [of "Slice_string ''ab''" "Slice_string ''ab''"]
    by (simp add: less_char_def)
qed

section \<open>Messages\<close>

lemma length_store_word [simp]: "length (store_word le n v) = n"
  by (simp add: store_word_def)

lemma load_store_word: "load_word le (store_word le 4 v) = (v :: u32)"
  by (simp add: load_word_def store_word_def le_word_le_bytes take_bit_word_eq_self)

definition status_message :: "slice \<Rightarrow> slice \<Rightarrow> string" where
  "status_message msg msg2 = slice_ToString msg
     @ (if ssize msg2 = 0 then [] else '': '' @ slice_ToString msg2)"

lemma write_at_end: "length xs = i \<Longrightarrow> write_at i ys (xs @ zs) = xs @ ys @ drop (length ys) zs"
  by (simp add: write_at_def)

lemma unat_sz:
  assumes "a + b + 7 < 2 ^ 32"
  shows "unat (of_nat a + (if (of_nat b :: u32) \<noteq> 0 then 2 + of_nat b else 0) :: u32)
    = a + (if b = 0 then 0 else 2 + b)"
proof -
  have "(of_nat b :: u32) = 0 \<longleftrightarrow> b = 0"
    using assms by (auto simp: word_of_nat_eq_0_iff dest: dvd_imp_le)
  then have "of_nat a + (if (of_nat b :: u32) \<noteq> 0 then 2 + of_nat b else 0) = (of_nat (a + (if b = 0 then 0 else 2 + b)) :: u32)"
    by simp
  then show ?thesis using assms by (simp only: unat_of_nat) simp
qed

text \<open>The array a message is stored in.\<close>

lemma Status_new_eq:
  assumes "c \<noteq> kOk" and "slice_ok msg" and "slice_ok msg2" and "ssize msg + ssize msg2 + 7 < 2 ^ 32"
  shows "Status_new le c msg msg2 = Inr (Some (store_word le 4 (of_nat (length (status_message msg msg2)) :: u32)
    @ [of_nat (code_value c)] @ bytes_of_string (status_message msg msg2)))"
proof -
  let ?n = "ssize msg" and ?m = "ssize msg2"
  define sz where "sz = (of_nat ?n + (if (of_nat ?m :: u32) \<noteq> 0 then 2 + of_nat ?m else 0) :: u32)"
  have small: "unat (of_nat ?n :: u32) = ?n" "unat (of_nat ?m :: u32) = ?m" "(of_nat ?m :: u32) = 0 \<longleftrightarrow> ?m = 0"
    using assms(4) by (simp_all add: unat_of_nat) (auto simp: word_of_nat_eq_0_iff dest: dvd_imp_le)
  have total: "unat sz = ?n + (if ?m = 0 then 0 else 2 + ?m)"
    unfolding sz_def using assms(4) by (rule unat_sz)
  have len: "length (status_message msg msg2) = unat sz"
    using assms(2,3) total by (simp add: status_message_def slice_ok_def slice_ToString_def)
  have sz5: "unat (sz + 5) = unat sz + 5"
    using total assms(4) by (subst unat_add_lem [THEN iffD1]) (auto split: if_splits)
  define h where "h = store_word le 4 sz @ [of_nat (code_value c)]"
  have h: "length h = 5" by (simp add: h_def)
  define t where "t = bytes_of_string (take ?n (sdata msg))"
  have t: "length t = ?n" using assms(2) by (simp add: t_def slice_ok_def)
  have "vec_copy 0 (h @ t) (replicate (unat sz + 5) 0)
      = Inr ((h @ t) @ replicate (unat sz - ?n) 0)"
    using h t total by (simp add: vec_copy_def write_at_def)
  moreover have "(if ?m \<noteq> 0 then vec_copy (5 + ?n) (bytes_of_string '': '' @ bytes_of_string (take ?m (sdata msg2)))
        ((h @ t) @ replicate (unat sz - ?n) 0) else Inr ((h @ t) @ replicate (unat sz - ?n) 0))
      = Inr (h @ bytes_of_string (status_message msg msg2))"
    using h t total assms(3) write_at_end [of "h @ t" "5 + ?n"]
    by (auto simp: vec_copy_def status_message_def slice_ToString_def slice_ok_def t_def
        bytes_of_string_def)
  moreover have "Status_new le c msg msg2 = rbind (vec_copy 0 (h @ t) (replicate (unat sz + 5) 0))
      (\<lambda>r. rbind (if ?m \<noteq> 0 then vec_copy (5 + ?n) (bytes_of_string '': '' @ bytes_of_string (take ?m (sdata msg2))) r
             else Inr r) (\<lambda>r. Inr (Some r)))"
    unfolding Status_new_def Let_def unfolding sz_def [symmetric]
    unfolding small sz5 h_def t_def append_assoc using assms(1) by simp
  ultimately have "Status_new le c msg msg2 = Inr (Some (h @ bytes_of_string (status_message msg msg2)))"
    by (simp only: rbind_simps)
  moreover have "of_nat (length (status_message msg msg2)) = sz" unfolding len by simp
  ultimately show ?thesis by (simp add: h_def)
qed

text \<open>A \<^verbatim>\<open>Status\<close> keeps its code and its message. Built from a code and one or two messages that
  together stay below 4 GiB, it reports that code, prints the name of the code, the first
  message and, if there is one, the second after a colon, on hosts of either byte order; and
  a copy of it is equal to it.\<close>

theorem status_keeps_message:
  assumes "c \<noteq> kOk" and "slice_ok msg" and "slice_ok msg2" and "ssize msg + ssize msg2 + 7 < 2 ^ 32"
  shows "\<exists>s. Status_new le c msg msg2 = Inr s \<and> \<not> status_ok s \<and> status_code s = code_value c
    \<and> status_ToString le s = type_text (code_value c) @ slice_ToString msg
        @ (if ssize msg2 = 0 then [] else '': '' @ slice_ToString msg2)
    \<and> copy_Status le s = s"
proof -
  define m where "m = status_message msg msg2"
  have len: "length m < 2 ^ 32 - 5"
    using assms(2-4) by (simp add: m_def status_message_def slice_ToString_def slice_ok_def)
  then have n: "unat (of_nat (length m) :: u32) = length m" by (simp add: unat_of_nat)
  then have n5: "unat (of_nat (length m) + 5 :: u32) = length m + 5"
    using len by (subst unat_add_lem [THEN iffD1]) auto
  let ?st = "store_word le 4 (of_nat (length m) :: u32) @ [of_nat (code_value c)] @ bytes_of_string m"
  have head: "take 4 ?st = store_word le 4 (of_nat (length m) :: u32)" by simp
  have "unat (?st ! 4) = code_value c"
    by (cases c) (simp_all add: nth_append)
  moreover have "drop 5 ?st = bytes_of_string m" by simp
  ultimately show ?thesis
    using Status_new_eq [OF assms, of le] n n5 unfolding m_def [symmetric]
    by (auto simp: status_ok_def status_code_def status_ToString_def copy_Status_def CopyState_def
        load_store_word m_def [unfolded status_message_def])
qed

theorem status_keeps_message_witness:
  "\<exists>s. Status_new True kCorruption (Slice_string ''bad'') (Slice_string ''x'') = Inr s
    \<and> IsCorruption s \<and> status_ToString True s = ''Corruption: bad: x''"
proof -
  have "slice_ok (Slice_string ''bad'')" "slice_ok (Slice_string ''x'')"
      "ssize (Slice_string ''bad'') + ssize (Slice_string ''x'') + 7 < 2 ^ 32"
    by (simp_all add: Slice_string_def slice_ok_def)
  from status_keeps_message [OF _ this, of kCorruption True] show ?thesis
    by (auto simp: IsCorruption_def type_text_def Slice_string_def slice_ToString_def)
qed

end
