(* ===== verification/Json.thy ===== *)
theory Json
  imports Std_Text
begin

text \<open>
  The JSON component (\<^verbatim>\<open>voyager/util/json\<close>): values, the reader over a character array, the writer
  and the parser. Numbers are doubles, which the writer only formats and the parser computes and
  drops: their type is a parameter \<open>'d\<close>, and the \<^verbatim>\<open>ostringstream\<close> formatting an argument of the
  writer. A failed parse gives the message of the \<^verbatim>\<open>Status::Corruption\<close>; a failed assertion of the
  reader is a fault. The parser is recursive on the text with fuel, of which twice the length of
  the input plus two is always enough.
\<close>

section \<open>Values\<close>

datatype 'd json_value =
  JString string
| JNum 'd bool
| JObj "(string \<times> 'd json_value option) list"
| JArray "'d json_value option list"
| JBoolean bool

text \<open>\<^verbatim>\<open>JsonValuePtr\<close>: \<open>None\<close> is the null pointer.\<close>

type_synonym 'd json_ptr = "'d json_value option"

datatype JsonType = kJsonTypeString | kJsontypeNum | kJsonTypeObj | kJsonTypeArray | kJsonTypeBoolean

fun GetType :: "'d json_value \<Rightarrow> JsonType" where
  "GetType (JString _) = kJsonTypeString"
| "GetType (JNum _ _) = kJsontypeNum"
| "GetType (JObj _) = kJsonTypeObj"
| "GetType (JArray _) = kJsonTypeArray"
| "GetType (JBoolean _) = kJsonTypeBoolean"

section \<open>Writing\<close>

abbreviation quote :: char where "quote \<equiv> CHR 0x22"
abbreviation backslash :: char where "backslash \<equiv> CHR 0x5C"

definition hex_digit :: "nat \<Rightarrow> char" where
  "hex_digit n = (if n < 10 then char_of (48 + n) else char_of (87 + n))"

text \<open>\<^verbatim>\<open>%04x\<close> of a byte.\<close>

definition hex4 :: "nat \<Rightarrow> string" where
  "hex4 n = ''00'' @ [hex_digit (n div 16), hex_digit (n mod 16)]"

definition json_replace :: "char \<Rightarrow> string option" where
  "json_replace c =
     (if c = quote then Some [backslash, quote]
      else if c = backslash then Some [backslash, backslash]
      else if c = CHR ''/'' then Some [backslash, CHR ''/'']
      else if c = CHR 0x08 then Some [backslash, CHR ''b'']
      else if c = CHR 0x0C then Some [backslash, CHR ''f'']
      else if c = CHR 0x0A then Some [backslash, CHR ''n'']
      else if c = CHR 0x0D then Some [backslash, CHR ''r'']
      else if c = CHR 0x09 then Some [backslash, CHR ''t'']
      else if nat_of c < 32 then Some ([backslash, CHR ''u''] @ hex4 (nat_of c))
      else None)"

text \<open>The loop of \<^verbatim>\<open>WriteString\<close>: characters from \<open>beg\<close> to \<open>i\<close> are copied in one piece when a
  character has to be replaced and at the end.\<close>

function write_loop :: "string \<Rightarrow> nat \<Rightarrow> nat \<Rightarrow> string \<Rightarrow> string" where
  "write_loop s beg i res =
     (if i < length s then
        (case json_replace (s ! i) of
           Some replace \<Rightarrow> write_loop s (Suc i) (Suc i) (res @ take (i - beg) (drop beg s) @ replace)
         | None \<Rightarrow> write_loop s beg (Suc i) res)
      else res @ take (i - beg) (drop beg s))"
  by pat_completeness auto

termination
  by (relation "measure (\<lambda>(s, beg, i, res). length s - i)") auto

declare write_loop.simps [simp del]

text \<open>The writers give the text they append to \<^verbatim>\<open>*result\<close>.\<close>

definition WriteString :: "string \<Rightarrow> string" where
  "WriteString s = write_loop s 0 0 [quote] @ [quote]"

function Stringify :: "('d \<Rightarrow> bool \<Rightarrow> string) \<Rightarrow> 'd json_ptr \<Rightarrow> string"
  and WriteObj :: "('d \<Rightarrow> bool \<Rightarrow> string) \<Rightarrow> bool \<Rightarrow> (string \<times> 'd json_ptr) list \<Rightarrow> string"
  and WriteArray :: "('d \<Rightarrow> bool \<Rightarrow> string) \<Rightarrow> bool \<Rightarrow> 'd json_ptr list \<Rightarrow> string" where
  "Stringify fmt None = ''null''"
| "Stringify fmt (Some (JString s)) = WriteString s"
| "Stringify fmt (Some (JNum d is_int)) = fmt d is_int"
| "Stringify fmt (Some (JObj m)) = ''{ '' @ WriteObj fmt True m @ '' }''"
| "Stringify fmt (Some (JArray xs)) = ''[ '' @ WriteArray fmt True xs @ '' ]''"
| "Stringify fmt (Some (JBoolean b)) = (if b then ''true'' else ''false'')"
| "WriteObj fmt first [] = []"
| "WriteObj fmt first (kv # m) =
     (if first then [] else '', '') @ WriteString (fst kv) @ '': '' @ Stringify fmt (snd kv)
     @ WriteObj fmt False m"
| "WriteArray fmt first [] = []"
| "WriteArray fmt first (x # xs) =
     (if first then [] else '', '') @ Stringify fmt x @ WriteArray fmt False xs"
  by pat_completeness auto

termination
  by (relation "measure (\<lambda>x. case x of
        Inl (_, p) \<Rightarrow> size_option size p
      | Inr (Inl (_, _, m)) \<Rightarrow> size_list (\<lambda>kv. size_option size (snd kv)) m
      | Inr (Inr (_, _, xs)) \<Rightarrow> size_list (size_option size) xs)")
     (auto simp: size_prod_simp less_Suc_eq_le intro!: le_SucI size_list_pointwise)

section \<open>Reading\<close>

record json_reader =
  jdata :: string
  jcur :: nat

definition HasEnd :: "json_reader \<Rightarrow> bool" where
  "HasEnd r \<longleftrightarrow> jcur r \<ge> length (jdata r)"

definition Read :: "json_reader \<Rightarrow> (char \<times> json_reader) res" where
  "Read r = guard AssertionFailed (jcur r + 1 \<le> length (jdata r))
     (Inr (jdata r ! jcur r, r\<lparr>jcur := jcur r + 1\<rparr>))"

definition Back :: "json_reader \<Rightarrow> json_reader res" where
  "Back r = guard AssertionFailed (jcur r > 0) (Inr (r\<lparr>jcur := jcur r - 1\<rparr>))"

text \<open>Where the code has tested \<^verbatim>\<open>HasEnd\<close>, \<^verbatim>\<open>Read\<close> cannot fail: \<open>peek_char\<close> and \<open>advance\<close> are then its
  two effects.\<close>

definition peek_char :: "json_reader \<Rightarrow> char" where
  "peek_char r = jdata r ! jcur r"

definition advance :: "json_reader \<Rightarrow> json_reader" where
  "advance r = r\<lparr>jcur := jcur r + 1\<rparr>"

lemma Read_not_end: "\<not> HasEnd r \<Longrightarrow> Read r = Inr (peek_char r, advance r)"
  by (simp add: HasEnd_def Read_def peek_char_def advance_def)

definition json_ws :: "char \<Rightarrow> bool" where
  "json_ws c \<longleftrightarrow> c = CHR '' '' \<or> c = CHR 0x09 \<or> c = CHR 0x0D \<or> c = CHR 0x0A"

function skip_loop :: "char \<Rightarrow> json_reader \<Rightarrow> char \<times> json_reader" where
  "skip_loop c r = (if \<not> HasEnd r \<and> json_ws c then skip_loop (peek_char r) (advance r) else (c, r))"
  by pat_completeness auto

termination
  by (relation "measure (\<lambda>(c, r). length (jdata r) - jcur r)") (auto simp: HasEnd_def advance_def)

declare skip_loop.simps [simp del]

definition SkipWhiteSpace :: "json_reader \<Rightarrow> char \<times> json_reader" where
  "SkipWhiteSpace r = skip_loop (CHR '' '') r"

type_synonym 'a jres = "((string + 'a) \<times> json_reader) res"

definition pos_text :: "string \<Rightarrow> json_reader \<Rightarrow> string" where
  "pos_text s r = s @ ''[pos:'' @ print_nat (jcur r mod 2 ^ 32) @ '']''"

text \<open>\<^verbatim>\<open>GetHex\<close> reads four characters; a character that is no digit is skipped, since the status it
  creates is dropped.\<close>

definition hex_step :: "u16 \<Rightarrow> char \<Rightarrow> u16" where
  "hex_step code c =
     (let n = nat_of c in
      if 97 \<le> n \<and> n \<le> 102 then code * 16 + of_nat (n - 97) + 10
      else if 65 \<le> n \<and> n \<le> 70 then code * 16 + of_nat (n - 65) + 10
      else if 48 \<le> n \<and> n \<le> 57 then code * 16 + of_nat (n - 48)
      else code)"

fun get_hex :: "nat \<Rightarrow> u16 \<Rightarrow> json_reader \<Rightarrow> (u16 \<times> json_reader) res" where
  "get_hex 0 code r = Inr (code, r)"
| "get_hex (Suc n) code r = rbind (Read r) (\<lambda>(c, r). get_hex n (hex_step code c) r)"

definition GetHex :: "json_reader \<Rightarrow> (u16 \<times> json_reader) res" where
  "GetHex r = get_hex 4 0 r"

lemma get_hex_sel: "get_hex n code r = Inr (x, r') \<Longrightarrow> jdata r' = jdata r \<and> jcur r' = jcur r + n
    \<and> (0 < n \<longrightarrow> jcur r' \<le> length (jdata r'))"
  by (induction n arbitrary: code r) (fastforce simp: Read_def rbind_eq_Inr guard_eq_Inr)+

text \<open>The end of \<^verbatim>\<open>GetString\<close>, and its loop: \<open>pk\<close> is the offset of \<^verbatim>\<open>peek\<close>, \<open>c\<close> the character read
  last, \<open>i\<close> the number of characters since \<^verbatim>\<open>peek\<close>, which the code counts in a \<^verbatim>\<open>uint32_t\<close>. What an unknown
  escape sequence stands for is dropped.\<close>

definition get_string_end :: "char \<Rightarrow> nat \<Rightarrow> u32 \<Rightarrow> string \<Rightarrow> char \<Rightarrow> json_reader \<Rightarrow> string jres" where
  "get_string_end head pk i value c r =
     (if c \<noteq> head then Inr (Inl (pos_text (''get string error('' @ [backslash] @ ''u)'') r), r)
      else Inr (Inr (value @ take (unat i) (drop pk (jdata r))), r))"

function get_string :: "char \<Rightarrow> nat \<Rightarrow> u32 \<Rightarrow> string \<Rightarrow> char \<Rightarrow> json_reader \<Rightarrow> string jres" where
  "get_string head pk i value c r =
     (if HasEnd r then get_string_end head pk i value c r
      else let c = peek_char r; r = advance r in
        if c = backslash then
          (let value = value @ take (unat i) (drop pk (jdata r)); pk = pk + unat i + 2 in
           if HasEnd r then get_string_end head pk 0 value c r
           else let c = peek_char r; r = advance r in
             if c = backslash \<or> c = quote \<or> c = CHR ''/'' then get_string head pk 0 (value @ [c]) c r
             else if c = CHR ''b'' then get_string head pk 0 (value @ [CHR 0x08]) c r
             else if c = CHR ''f'' then get_string head pk 0 (value @ [CHR 0x0C]) c r
             else if c = CHR ''n'' then get_string head pk 0 (value @ [CHR 0x0A]) c r
             else if c = CHR ''r'' then get_string head pk 0 (value @ [CHR 0x0D]) c r
             else if c = CHR ''t'' then get_string head pk 0 (value @ [CHR 0x09]) c r
             else if c = CHR ''u'' then
               rbind (GetHex r) (\<lambda>(icode, r).
                 if icode > 0xff
                 then Inr (Inl (pos_text (''get string error('' @ [backslash] @ ''u)'') r), r)
                 else get_string head (pk + 4) 0 (value @ [char_of_byte (ucast icode)]) c r)
             else get_string head pk 0 value c r)
        else if c = head then get_string_end head pk i value c r
        else get_string head pk (i + 1) value c r)"
  by pat_completeness auto

termination
  by (relation "measure (\<lambda>(head, pk, i, value, c, r). length (jdata r) - jcur r)")
     (auto simp: HasEnd_def advance_def GetHex_def dest!: get_hex_sel)

declare get_string.simps [simp del]

definition GetString :: "json_reader \<Rightarrow> char \<Rightarrow> string jres" where
  "GetString r head = get_string head (jcur r) 0 [] (CHR 0x00) r"

text \<open>\<^verbatim>\<open>GetNum\<close>: the literal as the local variables hold it; the digits after the point are kept as
  digits, where the code adds them up in a double. The two \<^verbatim>\<open>int64_t\<close> are 64 bits wide; where a
  literal is too long for them, C++ leaves the value open, and here it wraps. The \<^verbatim>\<open>JsonValueNum\<close>
  made from the literal is not stored anywhere, so \<^verbatim>\<open>*p\<close> stays as it was.\<close>

record json_num =
  is_ok :: bool
  is_float :: bool
  is_exponential :: bool
  is_negative :: bool
  is_exponential_negative :: bool
  int_value :: u64
  float_digits :: "int list"
  exponential_value :: u64

function num_loop :: "json_num \<Rightarrow> json_reader \<Rightarrow> json_num \<times> bool \<times> json_reader" where
  "num_loop s r =
     (if HasEnd r then (s, False, r)
      else let c = peek_char r; r = advance r in
        if isdigit c then
          num_loop (if is_exponential s
                    then s\<lparr>is_ok := True, exponential_value := exponential_value s * 10 + of_int (digit_value c)\<rparr>
                    else if is_float s then s\<lparr>is_ok := True, float_digits := float_digits s @ [digit_value c]\<rparr>
                    else s\<lparr>is_ok := True, int_value := int_value s * 10 + of_int (digit_value c)\<rparr>) r
        else if c = CHR ''.'' \<and> \<not> is_float s \<and> \<not> is_exponential s \<and> is_ok s then
          num_loop (s\<lparr>is_ok := False, is_float := True\<rparr>) r
        else if (c = CHR ''e'' \<or> c = CHR ''E'') \<and> \<not> is_exponential s \<and> is_ok s then
          (let s = s\<lparr>is_ok := False, is_exponential := True, exponential_value := 0\<rparr> in
           if HasEnd r then (s, False, r)
           else let c = peek_char r; r = advance r in
             if c = CHR ''-'' then num_loop (s\<lparr>is_exponential_negative := True\<rparr>) r
             else if c = CHR ''+'' then num_loop (s\<lparr>is_exponential_negative := False\<rparr>) r
             else if isdigit c then
               num_loop (s\<lparr>is_ok := True, exponential_value := of_int (digit_value c)\<rparr>) r
             else (s, True, r))
        else (s, True, r))"
  by pat_completeness auto

termination
  by (relation "measure (\<lambda>(s, r). length (jdata r) - jcur r)") (auto simp: HasEnd_def advance_def)

declare num_loop.simps [simp del]

definition GetNum :: "json_reader \<Rightarrow> char \<Rightarrow> json_num jres" where
  "GetNum r head =
     (let s = \<lparr>is_ok = (head \<noteq> CHR ''-''), is_float = False, is_exponential = False,
               is_negative = (head = CHR ''-''), is_exponential_negative = False,
               int_value = (if head = CHR ''-'' then 0 else of_int (digit_value head)), float_digits = [],
               exponential_value = 0\<rparr>;
          (s, is_needback, r) = num_loop s r
      in if \<not> is_ok s then Inr (Inl (pos_text ''get num error'' r), r)
         else rbind (if is_needback then Back r else Inr r)
           (\<lambda>r. Inr (Inr (s\<lparr>exponential_value := (if is_exponential_negative s
                     then 0 - exponential_value s else exponential_value s)\<rparr>), r)))"

text \<open>\<^verbatim>\<open>strncasecmp\<close> on what follows the character already read.\<close>

fun read_n :: "nat \<Rightarrow> json_reader \<Rightarrow> json_reader res" where
  "read_n 0 r = Inr r"
| "read_n (Suc n) r = rbind (Read r) (\<lambda>(_, r). read_n n r)"

definition rest_of :: "json_reader \<Rightarrow> string" where
  "rest_of r = drop (jcur r) (jdata r)"

definition GetBoolean :: "json_reader \<Rightarrow> char \<Rightarrow> bool jres" where
  "GetBoolean r c =
     (if (c = CHR ''t'' \<or> c = CHR ''T'') \<and> strncaseeq 4 (rest_of r) ''true'' then
        rbind (read_n 3 r) (\<lambda>r. Inr (Inr True, r))
      else if (c = CHR ''f'' \<or> c = CHR ''F'') \<and> strncaseeq 5 (rest_of r) ''false'' then
        rbind (read_n 4 r) (\<lambda>r. Inr (Inr False, r))
      else Inr (Inl (pos_text ''get bool error'' r), r))"

definition GetNull :: "json_reader \<Rightarrow> char \<Rightarrow> unit jres" where
  "GetNull r c =
     guard AssertionFailed (c = CHR ''n'' \<or> c = CHR ''N'')
       (if strncaseeq 4 (rest_of r) ''null'' then rbind (read_n 3 r) (\<lambda>r. Inr (Inr (), r))
        else Inr (Inl (pos_text ''get NULL error'' r), r))"

section \<open>The recursive parser\<close>

text \<open>The pointer a value is stored to has the value \<open>p0\<close> before; a number or \<^verbatim>\<open>null\<close> leaves it.
  What the pointer holds after an error is left out.\<close>

definition jmap :: "('a \<Rightarrow> 'b) \<Rightarrow> 'a jres \<Rightarrow> 'b jres" where
  "jmap f m = rbind m (\<lambda>(x, r). Inr (map_sum id f x, r))"

text \<open>The branches of \<^verbatim>\<open>GetValue\<close> that read no nested value.\<close>

definition get_leaf :: "'d json_ptr \<Rightarrow> char \<Rightarrow> json_reader \<Rightarrow> 'd json_ptr jres" where
  "get_leaf p0 c r =
     (if c = quote then jmap (\<lambda>s. Some (JString s)) (GetString r c)
      else if c \<in> {CHR ''T'', CHR ''t'', CHR ''F'', CHR ''f''}
      then jmap (\<lambda>b. Some (JBoolean b)) (GetBoolean r c)
      else if isdigit c \<or> c = CHR ''-'' then jmap (\<lambda>_. p0) (GetNum r c)
      else if c = CHR ''n'' \<or> c = CHR ''N'' then jmap (\<lambda>_. p0) (GetNull r c)
      else Inr (Inl (''buffer overflow when peekBuf, over ''
                     @ print_nat (jcur r mod 2 ^ 32) @ ''.''), r))"

fun GetValue :: "nat \<Rightarrow> 'd json_ptr \<Rightarrow> json_reader \<Rightarrow> 'd json_ptr jres option"
  and GetObj :: "nat \<Rightarrow> bool \<Rightarrow> 'd json_ptr std_map \<Rightarrow> json_reader \<Rightarrow> 'd json_ptr jres option"
  and GetArray :: "nat \<Rightarrow> bool \<Rightarrow> char \<Rightarrow> 'd json_ptr list \<Rightarrow> json_reader \<Rightarrow> 'd json_ptr jres option" where
  "GetValue 0 p0 r = None"
| "GetValue (Suc n) p0 r =
     (case SkipWhiteSpace r of (c, r) \<Rightarrow>
        if c = CHR ''{'' then GetObj n True [] r
        else if c = CHR ''['' then (case SkipWhiteSpace r of (c, r) \<Rightarrow> GetArray n True c [] r)
        else Some (get_leaf p0 c r))"
| "GetObj 0 first m r = None"
| "GetObj (Suc n) first m r =
     (case SkipWhiteSpace r of (c, r) \<Rightarrow>
        if c = CHR ''}'' \<and> first then Some (Inr (Inr (Some (JObj m)), r))
        else if c \<noteq> quote then Some (Inr (Inl (pos_text ''get obj error(key is not string)'' r), r))
        else (case GetString r quote of
          Inl e \<Rightarrow> Some (Inl e)
        | Inr (Inl e, r) \<Rightarrow> Some (Inr (Inl e, r))
        | Inr (Inr key, r) \<Rightarrow>
            (case SkipWhiteSpace r of (c, r) \<Rightarrow>
               if c \<noteq> CHR '':'' then Some (Inr (Inl (pos_text ''get obj error(: not find)'' r), r))
               else (case GetValue n None r of
                 None \<Rightarrow> None
               | Some (Inl e) \<Rightarrow> Some (Inl e)
               | Some (Inr (Inl e, r)) \<Rightarrow> Some (Inr (Inl e, r))
               | Some (Inr (Inr temp, r)) \<Rightarrow>
                   (let m = smap_put key temp m in
                    case SkipWhiteSpace r of (c, r) \<Rightarrow>
                      if c = CHR '','' then GetObj n False m r
                      else if c = CHR ''}'' then Some (Inr (Inr (Some (JObj m)), r))
                      else Some (Inr (Inl (pos_text ''get obj error(, not find)'' r), r)))))))"
| "GetArray 0 first c xs r = None"
| "GetArray (Suc n) first c xs r =
     (if HasEnd r then Some (Inr (Inl (pos_text ''get vector error(] not find )'' r), r))
      else if first \<and> c = CHR '']'' then Some (Inr (Inr (Some (JArray xs)), r))
      else (case (if first then Back r else Inr r) of
        Inl e \<Rightarrow> Some (Inl e)
      | Inr r \<Rightarrow>
          (case GetValue n None r of
             None \<Rightarrow> None
           | Some (Inl e) \<Rightarrow> Some (Inl e)
           | Some (Inr (Inl e, r)) \<Rightarrow> Some (Inr (Inl e, r))
           | Some (Inr (Inr v, r)) \<Rightarrow>
               (case SkipWhiteSpace r of (c, r) \<Rightarrow>
                  if c = CHR '','' then GetArray n False c (xs @ [v]) r
                  else if c = CHR '']'' then Some (Inr (Inr (Some (JArray (xs @ [v]))), r))
                  else Some (Inr (Inl (pos_text ''get vector error(, not find )'' r), r))))))"

definition Parse :: "string \<Rightarrow> 'd json_ptr \<Rightarrow> 'd json_ptr jres option" where
  "Parse str p = GetValue (2 * length str + 2) p \<lparr>jdata = str, jcur = 0\<rparr>"

end
