(* ===== verification/Json_Correct.thy ===== *)
theory Json_Correct
  imports Json
begin

text \<open>
  Proofs about the JSON component: the parser returns on every text (each nested value consumes
  input), what the writer prints for strings, objects and arrays is read back as the same value,
  and which values are not.
\<close>

section \<open>Termination\<close>

definition remaining :: "json_reader \<Rightarrow> nat" where
  "remaining r = length (jdata r) - jcur r"

definition follows :: "json_reader \<Rightarrow> json_reader \<Rightarrow> bool" where
  "follows r r' \<longleftrightarrow> jdata r' = jdata r \<and> jcur r \<le> jcur r'"

lemma follows_refl [simp]: "follows r r"
  and follows_trans [trans]: "follows r r1 \<Longrightarrow> follows r1 r2 \<Longrightarrow> follows r r2"
  and follows_remaining: "follows r r' \<Longrightarrow> remaining r' \<le> remaining r"
  and follows_advance [simp]: "follows r (advance r)"
  by (auto simp: follows_def remaining_def advance_def)

lemma remaining_advance: "\<not> HasEnd r \<Longrightarrow> remaining (advance r) < remaining r"
  by (auto simp: remaining_def advance_def HasEnd_def)

lemma skip_loop_follows: "skip_loop c r = (c', r') \<Longrightarrow> follows r r'"
proof (induction c r rule: skip_loop.induct)
  case (1 c r)
  then show ?case
    by (subst (asm) (2) skip_loop.simps) (auto split: if_splits intro: follows_trans [OF follows_advance])
qed

lemma SkipWhiteSpace_end: "HasEnd r \<Longrightarrow> SkipWhiteSpace r = (CHR '' '', r)"
  by (simp add: SkipWhiteSpace_def skip_loop.simps)

lemma SkipWhiteSpace_progress:
  assumes "SkipWhiteSpace r = (c, r')" and "\<not> HasEnd r"
  shows "remaining r' < remaining r"
proof -
  have "skip_loop (peek_char r) (advance r) = (c, r')"
    using assms by (simp add: SkipWhiteSpace_def skip_loop.simps [of "CHR '' ''"] json_ws_def)
  then show ?thesis
    using skip_loop_follows follows_remaining remaining_advance [OF assms(2)] by fastforce
qed

lemma SkipWhiteSpace_le: "SkipWhiteSpace r = (c, r') \<Longrightarrow> remaining r' \<le> remaining r"
  using skip_loop_follows follows_remaining by (simp add: SkipWhiteSpace_def)

text \<open>A character other than a blank has been read.\<close>

lemma SkipWhiteSpace_read:
  "SkipWhiteSpace r = (c, r') \<Longrightarrow> c \<noteq> CHR '' '' \<Longrightarrow> remaining r' < remaining r"
  using SkipWhiteSpace_end [of r] SkipWhiteSpace_progress [of r c r'] by (cases "HasEnd r") auto

lemma get_string_end_follows: "get_string_end h pk i v c r = Inr (x, r') \<Longrightarrow> r' = r"
  by (auto simp: get_string_end_def split: if_splits)

lemma GetHex_follows: "GetHex r = Inr (k, r') \<Longrightarrow> follows r r'"
  using get_hex_sel [of 4 0 r k r'] by (simp add: GetHex_def follows_def)

lemma get_string_follows: "get_string h pk i v c r = Inr (x, r') \<Longrightarrow> follows r r'"
proof (induction "remaining r" arbitrary: pk i v c r rule: less_induct)
  case less
  show ?case
  proof (cases "HasEnd r")
    case True
    with less.prems show ?thesis
      by (subst (asm) get_string.simps) (auto dest: get_string_end_follows)
  next
    case False
    let ?r1 = "advance r" and ?r2 = "advance (advance r)"
    have step: "follows r r'" if "get_string h pk' i' v' c' r0 = Inr (x, r')" "follows ?r1 r0" for pk' i' v' c' r0
      using less.hyps [of r0, OF _ that(1)] that(2) remaining_advance [OF False] follows_remaining
      by (meson follows_advance follows_trans le_less_trans)
    have r2: "follows ?r1 ?r2" by simp
    have hex: "follows ?r1 r0" if "GetHex ?r2 = Inr (k, r0)" for k r0
      using GetHex_follows [OF that] by (blast intro: follows_trans follows_advance)
    have fin: "follows r r'" if "get_string_end h pk' i' v' c' r0 = Inr (x, r')" "follows r r0" for pk' i' v' c' r0
      using that get_string_end_follows by blast
    have f2: "follows r ?r2" by (blast intro: follows_trans follows_advance)
    show ?thesis
      using less.prems False
      by (subst (asm) get_string.simps)
         (auto simp: Let_def rbind_eq_Inr f2 split: if_splits intro: step fin r2 hex f2
            follows_trans [OF f2 GetHex_follows])
  qed
qed

lemma GetString_follows: "GetString r h = Inr (x, r') \<Longrightarrow> follows r r'"
  by (simp add: GetString_def get_string_follows)

lemma num_loop_follows: "num_loop s r = (s', back, r') \<Longrightarrow> follows r r' \<and> (back \<longrightarrow> jcur r < jcur r')"
proof (induction "remaining r" arbitrary: s r rule: less_induct)
  case less
  show ?case
  proof (cases "HasEnd r")
    case True
    with less.prems show ?thesis by (subst (asm) num_loop.simps) auto
  next
    case False
    let ?r1 = "advance r" and ?r2 = "advance (advance r)"
    have step: "follows r r' \<and> (back \<longrightarrow> jcur r < jcur r')"
      if "num_loop s0 r0 = (s', back, r')" "follows ?r1 r0" for s0 r0
    proof -
      have "remaining r0 < remaining r"
        using follows_remaining [OF that(2)] remaining_advance [OF False] by simp
      from less.hyps [OF this that(1)] that(2) show ?thesis
        by (auto simp: follows_def advance_def)
    qed
    have r2: "follows ?r1 ?r2" "follows ?r1 ?r1" by simp_all
    show ?thesis
      using less.prems False step [OF _ r2(1)] step [OF _ r2(2)]
      by (subst (asm) num_loop.simps)
         (auto simp: Let_def follows_def advance_def split: if_splits)
  qed
qed

lemma GetNum_follows: "GetNum r h = Inr (x, r') \<Longrightarrow> follows r r'"
  by (auto simp: GetNum_def Let_def rbind_eq_Inr Back_def guard_eq_Inr follows_def
      split: prod.splits if_splits dest!: num_loop_follows)

lemma read_n_follows: "read_n n r = Inr r' \<Longrightarrow> follows r r'"
proof (induction n arbitrary: r)
  case (Suc n)
  then obtain c r1 where "Read r = Inr (c, r1)" "read_n n r1 = Inr r'" by (auto simp: rbind_eq_Inr)
  with Suc.IH have "follows r r1" "follows r1 r'" by (auto simp: Read_def guard_eq_Inr follows_def)
  then show ?case by (rule follows_trans)
qed simp

lemma GetBoolean_follows: "GetBoolean r c = Inr (x, r') \<Longrightarrow> follows r r'"
  and GetNull_follows: "GetNull r c = Inr (y, r') \<Longrightarrow> follows r r'"
  by (auto simp: GetBoolean_def GetNull_def rbind_eq_Inr guard_eq_Inr split: if_splits dest: read_n_follows)

lemma jmap_Inr: "jmap f m = Inr (Inr y, r') \<longleftrightarrow> (\<exists>x. m = Inr (Inr x, r') \<and> y = f x)"
proof (cases m)
  case (Inr z)
  then show ?thesis by (cases z; cases "fst z") (auto simp: jmap_def)
qed (simp add: jmap_def)

lemma GetObj_elim:
  assumes "GetObj (Suc n) first m r = Some (Inr (Inr v, r'))"
  obtains "SkipWhiteSpace r = (CHR ''}'', r')"
  | r1 key r2 r3 temp r4 c r5 where "SkipWhiteSpace r = (quote, r1)"
      "GetString r1 quote = Inr (Inr key, r2)" "SkipWhiteSpace r2 = (CHR '':'', r3)"
      "GetValue n None r3 = Some (Inr (Inr temp, r4))" "SkipWhiteSpace r4 = (c, r5)"
      "r' = r5 \<or> GetObj n False (smap_put key temp m) r5 = Some (Inr (Inr v, r'))"
  using assms
  by (auto simp: Let_def split: if_splits prod.splits sum.splits option.splits)

lemma GetArray_elim:
  assumes "GetArray (Suc n) first c xs r = Some (Inr (Inr v, r'))"
  obtains "r' = r" | r1 x r2 c' r3 where "(if first then Back r else Inr r) = Inr r1"
      "GetValue n None r1 = Some (Inr (Inr x, r2))" "SkipWhiteSpace r2 = (c', r3)"
      "r' = r3 \<or> GetArray n False c' (xs @ [x]) r3 = Some (Inr (Inr v, r'))"
  using assms
  by (auto split: if_splits prod.splits sum.splits option.splits)

text \<open>A reading operation only moves the reader forward.\<close>

definition moves :: "json_reader \<Rightarrow> 'a jres \<Rightarrow> bool" where
  "moves r m \<longleftrightarrow> (\<forall>x r'. m = Inr (x, r') \<longrightarrow> follows r r')"

lemma moves_if: "moves r m \<Longrightarrow> moves r m' \<Longrightarrow> moves r (if b then m else m')"
  and moves_jmap: "moves r m0 \<Longrightarrow> moves r (jmap f m0)"
  and moves_stay: "moves r (Inr (y, r))"
  by (auto simp: moves_def jmap_def rbind_eq_Inr)

lemma moves_leaves: "moves r (GetString r c)" "moves r (GetBoolean r c)" "moves r (GetNum r c)" "moves r (GetNull r c)"
  by (auto simp: moves_def dest: GetString_follows GetBoolean_follows GetNum_follows GetNull_follows)

lemma get_leaf_follows: "get_leaf p c r = Inr (x, r') \<Longrightarrow> follows r r'"
proof -
  have "moves r (get_leaf p c r)"
    unfolding get_leaf_def by (intro moves_if moves_jmap moves_stay moves_leaves)
  then show "get_leaf p c r = Inr (x, r') \<Longrightarrow> follows r r'" by (simp add: moves_def)
qed

lemma get_leaf_blank: "get_leaf p (CHR '' '') r \<noteq> Inr (Inr v, r')"
  by (simp add: get_leaf_def isdigit_def nat_of_def)

lemma Back_remaining: "(if first then Back r else Inr r) = Inr r1 \<Longrightarrow> remaining r1 \<le> Suc (remaining r)"
  by (auto simp: Back_def guard_eq_Inr remaining_def split: if_splits)

text \<open>A value that was parsed has consumed text.\<close>

lemma parser_progress:
  fixes p v :: "'d json_ptr" and m :: "'d json_ptr std_map" and xs :: "'d json_ptr list"
  shows "(GetValue n p r = Some (Inr (Inr v, r')) \<longrightarrow> remaining r' < remaining r)
   \<and> (GetObj n first m r = Some (Inr (Inr v, r')) \<longrightarrow> remaining r' < remaining r)
   \<and> (GetArray n first c xs r = Some (Inr (Inr v, r')) \<longrightarrow> remaining r' \<le> remaining r)"
proof (induction n arbitrary: p r v r' first m c xs)
  case (Suc n)
  note IHV = Suc.IH [THEN conjunct1, rule_format]
    and IHO = Suc.IH [THEN conjunct2, THEN conjunct1, rule_format]
    and IHA = Suc.IH [THEN conjunct2, THEN conjunct2, rule_format]
  have V: "remaining r' < remaining r" if run: "GetValue (Suc n) p r = Some (Inr (Inr v, r'))" for p v :: "'d json_ptr" and r r'
  proof -
    obtain c r1 where skip: "SkipWhiteSpace r = (c, r1)" by fastforce
    have "c \<noteq> CHR '' ''" using run skip get_leaf_blank [of p r1] by auto
    moreover have "remaining r' \<le> remaining r1"
    proof -
      consider (obj) "GetObj n True [] r1 = Some (Inr (Inr v, r'))"
        | (arr) c2 r2 where "SkipWhiteSpace r1 = (c2, r2)" "GetArray n True c2 [] r2 = Some (Inr (Inr v, r'))"
        | (leaf) "follows r1 r'"
      proof (cases "c = CHR ''{'' \<or> c = CHR ''[''")
        case True
        obtain c2 r2 where "SkipWhiteSpace r1 = (c2, r2)" by fastforce
        with True run skip obj arr show thesis by auto
      next
        case False
        then have "follows r1 r'" using run skip by (auto dest: get_leaf_follows)
        then show thesis by (rule leaf)
      qed
      then show ?thesis
      proof cases
        case obj
        from IHO [OF obj] show ?thesis by simp
      next
        case (arr c2 r2)
        from IHA [OF arr(2)] SkipWhiteSpace_le [OF arr(1)] show ?thesis by simp
      qed (rule follows_remaining)
    qed
    ultimately show ?thesis using SkipWhiteSpace_read [OF skip] by simp
  qed
  have O: "remaining r' < remaining r" if run: "GetObj (Suc n) first m r = Some (Inr (Inr v, r'))" for first m r r' and v :: "'d json_ptr"
    using run
  proof (cases rule: GetObj_elim)
    case 1
    then show ?thesis by (simp add: SkipWhiteSpace_read)
  next
    case (2 r1 key r2 r3 temp r4 c r5)
    have "remaining r1 < remaining r" using 2(1) by (rule SkipWhiteSpace_read) simp
    moreover have "remaining r2 \<le> remaining r1" using 2(2) GetString_follows follows_remaining by blast
    moreover have "remaining r3 \<le> remaining r2" "remaining r5 \<le> remaining r4"
      using 2(3,5) by (simp_all add: SkipWhiteSpace_le)
    moreover have "remaining r4 < remaining r3" using 2(4) by (rule IHV)
    moreover have "remaining r' \<le> remaining r5"
      using 2(6) IHO [of False "smap_put key temp m" r5 v r'] by auto
    ultimately show ?thesis by simp
  qed
  have A: "remaining r' \<le> remaining r" if run: "GetArray (Suc n) first c xs r = Some (Inr (Inr v, r'))" for first c xs r r' and v :: "'d json_ptr"
    using run
  proof (cases rule: GetArray_elim)
    case (2 r1 x r2 c' r3)
    have "remaining r1 \<le> Suc (remaining r)" using 2(1) by (rule Back_remaining)
    moreover have "remaining r2 < remaining r1" using 2(2) by (rule IHV)
    moreover have "remaining r3 \<le> remaining r2" using 2(3) by (rule SkipWhiteSpace_le)
    moreover have "remaining r' \<le> remaining r3"
      using 2(4) IHA [of False c' "xs @ [x]" r3 v r'] by auto
    ultimately show ?thesis by simp
  qed simp
  show ?case by (intro conjI impI; erule V O A)
qed simp

lemmas GetValue_progress = parser_progress [THEN conjunct1, rule_format]

lemma parser_total:
  fixes p :: "'d json_ptr" and m :: "'d json_ptr std_map" and xs :: "'d json_ptr list"
  shows "(2 * remaining r + 2 \<le> n \<longrightarrow> GetValue n p r \<noteq> None)
   \<and> (2 * remaining r + 1 \<le> n \<longrightarrow> GetObj n first m r \<noteq> None)
   \<and> (2 * remaining r + 5 \<le> n \<or> HasEnd r \<and> 1 \<le> n \<longrightarrow> GetArray n first c xs r \<noteq> None)"
proof (induction n arbitrary: p r first m c xs)
  case (Suc n)
  note IHV = Suc.IH [THEN conjunct1, rule_format]
    and IHO = Suc.IH [THEN conjunct2, THEN conjunct1, rule_format]
    and IHA = Suc.IH [THEN conjunct2, THEN conjunct2, rule_format]
  have V: "GetValue (Suc n) p r \<noteq> None" if fuel: "2 * remaining r + 2 \<le> Suc n" for p :: "'d json_ptr" and r
  proof -
    obtain c r1 where skip: "SkipWhiteSpace r = (c, r1)" by fastforce
    obtain c2 r2 where skip2: "SkipWhiteSpace r1 = (c2, r2)" by fastforce
    have o: "GetObj n True ([] :: 'd json_ptr std_map) r1 \<noteq> None" if "c = CHR ''{''"
      using SkipWhiteSpace_read [OF skip] that fuel by (intro IHO) auto
    have a: "GetArray n True c2 ([] :: 'd json_ptr list) r2 \<noteq> None" if "c = CHR ''[''"
    proof (rule IHA)
      have "remaining r1 < remaining r" using SkipWhiteSpace_read [OF skip] that by simp
      then show "2 * remaining r2 + 5 \<le> n \<or> HasEnd r2 \<and> 1 \<le> n"
        using SkipWhiteSpace_end [of r1] SkipWhiteSpace_progress [OF skip2] skip2 fuel
        by (cases "HasEnd r1") auto
    qed
    show ?thesis using skip skip2 o a by auto
  qed
  have O: "GetObj (Suc n) first m r \<noteq> None" if fuel: "2 * remaining r + 1 \<le> Suc n" for first r and m :: "'d json_ptr std_map"
  proof
    assume none: "GetObj (Suc n) first m r = None"
    obtain c r1 where skip: "SkipWhiteSpace r = (c, r1)" by fastforce
    have c: "c = quote" using none skip by (auto split: if_splits)
    then have r1: "remaining r1 < remaining r" using SkipWhiteSpace_read [OF skip] by simp
    obtain key r2 where key: "GetString r1 quote = Inr (Inr key, r2)"
      using none skip c by (auto split: sum.splits prod.splits)
    have r2: "remaining r2 \<le> remaining r1" using key GetString_follows follows_remaining by blast
    obtain r3 where colon: "SkipWhiteSpace r2 = (CHR '':'', r3)"
      using none skip c key by (auto split: prod.splits if_splits)
    have r3: "remaining r3 < remaining r2" using SkipWhiteSpace_read [OF colon] by simp
    have "GetValue n None r3 \<noteq> (None :: 'd json_ptr jres option)" using r1 r2 r3 fuel by (intro IHV) simp
    then obtain temp :: "'d json_ptr" and r4 where v: "GetValue n None r3 = Some (Inr (Inr temp, r4))"
      using none skip c key colon by (auto split: sum.splits prod.splits option.splits)
    obtain c5 r5 where s5: "SkipWhiteSpace r4 = (c5, r5)" by fastforce
    have "GetObj n False (smap_put key temp m) r5 \<noteq> None"
      using r1 r2 r3 GetValue_progress [OF v] SkipWhiteSpace_le [OF s5] fuel by (intro IHO) simp
    with none skip c key colon v s5 show False by (auto simp: Let_def split: if_splits)
  qed
  have A: "GetArray (Suc n) first c xs r \<noteq> None"
    if fuel: "2 * remaining r + 5 \<le> Suc n \<or> HasEnd r \<and> 1 \<le> Suc n" for first c r and xs :: "'d json_ptr list"
  proof
    assume none: "GetArray (Suc n) first c xs r = None"
    then have more: "\<not> HasEnd r" by auto
    with fuel have fuel: "2 * remaining r + 5 \<le> Suc n" by simp
    obtain r1 where bk: "(if first then Back r else Inr r) = Inr r1"
      using none more by (auto split: if_splits sum.splits)
    have r1: "remaining r1 \<le> Suc (remaining r)" using bk by (rule Back_remaining)
    have "GetValue n None r1 \<noteq> (None :: 'd json_ptr jres option)" using r1 fuel by (intro IHV) simp
    then obtain x :: "'d json_ptr" and r2 where v: "GetValue n None r1 = Some (Inr (Inr x, r2))"
      using none more bk by (auto split: sum.splits prod.splits option.splits if_splits)
    obtain c3 r3 where s3: "SkipWhiteSpace r2 = (c3, r3)" by fastforce
    have "GetArray n False c3 (xs @ [x]) r3 \<noteq> None" if "c3 = CHR '',''"
      using r1 GetValue_progress [OF v] SkipWhiteSpace_read [OF s3] that fuel by (intro IHA) simp
    with none more bk v s3 show False by (auto split: if_splits)
  qed
  show ?case by (intro conjI impI; erule V O A)
qed simp

section \<open>Strings\<close>

definition json_escape :: "char \<Rightarrow> string" where
  "json_escape c = (case json_replace c of Some x \<Rightarrow> x | None \<Rightarrow> [c])"

lemma write_loop_eq:
  "beg \<le> i \<Longrightarrow> i \<le> length s \<Longrightarrow>
     write_loop s beg i res = res @ take (i - beg) (drop beg s) @ concat (map json_escape (drop i s))"
proof (induction s beg i res rule: write_loop.induct)
  case (1 s beg i res)
  show ?case
  proof (cases "i < length s")
    case False
    with 1 show ?thesis by (subst write_loop.simps) simp
  next
    case True
    then have drop: "drop i s = s ! i # drop (Suc i) s" by (simp add: Cons_nth_drop_Suc)
    show ?thesis
    proof (cases "json_replace (s ! i)")
      case None
      have "take (Suc i - beg) (drop beg s) = take (i - beg) (drop beg s) @ [s ! i]"
        using True 1(3) by (simp add: Suc_diff_le take_Suc_conv_app_nth)
      with None True 1 drop show ?thesis
        by (simp add: write_loop.simps [of s beg i] json_escape_def)
    next
      case (Some x)
      with True 1 drop show ?thesis
        by (simp add: write_loop.simps [of s beg i] json_escape_def)
    qed
  qed
qed

lemma WriteString_eq: "WriteString s = quote # concat (map json_escape s) @ [quote]"
  by (simp add: WriteString_def write_loop_eq)

lemma rest_of_end [simp]: "rest_of r = [] \<longleftrightarrow> HasEnd r"
  by (simp add: rest_of_def HasEnd_def)

lemma rest_of_Cons:
  assumes "rest_of r = c # t"
  shows "\<not> HasEnd r" "peek_char r = c" "rest_of (advance r) = t" "jdata (advance r) = jdata r"
    "jcur (advance r) = jcur r + 1"
proof -
  have cur: "jcur r < length (jdata r)" using assms by (auto simp: rest_of_def intro: ccontr)
  then have "jdata r ! jcur r # drop (Suc (jcur r)) (jdata r) = c # t"
    using assms by (simp add: rest_of_def Cons_nth_drop_Suc)
  then show "\<not> HasEnd r" "peek_char r = c" "rest_of (advance r) = t" "jdata (advance r) = jdata r"
    "jcur (advance r) = jcur r + 1"
    using cur by (simp_all add: HasEnd_def peek_char_def rest_of_def advance_def)
qed

lemma Read_Cons: "rest_of r = c # t \<Longrightarrow> Read r = Inr (c, advance r)"
  using rest_of_Cons Read_not_end by metis

lemma get_string_plain:
  assumes "rest_of r = c' # t" and "c' \<noteq> backslash" and "c' \<noteq> quote"
  shows "get_string quote pk i v c r = get_string quote pk (i + 1) v c' (advance r)"
  using assms(2,3) rest_of_Cons(1,2) [OF assms(1)] by (subst get_string.simps) (simp add: Let_def)

lemma take_next:
  assumes "rest_of r = c' # t" and "jcur r = pk + n"
  shows "take (n + 1) (drop pk (jdata r)) = take n (drop pk (jdata r)) @ [c']"
proof -
  note r = rest_of_Cons [OF assms(1)]
  have "pk + n < length (jdata r)" using r(1) assms(2) by (simp add: HasEnd_def)
  moreover have "jdata r ! (pk + n) = c'" using r(2) assms(2) by (simp add: peek_char_def)
  ultimately show ?thesis by (simp add: take_Suc_conv_app_nth)
qed

lemma unat_next: "unat i + 1 < 2 ^ 32 \<Longrightarrow> unat (i + 1) = unat i + 1" for i :: u32
  by (simp add: unat_word_ariths)

definition unescape :: "char \<Rightarrow> char" where
  "unescape e = (if e = CHR ''b'' then CHR 0x08 else if e = CHR ''f'' then CHR 0x0C
     else if e = CHR ''n'' then CHR 0x0A else if e = CHR ''r'' then CHR 0x0D
     else if e = CHR ''t'' then CHR 0x09 else e)"

lemma get_string_escape:
  assumes "rest_of r = backslash # e # t"
    and "e \<in> {backslash, quote, CHR ''/'', CHR ''b'', CHR ''f'', CHR ''n'', CHR ''r'', CHR ''t''}"
  shows "get_string h pk i v c r = get_string h (pk + unat i + 2) 0
    (v @ take (unat i) (drop pk (jdata r)) @ [unescape e]) e (advance (advance r))"
proof -
  note r = rest_of_Cons [OF assms(1)]
  note r2 = rest_of_Cons [OF r(3)]
  have "get_string h pk i v c r = (let w = v @ take (unat i) (drop pk (jdata r)); r2 = advance (advance r); q = pk + unat i + 2 in
      if e = backslash \<or> e = quote \<or> e = CHR ''/'' then get_string h q 0 (w @ [e]) e r2
      else if e = CHR ''b'' then get_string h q 0 (w @ [CHR 0x08]) e r2
      else if e = CHR ''f'' then get_string h q 0 (w @ [CHR 0x0C]) e r2
      else if e = CHR ''n'' then get_string h q 0 (w @ [CHR 0x0A]) e r2
      else if e = CHR ''r'' then get_string h q 0 (w @ [CHR 0x0D]) e r2
      else get_string h q 0 (w @ [CHR 0x09]) e r2)"
    using assms(2) r(1,2,4) r2(1,2) by (subst get_string.simps) (auto simp: Let_def)
  with assms(2) show ?thesis by (auto simp: unescape_def Let_def)
qed

lemma hex_step_digit: "n < 16 \<Longrightarrow> hex_step code (hex_digit n) = code * 16 + of_nat n"
proof -
  assume "n < 16"
  then have "n \<in> set [0..<16]" by simp
  then show ?thesis
    by (simp add: upt_rec numeral_eq_Suc) (auto simp: hex_step_def hex_digit_def nat_of_def)
qed

lemma GetHex_hex4:
  assumes "rest_of r = hex4 n @ t" and "n < 256"
  shows "\<exists>r'. GetHex r = Inr (of_nat n, r') \<and> rest_of r' = t \<and> jdata r' = jdata r \<and> jcur r' = jcur r + 4"
proof -
  have r0: "rest_of r = CHR ''0'' # CHR ''0'' # hex_digit (n div 16) # hex_digit (n mod 16) # t"
    using assms(1) by (simp add: hex4_def)
  note r1 = rest_of_Cons [OF r0]
  note r2 = rest_of_Cons [OF r1(3)]
  note r3 = rest_of_Cons [OF r2(3)]
  note r4 = rest_of_Cons [OF r3(3)]
  have four: "get_hex 4 = get_hex (Suc (Suc (Suc (Suc 0))))" by (simp add: numeral_eq_Suc)
  have z: "hex_step 0 (CHR ''0'') = 0" by (simp add: hex_step_def nat_of_def)
  have "of_nat (n div 16) * 16 + of_nat (n mod 16) = (of_nat (n div 16 * 16 + n mod 16) :: u16)"
    by (simp only: of_nat_add of_nat_mult of_nat_numeral)
  also have "\<dots> = of_nat n" by (simp only: div_mult_mod_eq)
  finally have val: "of_nat (n div 16) * 16 + of_nat (n mod 16) = (of_nat n :: u16)" .
  have "GetHex r = Inr (of_nat n, advance (advance (advance (advance r))))"
    using assms(2) Read_Cons [OF r0] Read_Cons [OF r1(3)] Read_Cons [OF r2(3)] Read_Cons [OF r3(3)] val
    by (simp add: GetHex_def four z hex_step_digit)
  then show ?thesis using r1 r2 r3 r4 by simp
qed

lemma get_string_hex:
  assumes "rest_of r = backslash # CHR ''u'' # hex4 n @ t" and "n < 256"
  shows "\<exists>r'. get_string h pk i v c r = get_string h (pk + unat i + 6) 0
      (v @ take (unat i) (drop pk (jdata r)) @ [char_of n]) (CHR ''u'') r'
    \<and> rest_of r' = t \<and> jdata r' = jdata r \<and> jcur r' = jcur r + 6"
proof -
  note r = rest_of_Cons [OF assms(1)]
  note r2 = rest_of_Cons [OF r(3)]
  obtain r' where r': "GetHex (advance (advance r)) = Inr (of_nat n, r')" "rest_of r' = t"
      "jdata r' = jdata r" "jcur r' = jcur r + 6"
    using GetHex_hex4 [OF r2(3) assms(2)] r r2 by auto
  have small: "\<not> (0xff :: u16) < of_nat n" "char_of_byte (ucast (of_nat n :: u16)) = char_of n"
    using assms(2) by (simp_all add: word_less_nat_alt unat_of_nat char_of_byte_def unsigned_ucast_eq take_bit_eq_mod)
  have "get_string h pk i v c r = get_string h (pk + unat i + 2 + 4) 0
      ((v @ take (unat i) (drop pk (jdata r))) @ [char_of_byte (ucast (of_nat n :: u16))]) (CHR ''u'') r'"
    using r(1,2,4) r2(1,2) r'(1) small(1) by (subst get_string.simps) (simp add: Let_def)
  with r' small(2) show ?thesis by (intro exI [of _ r']) (simp add: ac_simps)
qed

text \<open>What \<^verbatim>\<open>WriteString\<close> puts between the quotes, \<^verbatim>\<open>GetString\<close> reads.\<close>

lemma json_replace_cases:
  obtains (plain) "json_replace c = None" "c \<noteq> quote" "c \<noteq> backslash"
  | (short) e where "json_replace c = Some [backslash, e]" "unescape e = c"
      "e \<in> {backslash, quote, CHR ''/'', CHR ''b'', CHR ''f'', CHR ''n'', CHR ''r'', CHR ''t''}"
  | (hex) "json_replace c = Some (backslash # CHR ''u'' # hex4 (nat_of c))"
proof -
  have "(json_replace c = None \<and> c \<noteq> quote \<and> c \<noteq> backslash)
    \<or> (\<exists>e. json_replace c = Some [backslash, e] \<and> unescape e = c
        \<and> e \<in> {backslash, quote, CHR ''/'', CHR ''b'', CHR ''f'', CHR ''n'', CHR ''r'', CHR ''t''})
    \<or> json_replace c = Some (backslash # CHR ''u'' # hex4 (nat_of c))"
    by (simp add: json_replace_def unescape_def)
  then show thesis
  proof (elim disjE exE)
    fix e
    assume "json_replace c = Some [backslash, e] \<and> unescape e = c
      \<and> e \<in> {backslash, quote, CHR ''/'', CHR ''b'', CHR ''f'', CHR ''n'', CHR ''r'', CHR ''t''}"
    then show thesis using short by simp
  qed (use plain hex in simp_all)
qed

lemma get_string_read:
  assumes "rest_of r = concat (map json_escape s) @ quote # t" and "jcur r = pk + unat i" and "unat i + length s < 2 ^ 32"
  shows "\<exists>r'. get_string quote pk i v c r = Inr (Inr (v @ take (unat i) (drop pk (jdata r)) @ s), r')
    \<and> rest_of r' = t \<and> jdata r' = jdata r"
  using assms
proof (induction s arbitrary: pk i v c r)
  case Nil
  then have rest: "rest_of r = quote # t" by simp
  note r = rest_of_Cons [OF rest]
  have "get_string quote pk i v c r = get_string_end quote pk i v quote (advance r)"
    using r by (subst get_string.simps) (simp add: Let_def)
  then show ?case using r by (simp add: get_string_end_def)
next
  case (Cons ch s)
  show ?case
  proof (cases ch rule: json_replace_cases)
    case plain
    then have rest: "rest_of r = ch # concat (map json_escape s) @ quote # t"
      using Cons.prems(1) by (simp add: json_escape_def [of ch])
    note step = get_string_plain [OF rest plain(3,2), of pk i v c] take_next [OF rest Cons.prems(2)]
    note r = rest_of_Cons [OF rest]
    have u: "unat (i + 1) = unat i + 1" using Cons.prems(3) by (intro unat_next) simp
    have "\<exists>r'. get_string quote pk (i + 1) v ch (advance r) =
        Inr (Inr (v @ take (unat (i + 1)) (drop pk (jdata (advance r))) @ s), r') \<and> rest_of r' = t \<and> jdata r' = jdata (advance r)"
      by (rule Cons.IH [OF r(3)]) (use Cons.prems(2,3) r(5) u in auto)
    then show ?thesis unfolding u r(4) step append_assoc by simp
  next
    case (short e)
    then have rest: "rest_of r = backslash # e # concat (map json_escape s) @ quote # t"
      using Cons.prems(1) by (simp add: json_escape_def [of ch])
    note r = rest_of_Cons [OF rest]
    note r2 = rest_of_Cons [OF r(3)]
    show ?thesis
      using Cons.IH [OF r2(3), of "pk + unat i + 2" 0 "v @ take (unat i) (drop pk (jdata r)) @ [ch]" e]
        Cons.prems(2,3) r(4,5) r2(4,5) get_string_escape [OF rest short(3), of quote pk i v c] short(2)
      by simp
  next
    case hex
    then have rest: "rest_of r = backslash # CHR ''u'' # hex4 (nat_of ch) @ concat (map json_escape s) @ quote # t"
      using Cons.prems(1) by (simp add: json_escape_def [of ch])
    have "nat_of ch < 256" "char_of (nat_of ch) = ch" by (simp_all add: nat_of_def)
    with get_string_hex [OF rest, of quote pk i v c] obtain r' where r':
      "get_string quote pk i v c r = get_string quote (pk + unat i + 6) 0 (v @ take (unat i) (drop pk (jdata r)) @ [ch]) (CHR ''u'') r'"
      "rest_of r' = concat (map json_escape s) @ quote # t" "jdata r' = jdata r" "jcur r' = jcur r + 6"
      by auto
    show ?thesis
      using Cons.IH [OF r'(2), of "pk + unat i + 6" 0 "v @ take (unat i) (drop pk (jdata r)) @ [ch]" "CHR ''u''"]
        Cons.prems(2,3) r' by simp
  qed
qed

lemma GetString_read:
  assumes "rest_of r = concat (map json_escape s) @ quote # t" and "length s < 2 ^ 32"
  shows "\<exists>r'. GetString r quote = Inr (Inr s, r') \<and> rest_of r' = t \<and> jdata r' = jdata r"
  using get_string_read [OF assms(1), of "jcur r" 0 "[]"] assms(2) by (simp add: GetString_def)

text \<open>A run of more characters than the counter can count is cut: what is kept is its length modulo \<open>2 ^ 32\<close>.\<close>

lemma get_string_run:
  assumes "rest_of r = s @ quote # t" and "quote \<notin> set s" and "backslash \<notin> set s" 
  shows "\<exists>r'. get_string quote pk i v c r = Inr (Inr (v @ take (unat (i + of_nat (length s))) (drop pk (jdata r))), r')
    \<and> rest_of r' = t \<and> jdata r' = jdata r"
  using assms
proof (induction s arbitrary: i c r)
  case Nil
  note r = rest_of_Cons [OF Nil.prems(1) [unfolded append_Nil]]
  have "get_string quote pk i v c r = get_string_end quote pk i v quote (advance r)"
    using r by (subst get_string.simps) (simp add: Let_def)
  then show ?case using r by (simp add: get_string_end_def)
next
  case (Cons ch s)
  then have rest: "rest_of r = ch # s @ quote # t" "ch \<noteq> quote" "ch \<noteq> backslash" by auto
  note r = rest_of_Cons [OF rest(1)] and step = get_string_plain [OF rest(1) rest(3,2), of pk i v c]
  show ?case using Cons.IH [OF r(3), of "i + 1" ch] Cons.prems(2,3) r(4) step by (simp add: ac_simps)
qed

section \<open>Values\<close>

lemma remaining_rest: "remaining r = length (rest_of r)"
  by (simp add: remaining_def rest_of_def)

lemma skip_loop_stop: "\<not> json_ws c \<Longrightarrow> skip_loop c r = (c, r)"
  by (subst skip_loop.simps) simp

lemma skip_loop_blanks:
  assumes "rest_of r = ws @ c # t" and "\<forall>x \<in> set ws. json_ws x" and "\<not> json_ws c" and "json_ws b"
  shows "\<exists>r'. skip_loop b r = (c, r') \<and> rest_of r' = t \<and> jdata r' = jdata r
    \<and> jcur r' = jcur r + length ws + 1"
  using assms
proof (induction ws arbitrary: b r)
  case Nil
  then have "rest_of r = c # t" by simp
  note r = rest_of_Cons [OF this]
  have "skip_loop b r = skip_loop c (advance r)" using r Nil by (subst skip_loop.simps) simp
  with r Nil show ?case by (simp add: skip_loop_stop)
next
  case (Cons w ws)
  then have "rest_of r = w # ws @ c # t" by simp
  note r = rest_of_Cons [OF this]
  have "skip_loop b r = skip_loop w (advance r)" using r Cons.prems by (subst skip_loop.simps) simp
  with r Cons.IH [OF r(3), of w] Cons.prems show ?case by auto
qed

lemma SkipWhiteSpace_read_char:
  assumes "rest_of r = ws @ c # t" and "set ws \<subseteq> {CHR '' ''}" and "\<not> json_ws c"
  obtains r' where "SkipWhiteSpace r = (c, r')" "rest_of r' = t" "jdata r' = jdata r"
    "jcur r' = jcur r + length ws + 1"
  using skip_loop_blanks [OF assms(1) _ assms(3), of "CHR '' ''"] assms(2)
  by (auto simp: SkipWhiteSpace_def json_ws_def)

text \<open>Values made of strings, objects and arrays only, with strings and keys below four gigabytes.\<close>

inductive plain :: "'d json_ptr \<Rightarrow> bool" where
  str: "length s < 2 ^ 32 \<Longrightarrow> plain (Some (JString s))"
| obj: "smap_ok m \<Longrightarrow> \<forall>k \<in> set (map fst m). length k < 2 ^ 32 \<Longrightarrow> \<forall>v \<in> set (map snd m). plain v \<Longrightarrow> plain (Some (JObj m))"
| arr: "\<forall>v \<in> set xs. plain v \<Longrightarrow> plain (Some (JArray xs))"

lemma plain_head:
  assumes "plain v"
  obtains c s where "Stringify fmt v = c # s" "c \<in> {quote, CHR ''{'', CHR ''[''}"
  using assms by (cases rule: plain.cases) (auto simp: WriteString_eq)

definition reads_back :: "('d \<Rightarrow> bool \<Rightarrow> string) \<Rightarrow> 'd json_ptr \<Rightarrow> bool" where
  "reads_back fmt v \<longleftrightarrow> (\<forall>n p0 r ws t. rest_of r = ws @ Stringify fmt v @ t \<and> set ws \<subseteq> {CHR '' ''}
     \<and> 2 * length (rest_of r) + 2 \<le> n \<and> (v = Some (JArray []) \<longrightarrow> t \<noteq> []) \<longrightarrow>
     (\<exists>r'. GetValue n p0 r = Some (Inr (Inr v, r')) \<and> rest_of r' = t \<and> jdata r' = jdata r))"

lemma reads_backD:
  assumes "reads_back fmt v" and "rest_of r = ws @ Stringify fmt v @ t" and "set ws \<subseteq> {CHR '' ''}"
    and "2 * length (rest_of r) + 2 \<le> n" and "v = Some (JArray []) \<longrightarrow> t \<noteq> []"
  obtains r' where "GetValue n p0 r = Some (Inr (Inr v, r'))" "rest_of r' = t" "jdata r' = jdata r"
  using assms unfolding reads_back_def by metis

lemma reads_back_string:
  assumes "length s < 2 ^ 32"
  shows "reads_back fmt (Some (JString s))"
  unfolding reads_back_def
proof (intro allI impI, elim conjE)
  fix n p0 r ws t
  assume rest: "rest_of r = ws @ Stringify fmt (Some (JString s)) @ t" and ws: "set ws \<subseteq> {CHR '' ''}"
    and fuel: "2 * length (rest_of r) + 2 \<le> n"
  obtain r1 where r1: "SkipWhiteSpace r = (quote, r1)" "rest_of r1 = concat (map json_escape s) @ quote # t"
      "jdata r1 = jdata r"
    using rest ws by (auto simp: WriteString_eq json_ws_def elim: SkipWhiteSpace_read_char)
  obtain r2 where "GetString r1 quote = Inr (Inr s, r2)" "rest_of r2 = t" "jdata r2 = jdata r1"
    using GetString_read [OF r1(2) assms] by blast
  with r1 fuel show "\<exists>r'. GetValue n p0 r = Some (Inr (Inr (Some (JString s)), r')) \<and> rest_of r' = t \<and> jdata r' = jdata r"
    by (cases n) (auto simp: get_leaf_def jmap_def)
qed

text \<open>One entry of an object, up to what follows it.\<close>

lemma GetObj_entry:
  assumes "reads_back fmt v" and "rest_of r = '' '' @ WriteString k @ '': '' @ Stringify fmt v @ t"
    and "t \<noteq> []" and "2 * length (rest_of r) \<le> n" and "length k < 2 ^ 32"
  obtains r' where "rest_of r' = t" "jdata r' = jdata r"
    "GetObj (Suc n) first acc r = (case SkipWhiteSpace r' of (c, r) \<Rightarrow>
       if c = CHR '','' then GetObj n False (smap_put k v acc) r
       else if c = CHR ''}'' then Some (Inr (Inr (Some (JObj (smap_put k v acc))), r))
       else Some (Inr (Inl (pos_text ''get obj error(, not find)'' r), r)))"
proof -
  have "rest_of r = '' '' @ quote # concat (map json_escape k) @ quote # '': '' @ Stringify fmt v @ t"
    using assms(2) by (simp add: WriteString_eq)
  then obtain r1 where r1: "SkipWhiteSpace r = (quote, r1)" "jdata r1 = jdata r"
      "rest_of r1 = concat (map json_escape k) @ quote # '': '' @ Stringify fmt v @ t"
    by (rule SkipWhiteSpace_read_char) (simp_all add: json_ws_def)
  obtain r2 where r2: "GetString r1 quote = Inr (Inr k, r2)" "rest_of r2 = '': '' @ Stringify fmt v @ t"
      "jdata r2 = jdata r"
    using GetString_read [OF r1(3) assms(5)] r1(2) by auto
  have "rest_of r2 = [] @ CHR '':'' # '' '' @ Stringify fmt v @ t" using r2(2) by simp
  then obtain r3 where r3: "SkipWhiteSpace r2 = (CHR '':'', r3)" "rest_of r3 = '' '' @ Stringify fmt v @ t"
      "jdata r3 = jdata r2"
    by (rule SkipWhiteSpace_read_char) (simp_all add: json_ws_def)
  obtain r4 where r4: "GetValue n None r3 = Some (Inr (Inr v, r4))" "rest_of r4 = t" "jdata r4 = jdata r3"
    using assms(1) r3(2)
  proof (rule reads_backD)
    show "2 * length (rest_of r3) + 2 \<le> n" using assms(2,4) r3(2) by simp
  qed (use assms(3) in auto)
  show thesis
  proof
    show "rest_of r4 = t" by fact
    show "jdata r4 = jdata r" using r4 r3 r2 by simp
  qed (simp add: r1(1) r2(1) r3(1) r4(1) Let_def)
qed

lemma GetObj_items:
  assumes "\<forall>v \<in> set (map snd (kv # m)). reads_back fmt v" and "smap_ok (acc @ kv # m)"
    and "rest_of r = '' '' @ WriteObj fmt True (kv # m) @ '' }'' @ t"
    and "2 * length (rest_of r) + 1 \<le> n" and "\<forall>k \<in> set (map fst (kv # m)). length k < 2 ^ 32"
  shows "\<exists>r'. GetObj n first acc r = Some (Inr (Inr (Some (JObj (acc @ kv # m))), r'))
    \<and> rest_of r' = t \<and> jdata r' = jdata r"
  using assms
proof (induction m arbitrary: kv acc r n first)
  case Nil
  obtain k v where kv: "kv = (k, v)" by (cases kv)
  obtain n' where n: "n = Suc n'" using Nil.prems(4) by (cases n) auto
  have put: "smap_put k v acc = acc @ [kv]"
    using Nil.prems(2) unfolding kv by (rule smap_put_sorted_append)
  obtain r' where r': "rest_of r' = '' }'' @ t" "jdata r' = jdata r"
    "GetObj (Suc n') first acc r = (case SkipWhiteSpace r' of (c, r) \<Rightarrow>
       if c = CHR '','' then GetObj n' False (smap_put k v acc) r
       else if c = CHR ''}'' then Some (Inr (Inr (Some (JObj (smap_put k v acc))), r))
       else Some (Inr (Inl (pos_text ''get obj error(, not find)'' r), r)))"
    by (rule GetObj_entry [of fmt v r k "'' }'' @ t" n' first acc]) (use Nil.prems kv n in auto)
  have "rest_of r' = '' '' @ CHR ''}'' # t" using r'(1) by simp
  then obtain r5 where "SkipWhiteSpace r' = (CHR ''}'', r5)" "rest_of r5 = t" "jdata r5 = jdata r'"
    by (rule SkipWhiteSpace_read_char) (simp_all add: json_ws_def)
  with r' n put show ?case by simp
next
  case (Cons kv' m)
  obtain k v where kv: "kv = (k, v)" by (cases kv)
  obtain n' where n: "n = Suc n'" using Cons.prems(4) by (cases n) auto
  have put: "smap_put k v acc = acc @ [kv]"
    using Cons.prems(2) unfolding kv by (rule smap_put_sorted_append)
  let ?t = "'', '' @ WriteObj fmt True (kv' # m) @ '' }'' @ t"
  have rest: "rest_of r = '' '' @ WriteString k @ '': '' @ Stringify fmt v @ ?t"
    using Cons.prems(3) kv by simp
  obtain r' where r': "rest_of r' = ?t" "jdata r' = jdata r"
    "GetObj (Suc n') first acc r = (case SkipWhiteSpace r' of (c, r) \<Rightarrow>
       if c = CHR '','' then GetObj n' False (smap_put k v acc) r
       else if c = CHR ''}'' then Some (Inr (Inr (Some (JObj (smap_put k v acc))), r))
       else Some (Inr (Inl (pos_text ''get obj error(, not find)'' r), r)))"
    by (rule GetObj_entry [OF _ rest, of n' first acc]) (use Cons.prems kv n in auto)
  have "rest_of r' = [] @ CHR '','' # '' '' @ WriteObj fmt True (kv' # m) @ '' }'' @ t" using r'(1) by simp
  then obtain r5 where r5: "SkipWhiteSpace r' = (CHR '','', r5)"
      "rest_of r5 = '' '' @ WriteObj fmt True (kv' # m) @ '' }'' @ t" "jdata r5 = jdata r'"
    by (rule SkipWhiteSpace_read_char) (simp_all add: json_ws_def)
  have "\<exists>r''. GetObj n' False (acc @ [kv]) r5 = Some (Inr (Inr (Some (JObj ((acc @ [kv]) @ kv' # m))), r''))
      \<and> rest_of r'' = t \<and> jdata r'' = jdata r5"
  proof (rule Cons.IH)
    show "2 * length (rest_of r5) + 1 \<le> n'" using Cons.prems(4) rest r5(2) n by simp
  qed (use Cons.prems r5(2) in auto)
  with r' r5 n put show ?case by simp
qed

lemma reads_back_object:
  assumes "smap_ok m" and "\<forall>v \<in> set (map snd m). reads_back fmt v" and "\<forall>k \<in> set (map fst m). length k < 2 ^ 32"
  shows "reads_back fmt (Some (JObj m))"
  unfolding reads_back_def
proof (intro allI impI, elim conjE)
  fix n p0 r ws t
  assume rest: "rest_of r = ws @ Stringify fmt (Some (JObj m)) @ t" and ws: "set ws \<subseteq> {CHR '' ''}"
    and fuel: "2 * length (rest_of r) + 2 \<le> n"
  have "rest_of r = ws @ CHR ''{'' # '' '' @ WriteObj fmt True m @ '' }'' @ t" using rest by simp
  then obtain r1 where r1: "SkipWhiteSpace r = (CHR ''{'', r1)"
      "rest_of r1 = '' '' @ WriteObj fmt True m @ '' }'' @ t" "jdata r1 = jdata r"
    using ws by (rule SkipWhiteSpace_read_char) (simp_all add: json_ws_def)
  obtain n' where n: "n = Suc n'" using fuel by (cases n) auto
  have "\<exists>r'. GetObj n' True [] r1 = Some (Inr (Inr (Some (JObj m)), r')) \<and> rest_of r' = t \<and> jdata r' = jdata r1"
  proof (cases m)
    case Nil
    then have "rest_of r1 = ''  '' @ CHR ''}'' # t" using r1(2) by simp
    then obtain r2 where "SkipWhiteSpace r1 = (CHR ''}'', r2)" "rest_of r2 = t" "jdata r2 = jdata r1"
      by (rule SkipWhiteSpace_read_char) (simp_all add: json_ws_def)
    moreover have "\<exists>k. n' = Suc k" using fuel n rest by (cases n') auto
    ultimately show ?thesis using Nil by auto
  next
    case (Cons kv m')
    with GetObj_items [of kv m' fmt "[]" r1 t n' True] assms r1(2) rest fuel n show ?thesis by simp
  qed
  with r1 n show "\<exists>r'. GetValue n p0 r = Some (Inr (Inr (Some (JObj m)), r')) \<and> rest_of r' = t \<and> jdata r' = jdata r"
    by auto
qed

text \<open>One element of an array, up to what follows it.\<close>

lemma GetArray_entry:
  assumes "reads_back fmt v" and "rest_of r = ws @ Stringify fmt v @ t" and "set ws \<subseteq> {CHR '' ''}"
    and "t \<noteq> []" and "2 * length (rest_of r) + 2 \<le> n"
    and "(if first then Back r0 else Inr r0) = Inr r" and "\<not> HasEnd r0" and "first \<longrightarrow> c \<noteq> CHR '']''"
  obtains r' where "rest_of r' = t" "jdata r' = jdata r"
    "GetArray (Suc n) first c acc r0 = (case SkipWhiteSpace r' of (c, r) \<Rightarrow>
       if c = CHR '','' then GetArray n False c (acc @ [v]) r
       else if c = CHR '']'' then Some (Inr (Inr (Some (JArray (acc @ [v]))), r))
       else Some (Inr (Inl (pos_text ''get vector error(, not find )'' r), r)))"
proof -
  obtain r4 where r4: "GetValue n None r = Some (Inr (Inr v, r4))" "rest_of r4 = t" "jdata r4 = jdata r"
    using assms(1-3) by (rule reads_backD) (use assms(4,5) in auto)
  show thesis
  proof
    show "rest_of r4 = t" "jdata r4 = jdata r" by fact+
  qed (use assms(6-8) in \<open>cases first; simp add: r4(1)\<close>)
qed

lemma GetArray_items:
  assumes "\<forall>v \<in> set (x # xs). reads_back fmt v"
    and "rest_of r = ws @ WriteArray fmt True (x # xs) @ '' ]'' @ t" and "set ws \<subseteq> {CHR '' ''}"
    and "2 * length (rest_of r) + 3 \<le> n"
    and "(if first then Back r0 else Inr r0) = Inr r" and "\<not> HasEnd r0" and "first \<longrightarrow> c \<noteq> CHR '']''"
  shows "\<exists>r'. GetArray n first c acc r0 = Some (Inr (Inr (Some (JArray (acc @ x # xs))), r'))
    \<and> rest_of r' = t \<and> jdata r' = jdata r"
  using assms
proof (induction xs arbitrary: x acc r r0 n first c ws)
  case Nil
  obtain n' where n: "n = Suc n'" using Nil.prems(4) by (cases n) auto
  have rest: "rest_of r = ws @ Stringify fmt x @ '' ]'' @ t" using Nil.prems(2) by simp
  obtain r' where r': "rest_of r' = '' ]'' @ t" "jdata r' = jdata r"
    "GetArray (Suc n') first c acc r0 = (case SkipWhiteSpace r' of (c, r) \<Rightarrow>
       if c = CHR '','' then GetArray n' False c (acc @ [x]) r
       else if c = CHR '']'' then Some (Inr (Inr (Some (JArray (acc @ [x]))), r))
       else Some (Inr (Inl (pos_text ''get vector error(, not find )'' r), r)))"
    by (rule GetArray_entry [OF _ rest Nil.prems(3) _ _ Nil.prems(5-7), of n' acc]) (use Nil.prems n in auto)
  have "rest_of r' = '' '' @ CHR '']'' # t" using r'(1) by simp
  then obtain r5 where "SkipWhiteSpace r' = (CHR '']'', r5)" "rest_of r5 = t" "jdata r5 = jdata r'"
    by (rule SkipWhiteSpace_read_char) (simp_all add: json_ws_def)
  with r' n show ?case by simp
next
  case (Cons y xs)
  obtain n' where n: "n = Suc n'" using Cons.prems(4) by (cases n) auto
  let ?t = "'', '' @ WriteArray fmt True (y # xs) @ '' ]'' @ t"
  have rest: "rest_of r = ws @ Stringify fmt x @ ?t" using Cons.prems(2) by simp
  obtain r' where r': "rest_of r' = ?t" "jdata r' = jdata r"
    "GetArray (Suc n') first c acc r0 = (case SkipWhiteSpace r' of (c, r) \<Rightarrow>
       if c = CHR '','' then GetArray n' False c (acc @ [x]) r
       else if c = CHR '']'' then Some (Inr (Inr (Some (JArray (acc @ [x]))), r))
       else Some (Inr (Inl (pos_text ''get vector error(, not find )'' r), r)))"
    by (rule GetArray_entry [OF _ rest Cons.prems(3) _ _ Cons.prems(5-7), of n' acc]) (use Cons.prems n in auto)
  have "rest_of r' = [] @ CHR '','' # '' '' @ WriteArray fmt True (y # xs) @ '' ]'' @ t" using r'(1) by simp
  then obtain r5 where r5: "SkipWhiteSpace r' = (CHR '','', r5)"
      "rest_of r5 = '' '' @ WriteArray fmt True (y # xs) @ '' ]'' @ t" "jdata r5 = jdata r'"
    by (rule SkipWhiteSpace_read_char) (simp_all add: json_ws_def)
  have "\<exists>r''. GetArray n' False (CHR '','') (acc @ [x]) r5 = Some (Inr (Inr (Some (JArray ((acc @ [x]) @ y # xs))), r''))
      \<and> rest_of r'' = t \<and> jdata r'' = jdata r5"
  proof (rule Cons.IH [where ws = "'' ''"])
    show "2 * length (rest_of r5) + 3 \<le> n'" using Cons.prems(4) rest r5(2) n by simp
    show "\<not> HasEnd r5" using r5(2) by (simp flip: rest_of_end)
  qed (use Cons.prems r5(2) in auto)
  with r' r5 n show ?case by simp
qed

lemma reads_back_array:
  assumes "\<forall>v \<in> set xs. reads_back fmt v" and "\<forall>v \<in> set xs. plain v"
  shows "reads_back fmt (Some (JArray xs))"
  unfolding reads_back_def
proof (intro allI impI, elim conjE)
  fix n p0 r ws t
  assume rest: "rest_of r = ws @ Stringify fmt (Some (JArray xs)) @ t" and ws: "set ws \<subseteq> {CHR '' ''}"
    and fuel: "2 * length (rest_of r) + 2 \<le> n" and last: "Some (JArray xs) = Some (JArray []) \<longrightarrow> t \<noteq> []"
  have "rest_of r = ws @ CHR ''['' # '' '' @ WriteArray fmt True xs @ '' ]'' @ t" using rest by simp
  then obtain r1 where r1: "SkipWhiteSpace r = (CHR ''['', r1)"
      "rest_of r1 = '' '' @ WriteArray fmt True xs @ '' ]'' @ t" "jdata r1 = jdata r"
    using ws by (rule SkipWhiteSpace_read_char) (simp_all add: json_ws_def)
  obtain n' where n: "n = Suc n'" using fuel by (cases n) auto
  have "\<exists>r'. (case SkipWhiteSpace r1 of (c, r2) \<Rightarrow> GetArray n' True c [] r2) = Some (Inr (Inr (Some (JArray xs)), r'))
      \<and> rest_of r' = t \<and> jdata r' = jdata r1"
  proof (cases xs)
    case Nil
    then have "rest_of r1 = ''  '' @ CHR '']'' # t" using r1(2) by simp
    then obtain r2 where "SkipWhiteSpace r1 = (CHR '']'', r2)" "rest_of r2 = t" "jdata r2 = jdata r1"
      by (rule SkipWhiteSpace_read_char) (simp_all add: json_ws_def)
    moreover have "\<not> HasEnd r2" using calculation(2) last Nil by (simp flip: rest_of_end)
    moreover have "\<exists>k. n' = Suc k" using fuel n rest by (cases n') auto
    ultimately show ?thesis using Nil by auto
  next
    case (Cons x xs')
    have "plain x" using assms(2) Cons by simp
    then obtain c s where head: "Stringify fmt x = c # s" "c \<in> {quote, CHR ''{'', CHR ''[''}"
      by (rule plain_head)
    have "rest_of r1 = '' '' @ c # s @ WriteArray fmt False xs' @ '' ]'' @ t" using r1(2) Cons head by simp
    then obtain r2 where r2: "SkipWhiteSpace r1 = (c, r2)" "rest_of r2 = s @ WriteArray fmt False xs' @ '' ]'' @ t"
        "jdata r2 = jdata r1" "jcur r2 = jcur r1 + 2"
      by (rule SkipWhiteSpace_read_char) (use head in \<open>auto simp: json_ws_def\<close>)
    define r3 where "r3 = r2\<lparr>jcur := jcur r2 - 1\<rparr>"
    have bk: "Back r2 = Inr r3" using r2(4) by (simp add: Back_def r3_def)
    have "rest_of (advance r1) = WriteArray fmt True xs @ '' ]'' @ t"
      using rest_of_Cons(3) [of r1 "CHR '' ''"] r1(2) by simp
    moreover have "r3 = advance r1" using r2(3,4) by (simp add: r3_def advance_def)
    ultimately have rest3: "rest_of r3 = [] @ WriteArray fmt True (x # xs') @ '' ]'' @ t" using Cons by simp
    have "\<exists>r'. GetArray n' True c [] r2 = Some (Inr (Inr (Some (JArray ([] @ x # xs'))), r'))
        \<and> rest_of r' = t \<and> jdata r' = jdata r3"
    proof (rule GetArray_items [OF _ rest3])
      show "2 * length (rest_of r3) + 3 \<le> n'" using fuel n rest rest3 Cons by simp
      show "\<not> HasEnd r2" using r2(2) by (simp flip: rest_of_end)
    qed (use assms(1) Cons bk head in auto)
    with r2(1,3) Cons show ?thesis by (simp add: r3_def)
  qed
  with r1 n show "\<exists>r'. GetValue n p0 r = Some (Inr (Inr (Some (JArray xs)), r')) \<and> rest_of r' = t \<and> jdata r' = jdata r"
    by (auto split: prod.splits)
qed

lemma plain_reads_back: "plain v \<Longrightarrow> reads_back fmt v"
proof (induction rule: plain.induct)
  case (str s)
  then show ?case by (rule reads_back_string)
next
  case (obj m)
  then show ?case by (intro reads_back_object) simp_all
next
  case (arr xs)
  then show ?case by (intro reads_back_array) simp_all
qed

section \<open>Correctness of the parser\<close>

text \<open>C30: \<^verbatim>\<open>Json::Parse\<close> always returns: on every text the recursion ends, with a value, with an error
  status, or with a failed assertion of the reader.\<close>

theorem json_parse_returns: "\<exists>x. Parse str p = Some x"
  using parser_total [of "\<lparr>jdata = str, jcur = 0\<rparr>" "2 * length str + 2" p]
  by (auto simp: Parse_def remaining_def)

text \<open>C31: What \<^verbatim>\<open>Json::Stringify\<close> writes for a value made of strings, objects and arrays,
  \<^verbatim>\<open>Json::Parse\<close> reads back as the same value, whatever bytes the strings and keys hold and
  however deep the nesting; except an empty array as the whole document, which it refuses. The strings and
  keys are shorter than \<open>2 ^ 32\<close> characters, since the reader counts them in 32 bits.\<close>

theorem json_roundtrip:
  assumes "plain v" and "v \<noteq> Some (JArray [])"
  shows "\<exists>r. Parse (Stringify fmt v) p = Some (Inr (Inr v, r)) \<and> HasEnd r"
proof -
  let ?r = "\<lparr>jdata = Stringify fmt v, jcur = 0\<rparr>"
  have rest: "rest_of ?r = [] @ Stringify fmt v @ []" by (simp add: rest_of_def)
  obtain r' where "GetValue (2 * length (Stringify fmt v) + 2) p ?r = Some (Inr (Inr v, r'))" "rest_of r' = []"
    using plain_reads_back [OF assms(1)] rest by (rule reads_backD) (use assms(2) rest in auto)
  then show ?thesis by (auto simp: Parse_def)
qed

text \<open>The bound is needed. A string of more characters, none of which the writer escapes, is read back cut off
  to its length modulo \<open>2 ^ 32\<close>, and no error is reported.\<close>

theorem json_long_string_cut:
  assumes "\<forall>c \<in> set s. json_replace c = None"
  shows "\<exists>r. Parse (Stringify fmt (Some (JString s))) p = Some (Inr (Inr (Some (JString (take (length s mod 2 ^ 32) s))), r))"
proof -
  have plain: "quote \<notin> set s" "backslash \<notin> set s" using assms by (auto simp: json_replace_def)
  have "concat (map json_escape s) = s" using assms by (induction s) (auto simp: json_escape_def)
  then have out: "Stringify fmt (Some (JString s)) = quote # s @ [quote]" by (simp add: WriteString_eq)
  let ?r = "\<lparr>jdata = quote # s @ [quote], jcur = 0\<rparr>"
  have skip: "SkipWhiteSpace ?r = (quote, advance ?r)"
    by (simp add: SkipWhiteSpace_def skip_loop.simps [of "CHR '' ''"] json_ws_def HasEnd_def peek_char_def skip_loop_stop)
  have rest: "rest_of (advance ?r) = s @ quote # []" "jdata (advance ?r) = quote # s @ [quote]" "jcur (advance ?r) = 1"
    by (simp_all add: rest_of_def advance_def)
  obtain r' where "GetString (advance ?r) quote = Inr (Inr (take (unat (of_nat (length s) :: u32)) (s @ [quote])), r')"
    using get_string_run [OF rest(1) plain, of 1 0 "[]" "CHR 0x00"] rest(2,3) by (auto simp: GetString_def)
  moreover have "unat (of_nat (length s) :: u32) = length s mod 2 ^ 32" by (simp add: unat_of_nat)
  moreover have "length s mod 2 ^ 32 \<le> length s" by simp
  ultimately have "GetString (advance ?r) quote = Inr (Inr (take (length s mod 2 ^ 32) s), r')" by simp
  then show ?thesis
    unfolding out Parse_def using skip by (simp add: get_leaf_def jmap_def)
qed

definition example_json :: "nat json_ptr" where
  "example_json = Some (JObj [(''k'', Some (JArray [Some (JString [quote, CHR 0x01])]))])"

theorem json_roundtrip_witness:
  "\<exists>r. Parse (Stringify (\<lambda>d _. []) example_json) None = Some (Inr (Inr example_json, r)) \<and> HasEnd r"
  by (rule json_roundtrip) (auto simp: example_json_def smap_ok_def intro!: plain.intros)

lemma Parse_eq: "Parse str p = GetValue (Suc (2 * length str + 1)) p \<lparr>jdata = str, jcur = 0\<rparr>"
  by (simp add: Parse_def)

lemma Parse_leaf:
  assumes "str = c # t" and "\<not> json_ws c" and "c \<noteq> CHR ''{''" and "c \<noteq> CHR ''[''"
  obtains r where "Parse str p = Some (get_leaf p c r)" "rest_of r = t"
proof -
  have "rest_of \<lparr>jdata = str, jcur = 0\<rparr> = [] @ c # t" using assms(1) by (simp add: rest_of_def)
  then obtain r where "SkipWhiteSpace \<lparr>jdata = str, jcur = 0\<rparr> = (c, r)" "rest_of r = t"
    using _ assms(2) by (rule SkipWhiteSpace_read_char) simp
  with assms(3,4) that show thesis by (simp add: Parse_eq)
qed

lemma num_loop_digits:
  "\<forall>c \<in> set t. isdigit c \<Longrightarrow> rest_of r = t \<Longrightarrow> is_ok s \<Longrightarrow>
     \<exists>s' r'. num_loop s r = (s', False, r') \<and> is_ok s'"
proof (induction t arbitrary: s r)
  case Nil
  then show ?case by (subst num_loop.simps) auto
next
  case (Cons c t)
  note r = rest_of_Cons [OF Cons.prems(2)]
  show ?case
    using Cons r by (subst num_loop.simps) (auto simp: Let_def)
qed

lemma strncaseeq_head: "0 < n \<Longrightarrow> tolower (hd0 s) \<noteq> tolower (hd0 t) \<Longrightarrow> \<not> strncaseeq n s t"
  by (cases n) auto

lemma leaf_letter:
  assumes "c \<in> {CHR ''t'', CHR ''f'', CHR ''n''}" and "hd0 (rest_of r) \<in> {CHR ''r'', CHR ''a'', CHR ''u''}"
  shows "\<exists>m. get_leaf p c r = Inr (Inl m, r)"
proof -
  have "tolower (hd0 (rest_of r)) \<notin> {CHR ''t'', CHR ''f'', CHR ''n''}"
    using assms(2) by (auto simp: tolower_def nat_of_def)
  moreover have low: "tolower (CHR ''t'') = CHR ''t''" "tolower (CHR ''f'') = CHR ''f''" "tolower (CHR ''n'') = CHR ''n''"
    by (simp_all add: tolower_def nat_of_def)
  ultimately have no: "\<not> strncaseeq 4 (rest_of r) ''true''" "\<not> strncaseeq 5 (rest_of r) ''false''"
      "\<not> strncaseeq 4 (rest_of r) ''null''"
    by (simp_all add: strncaseeq_head)
  have "\<not> isdigit (CHR ''n'')" by (simp add: isdigit_def nat_of_def)
  with assms(1) no show ?thesis
    unfolding get_leaf_def GetBoolean_def GetNull_def jmap_def by (elim insertE emptyE) simp_all
qed

text \<open>Numbers, booleans and null do not survive. Parsing a number leaves the caller's pointer as it
  was, since the number is never stored; \<^verbatim>\<open>true\<close>, \<^verbatim>\<open>false\<close> and \<^verbatim>\<open>null\<close> are refused wherever a value
  starts with them, since their first letter has been consumed before the comparison; and a
  string cut off inside a \<^verbatim>\<open>u\<close> escape fails the assertion of the reader.\<close>

theorem json_parse_defects:
  fixes p :: "'d json_ptr"
  shows "(\<forall>s. s \<noteq> [] \<and> (\<forall>c \<in> set s. isdigit c) \<longrightarrow> (\<exists>r. Parse s p = Some (Inr (Inr p, r))))
   \<and> (\<forall>s \<in> {''true'', ''false'', ''null''}. \<forall>t. \<exists>m r. Parse (s @ t) p = Some (Inr (Inl m, r)))
   \<and> (\<forall>h. length h < 4 \<longrightarrow> Parse (quote # backslash # CHR ''u'' # h) p = Some (Inl AssertionFailed))"
proof (intro conjI allI impI ballI)
  fix s :: string
  assume s: "s \<noteq> [] \<and> (\<forall>c \<in> set s. isdigit c)"
  then obtain c t where ct: "s = c # t" "isdigit c" "\<forall>c \<in> set t. isdigit c" by (cases s) auto
  have c: "\<not> json_ws c" "c \<noteq> CHR ''{''" "c \<noteq> CHR ''[''" "c \<noteq> quote" "c \<notin> {CHR ''T'', CHR ''t'', CHR ''F'', CHR ''f''}"
      "c \<noteq> CHR ''-''"
    using ct(2) by (auto simp: json_ws_def isdigit_def nat_of_def)
  obtain r where r: "Parse s p = Some (get_leaf p c r)" "rest_of r = t"
    using ct(1) c(1-3) by (rule Parse_leaf)
  have "\<exists>s' r'. GetNum r c = Inr (Inr s', r')"
    using num_loop_digits [OF ct(3) r(2), of "\<lparr>is_ok = True, is_float = False, is_exponential = False,
        is_negative = False, is_exponential_negative = False, int_value = of_int (digit_value c), float_digits = [],
        exponential_value = 0\<rparr>"] c(6)
    by (auto simp: GetNum_def Let_def)
  with r(1) c ct(2) show "\<exists>r. Parse s p = Some (Inr (Inr p, r))"
    by (auto simp: get_leaf_def jmap_def)
next
  fix s t :: string
  assume "s \<in> {''true'', ''false'', ''null''}"
  then obtain c u where u: "s @ t = c # u" "c \<in> {CHR ''t'', CHR ''f'', CHR ''n''}" "hd0 u \<in> {CHR ''r'', CHR ''a'', CHR ''u''}"
    by auto
  have "\<not> json_ws c" "c \<noteq> CHR ''{''" "c \<noteq> CHR ''[''" using u(2) by (auto simp: json_ws_def)
  with u(1) obtain r where "Parse (s @ t) p = Some (get_leaf p c r)" "rest_of r = u"
    by (rule Parse_leaf)
  with leaf_letter [OF u(2), of r p] u(3) show "\<exists>m r. Parse (s @ t) p = Some (Inr (Inl m, r))" by auto
next
  fix h :: string
  assume h: "length h < 4"
  have "\<not> json_ws quote" "quote \<noteq> CHR ''{''" "quote \<noteq> CHR ''[''" by (auto simp: json_ws_def)
  then obtain r where r: "Parse (quote # backslash # CHR ''u'' # h) p = Some (get_leaf p quote r)"
      "rest_of r = backslash # CHR ''u'' # h"
    by (rule Parse_leaf [OF refl])
  note r1 = rest_of_Cons [OF r(2)]
  note r2 = rest_of_Cons [OF r1(3)]
  have "get_hex n k r = Inl AssertionFailed" if "length (rest_of r) < n" for n k r
    using that
  proof (induction n arbitrary: k r)
    case (Suc n)
    show ?case
    proof (cases "rest_of r")
      case Nil
      then show ?thesis by (simp add: Read_def HasEnd_def)
    next
      case (Cons c t)
      with Suc rest_of_Cons(3) [OF Cons] show ?thesis by (simp add: Read_Cons)
    qed
  qed simp
  then have "GetHex (advance (advance r)) = Inl AssertionFailed" using h r2(3) by (simp add: GetHex_def)
  then have "GetString r quote = Inl AssertionFailed"
    unfolding GetString_def using r1 r2 by (subst get_string.simps) (simp add: Let_def)
  then show "Parse (quote # backslash # CHR ''u'' # h) p = Some (Inl AssertionFailed)"
    using r(1) by (simp add: get_leaf_def jmap_def)
qed

theorem json_parse_defects_witness:
  "(\<exists>r. Parse ''12'' (None :: nat json_ptr) = Some (Inr (Inr None, r)))
   \<and> Parse (quote # backslash # ''u12'') (None :: nat json_ptr) = Some (Inl AssertionFailed)"
  using json_parse_defects [of "None :: nat json_ptr"]
  by (auto simp: isdigit_def nat_of_def)

end
