(* ===== verification/Base64.thy ===== *)
theory Base64
  imports Coding Std_Text Base64_Tables
begin

text \<open>
  Base64 (\<^verbatim>\<open>voyager/util/base64/base64.cc\<close> over \<^verbatim>\<open>modp_base64/modp_b64.cc\<close>). The C functions write through
  pointers into arrays the caller allocated: \<open>dest\<close>, \<open>str\<close> and \<open>src\<close> are those arrays, \<open>p\<close> and \<open>s\<close>
  offsets into them, and an access outside them is the fault \<open>OutOfBounds\<close>. The decoder is the
  little-endian one, which the build uses. Lengths are 32-bit \<^verbatim>\<open>int\<close>.
\<close>

section \<open>The C routines\<close>

definition mem_at :: "byte list \<Rightarrow> nat \<Rightarrow> byte res" where
  "mem_at mem k = guard OutOfBounds (k < length mem) (Inr (mem ! k))"

definition mem_load32 :: "byte list \<Rightarrow> nat \<Rightarrow> u32 res" where
  "mem_load32 mem k = guard OutOfBounds (k + 4 \<le> length mem) (Inr (le_word (take 4 (drop k mem))))"

definition BADCHAR :: u32 where
  "BADCHAR = 0x01FFFFFF"

definition modp_b64_encode_len :: "nat \<Rightarrow> nat" where
  "modp_b64_encode_len a = (a + 2) div 3 * 4 + 1"

definition modp_b64_decode_len :: "nat \<Rightarrow> nat" where
  "modp_b64_decode_len a = a div 4 * 3 + 2"

definition modp_b64_encode_strlen :: "nat \<Rightarrow> nat" where
  "modp_b64_encode_strlen a = (a + 2) div 3 * 4"

text \<open>The indices into the tables are at most 8 bits wide, so no shift loses a bit.\<close>

definition e0_at :: "byte \<Rightarrow> byte" where
  "e0_at t = byte_of_char (e0 ! unat t)"

definition e1_at :: "byte \<Rightarrow> byte" where
  "e1_at t = byte_of_char (e1 ! unat t)"

definition e2_at :: "byte \<Rightarrow> byte" where
  "e2_at t = byte_of_char (e2 ! unat t)"

function encode_loop ::
  "byte list \<Rightarrow> int \<Rightarrow> nat \<Rightarrow> nat \<Rightarrow> byte list \<Rightarrow> (nat \<times> nat \<times> byte list) res" where
  "encode_loop str len i p dest =
     (if int i < len - 2 then
        rbind (mem_at str i) (\<lambda>t1. rbind (mem_at str (i + 1)) (\<lambda>t2. rbind (mem_at str (i + 2)) (\<lambda>t3.
          rbind (vec_copy p
                   [e0_at t1,
                    e1_at (push_bit 4 (t1 AND 0x03) OR (drop_bit 4 t2 AND 0x0F)),
                    e1_at (push_bit 2 (t2 AND 0x0F) OR (drop_bit 6 t3 AND 0x03)),
                    e2_at t3] dest) (\<lambda>dest.
            encode_loop str len (i + 3) (p + 4) dest))))
      else Inr (i, p, dest))"
  by pat_completeness auto
termination by (relation "measure (\<lambda>(str, len, i, p, dest). nat (len - int i))") auto

declare encode_loop.simps [simp del]

definition encode_rest :: "byte list \<Rightarrow> int \<Rightarrow> nat \<Rightarrow> nat \<Rightarrow> byte list \<Rightarrow> (nat \<times> byte list) res" where
  "encode_rest str len i p dest =
     (if len - int i = 0 then Inr (p, dest)
      else if len - int i = 1 then
        rbind (mem_at str i) (\<lambda>t1.
          rbind (vec_copy p
                   [e0_at t1, e1_at (push_bit 4 (t1 AND 0x03)),
                    byte_of_char CHARPAD, byte_of_char CHARPAD] dest) (\<lambda>dest.
            Inr (p + 4, dest)))
      else
        rbind (mem_at str i) (\<lambda>t1. rbind (mem_at str (i + 1)) (\<lambda>t2.
          rbind (vec_copy p
                   [e0_at t1,
                    e1_at (push_bit 4 (t1 AND 0x03) OR (drop_bit 4 t2 AND 0x0F)),
                    e2_at (push_bit 2 (t2 AND 0x0F)),
                    byte_of_char CHARPAD] dest) (\<lambda>dest.
            Inr (p + 4, dest)))))"

definition modp_b64_encode :: "byte list \<Rightarrow> byte list \<Rightarrow> int \<Rightarrow> (int \<times> byte list) res" where
  "modp_b64_encode dest str len =
     rbind (encode_loop str len 0 0 dest) (\<lambda>(i, p, dest).
       rbind (encode_rest str len i p dest) (\<lambda>(p, dest).
         rbind (vec_copy p [0] dest) (\<lambda>dest. Inr (to_int p, dest))))"

definition lookup4 :: "u32 \<Rightarrow> u32" where
  "lookup4 y =
     d0 ! unat (y AND 0xff) OR d1 ! unat (drop_bit 8 y AND 0xff) OR
     d2 ! unat (drop_bit 16 y AND 0xff) OR d3 ! unat (drop_bit 24 y AND 0xff)"

text \<open>
  The loop over the chunks but the last; the result is \<open>None\<close> for the early \<^verbatim>\<open>return -1\<close>, with the
  next word of the source, the offset to write at and the array otherwise. A 32-bit store writes
  the four bytes of \<open>x\<close>, low byte first.
\<close>

fun decode_loop ::
  "byte list \<Rightarrow> nat \<Rightarrow> nat \<Rightarrow> u32 \<Rightarrow> nat \<Rightarrow> byte list \<Rightarrow> (byte list \<times> (u32 \<times> nat) option) res" where
  "decode_loop src 0 s y p dest = Inr (dest, Some (y, p))"
| "decode_loop src (Suc chunks) s y p dest =
     (let x = lookup4 y
      in if x \<ge> BADCHAR then Inr (dest, None)
         else rbind (vec_copy p (le_bytes 4 x) dest) (\<lambda>dest.
           rbind (mem_load32 src s) (\<lambda>y. decode_loop src chunks (s + 4) y (p + 3) dest)))"

definition decode_last :: "nat \<Rightarrow> nat \<Rightarrow> u32 \<Rightarrow> nat \<Rightarrow> byte list \<Rightarrow> (int \<times> byte list) res" where
  "decode_last leftover chunks y p dest =
     (if leftover = 0 then
        let x = lookup4 y
        in if x \<ge> BADCHAR then Inr (-1, dest)
           else rbind (vec_copy p (take 3 (le_bytes 4 x)) dest) (\<lambda>dest. Inr ((int chunks + 1) * 3, dest))
      else
        let x = (if leftover = 1 then d0 ! unat (y AND 0xff)
                 else if leftover = 2 then
                   d0 ! unat (y AND 0xff) OR d1 ! unat (drop_bit 8 y AND 0xff)
                 else d0 ! unat (y AND 0xff) OR d1 ! unat (drop_bit 8 y AND 0xff) OR
                   d2 ! unat (drop_bit 16 y AND 0xff))
        in rbind (vec_copy p (take (if leftover = 3 then 2 else 1) (le_bytes 4 x)) dest) (\<lambda>dest.
             if x \<ge> BADCHAR then Inr (-1, dest)
             else Inr (3 * int chunks + (6 * int leftover) div 8, dest)))"

definition unpadded_len :: "byte list \<Rightarrow> nat \<Rightarrow> nat res" where
  "unpadded_len src len =
     rbind (mem_at src (len - 1)) (\<lambda>c.
       if c = byte_of_char CHARPAD then
         rbind (mem_at src (len - 2)) (\<lambda>c'.
           Inr (if c' = byte_of_char CHARPAD then len - 2 else len - 1))
       else Inr len)"

definition modp_b64_decode :: "byte list \<Rightarrow> byte list \<Rightarrow> int \<Rightarrow> (int \<times> byte list) res" where
  "modp_b64_decode dest src len =
     (if len = 0 then Inr (0, dest)
      else if len < 4 \<or> len mod 4 \<noteq> 0 then Inr (-1, dest)
      else
        rbind (unpadded_len src (nat len)) (\<lambda>n.
          let leftover = n mod 4;
              chunks = (if leftover = 0 then n div 4 - 1 else n div 4)
          in rbind (mem_load32 src 0) (\<lambda>y.
               rbind (decode_loop src chunks 4 y 0 dest) (\<lambda>(dest, r).
                 case r of
                   None \<Rightarrow> Inr (-1, dest)
                 | Some (y, p) \<Rightarrow> decode_last leftover chunks y p dest))))"

section \<open>The C++ interface\<close>

text \<open>
  A fresh string of NUL characters is the destination, the characters of the input with the
  terminating NUL the source; \<^verbatim>\<open>erase(d)\<close> throws when \<open>d\<close> is past the end. The results are the
  returned flag and the output string.
\<close>

definition c_memory :: "string \<Rightarrow> byte list" where
  "c_memory s = bytes_of_string s @ [0]"

definition erase_from :: "int \<Rightarrow> byte list \<Rightarrow> string res" where
  "erase_from d x =
     guard OutOfBounds (0 \<le> d \<and> nat d \<le> length x) (Inr (string_of_bytes (take (nat d) x)))"

definition Base64Encode :: "string \<Rightarrow> string \<Rightarrow> (bool \<times> string) res" where
  "Base64Encode input output =
     rbind (modp_b64_encode (replicate (modp_b64_encode_len (length input)) 0) (c_memory input)
              (to_int (length input))) (\<lambda>(d, x).
       if d < 0 then Inr (False, output)
       else rbind (erase_from d x) (\<lambda>x. Inr (True, x)))"

definition Base64Decode :: "string \<Rightarrow> string \<Rightarrow> (bool \<times> string) res" where
  "Base64Decode input output =
     rbind (modp_b64_decode (replicate (modp_b64_decode_len (length input)) 0) (c_memory input)
              (to_int (length input))) (\<lambda>(d, x).
       if d < 0 then Inr (False, output)
       else rbind (erase_from d x) (\<lambda>x. Inr (True, x)))"

text \<open>The two overloads on strings of \<^verbatim>\<open>modp_b64.h\<close>.\<close>

definition modp_b64_encode_string :: "string \<Rightarrow> string res" where
  "modp_b64_encode_string s =
     rbind (modp_b64_encode (replicate (modp_b64_encode_len (length s)) 0) (c_memory s)
              (to_int (length s))) (\<lambda>(d, x). erase_from d x)"

definition modp_b64_decode_string :: "string \<Rightarrow> string res" where
  "modp_b64_decode_string s =
     rbind (modp_b64_decode (replicate (modp_b64_decode_len (length s)) 0) (c_memory s)
              (to_int (length s))) (\<lambda>(d, x). if d < 0 then Inr [] else erase_from d x)"

section \<open>Reference definitions\<close>

text \<open>
  RFC 4648: three bytes are one 24-bit number, most significant byte first, written as four
  digits in base 64; one or two bytes left over are completed with zero bits, and the digits that
  hold none of their bits become \<^verbatim>\<open>=\<close>.
\<close>

definition b64_alphabet :: string where
  "b64_alphabet = ''ABCDEFGHIJKLMNOPQRSTUVWXYZabcdefghijklmnopqrstuvwxyz0123456789+/''"

definition b64_digit :: "nat \<Rightarrow> char" where
  "b64_digit v = b64_alphabet ! (v mod 64)"

definition group24 :: "char \<Rightarrow> char \<Rightarrow> char \<Rightarrow> nat" where
  "group24 a b c = nat_of a * 65536 + nat_of b * 256 + nat_of c"

fun rfc_encode :: "string \<Rightarrow> string" where
  "rfc_encode [] = []"
| "rfc_encode [a] =
     (let n = group24 a (CHR 0x00) (CHR 0x00)
      in [b64_digit (n div 2 ^ 18), b64_digit (n div 2 ^ 12), CHR ''='', CHR ''=''])"
| "rfc_encode [a, b] =
     (let n = group24 a b (CHR 0x00)
      in [b64_digit (n div 2 ^ 18), b64_digit (n div 2 ^ 12), b64_digit (n div 2 ^ 6), CHR ''=''])"
| "rfc_encode (a # b # c # r) =
     (let n = group24 a b c
      in [b64_digit (n div 2 ^ 18), b64_digit (n div 2 ^ 12), b64_digit (n div 2 ^ 6), b64_digit n]
         @ rfc_encode r)"

fun position :: "'a \<Rightarrow> 'a list \<Rightarrow> nat option" where
  "position x [] = None"
| "position x (y # ys) = (if x = y then Some 0 else map_option Suc (position x ys))"

definition b64_value :: "char \<Rightarrow> nat option" where
  "b64_value c = position c b64_alphabet"

definition ungroup24 :: "nat \<Rightarrow> string" where
  "ungroup24 n = [char_of (n div 65536), char_of (n div 256), char_of n]"

text \<open>The decoder does not look at the bits below the last byte of a padded group.\<close>

fun rfc_decode :: "string \<Rightarrow> string option" where
  "rfc_decode [] = Some []"
| "rfc_decode (a # b # c # d # r) =
     (case (b64_value a, b64_value b) of
        (Some u, Some v) \<Rightarrow>
          if r = [] \<and> c = CHR ''='' \<and> d = CHR ''='' then
            Some (take 1 (ungroup24 (u * 2 ^ 18 + v * 2 ^ 12)))
          else (case b64_value c of
            None \<Rightarrow> None
          | Some w \<Rightarrow>
              if r = [] \<and> d = CHR ''='' then
                Some (take 2 (ungroup24 (u * 2 ^ 18 + v * 2 ^ 12 + w * 2 ^ 6)))
              else (case (b64_value d, rfc_decode r) of
                (Some z, Some out) \<Rightarrow>
                  Some (ungroup24 (u * 2 ^ 18 + v * 2 ^ 12 + w * 2 ^ 6 + z) @ out)
              | _ \<Rightarrow> None))
      | _ \<Rightarrow> None)"
| "rfc_decode _ = None"

end
