(* ===== verification/Base64_Correct.thy ===== *)
theory Base64_Correct
  imports Base64
begin

unbundle bit_operations_syntax

text \<open>
  \<^verbatim>\<open>Base64Encode\<close> and \<^verbatim>\<open>Base64Decode\<close> compute the reference definitions of \<^verbatim>\<open>Base64\<close>. The lookup tables are
  compared with the alphabet entry by entry; then a group is three bytes of a 24-bit number, and the
  loops are followed group by group.
\<close>

section \<open>The tables\<close>

lemma position_append:
  "position x (xs @ ys) =
     (case position x xs of Some k \<Rightarrow> Some k | None \<Rightarrow> map_option ((+) (length xs)) (position x ys))"
  by (induction xs; cases "position x ys") (auto split: option.splits)

lemma position_upt: "position n [a..<b] = (if a \<le> n \<and> n < b then Some (n - a) else None)"
proof (induction b)
  case (Suc b)
  then show ?case by (cases "a \<le> b") (auto simp: position_append)
qed simp

lemma position_char: "\<forall>k \<in> set ns. k < 256 \<Longrightarrow> position c (map char_of ns) = position (nat_of c) ns"
  by (induction ns) (auto simp: nat_of_def)

lemma b64_alphabet_eq: "b64_alphabet = map char_of ([65..<91] @ [97..<123] @ [48..<58] @ [43, 47])"
  by code_simp

lemma e0_eq: "e0 = map (\<lambda>i. b64_digit (i div 4)) [0..<256]"
  by code_simp

lemma e1_eq: "e1 = map b64_digit [0..<256]" and e2_eq: "e2 = map b64_digit [0..<256]"
  by code_simp+

definition value_int :: "int \<Rightarrow> int option" where
  "value_int n =
     (if 65 \<le> n \<and> n < 91 then Some (n - 65)
      else if 97 \<le> n \<and> n < 123 then Some (n - 71)
      else if 48 \<le> n \<and> n < 58 then Some (n + 4)
      else if n = 43 then Some 62 else if n = 47 then Some 63 else None)"

lemma b64_value_int: "map_option int (b64_value c) = value_int (int (nat_of c))"
proof -
  have "position c b64_alphabet = position (nat_of c) ([65..<91] @ [97..<123] @ [48..<58] @ [43, 47])"
    unfolding b64_alphabet_eq by (rule position_char) auto
  then show ?thesis
    by (auto simp: b64_value_def value_int_def position_append position_upt simp del: upt_conv_Cons upt_rec_numeral)
qed

definition decode_entry :: "(int \<Rightarrow> int) \<Rightarrow> int \<Rightarrow> int" where
  "decode_entry f n = (case value_int n of None \<Rightarrow> 0x01FFFFFF | Some v \<Rightarrow> f v)"

lemma d0_eq: "map uint d0 = map (decode_entry (\<lambda>v. v * 4)) [0..255]"
  by code_simp
lemma d1_eq: "map uint d1 = map (decode_entry (\<lambda>v. v div 16 + v mod 16 * 4096)) [0..255]"
  by code_simp
lemma d2_eq: "map uint d2 = map (decode_entry (\<lambda>v. v div 4 * 256 + v mod 4 * 4194304)) [0..255]"
  by code_simp
lemma d3_eq: "map uint d3 = map (decode_entry (\<lambda>v. v * 65536)) [0..255]"
  by code_simp

lemma decode_table_nth:
  assumes "map uint ds = map g [0..255]" and "n < 256"
  shows "uint (ds ! n) = g (int n)"
proof -
  have "length ds = 256" using arg_cong [OF assms(1), of length] by simp
  then have "uint (ds ! n) = map uint ds ! n" using assms(2) by simp
  also have "\<dots> = g ([0..255] ! n)" using assms by simp
  finally show ?thesis using assms(2) by (simp add: nth_upto)
qed

lemma nat_of_less [simp]: "nat_of c < 256"
  by (simp add: nat_of_def)

lemma b64_value_less: "b64_value c = Some v \<Longrightarrow> v < 64"
  using b64_value_int [of c] by (auto simp: value_int_def split: if_splits)

lemma decode_entry_nth:
  assumes "map uint ds = map (decode_entry f) [0..255]"
  shows "unat (ds ! nat_of c) = (case b64_value c of None \<Rightarrow> 0x01FFFFFF | Some v \<Rightarrow> nat (f (int v)))"
proof -
  have "uint (ds ! nat_of c) = decode_entry f (int (nat_of c))"
    using assms by (rule decode_table_nth) simp
  then show ?thesis
    by (simp add: unat_eq_nat_uint decode_entry_def b64_value_int [symmetric] split: option.splits)
qed

lemmas decode_tables =
  decode_entry_nth [OF d0_eq] decode_entry_nth [OF d1_eq] decode_entry_nth [OF d2_eq]
  decode_entry_nth [OF d3_eq]

lemma or_plus:
  assumes "2 ^ n dvd a" and "b < 2 ^ n"
  shows "a OR b = a + (b::nat)"
proof -
  obtain c where a: "a = push_bit n c"
    using assms(1) by (auto simp: push_bit_eq_mult mult.commute dvd_def)
  have b: "b = take_bit n b" using assms(2) by (simp add: take_bit_nat_eq_self)
  have "a AND b = 0"
    unfolding a by (subst b) (rule bit_eqI, auto simp: bit_simps)
  then show ?thesis by (simp add: disjunctive_add_eq_or)
qed

lemma le_or_left: "a \<le> a OR (b::nat)"
proof -
  have "int a \<le> int a OR int b" by (rule or_greater_eq) simp
  then show ?thesis by (metis of_nat_le_iff of_nat_or_eq)
qed

lemma and_masks [simp]:
  "(t AND 0x03) = take_bit 2 (t::byte)" "(t AND 0x0F) = take_bit 4 (t::byte)"
  by (simp_all add: take_bit_eq_mask mask_eq_exp_minus_1)

lemma unat_push_take:
  assumes "n + m \<le> 8"
  shows "unat (push_bit n (take_bit m (t::byte))) = unat t mod 2 ^ m * 2 ^ n"
proof -
  have "unat t mod 2 ^ m * 2 ^ n < 2 ^ m * 2 ^ n" by simp
  also have "\<dots> \<le> 2 ^ 8" using assms power_increasing [of "m + n" 8 "2::nat"] by (simp add: power_add)
  finally have "take_bit 8 (push_bit n (take_bit m (unat t))) = unat t mod 2 ^ m * 2 ^ n"
    by (simp add: take_bit_nat_eq_self push_bit_eq_mult take_bit_eq_mod)
  then show ?thesis by (simp only: unsigned_push_bit_eq unsigned_take_bit_eq) simp
qed

lemma unat_take_drop:
  assumes "n + m = 8"
  shows "unat (take_bit m (drop_bit n (t::byte))) = unat t div 2 ^ n"
proof -
  have "take_bit m (drop_bit n t) = drop_bit n t"
    using assms by (intro bit_word_eqI) (auto simp: bit_simps dest: bit_imp_le_length)
  then have "unat (take_bit m (drop_bit n t)) = drop_bit n (unat t)"
    using unsigned_less [of t, where ?'a = nat]
    by (simp only: unsigned_drop_bit_eq) (simp add: take_bit_nat_eq_self)
  then show ?thesis by (simp add: drop_bit_eq_div)
qed

lemma encode_index:
  assumes "n + m = 8" "k + m \<le> 8" 
  shows "unat (push_bit m (take_bit k (t::byte)) OR take_bit m (drop_bit n u))
    = unat t mod 2 ^ k * 2 ^ m + unat u div 2 ^ n"
proof -
  have "unat u < 2 ^ m * 2 ^ n" 
    using assms(1) unsigned_less [of u, where ?'a = nat] by (simp add: power_add [symmetric] add.commute)
  then have "unat u div 2 ^ n < 2 ^ m"
    by (simp add: div_less_iff_less_mult)
  then show ?thesis
    using assms by (simp only: unsigned_or_eq unat_push_take unat_take_drop or_plus [of m] dvd_triv_right)
qed

lemma nth_e_tables:
  "n < 256 \<Longrightarrow> e0 ! n = b64_digit (n div 4)" "n < 256 \<Longrightarrow> e1 ! n = b64_digit n"
  "n < 256 \<Longrightarrow> e2 ! n = b64_digit n"
  by (simp_all add: e0_eq e1_eq e2_eq)

lemma unat_byte_less [simp]: "unat (t::byte) < 256"
  using unsigned_less [of t, where ?'a = nat] by simp

lemma e_at:
  "e0_at t = byte_of_char (b64_digit (unat t div 4))"
  "e1_at t = byte_of_char (b64_digit (unat t))"
  "e2_at t = byte_of_char (b64_digit (unat t))"
  by (simp_all add: e0_at_def e1_at_def e2_at_def nth_e_tables)

lemma b64_digit_add: "u = v + 64 * k \<Longrightarrow> b64_digit u = b64_digit v"
  by (simp add: b64_digit_def)

lemma shift8: "b64_digit (x * 256 + y) = b64_digit y"
  by (rule b64_digit_add [of _ _ "4 * x"]) simp

lemma shift4: "b64_digit (x * 16 + y) = b64_digit (x mod 4 * 16 + y)"
  by (rule b64_digit_add [of _ _ "x div 4"]) (use mult_div_mod_eq [of 4 x] in linarith)

lemma shift2: "b64_digit ((x * 256 + y) * 4 + z) = b64_digit (y mod 16 * 4 + z)"
proof (rule b64_digit_add)
  have "4 * y = 4 * (16 * (y div 16) + y mod 16)" by simp
  then show "(x * 256 + y) * 4 + z = y mod 16 * 4 + z + 64 * (16 * x + y div 16)"
    by (simp only: distrib_left) simp
qed

lemma group24_digits:
  "b64_digit (group24 a b c div 2 ^ 18) = b64_digit (nat_of a div 4)"
  "b64_digit (group24 a b c div 2 ^ 12) = b64_digit (nat_of a mod 4 * 16 + nat_of b div 16)"
  "b64_digit (group24 a b c div 2 ^ 6) = b64_digit (nat_of b mod 16 * 4 + nat_of c div 64)"
  "b64_digit (group24 a b c) = b64_digit (nat_of c)"
proof -
  let ?a = "nat_of a" and ?b = "nat_of b" and ?c = "nat_of c"
  have b: "?b < 256" and c: "?c < 256" by simp_all
  have n: "group24 a b c = (?a * 256 + ?b) * 256 + ?c" by (simp add: group24_def)
  have "group24 a b c div 65536 = ?a"
    using b c by (intro div_nat_eqI; simp add: group24_def; linarith)
  moreover have "group24 a b c div 2 ^ 18 = group24 a b c div 65536 div 4"
    by (simp flip: div_mult2_eq)
  ultimately show "b64_digit (group24 a b c div 2 ^ 18) = b64_digit (?a div 4)"
    by simp
  have "group24 a b c div 2 ^ 12 = group24 a b c div 256 div 16"
    by (simp flip: div_mult2_eq)
  also have "group24 a b c div 256 = ?a * 256 + ?b"
    unfolding n using c by (intro div_nat_eqI; simp)
  also have "(?a * 256 + ?b) div 16 = ?a * 16 + ?b div 16" by simp
  finally have "group24 a b c div 2 ^ 12 = ?a * 16 + ?b div 16" .
  then show "b64_digit (group24 a b c div 2 ^ 12) = b64_digit (?a mod 4 * 16 + ?b div 16)"
    using shift4 by presburger
  have "group24 a b c div 2 ^ 6 = (?a * 256 + ?b) * 4 + ?c div 64" unfolding n by simp
  then show "b64_digit (group24 a b c div 2 ^ 6) = b64_digit (?b mod 16 * 4 + ?c div 64)"
    using shift2 by presburger
  show "b64_digit (group24 a b c) = b64_digit ?c"
    unfolding n by (rule shift8)
qed

lemma unat_nat_of: "unat (byte_of_char c) = nat_of c"
  by (simp add: unat_byte_of_char nat_of_def)

lemma write_at_write_at:
  assumes "p + length a + length b \<le> length d"
  shows "write_at (p + length a) b (write_at p a d) = write_at p (a @ b) d"
proof -
  have "length (take p d @ a) = p + length a" using assms by simp
  then have "take (p + length a) (take p d @ a @ r) = take p d @ a" for r
    by (metis append_assoc append_eq_conv_conj)
  then show ?thesis
    using assms by (simp add: write_at_def ac_simps)
qed

lemma mem_at_drop: "drop i str = xs \<Longrightarrow> k < length xs \<Longrightarrow> mem_at str (i + k) = Inr (xs ! k)"
  by (auto simp: mem_at_def guard_def)

lemma encode_step:
  assumes "drop i str = byte_of_char a # byte_of_char b # byte_of_char c # rest" and "int i < len - 2"
    and "p + 4 \<le> length dest"
  shows "encode_loop str len i p dest =
    encode_loop str len (i + 3) (p + 4) (write_at p (bytes_of_string (rfc_encode [a, b, c])) dest)"
  using assms(2,3) mem_at_drop [OF assms(1), of 0] mem_at_drop [OF assms(1), of 1]
    mem_at_drop [OF assms(1), of 2]
  by (subst encode_loop.simps)
    (simp add: vec_copy_def e_at encode_index [where m = 4 and k = 2 and n = 4, simplified]
      encode_index [where m = 2 and k = 4 and n = 6, simplified] unat_nat_of Let_def
      group24_digits [simplified] bytes_of_string_def)

lemma length_rfc_encode: "length (rfc_encode s) = modp_b64_encode_strlen (length s)"
proof (induction s rule: rfc_encode.induct)
  case (4 a b c r)
  have "(length r + 5) div 3 = (length r + 2) div 3 + 1" by linarith
  with 4 show ?case by (simp add: Let_def modp_b64_encode_strlen_def add.commute)
qed (simp_all add: Let_def modp_b64_encode_strlen_def)

lemma encode_loop_stop: "\<not> int i < len - 2 \<Longrightarrow> encode_loop str len i p dest = Inr (i, p, dest)"
  by (subst encode_loop.simps) simp

lemma encode_rest_2:
  assumes "drop i str = byte_of_char a # byte_of_char b # rest" and "p + 4 \<le> length dest"
  shows "encode_rest str (int i + 2) i p dest
    = Inr (p + 4, write_at p (bytes_of_string (rfc_encode [a, b])) dest)"
  using assms(2) mem_at_drop [OF assms(1), of 0] mem_at_drop [OF assms(1), of 1]
  by (simp add: encode_rest_def vec_copy_def e_at encode_index [where m = 4 and k = 2 and n = 4, simplified]
      unat_push_take [where n = 2 and m = 4, simplified] unat_nat_of Let_def nat_of_def
      group24_digits [simplified] bytes_of_string_def CHARPAD_def)

lemma encode_rest_1:
  assumes "drop i str = byte_of_char a # rest" and "p + 4 \<le> length dest"
  shows "encode_rest str (int i + 1) i p dest
    = Inr (p + 4, write_at p (bytes_of_string (rfc_encode [a])) dest)"
  using assms(2) mem_at_drop [OF assms(1), of 0]
  by (simp add: encode_rest_def vec_copy_def e_at unat_push_take [where n = 4 and m = 2, simplified]
      unat_nat_of Let_def group24_digits [simplified] bytes_of_string_def CHARPAD_def nat_of_def)

definition encode_from :: "byte list \<Rightarrow> int \<Rightarrow> nat \<Rightarrow> nat \<Rightarrow> byte list \<Rightarrow> (int \<times> byte list) res" where
  "encode_from str len i p dest =
     rbind (encode_loop str len i p dest) (\<lambda>(i, p, dest).
       rbind (encode_rest str len i p dest) (\<lambda>(p, dest).
         rbind (vec_copy p [0] dest) (\<lambda>dest. Inr (to_int p, dest))))"

lemma encode_from_end:
  assumes "\<not> int i < len - 2" and "encode_rest str len i p dest = Inr (p + 4, write_at p (bytes_of_string g) dest)"
    and "length g = 4" and "p + length g < length dest"
  shows "encode_from str len i p dest
    = Inr (to_int (p + length g), write_at p (bytes_of_string g @ [0]) dest)"
  using assms write_at_write_at [of p "bytes_of_string g" "[0]" dest]
  by (simp add: encode_from_def encode_loop_stop vec_copy_def)

lemma encode_from_rfc:
  assumes "drop i str = bytes_of_string s @ rest"
    and "p + length (rfc_encode s) < length dest"
  shows "encode_from str (int (i + length s)) i p dest =
    Inr (to_int (p + length (rfc_encode s)), write_at p (bytes_of_string (rfc_encode s) @ [0]) dest)"
  using assms
proof (induction s arbitrary: i p dest rule: rfc_encode.induct)
  case 1
  then show ?case
    by (simp add: encode_from_def encode_loop_stop encode_rest_def vec_copy_def bytes_of_string_def)
next
  case (2 a)
  then have "drop i str = byte_of_char a # rest" by (simp add: bytes_of_string_def)
  with 2 have "encode_rest str (int i + 1) i p dest
      = Inr (p + 4, write_at p (bytes_of_string (rfc_encode [a])) dest)"
    by (intro encode_rest_1) (simp_all add: Let_def)
  with 2 show ?case by (intro encode_from_end) (simp_all add: Let_def add.commute)
next
  case (3 a b)
  then have "drop i str = byte_of_char a # byte_of_char b # rest" by (simp add: bytes_of_string_def)
  with 3 have "encode_rest str (int i + 2) i p dest
      = Inr (p + 4, write_at p (bytes_of_string (rfc_encode [a, b])) dest)"
    by (intro encode_rest_2) (simp_all add: Let_def)
  with 3 show ?case by (intro encode_from_end) (simp_all add: Let_def add.commute)
next
  case (4 a b c r)
  let ?g = "bytes_of_string (rfc_encode [a, b, c])"
  have g: "length ?g = 4" by (simp add: Let_def)
  have split: "rfc_encode (a # b # c # r) = rfc_encode [a, b, c] @ rfc_encode r" by (simp add: Let_def)
  have str: "drop i str = byte_of_char a # byte_of_char b # byte_of_char c # (bytes_of_string r @ rest)"
    using 4(2) by (simp add: bytes_of_string_def)
  then have str': "drop (i + 3) str = bytes_of_string r @ rest"
    by (simp add: add.commute [of i] flip: drop_drop)
  have len: "int (i + length (a # b # c # r)) = int (i + 3 + length r)" by simp
  have room: "p + 4 + length (rfc_encode r) < length dest"
    using 4(3) unfolding split by (simp add: Let_def)
  have size: "length (write_at p ?g dest) = length dest"
    by (rule length_write_at) (use room g in linarith)
  have "encode_from str (int (i + length (a # b # c # r))) i p dest =
      encode_from str (int (i + 3 + length r)) (i + 3) (p + 4) (write_at p ?g dest)"
    unfolding encode_from_def using encode_step [OF str, of "int (i + length (a # b # c # r))" p dest] room
    by (simp add: ac_simps)
  also have "\<dots> = Inr (to_int (p + 4 + length (rfc_encode r)),
      write_at (p + 4) (bytes_of_string (rfc_encode r) @ [0]) (write_at p ?g dest))"
    by (intro 4(1) [OF refl] str') (use room size in linarith)
  also have "write_at (p + 4) (bytes_of_string (rfc_encode r) @ [0]) (write_at p ?g dest)
      = write_at p (bytes_of_string (rfc_encode (a # b # c # r)) @ [0]) dest"
    using room g write_at_write_at [of p ?g "bytes_of_string (rfc_encode r) @ [0]" dest]
    unfolding split by simp
  finally show ?case unfolding split using g by (simp add: ac_simps)
qed

lemma modp_b64_encode_rfc:
  assumes "length s < 2 ^ 31"
  shows "modp_b64_encode (replicate (modp_b64_encode_len (length s)) 0) (c_memory s) (to_int (length s)) =
    Inr (to_int (length (rfc_encode s)), bytes_of_string (rfc_encode s) @ [0])"
proof -
  let ?dest = "replicate (modp_b64_encode_len (length s)) (0::byte)"
  have size: "length ?dest = Suc (length (rfc_encode s))"
    by (simp add: length_rfc_encode modp_b64_encode_len_def modp_b64_encode_strlen_def)
  have "modp_b64_encode ?dest (c_memory s) (to_int (length s)) = encode_from (c_memory s) (int (0 + length s)) 0 0 ?dest"
    using assms by (simp add: modp_b64_encode_def encode_from_def to_int_small)
  also have "\<dots> = Inr (to_int (0 + length (rfc_encode s)), write_at 0 (bytes_of_string (rfc_encode s) @ [0]) ?dest)"
    by (rule encode_from_rfc) (use size in \<open>simp_all add: c_memory_def\<close>)
  also have "write_at 0 (bytes_of_string (rfc_encode s) @ [0]) ?dest = bytes_of_string (rfc_encode s) @ [0]"
    using size by (simp add: write_at_def)
  finally show ?thesis by simp
qed

lemma Base64Encode_rfc:
  assumes "length (rfc_encode s) < 2 ^ 31"
  shows "Base64Encode s output = Inr (True, rfc_encode s)"
proof -
  have "length s < 2 ^ 31"
    using assms by (simp add: length_rfc_encode modp_b64_encode_strlen_def)
  then show ?thesis
    using assms by (simp add: Base64Encode_def modp_b64_encode_rfc) (simp add: to_int_small erase_from_def)
qed

section \<open>Decoding\<close>

lemma take_32_byte [simp]: "take_bit 32 (unat (t::byte)) = unat t"
  using order.strict_trans2 [OF unat_byte_less [of t], of "2 ^ 32"] by (simp add: take_bit_nat_eq_self)

lemma word_fields:
  fixes a b c d :: byte
  defines "y \<equiv> le_word [a, b, c, d] :: u32"
  shows "unat (y AND 0xff) = unat a" "unat (drop_bit 8 y AND 0xff) = unat b"
    "unat (drop_bit 16 y AND 0xff) = unat c" "unat (drop_bit 24 y AND 0xff) = unat d"
proof -
  have m: "x AND 0xff = take_bit 8 x" for x :: u32
    by (simp add: take_bit_eq_mask mask_eq_exp_minus_1)
  have "take_bit 8 y = ucast a" "take_bit 8 (drop_bit 8 y) = ucast b"
    "take_bit 8 (drop_bit 16 y) = ucast c" "take_bit 8 (drop_bit 24 y) = ucast d"
    unfolding y_def by (rule bit_word_eqI, auto simp: bit_simps dest: bit_imp_le_length)+
  then show "unat (y AND 0xff) = unat a" "unat (drop_bit 8 y AND 0xff) = unat b"
    "unat (drop_bit 16 y AND 0xff) = unat c" "unat (drop_bit 24 y AND 0xff) = unat d"
    by (simp_all only: m) (simp_all add: unsigned_ucast_eq take_bit_nat_eq_self)
qed

lemma or_fields:
  fixes u v w z :: nat
  assumes "u < 64" "v < 64" "w < 64" "z < 64"
  shows "u * 4 OR (v div 16 + v mod 16 * 4096) OR (w div 4 * 256 + w mod 4 * 4194304) OR z * 65536
    = (u * 4 + v div 16) + (v mod 16 * 16 + w div 4) * 256 + (w mod 4 * 64 + z) * 65536"
proof -
  have lt: "v div 16 < 4" "w div 4 < 16" "v mod 16 < 16" "w mod 4 < 4" using assms by auto
  have v: "v div 16 + v mod 16 * 4096 = v mod 16 * 4096 OR v div 16"
    using lt by (subst or_plus [of 12]) simp_all
  have w: "w div 4 * 256 + w mod 4 * 4194304 = w mod 4 * 4194304 OR w div 4 * 256"
    using lt by (subst or_plus [of 22]) simp_all
  have "u * 4 OR (v div 16 + v mod 16 * 4096) OR (w div 4 * 256 + w mod 4 * 4194304) OR z * 65536
    = (w mod 4 * 4194304 OR z * 65536) OR ((v mod 16 * 4096 OR w div 4 * 256) OR (u * 4 OR v div 16))"
    unfolding v w by (simp only: or.assoc or.commute or.left_commute)
  also have "u * 4 OR v div 16 = u * 4 + v div 16" using lt by (intro or_plus [of 2]) simp_all
  also have "v mod 16 * 4096 OR w div 4 * 256 = (v mod 16 * 16 + w div 4) * 256"
    using lt by (subst or_plus [of 12]) simp_all
  also have "w mod 4 * 4194304 OR z * 65536 = (w mod 4 * 64 + z) * 65536"
    using lt assms by (subst or_plus [of 22]) simp_all
  also have "(v mod 16 * 16 + w div 4) * 256 OR (u * 4 + v div 16) = (v mod 16 * 16 + w div 4) * 256 + (u * 4 + v div 16)"
    using lt assms by (intro or_plus [of 8]) simp_all
  also have "(w mod 4 * 64 + z) * 65536 OR ((v mod 16 * 16 + w div 4) * 256 + (u * 4 + v div 16))
     = (w mod 4 * 64 + z) * 65536 + ((v mod 16 * 16 + w div 4) * 256 + (u * 4 + v div 16))"
    using lt assms by (intro or_plus [of 16]) simp_all
  finally show ?thesis by simp
qed

lemma le_bytes_split:
  assumes "unat (x::u32) = n0 + n1 * 256 + n2 * 65536" "n0 < 256" "n1 < 256"
  shows "take 3 (le_bytes 4 x) = [of_nat n0, of_nat n1, of_nat n2]"
proof -
  have "ucast (drop_bit k x) = (of_nat (unat x div 2 ^ k) :: byte)" for k
  proof -
    have "unat (drop_bit k x) = unat x div 2 ^ k"
      using unsigned_less [of x, where ?'a = nat]
      by (simp only: unsigned_drop_bit_eq) (simp add: take_bit_nat_eq_self drop_bit_eq_div)
    then show ?thesis by (metis of_nat_unat)
  qed
  note e = this [of 0] this [of 8] this [of 16]
  have "unat x div 2 ^ 8 = n1 + n2 * 256" 
    unfolding assms(1) using assms(2) by (intro div_nat_eqI; simp)
  moreover have "unat x div 2 ^ 16 = n2"
    unfolding assms(1) using assms(2,3) by (intro div_nat_eqI; simp)
  moreover have "(of_nat (n + m * 256) :: byte) = of_nat n" for n m
    by (simp only: word_of_nat_eq_iff) (simp add: take_bit_eq_mod)
  moreover have "(of_nat (n + k * 256 + m * 65536) :: byte) = of_nat n" for n k m
    by (simp only: word_of_nat_eq_iff) (simp add: take_bit_eq_mod mod_add_eq [of _ 256, symmetric])
  ultimately show ?thesis
    using e by (simp add: le_bytes_4 assms(1))
qed

lemma ungroup24_bytes:
  assumes "n1 < 256" "n2 < 256"
  shows "ungroup24 (n0 * 65536 + n1 * 256 + n2) = [char_of n0, char_of n1, char_of n2]"
proof -
  have "(n0 * 65536 + n1 * 256 + n2) div 65536 = n0"
    using assms by (intro div_nat_eqI; simp; linarith)
  moreover have "(n0 * 65536 + n1 * 256 + n2) div 256 = n0 * 256 + n1"
    using assms by (intro div_nat_eqI; simp)
  moreover have c: "char_of (n * 256 + m) = (char_of m :: char)" for n m :: nat
    using char_of_mod_256 [of "n * 256 + m"] by (simp add: char_of_mod_256)
  moreover have "char_of (n * 65536 + k * 256 + m) = (char_of m :: char)" for n m k :: nat
    using c [of "n * 256 + k" m] by (simp add: mult.commute)
  ultimately show ?thesis by (simp add: ungroup24_def)
qed

lemma char_of_byte_of_nat: "char_of_byte (of_nat n) = char_of n"
  by (simp add: char_of_byte_def unat_of_nat)

lemma BADCHAR_le: "BADCHAR \<le> x \<longleftrightarrow> 0x01FFFFFF \<le> unat x"
  by (simp add: BADCHAR_def word_le_nat_alt)

definition word_of_chars :: "string \<Rightarrow> u32" where
  "word_of_chars s = le_word (bytes_of_string s)"

text \<open>The four table entries of a group, and what they give when digits are missing.\<close>

lemma table_entries:
  fixes a b c d :: char
  defines "y \<equiv> word_of_chars [a, b, c, d]"
  shows "d0 ! unat (y AND 0xff) = d0 ! nat_of a" "d1 ! unat (drop_bit 8 y AND 0xff) = d1 ! nat_of b"
    "d2 ! unat (drop_bit 16 y AND 0xff) = d2 ! nat_of c" "d3 ! unat (drop_bit 24 y AND 0xff) = d3 ! nat_of d"
  using word_fields [of "byte_of_char a" "byte_of_char b" "byte_of_char c" "byte_of_char d"]
  by (simp_all add: y_def word_of_chars_def bytes_of_string_def unat_nat_of del: le_word.simps)

definition bad_char :: "char \<Rightarrow> bool" where
  "bad_char c \<longleftrightarrow> b64_value c = None"

definition num24 :: "nat \<Rightarrow> nat \<Rightarrow> nat \<Rightarrow> nat \<Rightarrow> nat" where
  "num24 u v w z = u * 2 ^ 18 + v * 2 ^ 12 + w * 2 ^ 6 + z"

lemma num24_bytes:
  assumes "u < 64" "v < 64" "w < 64" "z < 64"
  shows "ungroup24 (num24 u v w z) =
    [char_of (u * 4 + v div 16), char_of (v mod 16 * 16 + w div 4), char_of (w mod 4 * 64 + z)]"
proof -
  have "v div 16 * 16 + v mod 16 = v" "w div 4 * 4 + w mod 4 = w" by simp_all
  then obtain q r s t where "v = q * 16 + r" "w = s * 4 + t" "v div 16 = q" "v mod 16 = r" "w div 4 = s" "w mod 4 = t"
    by metis
  then have "num24 u v w z = (u * 4 + v div 16) * 65536 + (v mod 16 * 16 + w div 4) * 256 + (w mod 4 * 64 + z)"
    by (simp add: num24_def)
  moreover have "v mod 16 * 16 + w div 4 < 256" "w mod 4 * 64 + z < 256" using assms by auto
  ultimately show ?thesis by (simp only: ungroup24_bytes)
qed

lemma or_good:
  fixes x0 x1 x2 x3 :: u32
  assumes "u < 64" "v < 64" "w < 64" "z < 64"
    and "unat x0 = u * 4" "unat x1 = v div 16 + v mod 16 * 4096"
    and "unat x2 = w div 4 * 256 + w mod 4 * 4194304" "unat x3 = z * 65536"
  shows "\<not> BADCHAR \<le> x0 OR x1 OR x2 OR x3"
    and "take 3 (le_bytes 4 (x0 OR x1 OR x2 OR x3)) = bytes_of_string (ungroup24 (num24 u v w z))"
proof -
  have x: "unat (x0 OR x1 OR x2 OR x3) =
    (u * 4 + v div 16) + (v mod 16 * 16 + w div 4) * 256 + (w mod 4 * 64 + z) * 65536"
    using or_fields [OF assms(1-4)] assms by (simp add: unsigned_or_eq)
  have lt: "u * 4 + v div 16 < 256" "v mod 16 * 16 + w div 4 < 256" "w mod 4 * 64 + z < 256"
    using assms by auto
  then have "unat (x0 OR x1 OR x2 OR x3) < 0x01FFFFFF" unfolding x by simp
  then show "\<not> BADCHAR \<le> x0 OR x1 OR x2 OR x3" by (simp add: BADCHAR_le)
  have "byte_of_char (char_of n) = of_nat n" for n
    using byte_of_char_of_byte [of "of_nat n"] by (simp add: char_of_byte_of_nat)
  then show "take 3 (le_bytes 4 (x0 OR x1 OR x2 OR x3)) = bytes_of_string (ungroup24 (num24 u v w z))"
    using le_bytes_split [OF x lt(1,2)] by (simp add: num24_bytes assms bytes_of_string_def)
qed

lemma or_bad: "BADCHAR \<le> x \<or> BADCHAR \<le> y \<Longrightarrow> BADCHAR \<le> x OR y"
  using le_or_left [of "unat x" "unat y"] le_or_left [of "unat y" "unat x"]
  by (auto simp: BADCHAR_le unsigned_or_eq or.commute)

lemma table_bad:
  assumes "b64_value c = None"
  shows "BADCHAR \<le> d0 ! nat_of c" "BADCHAR \<le> d1 ! nat_of c"
    "BADCHAR \<le> d2 ! nat_of c" "BADCHAR \<le> d3 ! nat_of c"
  using decode_tables [of c] assms by (simp_all add: BADCHAR_le)

lemma table_good:
  assumes "b64_value c = Some v"
  shows "unat (d0 ! nat_of c) = v * 4" "unat (d1 ! nat_of c) = v div 16 + v mod 16 * 4096"
    "unat (d2 ! nat_of c) = v div 4 * 256 + v mod 4 * 4194304" "unat (d3 ! nat_of c) = v * 65536"
  using decode_tables [of c] assms
  by (simp_all add: nat_add_distrib nat_mult_distrib nat_div_distrib nat_mod_distrib)

lemma lookup4_bad:
  assumes "bad_char a \<or> bad_char b \<or> bad_char c \<or> bad_char d"
  shows "BADCHAR \<le> lookup4 (word_of_chars [a, b, c, d])"
  using assms table_bad [of a] table_bad [of b] table_bad [of c] table_bad [of d]
  by (auto simp: lookup4_def table_entries bad_char_def intro!: or_bad)

lemma lookup4_good:
  assumes "b64_value a = Some u" "b64_value b = Some v" "b64_value c = Some w" "b64_value d = Some z"
  shows "\<not> BADCHAR \<le> lookup4 (word_of_chars [a, b, c, d])"
    and "take 3 (le_bytes 4 (lookup4 (word_of_chars [a, b, c, d]))) = bytes_of_string (ungroup24 (num24 u v w z))"
  using or_good [OF _ _ _ _ table_good(1) [OF assms(1)] table_good(2) [OF assms(2)]
      table_good(3) [OF assms(3)] table_good(4) [OF assms(4)]] assms b64_value_less
  by (auto simp: lookup4_def table_entries or.assoc)

lemma mem_load32_at:
  "length pre = k \<Longrightarrow> length g = 4 \<Longrightarrow> mem_load32 (pre @ bytes_of_string g @ post) k = Inr (word_of_chars g)"
  by (simp add: mem_load32_def word_of_chars_def)

lemma decode_last_0:
  assumes "p + 3 \<le> length dest"
  shows "decode_last 0 chunks (word_of_chars [a, b, c, d]) p dest =
    (case (b64_value a, b64_value b, b64_value c, b64_value d) of
       (Some u, Some v, Some w, Some z) \<Rightarrow>
         Inr ((int chunks + 1) * 3, write_at p (bytes_of_string (ungroup24 (num24 u v w z))) dest)
     | _ \<Rightarrow> Inr (-1, dest))"
  using assms lookup4_bad [of a b c d] lookup4_good [of a _ b _ c _ d]
  by (auto simp: decode_last_def Let_def vec_copy_def bad_char_def ungroup24_def guard_def split: option.splits)

lemma decode_last_bad:
  assumes "p + 3 \<le> length dest" and "leftover = 2 \<and> (bad_char a \<or> bad_char b) \<or> leftover = 3 \<and> (bad_char a \<or> bad_char b \<or> bad_char c)"
  shows "\<exists>dest'. decode_last leftover chunks (word_of_chars [a, b, c, d]) p dest = Inr (-1, dest')"
  using assms table_bad [of a] table_bad [of b] table_bad [of c]
  by (auto simp: decode_last_def Let_def vec_copy_def guard_def bad_char_def table_entries or_bad)

lemma decode_last_23:
  assumes "p + 3 \<le> length dest" and "b64_value a = Some u" "b64_value b = Some v"
  shows "decode_last 2 chunks (word_of_chars [a, b, c, d]) p dest =
      Inr (3 * int chunks + 1, write_at p (take 1 (bytes_of_string (ungroup24 (num24 u v 0 0)))) dest)"
    and "b64_value c = Some w \<Longrightarrow> decode_last 3 chunks (word_of_chars [a, b, c, d]) p dest =
      Inr (3 * int chunks + 2, write_at p (take 2 (bytes_of_string (ungroup24 (num24 u v w 0)))) dest)"
proof -
  note lt = b64_value_less [OF assms(2)] b64_value_less [OF assms(3)]
  note good = or_good [OF lt _ _ table_good(1) [OF assms(2)] table_good(2) [OF assms(3)], where ?x3.0 = 0 and z = 0, simplified]
  have first: "take k (le_bytes 4 x) = take k bs" if "take 3 (le_bytes 4 x) = bs" "k \<le> 3" for k bs and x :: u32
    using arg_cong [OF that(1), of "take k"] that(2) by (simp add: min_def)
  show "decode_last 2 chunks (word_of_chars [a, b, c, d]) p dest =
      Inr (3 * int chunks + 1, write_at p (take 1 (bytes_of_string (ungroup24 (num24 u v 0 0)))) dest)"
    using assms good(1) [of 0 0] first [OF good(2) [of 0 0], of 1]
    by (simp add: decode_last_def Let_def vec_copy_def table_entries ungroup24_def)
  assume c: "b64_value c = Some w"
  note good3 = good [OF b64_value_less [OF c] table_good(3) [OF c]]
  show "decode_last 3 chunks (word_of_chars [a, b, c, d]) p dest =
      Inr (3 * int chunks + 2, write_at p (take 2 (bytes_of_string (ungroup24 (num24 u v w 0)))) dest)"
    using assms good3(1) first [OF good3(2), of 2]
    by (simp add: decode_last_def Let_def vec_copy_def table_entries ungroup24_def)
qed

definition leftover_of :: "string \<Rightarrow> nat" where
  "leftover_of t = (if last t = CHR ''='' then if last (butlast t) = CHR ''='' then 2 else 3 else 0)"

definition decode_from :: "byte list \<Rightarrow> nat \<Rightarrow> nat \<Rightarrow> nat \<Rightarrow> nat \<Rightarrow> u32 \<Rightarrow> nat \<Rightarrow> byte list \<Rightarrow> (int \<times> byte list) res" where
  "decode_from src leftover chunks k s y p dest =
     rbind (decode_loop src k s y p dest) (\<lambda>(dest, r).
       case r of None \<Rightarrow> Inr (-1, dest) | Some (y, p) \<Rightarrow> decode_last leftover chunks y p dest)"

definition decoded :: "nat \<Rightarrow> byte list \<Rightarrow> string option \<Rightarrow> (int \<times> byte list) res \<Rightarrow> bool" where
  "decoded p dest out r \<longleftrightarrow>
     (case out of
        None \<Rightarrow> \<exists>dest'. r = Inr (-1, dest')
      | Some t \<Rightarrow> \<exists>dest'. r = Inr (int (p + length t), dest') \<and>
          take (p + length t) dest' = take p dest @ bytes_of_string t)"

lemma take_write_at: "p + length a \<le> length d \<Longrightarrow> take (p + length a) (write_at p a d) = take p d @ a"
  by (simp add: write_at_def)

lemma pad_bad: "b64_value (CHR ''='') = None"
  using b64_value_int [of "CHR ''=''"] by (simp add: value_int_def nat_of_def)

lemma length_ungroup24 [simp]: "length (ungroup24 n) = 3"
  by (simp add: ungroup24_def)

lemma bytes_of_string_take: "take k (bytes_of_string s) = bytes_of_string (take k s)"
  by (simp add: bytes_of_string_def take_map)

lemma decodedI:
  assumes "r = Inr (n, write_at p (bytes_of_string t) dest)" and "n = int (p + length t)"
    and "p + length t \<le> length dest"
  shows "decoded p dest (Some t) r"
  using assms take_write_at [of p "bytes_of_string t" dest] by (simp add: decoded_def)

lemma decode_from_last:
  assumes p: "p = 3 * chunks" and room: "p + 3 \<le> length dest"
  shows "decoded p dest (rfc_decode [a, b, c, d])
    (decode_from src (leftover_of [a, b, c, d]) chunks 0 s (word_of_chars [a, b, c, d]) p dest)"
proof -
  let ?l = "leftover_of [a, b, c, d]"
  have from_last: "decode_from src ?l chunks 0 s (word_of_chars [a, b, c, d]) p dest =
      decode_last ?l chunks (word_of_chars [a, b, c, d]) p dest"
    by (simp add: decode_from_def)
  consider (two) "d = CHR ''=''" "c = CHR ''=''" | (three) "d = CHR ''=''" "c \<noteq> CHR ''=''"
    | (none) "d \<noteq> CHR ''=''" by blast
  then show ?thesis
    unfolding from_last
  proof cases
    case two
    then show "decoded p dest (rfc_decode [a, b, c, d])
      (decode_last ?l chunks (word_of_chars [a, b, c, d]) p dest)"
      using p decode_last_23(1) [OF room, of a _ b _ chunks c d] decode_last_bad [OF room, of 2 a b c chunks d] room
      by (auto simp: leftover_of_def bad_char_def num24_def bytes_of_string_take decoded_def [of _ _ None]
          intro!: decodedI split: option.splits)
  next
    case three
    then show "decoded p dest (rfc_decode [a, b, c, d])
      (decode_last ?l chunks (word_of_chars [a, b, c, d]) p dest)"
      using p decode_last_23(2) [OF room, of a _ b _ c _ chunks d] decode_last_bad [OF room, of 3 a b c chunks d] room
      by (auto simp: leftover_of_def bad_char_def num24_def bytes_of_string_take decoded_def [of _ _ None]
          intro!: decodedI split: option.splits)
  next
    case none
    then show "decoded p dest (rfc_decode [a, b, c, d])
      (decode_last ?l chunks (word_of_chars [a, b, c, d]) p dest)"
      using p decode_last_0 [OF room, of chunks a b c d] room
      by (auto simp: leftover_of_def bad_char_def num24_def decoded_def [of _ _ None]
          intro!: decodedI split: option.splits)
  qed
qed

lemma rfc_decode_length: "rfc_decode s = Some t \<Longrightarrow> length s mod 4 = 0"
  by (induction s arbitrary: t rule: rfc_decode.induct) (auto split: option.splits if_splits)

lemma decode_from_rfc:
  assumes "src = pre @ bytes_of_string t @ post" and "length t = 4 * Suc k"
    and "p = 3 * j" and "p + 3 * Suc k < length dest"
  shows "decoded p dest (rfc_decode t)
    (decode_from src (leftover_of t) (j + k) k (length pre + 4) (word_of_chars (take 4 t)) p dest)"
  using assms
proof (induction k arbitrary: pre t p j dest)
  case 0
  then obtain a b c d where t: "t = [a, b, c, d]"
    by (auto simp: length_Suc_conv eval_nat_numeral)
  show ?case
    using decode_from_last [of p j dest a b c d src "length pre + 4"] 0 by (simp add: t)
next
  case (Suc k)
  obtain a b c d r where t: "t = a # b # c # d # r" and r: "length r = 4 * Suc k"
    using Suc.prems(2) by (auto simp: length_Suc_conv eval_nat_numeral)
  have r0: "r \<noteq> []" and rb: "butlast r \<noteq> []" using r by (auto simp: length_Suc_conv eval_nat_numeral)
  have left: "leftover_of t = leftover_of r" using r0 rb by (simp add: leftover_of_def t)
  show ?case
  proof (cases "bad_char a \<or> bad_char b \<or> bad_char c \<or> bad_char d")
    case True
    then have "rfc_decode t = None" using r0 by (auto simp: t bad_char_def split: option.splits)
    then show ?thesis
      using lookup4_bad [OF True] by (simp add: decoded_def decode_from_def t)
  next
    case False
    then obtain u v w z where val: "b64_value a = Some u" "b64_value b = Some v" "b64_value c = Some w" "b64_value d = Some z"
      by (auto simp: bad_char_def)
    let ?g = "bytes_of_string [a, b, c, d]" and ?x = "lookup4 (word_of_chars [a, b, c, d])"
    define dest1 where "dest1 = write_at p (le_bytes 4 ?x) dest"
    have src: "src = (pre @ ?g) @ bytes_of_string r @ post"
      using Suc.prems(1) by (simp add: t bytes_of_string_def)
    then have "src = (pre @ ?g) @ bytes_of_string (take 4 r) @ (bytes_of_string (drop 4 r) @ post)"
      by (simp flip: bytes_of_string_append)
    then have load: "mem_load32 src (length pre + 4) = Inr (word_of_chars (take 4 r))"
      using r by (simp only:) (rule mem_load32_at, simp_all)
    have size: "length dest1 = length dest"
      unfolding dest1_def using Suc.prems(4) by (intro length_write_at) simp
    have "decode_from src (leftover_of t) (j + Suc k) (Suc k) (length pre + 4) (word_of_chars (take 4 t)) p dest
        = decode_from src (leftover_of r) (Suc j + k) k (length (pre @ ?g) + 4) (word_of_chars (take 4 r)) (p + 3) dest1"
      using lookup4_good(1) [OF val] load Suc.prems(4) left
      by (simp add: t decode_from_def Let_def vec_copy_def dest1_def)
    moreover have "decoded (p + 3) dest1 (rfc_decode r)
        (decode_from src (leftover_of r) (Suc j + k) k (length (pre @ ?g) + 4) (word_of_chars (take 4 r)) (p + 3) dest1)"
      using Suc.prems(3,4) size by (intro Suc.IH src r) simp_all
    moreover have "take (p + 3) dest1 = take p dest @ bytes_of_string (ungroup24 (num24 u v w z))"
      using lookup4_good(2) [OF val] Suc.prems(4)
      by (simp add: dest1_def write_at_def)
    ultimately show ?thesis
      using r0 val by (auto simp: t decoded_def num24_def add.assoc split: option.splits)
  qed
qed

lemma unpadded_len_eq:
  assumes "length t = 4 * Suc k"
  shows "unpadded_len (bytes_of_string t @ post) (length t) =
    Inr (if leftover_of t = 0 then length t else 4 * k + leftover_of t)"
proof -
  have "length t - Suc 0 < length t" "length t - 2 < length t" "t \<noteq> []" "butlast t \<noteq> []"
    using assms by (auto simp: butlast_conv_take)
  moreover have "last (butlast t) = t ! (length t - 2)"
    using assms calculation(4) by (simp add: last_conv_nth [of "butlast t"] nth_butlast)
  moreover have "byte_of_char x = byte_of_char y \<longleftrightarrow> x = y" for x y
    by (metis char_of_byte_of_char)
  ultimately show ?thesis
    using assms by (simp add: unpadded_len_def mem_at_def leftover_of_def bytes_of_string_def nth_append
      last_conv_nth CHARPAD_def)
qed

lemma modp_b64_decode_rfc:
  assumes "length s < 2 ^ 31"
  shows "decoded 0 (replicate (modp_b64_decode_len (length s)) 0) (rfc_decode s)
    (modp_b64_decode (replicate (modp_b64_decode_len (length s)) 0) (c_memory s) (to_int (length s)))"
    (is "decoded 0 ?dest _ _")
proof (cases "s \<noteq> [] \<and> length s mod 4 = 0")
  case False
  then have "rfc_decode s = None" if "s \<noteq> []" using that rfc_decode_length [of s] by (cases "rfc_decode s") auto
  moreover have "int (length s) mod 4 = 0 \<longleftrightarrow> length s mod 4 = 0" by presburger
  ultimately show ?thesis
    using False assms
    by (cases "s = []") (auto simp: to_int_small modp_b64_decode_def decoded_def bytes_of_string_def)
next
  case True
  then obtain k where k: "length s = 4 * Suc k" by (metis Suc_pred' dvd_def length_greater_0_conv mod_0_imp_dvd mult_0_right not_gr_zero)
  have load: "mem_load32 (c_memory s) 0 = Inr (word_of_chars (take 4 s))"
    using mem_load32_at [of "[]" 0 "take 4 s" "bytes_of_string (drop 4 s) @ [0]"] k
    by (simp add: c_memory_def flip: append_assoc bytes_of_string_append)
  let ?l = "leftover_of s"
  let ?n = "if ?l = 0 then length s else 4 * k + ?l"
  have l: "?l < 4" by (simp add: leftover_of_def)
  then have left: "?n mod 4 = ?l" and chunks: "(if ?l = 0 then ?n div 4 - 1 else ?n div 4) = k"
    using k by auto
  have pos: "\<not> int (length s) = 0" "\<not> (int (length s) < 4 \<or> int (length s) mod 4 \<noteq> 0)"
    using k by simp_all
  have int_len: "to_int (length s) = int (length s)" using assms by (rule to_int_small)
  have "modp_b64_decode ?dest (c_memory s) (to_int (length s)) = decode_from (c_memory s) ?l k k 4 (word_of_chars (take 4 s)) 0 ?dest"
    unfolding modp_b64_decode_def int_len decode_from_def
    using unpadded_len_eq [OF k, of "[0]"] left chunks load pos
    by (simp add: Let_def c_memory_def)
  then show ?thesis
    using decode_from_rfc [of "c_memory s" "[]" s "[0]" k 0 0 ?dest] k
    by (simp add: c_memory_def modp_b64_decode_len_def)
qed

lemma Base64Decode_rfc:
  assumes "length s < 2 ^ 31"
  shows "Base64Decode s output =
    Inr (case rfc_decode s of None \<Rightarrow> (False, output) | Some t \<Rightarrow> (True, t))"
proof (cases "rfc_decode s")
  case None
  then show ?thesis
    using modp_b64_decode_rfc [OF assms] by (auto simp: Base64Decode_def decoded_def)
next
  case (Some t)
  then obtain x where x: "modp_b64_decode (replicate (modp_b64_decode_len (length s)) 0) (c_memory s)
      (to_int (length s)) = Inr (int (length t), x)" and t: "take (length t) x = bytes_of_string t"
    using modp_b64_decode_rfc [OF assms] by (auto simp: decoded_def)
  have "length t \<le> length x" using arg_cong [OF t, of length] by simp
  then show ?thesis using Some x t by (simp add: Base64Decode_def erase_from_def)
qed

lemma position_nth: "distinct xs \<Longrightarrow> n < length xs \<Longrightarrow> position (xs ! n) xs = Some n"
  by (induction xs arbitrary: n) (auto simp: nth_Cons split: nat.splits)

lemma b64_value_digit: "b64_value (b64_digit n) = Some (n mod 64)"
proof -
  have "distinct b64_alphabet" "length b64_alphabet = 64" by (simp_all add: b64_alphabet_def)
  then show ?thesis by (simp add: b64_value_def b64_digit_def position_nth)
qed

lemma horner:
  "n = q1 * 64 + a \<Longrightarrow> q1 = q2 * 64 + b \<Longrightarrow> q2 = q3 * 64 + c \<Longrightarrow> num24 q3 c b a = n"
  by (simp add: num24_def)

lemma digits_num24:
  assumes "n < 2 ^ 24"
  shows "num24 (n div 2 ^ 18 mod 64) (n div 2 ^ 12 mod 64) (n div 2 ^ 6 mod 64) (n mod 64) = n"
proof -
  have "n div 64 div 64 div 64 < 64" using assms by (simp flip: div_mult2_eq)
  moreover have "n div 2 ^ 6 = n div 64" "n div 2 ^ 12 = n div 64 div 64" "n div 2 ^ 18 = n div 64 div 64 div 64"
    by (simp_all flip: div_mult2_eq)
  moreover have "num24 (n div 64 div 64 div 64) (n div 64 div 64 mod 64) (n div 64 mod 64) (n mod 64) = n"
    by (rule horner) simp_all
  ultimately show ?thesis by simp
qed

lemma group24_less: "group24 a b c < 2 ^ 24"
proof -
  have "nat_of a * 65536 + nat_of b * 256 + nat_of c < 16777216"
    using nat_of_less [of a] nat_of_less [of b] nat_of_less [of c] by linarith
  then show ?thesis by (simp add: group24_def)
qed

lemma ungroup24_group24: "ungroup24 (group24 a b c) = [a, b, c]"
  using ungroup24_bytes [of "nat_of b" "nat_of c" "nat_of a"] by (simp add: group24_def nat_of_def)

lemma ungroup24_digits:
  "ungroup24 (num24 (group24 a b c div 2 ^ 18 mod 64) (group24 a b c div 2 ^ 12 mod 64)
     (group24 a b c div 2 ^ 6 mod 64) (group24 a b c mod 64)) = [a, b, c]"
  by (simp only: digits_num24 [OF group24_less] ungroup24_group24)

lemma low_digits_zero:
  "group24 a b (CHR 0x00) mod 64 = 0" "group24 a (CHR 0x00) (CHR 0x00) div 2 ^ 6 mod 64 = 0"
proof -
  have "group24 a b (CHR 0x00) = 64 * (nat_of a * 1024 + nat_of b * 4)"
    by (simp add: group24_def nat_of_def)
  then show "group24 a b (CHR 0x00) mod 64 = 0" by simp
  have "group24 a (CHR 0x00) (CHR 0x00) = 64 * (64 * (nat_of a * 16))"
    by (simp add: group24_def nat_of_def)
  then show "group24 a (CHR 0x00) (CHR 0x00) div 2 ^ 6 mod 64 = 0" by simp
qed

lemma rfc_decode_num24:
  "rfc_decode (a # b # c # d # r) =
     (case (b64_value a, b64_value b) of
        (Some u, Some v) \<Rightarrow>
          if r = [] \<and> c = CHR ''='' \<and> d = CHR ''='' then Some (take 1 (ungroup24 (num24 u v 0 0)))
          else (case b64_value c of
            None \<Rightarrow> None
          | Some w \<Rightarrow>
              if r = [] \<and> d = CHR ''='' then Some (take 2 (ungroup24 (num24 u v w 0)))
              else (case (b64_value d, rfc_decode r) of
                (Some z, Some out) \<Rightarrow> Some (ungroup24 (num24 u v w z) @ out)
              | _ \<Rightarrow> None))
      | _ \<Rightarrow> None)"
  by (cases "b64_value a"; cases "b64_value b"; cases "b64_value c"; cases "b64_value d"; cases "rfc_decode r")
    (simp_all add: num24_def)

lemma digit_not_pad: "b64_digit n \<noteq> CHR ''=''"
  using pad_bad b64_value_digit [of n] by auto

lemma rfc_roundtrip: "rfc_decode (rfc_encode s) = Some s"
proof (induction s rule: rfc_encode.induct)
  case (2 a)
  show ?case
    using ungroup24_digits [of a "CHR 0x00" "CHR 0x00", unfolded low_digits_zero]
    by (simp add: Let_def b64_value_digit rfc_decode_num24 del: rfc_decode.simps)
next
  case (3 a b)
  show ?case
    using ungroup24_digits [of a b "CHR 0x00", unfolded low_digits_zero]
    by (simp add: Let_def b64_value_digit rfc_decode_num24 digit_not_pad del: rfc_decode.simps)
next
  case (4 a b c r)
  show ?case
    using ungroup24_digits [of a b c] 4 [OF refl]
    by (simp add: Let_def b64_value_digit rfc_decode_num24 digit_not_pad del: rfc_decode.simps)
qed simp

lemma to_int_wraps: "2 ^ 31 \<le> n \<Longrightarrow> n < 2 ^ 32 \<Longrightarrow> to_int n = int n - 2 ^ 32"
proof -
  assume n: "2 ^ 31 \<le> n" "n < 2 ^ 32"
  then have "(int n + 2 ^ 31) mod 2 ^ 32 = (int n + 2 ^ 31 - 2 ^ 32) mod 2 ^ 32"
    by (simp only: minus_mod_self2)
  also have "\<dots> = int n + 2 ^ 31 - 2 ^ 32"
    using n by (intro mod_pos_pos_trivial) simp_all
  finally have "to_int n = int n + 2 ^ 31 - 2 ^ 32 - 2 ^ 31"
    unfolding to_int_def signed_take_bit_eq_take_bit_shift take_bit_eq_mod by simp
  then show ?thesis by simp
qed

lemma encode_truncated:
  assumes "2 ^ 31 + 2 \<le> length s" and "length s < 2 ^ 32"
  shows "Base64Encode s output = Inr (True, rfc_encode (take 2 s))"
proof -
  obtain a b r where s: "s = a # b # r"
    using assms(1) by (cases s; cases "tl s") auto
  let ?str = "c_memory s" and ?dest = "replicate (modp_b64_encode_len (length s)) (0::byte)"
  have str: "drop 0 ?str = byte_of_char a # byte_of_char b # bytes_of_string r @ [0]"
    by (simp add: s c_memory_def bytes_of_string_def)
  have len: "to_int (length s) < 0"
    using assms by (simp add: to_int_wraps)
  have room: "0 + 5 \<le> length ?dest" by (simp add: modp_b64_encode_len_def s)
  have "encode_rest ?str (to_int (length s)) 0 0 ?dest = encode_rest ?str (int 0 + 2) 0 0 ?dest"
    using len by (simp add: encode_rest_def)
  also have "\<dots> = Inr (0 + 4, write_at 0 (bytes_of_string (rfc_encode [a, b])) ?dest)"
    using room by (intro encode_rest_2 [OF str]) simp
  finally have "encode_from ?str (to_int (length s)) 0 0 ?dest
      = Inr (to_int (0 + length (rfc_encode [a, b])), write_at 0 (bytes_of_string (rfc_encode [a, b]) @ [0]) ?dest)"
    using len room by (intro encode_from_end) (simp_all add: Let_def)
  moreover have "modp_b64_encode ?dest ?str (to_int (length s)) = encode_from ?str (to_int (length s)) 0 0 ?dest"
    by (simp add: modp_b64_encode_def encode_from_def)
  moreover have "to_int (0 + length (rfc_encode [a, b])) = 4"
    by (subst to_int_small) (simp_all add: Let_def)
  moreover have "take 4 (write_at 0 (bytes_of_string (rfc_encode [a, b]) @ [0]) ?dest) = bytes_of_string (rfc_encode [a, b])"
    by (simp add: write_at_def Let_def bytes_of_string_def)
  moreover have "length (write_at 0 (bytes_of_string (rfc_encode [a, b]) @ [0]) ?dest) \<ge> 4"
    by (simp add: write_at_def Let_def)
  moreover have "take 2 s = [a, b]" by (simp add: s)
  ultimately show ?thesis
    by (simp add: Base64Encode_def erase_from_def del: rfc_encode.simps)
qed

lemma Base64Encode_too_long:
  assumes "1610612734 \<le> length s" and "length s < 2 ^ 31"
  shows "Base64Encode s output = Inr (False, output)"
proof -
  have "2 ^ 31 \<le> length (rfc_encode s)" "length (rfc_encode s) < 2 ^ 32"
    using assms by (simp_all add: length_rfc_encode modp_b64_encode_strlen_def)
  then have "to_int (length (rfc_encode s)) < 0" by (simp add: to_int_wraps)
  then show ?thesis using assms by (simp add: Base64Encode_def modp_b64_encode_rfc)
qed

section \<open>Properties\<close>

text \<open>C35: For an input of up to 1610612733 bytes, whose encoding fits an \<^verbatim>\<open>int\<close>, \<^verbatim>\<open>Base64Encode\<close> succeeds,
  stays inside its buffer and produces the RFC 4648 encoding with padding.\<close>

theorem base64_encode_is_rfc:
  assumes "length input \<le> 1610612733"
  shows "Base64Encode input output = Inr (True, rfc_encode input)"
  using assms by (intro Base64Encode_rfc) (simp add: length_rfc_encode modp_b64_encode_strlen_def)

theorem base64_encode_is_rfc_witness:
  "Base64Encode ''Man'' [] = Inr (True, ''TWFu'') \<and> Base64Encode ''Ma'' [] = Inr (True, ''TWE='')"
  using base64_encode_is_rfc [of "''Man''" "[]"] base64_encode_is_rfc [of "''Ma''" "[]"]
  by (simp add: Let_def group24_def nat_of_def b64_digit_def b64_alphabet_def)

text \<open>C36: \<^verbatim>\<open>Base64Decode\<close> of any string below 2 GiB never touches memory outside its arrays; it returns
  true with exactly the bytes the text stands for, and false, with the output untouched, when the
  length is no multiple of four, a character is outside the alphabet or padding is misplaced.\<close>

theorem base64_decode_is_rfc:
  assumes "length input < 2 ^ 31"
  shows "Base64Decode input output =
    Inr (case rfc_decode input of None \<Rightarrow> (False, output) | Some t \<Rightarrow> (True, t))"
  using assms by (rule Base64Decode_rfc)

theorem base64_decode_is_rfc_witness:
  "Base64Decode ''TWE='' ''old'' = Inr (True, ''Ma'') \<and> Base64Decode ''T=E='' ''old'' = Inr (False, ''old'')"
  using base64_decode_is_rfc [of "''TWE=''" "''old''"] base64_decode_is_rfc [of "''T=E=''" "''old''"]
  by (simp add: b64_value_def b64_alphabet_def ungroup24_def char_of_def bit_iff_odd)

text \<open>What \<^verbatim>\<open>Base64Encode\<close> writes, \<^verbatim>\<open>Base64Decode\<close> reads back, byte for byte.\<close>

theorem base64_roundtrip:
  assumes "length input \<le> 1610612733"
  shows "rbind (Base64Encode input out1) (\<lambda>(ok, text64). Base64Decode text64 out2) = Inr (True, input)"
proof -
  have "length (rfc_encode input) < 2 ^ 31"
    using assms by (simp add: length_rfc_encode modp_b64_encode_strlen_def)
  then show ?thesis by (simp add: Base64Encode_rfc Base64Decode_rfc rfc_roundtrip)
qed

theorem base64_roundtrip_witness:
  "rbind (Base64Encode [CHR 0x00, CHR 0xFF] ''a'') (\<lambda>(ok, text64). Base64Decode text64 ''b'')
    = Inr (True, [CHR 0x00, CHR 0xFF])"
  by (rule base64_roundtrip) simp

text \<open>Lengths are passed as \<^verbatim>\<open>int\<close>. An input whose encoding does not fit an \<^verbatim>\<open>int\<close> is refused; an input
  of more than 2 GiB is not: its length turns negative, and \<^verbatim>\<open>Base64Encode\<close> returns true with the
  encoding of its first two bytes alone.\<close>

theorem base64_encode_large:
  "(1610612734 \<le> length input \<and> length input < 2 ^ 31 \<longrightarrow>
      Base64Encode input output = Inr (False, output)) \<and>
   (2 ^ 31 + 2 \<le> length input \<and> length input < 2 ^ 32 \<longrightarrow>
      Base64Encode input output = Inr (True, rfc_encode (take 2 input)))"
  using Base64Encode_too_long encode_truncated by blast

theorem base64_encode_large_witness:
  "Base64Encode (replicate 2147483650 CHR ''a'') [] = Inr (True, ''YWE='')"
proof -
  have "take 2 (replicate 2147483650 CHR ''a'') = ''aa''" by (simp add: take_replicate numeral_2_eq_2)
  then show ?thesis
    using base64_encode_large [of "replicate 2147483650 CHR ''a''" "[]"]
    by (simp add: Let_def group24_def nat_of_def b64_digit_def b64_alphabet_def)
qed

end
