(* ===== verification/Base64_Big_Endian.thy ===== *)
theory Base64_Big_Endian
  imports Base64_Correct
begin

text \<open>
  The decoder of \<^verbatim>\<open>modp_base64/modp_b64.cc\<close> for big-endian machines, which the file has beside the little-endian
  one, and what it does with the tables of \<^verbatim>\<open>modp_b64_data.h\<close>: the header has one set of decoding tables, made
  for little-endian words, and gives it to either build.
\<close>

section \<open>The big-endian decoder\<close>

definition be_load32 :: "byte list \<Rightarrow> nat \<Rightarrow> u32 res" where
  "be_load32 mem k = guard OutOfBounds (k + 4 \<le> length mem) (Inr (load_word False (take 4 (drop k mem))))"

definition be_lookup4 :: "u32 \<Rightarrow> u32" where
  "be_lookup4 y =
     d0 ! unat (drop_bit 24 y AND 0xff) OR d1 ! unat (drop_bit 16 y AND 0xff) OR
     d2 ! unat (drop_bit 8 y AND 0xff) OR d3 ! unat (y AND 0xff)"

text \<open>A 32-bit store writes the high byte first.\<close>

fun be_decode_loop ::
  "byte list \<Rightarrow> nat \<Rightarrow> nat \<Rightarrow> u32 \<Rightarrow> nat \<Rightarrow> byte list \<Rightarrow> (byte list \<times> (u32 \<times> nat) option) res" where
  "be_decode_loop src 0 s y p dest = Inr (dest, Some (y, p))"
| "be_decode_loop src (Suc chunks) s y p dest =
     (let x = be_lookup4 y
      in if x \<ge> BADCHAR then Inr (dest, None)
         else rbind (vec_copy p (store_word False 4 (push_bit 8 x)) dest) (\<lambda>dest.
           rbind (be_load32 src s) (\<lambda>y. be_decode_loop src chunks (s + 4) y (p + 3) dest)))"

definition be_decode_last :: "nat \<Rightarrow> nat \<Rightarrow> u32 \<Rightarrow> nat \<Rightarrow> byte list \<Rightarrow> (int \<times> byte list) res" where
  "be_decode_last leftover chunks y p dest =
     (if leftover = 0 then
        let x = be_lookup4 y
        in if x \<ge> BADCHAR then Inr (-1, dest)
           else rbind (vec_copy p (drop 1 (store_word False 4 x)) dest) (\<lambda>dest. Inr ((int chunks + 1) * 3, dest))
      else
        let c0 = d3 ! unat (drop_bit 24 y); c1 = d3 ! unat (drop_bit 16 y AND 0xff); c2 = d3 ! unat (drop_bit 8 y AND 0xff);
            x = (if leftover = 1 then c0 else if leftover = 2 then c0 * 64 + c1 else (c0 * 64 + c1) * 64 + c2);
            out = (if leftover = 1 then [ucast x] else if leftover = 2 then [ucast (drop_bit 4 x)]
                   else [ucast (drop_bit 10 x), ucast (drop_bit 2 x)])
        in rbind (vec_copy p out dest) (\<lambda>dest.
             if x \<ge> BADCHAR then Inr (-1, dest) else Inr (3 * int chunks + (6 * int leftover) div 8, dest)))"

definition be_modp_b64_decode :: "byte list \<Rightarrow> byte list \<Rightarrow> int \<Rightarrow> (int \<times> byte list) res" where
  "be_modp_b64_decode dest src len =
     (if len = 0 then Inr (0, dest)
      else if len < 4 \<or> len mod 4 \<noteq> 0 then Inr (-1, dest)
      else
        rbind (unpadded_len src (nat len)) (\<lambda>n.
          let leftover = n mod 4;
              chunks = (if leftover = 0 then n div 4 - 1 else n div 4)
          in rbind (be_load32 src 0) (\<lambda>y.
               rbind (be_decode_loop src chunks 4 y 0 dest) (\<lambda>(dest, r).
                 case r of
                   None \<Rightarrow> Inr (-1, dest)
                 | Some (y, p) \<Rightarrow> be_decode_last leftover chunks y p dest))))"

section \<open>What it decodes\<close>

text \<open>The word of a group has its characters from the high byte on; the tables see the same characters as in the
  little-endian build, so that \<open>x\<close> is the same number, but its bytes are stored in the opposite order.\<close>

definition be_word :: "string \<Rightarrow> u32" where
  "be_word s = load_word False (bytes_of_string s)"

lemma be_word_eq: "be_word [a, b, c, d] = word_of_chars [d, c, b, a]"
  by (simp add: be_word_def word_of_chars_def load_word_def bytes_of_string_def del: le_word.simps)

lemma be_lookup4_eq: "be_lookup4 (be_word [a, b, c, d]) = lookup4 (word_of_chars [a, b, c, d])"
proof -
  have w: "unat (y AND 0xff) = nat_of (g ! 0)" "unat (drop_bit 8 y AND 0xff) = nat_of (g ! 1)"
    "unat (drop_bit 16 y AND 0xff) = nat_of (g ! 2)" "unat (drop_bit 24 y AND 0xff) = nat_of (g ! 3)"
    if "y = word_of_chars g" "g = [e0', e1', e2', e3']" for y g e0' e1' e2' e3'
    using word_fields [of "byte_of_char e0'" "byte_of_char e1'" "byte_of_char e2'" "byte_of_char e3'"] that
    by (simp_all add: word_of_chars_def bytes_of_string_def unat_nat_of del: le_word.simps)
  show ?thesis
    using w [of "word_of_chars [a, b, c, d]"] w [of "word_of_chars [d, c, b, a]"]
    by (simp add: be_lookup4_def lookup4_def be_word_eq)
qed

lemma store_shifted: "store_word False 4 (push_bit 8 (x::u32)) = rev (take 3 (le_bytes 4 x)) @ [0]"
proof -
  have "ucast (push_bit 8 x) = (0 :: byte)" "drop_bit 8 (push_bit 8 x) = take_bit 24 x"
    by (rule bit_word_eqI, auto simp: bit_simps dest: bit_imp_le_length)+
  moreover have "ucast (take_bit 24 x) = (ucast x :: byte)" "ucast (drop_bit 8 (take_bit 24 x)) = (ucast (drop_bit 8 x) :: byte)"
    "ucast (drop_bit 16 (take_bit 24 x)) = (ucast (drop_bit 16 x) :: byte)"
    by (rule bit_word_eqI, auto simp: bit_simps dest: bit_imp_le_length)+
  ultimately show ?thesis
    by (simp add: store_word_def eval_nat_numeral)
qed

lemma store_low: "drop 1 (store_word False 4 (x::u32)) = rev (take 3 (le_bytes 4 x))"
  by (simp add: store_word_def eval_nat_numeral)

lemma be_load32_at:
  "length pre = k \<Longrightarrow> length g = 4 \<Longrightarrow> be_load32 (pre @ bytes_of_string g @ post) k = Inr (be_word g)"
  by (simp add: be_load32_def be_word_def)

text \<open>Each group of three reversed.\<close>

fun rev_triples :: "string \<Rightarrow> string" where
  "rev_triples (a # b # c # r) = c # b # a # rev_triples r"
| "rev_triples r = r"

definition be_decode_from :: "byte list \<Rightarrow> nat \<Rightarrow> nat \<Rightarrow> nat \<Rightarrow> u32 \<Rightarrow> nat \<Rightarrow> byte list \<Rightarrow> (int \<times> byte list) res" where
  "be_decode_from src chunks k s y p dest =
     rbind (be_decode_loop src k s y p dest) (\<lambda>(dest, r).
       case r of None \<Rightarrow> Inr (-1, dest) | Some (y, p) \<Rightarrow> be_decode_last 0 chunks y p dest)"

lemma rfc_decode_group:
  assumes "b64_value a = Some u" "b64_value b = Some v" "b64_value c = Some w" "b64_value d = Some z"
  shows "rfc_decode (a # b # c # d # r) = map_option (\<lambda>out. ungroup24 (num24 u v w z) @ out) (rfc_decode r)"
proof -
  have "c \<noteq> CHR ''=''" "d \<noteq> CHR ''=''" using assms pad_bad by auto
  then show ?thesis using assms by (auto simp: num24_def split: option.split)
qed

lemma rev_triples_group: "rev_triples (ungroup24 n @ out) = rev (ungroup24 n) @ rev_triples out"
  by (simp add: ungroup24_def)

lemma bytes_of_string_rev: "bytes_of_string (rev s) = rev (bytes_of_string s)"
  by (simp add: bytes_of_string_def rev_map)

lemma be_last_group:
  assumes "b64_value a = Some u" "b64_value b = Some v" "b64_value c = Some w" "b64_value d = Some z" and "p + 3 \<le> length dest"
  shows "be_decode_last 0 chunks (be_word [a, b, c, d]) p dest =
    Inr ((int chunks + 1) * 3, write_at p (bytes_of_string (rev (ungroup24 (num24 u v w z)))) dest)"
  using lookup4_good [OF assms(1-4)] assms(5)
  by (simp add: be_decode_last_def be_lookup4_eq store_low vec_copy_def bytes_of_string_rev del: One_nat_def)

lemma be_decode_from_groups:
  assumes "src = pre @ bytes_of_string t @ post" and "length t = 4 * Suc k"
    and "p = 3 * j" and "p + 3 * Suc k < length dest" and "\<forall>c \<in> set t. \<not> bad_char c"
  shows "\<exists>out dest'. rfc_decode t = Some out \<and>
    be_decode_from src (j + k) k (length pre + 4) (be_word (take 4 t)) p dest = Inr (int (p + length out), dest') \<and>
    take (p + length out) dest' = take p dest @ bytes_of_string (rev_triples out)"
  using assms
proof (induction k arbitrary: pre t p j dest)
  case 0
  then obtain a b c d where t: "t = [a, b, c, d]"
    by (auto simp: length_Suc_conv eval_nat_numeral)
  obtain u v w z where val: "b64_value a = Some u" "b64_value b = Some v" "b64_value c = Some w" "b64_value d = Some z"
    using 0 by (auto simp: bad_char_def t)
  have room: "p + 3 \<le> length dest" using 0 by simp
  have "rfc_decode t = Some (ungroup24 (num24 u v w z))" using rfc_decode_group [OF val, of "[]"] by (simp add: t)
  moreover have "be_decode_from src (j + 0) 0 (length pre + 4) (be_word (take 4 t)) p dest
      = Inr (int (p + 3), write_at p (bytes_of_string (rev (ungroup24 (num24 u v w z)))) dest)"
    using be_last_group [OF val room] 0 by (simp add: be_decode_from_def t)
  moreover have "take (p + 3) (write_at p (bytes_of_string (rev (ungroup24 (num24 u v w z)))) dest)
      = take p dest @ bytes_of_string (rev_triples (ungroup24 (num24 u v w z)))"
    using take_write_at [of p "bytes_of_string (rev (ungroup24 (num24 u v w z)))" dest] room
      rev_triples_group [of "num24 u v w z" "[]"] by simp
  ultimately show ?case by simp
next
  case (Suc k)
  obtain a b c d r where t: "t = a # b # c # d # r" and r: "length r = 4 * Suc k"
    using Suc.prems(2) by (auto simp: length_Suc_conv eval_nat_numeral)
  obtain u v w z where val: "b64_value a = Some u" "b64_value b = Some v" "b64_value c = Some w" "b64_value d = Some z"
    using Suc.prems(5) by (auto simp: bad_char_def t)
  let ?g = "bytes_of_string [a, b, c, d]" and ?x = "lookup4 (word_of_chars [a, b, c, d])"
  define dest1 where "dest1 = write_at p (rev (take 3 (le_bytes 4 ?x)) @ [0]) dest"
  have src: "src = (pre @ ?g) @ bytes_of_string r @ post"
    using Suc.prems(1) by (simp add: t bytes_of_string_def)
  then have "src = (pre @ ?g) @ bytes_of_string (take 4 r) @ (bytes_of_string (drop 4 r) @ post)"
    by (simp flip: bytes_of_string_append)
  then have load: "be_load32 src (length pre + 4) = Inr (be_word (take 4 r))"
    using r by (simp only:) (rule be_load32_at, simp_all)
  have size: "length dest1 = length dest"
    unfolding dest1_def using Suc.prems(4) by (intro length_write_at) simp
  have step: "be_decode_from src (j + Suc k) (Suc k) (length pre + 4) (be_word (take 4 t)) p dest
      = be_decode_from src (Suc j + k) k (length (pre @ ?g) + 4) (be_word (take 4 r)) (p + 3) dest1"
    using lookup4_good(1) [OF val] load Suc.prems(4)
    by (simp add: t be_decode_from_def Let_def vec_copy_def dest1_def be_lookup4_eq store_shifted)
  have tk: "take (p + 3) dest1 = take p dest @ bytes_of_string (rev (ungroup24 (num24 u v w z)))"
    using lookup4_good(2) [OF val] Suc.prems(4)
    by (simp add: dest1_def write_at_def bytes_of_string_rev)
  obtain out dest' where o: "rfc_decode r = Some out"
      "be_decode_from src (Suc j + k) k (length (pre @ ?g) + 4) (be_word (take 4 r)) (p + 3) dest1 = Inr (int (p + 3 + length out), dest')"
      "take (p + 3 + length out) dest' = take (p + 3) dest1 @ bytes_of_string (rev_triples out)"
    using Suc.IH [OF src r, of "p + 3" "Suc j" dest1] Suc.prems(3-5) size by (auto simp: t)
  show ?case
    using o step tk rfc_decode_group [OF val, of r] by (simp add: t rev_triples_group add.assoc)
qed

text \<open>The decoder of a big-endian build gives wrong bytes and reports success: of every text without padding it
  gets the length right and each group of three bytes backwards. With padding it loses the byte or rejects the
  text, here \<^verbatim>\<open>TQ==\<close>, the code of \<^verbatim>\<open>M\<close>.\<close>

theorem big_endian_decode_reversed:
  assumes "t \<noteq> []" and "length t mod 4 = 0" and "length t < 2 ^ 31" and "\<forall>c \<in> set t. \<not> bad_char c"
  shows "\<exists>out dest'. rfc_decode t = Some out \<and>
    be_modp_b64_decode (replicate (modp_b64_decode_len (length t)) 0) (c_memory t) (to_int (length t)) = Inr (int (length out), dest') \<and>
    take (length out) dest' = bytes_of_string (rev_triples out)"
proof -
  obtain k where k: "length t = 4 * Suc k" using assms(1,2)
    by (metis Suc_pred' dvd_def length_greater_0_conv mod_0_imp_dvd mult_0_right not_gr_zero)
  let ?dest = "replicate (modp_b64_decode_len (length t)) 0"
  have load: "be_load32 (c_memory t) 0 = Inr (be_word (take 4 t))"
    using be_load32_at [of "[]" 0 "take 4 t" "bytes_of_string (drop 4 t) @ [0]"] k
    by (simp add: c_memory_def flip: append_assoc bytes_of_string_append)
  have "last t \<noteq> CHR ''=''" using bspec [OF assms(4) last_in_set [OF assms(1)]] pad_bad by (auto simp: bad_char_def)
  then have left: "leftover_of t = 0" by (simp add: leftover_of_def)
  have len: "length t mod 4 = 0" "length t div 4 - 1 = k" "\<not> int (length t) = 0"
      "\<not> (int (length t) < 4 \<or> int (length t) mod 4 \<noteq> 0)"
    using k by simp_all
  have int_len: "to_int (length t) = int (length t)" using assms(3) by (rule to_int_small)
  have "be_modp_b64_decode ?dest (c_memory t) (to_int (length t)) = be_decode_from (c_memory t) k k 4 (be_word (take 4 t)) 0 ?dest"
    unfolding be_modp_b64_decode_def int_len be_decode_from_def
    using unpadded_len_eq [OF k, of "[0]"] left load len by (simp add: Let_def c_memory_def)
  then show ?thesis
    using be_decode_from_groups [of "c_memory t" "[]" t "[0]" k 0 0 ?dest] k assms(4)
    by (simp add: c_memory_def modp_b64_decode_len_def)
qed

theorem big_endian_decode_reversed_witness:
  "rfc_decode ''TWFu'' = Some ''Man'' \<and> (\<exists>dest'. be_modp_b64_decode (replicate (modp_b64_decode_len 4) 0) (c_memory ''TWFu'') 4
     = Inr (3, dest') \<and> take 3 dest' = bytes_of_string ''naM'')"
proof -
  have v: "\<forall>c \<in> set ''TWFu''. \<not> bad_char c" by (simp add: bad_char_def b64_value_def b64_alphabet_def)
  have d: "rfc_decode ''TWFu'' = Some ''Man''"
    by (simp add: b64_value_def b64_alphabet_def ungroup24_def char_of_def bit_iff_odd)
  have l: "length ''TWFu'' = 4" "length ''Man'' = 3" by simp_all
  have i: "to_int 4 = 4" by (simp add: to_int_small)
  have "\<exists>dest'. be_modp_b64_decode (replicate (modp_b64_decode_len 4) 0) (c_memory ''TWFu'') 4
     = Inr (3, dest') \<and> take 3 dest' = bytes_of_string ''naM''"
    using big_endian_decode_reversed [OF _ _ _ v] unfolding d l i by (auto simp: numeral_3_eq_3)
  with d show ?thesis by blast
qed

lemma big_endian_rejects_padding:
  "be_modp_b64_decode (replicate (modp_b64_decode_len 4) 0) (c_memory ''TQ=='') 4 = Inr (-1, replicate 5 0)"
  by code_simp

end
