(* ===== verification/Protobuf_Codec.thy ===== *)
theory Protobuf_Codec
  imports Framing Coding "HOL-Library.Monad_Syntax"
begin

text \<open>
  \<^verbatim>\<open>ProtobufCodec<Message>\<close> (\<^verbatim>\<open>voyager/protobuf/protobuf_codec.h\<close>): frames of a 32-bit length, which counts
  itself, and a serialised message. The message class is generated by protobuf and is a parameter:
  \<open>ser\<close> is what \<^verbatim>\<open>AppendToString\<close> appends, or \<open>None\<close> when it returns false, \<open>msize\<close> is \<^verbatim>\<open>ByteSizeLong\<close>, and
  \<open>par\<close> is \<^verbatim>\<open>ParseFromArray\<close> on the memory from a pointer on, with the length it is told. The
  callbacks act on a state \<open>'s\<close>; an unset callback is \<open>None\<close>. The host's byte order is \<open>le\<close>.
\<close>

datatype ProtoCodecError = kSerializeError | kParseError

datatype codec_output = Sent string | Reported ProtoCodecError

definition kHeaderSize :: u32 where
  "kHeaderSize = 4"

text \<open>The size is computed in \<^verbatim>\<open>size_t\<close> and cut to 32 bits. \<open>p\<close> tells whether the connection is not
  null, \<open>error_cb\<close> whether the error callback is set.\<close>

definition codec_SendMessage ::
  "bool \<Rightarrow> ('m \<Rightarrow> string option) \<Rightarrow> ('m \<Rightarrow> nat) \<Rightarrow> bool \<Rightarrow> bool \<Rightarrow> 'm \<Rightarrow> bool \<times> codec_output list" where
  "codec_SendMessage le ser msize error_cb p message =
     (if p then
        let size = kHeaderSize + of_nat (msize message) :: u32;
            s = string_of_bytes (PutFixed32 le size [])
        in (case ser message of
              Some d \<Rightarrow> (True, [Sent (s @ d)])
            | None \<Rightarrow> (False, if error_cb then [Reported kSerializeError] else []))
      else (False, []))"

type_synonym ('m, 's) message_cb = "('m \<Rightarrow> 's \<Rightarrow> (bool \<times> 's) res) option"
type_synonym 's error_cb = "(ProtoCodecError \<Rightarrow> 's \<Rightarrow> 's res) option"

text \<open>One pass of the loop of \<^verbatim>\<open>OnMessage\<close>; the flag tells whether it goes on. \<^verbatim>\<open>size - kHeaderSize\<close> is
  computed in 32 bits and passed as an \<^verbatim>\<open>int\<close>.\<close>

definition codec_step ::
  "bool \<Rightarrow> (string \<Rightarrow> int \<Rightarrow> 'm option res) \<Rightarrow> ('m, 's) message_cb \<Rightarrow> 's error_cb \<Rightarrow>
     buffer \<Rightarrow> 's \<Rightarrow> (bool \<times> buffer \<times> 's) res" where
  "codec_step le par message_cb error_cb b s =
     (if ReadableSize b \<ge> unat kHeaderSize then
        rbind (DecodeFixed32 le (bytes_of_string (Peek b))) (\<lambda>size.
          if ReadableSize b \<ge> unat size then
            rbind (par (drop (unat kHeaderSize) (Peek b)) (sint (size - kHeaderSize))) (\<lambda>r.
              case r of
                Some message \<Rightarrow>
                  rbind (case message_cb of None \<Rightarrow> Inr (True, s) | Some cb \<Rightarrow> cb message s) (\<lambda>(res, s).
                    rbind (Retrieve (unat size) b) (\<lambda>b. Inr (res, b, s)))
              | None \<Rightarrow>
                  rbind (case error_cb of None \<Rightarrow> Inr s | Some cb \<Rightarrow> cb kParseError s) (\<lambda>s.
                    Inr (False, b, s)))
          else Inr (False, b, s))
      else Inr (False, b, s))"

partial_function (option) codec_OnMessage ::
  "bool \<Rightarrow> (string \<Rightarrow> int \<Rightarrow> 'm option res) \<Rightarrow> ('m, 's) message_cb \<Rightarrow> 's error_cb \<Rightarrow>
     buffer \<Rightarrow> 's \<Rightarrow> (buffer \<times> 's) res option" where
  "codec_OnMessage le par message_cb error_cb b s =
     (case codec_step le par message_cb error_cb b s of
        Inl e \<Rightarrow> Some (Inl e)
      | Inr (res, b, s) \<Rightarrow>
          if res then codec_OnMessage le par message_cb error_cb b s else Some (Inr (b, s)))"

section \<open>Frames\<close>

definition frame :: "bool \<Rightarrow> string \<Rightarrow> string" where
  "frame le d = string_of_bytes (EncodeFixed32 le (of_nat (4 + length d))) @ d"

definition fits :: "string \<Rightarrow> bool" where
  "fits d \<longleftrightarrow> length d < 2 ^ 31"

text \<open>What the codec relies on of a message class: the announced size is the size, a message parses
  back from its bytes, and parsing a given number of bytes looks at these only.\<close>

definition message_class ::
  "('m \<Rightarrow> string option) \<Rightarrow> ('m \<Rightarrow> nat) \<Rightarrow> (string \<Rightarrow> int \<Rightarrow> 'm option res) \<Rightarrow> bool" where
  "message_class ser msize par \<longleftrightarrow>
     (\<forall>m d. ser m = Some d \<longrightarrow>
        msize m = length d \<and> (\<forall>rest. par (d @ rest) (int (length d)) = Inr (Some m)))"

lemma length_EncodeFixed32 [simp]: "length (EncodeFixed32 le v) = 4"
  by (simp add: EncodeFixed32_le)

lemma length_frame [simp]: "length (frame le d) = 4 + length d"
  by (simp add: frame_def)

lemma frame_not_Nil [simp]: "frame le d \<noteq> []"
  using length_frame [of le d] by fastforce

lemma SendMessage_frame:
  assumes "message_class ser msize par" and "ser m = Some d"
  shows "codec_SendMessage le ser msize ecb True m = (True, [Sent (frame le d)])"
  using assms by (simp add: codec_SendMessage_def message_class_def frame_def PutFixed32_def kHeaderSize_def)

lemma unat_frame_size: "fits d \<Longrightarrow> unat (of_nat (4 + length d) :: u32) = 4 + length d"
  by (simp only: unat_of_nat) (simp add: fits_def take_bit_nat_eq_self)

lemma sint_payload_size: "fits d \<Longrightarrow> sint (of_nat (4 + length d) - kHeaderSize :: u32) = int (length d)"
  by (simp add: kHeaderSize_def fits_def signed_of_nat signed_take_bit_int_eq_self)

lemma Decode_frame:
  assumes "fits d" and "Peek b = frame le d @ rest"
  shows "DecodeFixed32 le' (bytes_of_string (Peek b)) = Inr (of_nat (4 + length d))"
  using assms by (simp add: frame_def DecodeFixed32_Encode del: of_nat_add)

lemma codec_step_frame:
  assumes cls: "message_class ser msize par" and m: "ser m = Some d" "fits d"
    and b: "buffer_ok b" "Peek b = frame le d @ rest"
    and cb: "cb m s = Inr (res, s')"
  obtains b' where "codec_step le' par (Some cb) ecb b s = Inr (res, b', s')"
    "buffer_ok b'" "Peek b' = rest"
proof -
  let ?size = "of_nat (4 + length d) :: u32"
  have size: "unat ?size = 4 + length d" "sint (?size - kHeaderSize) = int (length d)"
    using m(2) by (rule unat_frame_size, rule sint_payload_size)
  have readable: "ReadableSize b = 4 + length d + length rest"
    using length_Peek [OF b(1)] b(2) by simp
  obtain b' where b': "Retrieve (4 + length d) b = Inr b'" "buffer_ok b'" "Peek b' = rest"
    using Retrieve_ok [OF b(1), of "4 + length d"] readable b(2) by (metis append_eq_conv_conj le_add1 length_frame)
  have "drop 4 (Peek b) = d @ rest" using b(2) by (simp add: frame_def)
  moreover have "par (d @ rest) (int (length d)) = Inr (Some m)"
    using cls m(1) by (simp add: message_class_def)
  ultimately have "codec_step le' par (Some cb) ecb b s = Inr (res, b', s')"
    using Decode_frame [OF m(2) b(2)] readable cb b'
    unfolding codec_step_def by (simp add: size [unfolded kHeaderSize_def] kHeaderSize_def del: of_nat_add of_nat_numeral)
  then show thesis using b' by (intro that)
qed

lemma codec_step_incomplete:
  assumes "buffer_ok b" and "strict_prefix (Peek b) (frame le d)" and "fits d"
  shows "codec_step le' par cb ecb b s = Inr (False, b, s)"
proof -
  obtain r where r: "frame le d = Peek b @ r" "r \<noteq> []" using assms(2) by (auto elim: strict_prefixE')
  have "4 + length d = length (Peek b) + length r" using arg_cong [OF r(1), of length] by simp
  then have short: "ReadableSize b < 4 + length d"
    using length_Peek [OF assms(1)] r(2) by (cases r) auto
  show ?thesis
  proof (cases "ReadableSize b < 4")
    case False
    have "take 4 (Peek b) = take 4 (frame le d)"
      using False length_Peek [OF assms(1)] by (simp add: r(1))
    then have "bytes_of_string (Peek b) = EncodeFixed32 le (of_nat (4 + length d)) @ drop 4 (bytes_of_string (Peek b))"
      by (metis append_take_drop_id bytes_of_string_append bytes_of_string_of_bytes append_eq_conv_conj
          bytes_of_string_drop frame_def length_EncodeFixed32 length_string_of_bytes)
    then have "DecodeFixed32 le' (bytes_of_string (Peek b)) = Inr (of_nat (4 + length d))"
      by (metis DecodeFixed32_Encode)
    then show ?thesis
      using False short unat_frame_size [OF assms(3)]
      by (simp add: codec_step_def kHeaderSize_def del: of_nat_add of_nat_numeral)
  qed (simp add: codec_step_def kHeaderSize_def)
qed

lemma codec_OnMessage_frames:
  assumes "message_class ser msize par" and "buffer_ok b"
    and "\<forall>m \<in> set ms. \<exists>d. ser m = Some d \<and> fits d"
    and "Peek b = concat (map (\<lambda>m. frame le (the (ser m))) ms) @ t"
    and "t = [] \<or> (\<exists>d. fits d \<and> strict_prefix t (frame le d))"
  shows "\<exists>b'. codec_OnMessage le' par (Some (\<lambda>m s. Inr (True, f m s))) ecb b s = Some (Inr (b', fold f ms s))
    \<and> buffer_ok b' \<and> Peek b' = t"
  using assms
proof (induction ms arbitrary: b s)
  case Nil
  have "fits []" "strict_prefix [] (frame le [])"
    using frame_not_Nil [of le "[]", symmetric] by (simp_all add: fits_def strict_prefix_def del: frame_not_Nil)
  with Nil obtain d where "fits d" "strict_prefix (Peek b) (frame le d)"
    by (cases "t = []") auto
  then have "codec_step le' par (Some (\<lambda>m s. Inr (True, f m s))) ecb b s = Inr (False, b, s)"
    using Nil.prems(2) by (intro codec_step_incomplete)
  then show ?case using Nil by (subst codec_OnMessage.simps) simp
next
  case (Cons m ms)
  then obtain d where d: "ser m = Some d" "fits d" by auto
  let ?rest = "concat (map (\<lambda>m. frame le (the (ser m))) ms) @ t"
  obtain b' where b': "codec_step le' par (Some (\<lambda>m s. Inr (True, f m s))) ecb b s = Inr (True, b', f m s)"
    "buffer_ok b'" "Peek b' = ?rest"
    by (rule codec_step_frame [OF Cons.prems(1) d Cons.prems(2), of le ?rest "\<lambda>m s. Inr (True, f m s)" s True "f m s" le' ecb])
      (use Cons.prems(4) d in auto)
  have "\<exists>b''. codec_OnMessage le' par (Some (\<lambda>m s. Inr (True, f m s))) ecb b' (f m s) = Some (Inr (b'', fold f ms (f m s)))
    \<and> buffer_ok b'' \<and> Peek b'' = t"
    using Cons.prems b' by (intro Cons.IH) auto
  then show ?case using b'(1) by (subst codec_OnMessage.simps) simp
qed

text \<open>A step that consumes nothing is repeated forever.\<close>

lemma codec_diverges:
  assumes "\<And>s. codec_step le par mcb ecb b s = Inr (True, b, h s)"
  shows "codec_OnMessage le par mcb ecb b s = None"
proof -
  have "\<not> (\<forall>s. codec_step le par mcb ecb b s = Inr (True, b, h s))"
    if "codec_OnMessage le par mcb ecb b s = Some y" for y
    using that
    by (rule codec_OnMessage.raw_induct
        [where P = "\<lambda>le par mcb ecb b s _. \<not> (\<forall>s. codec_step le par mcb ecb b s = Inr (True, b, h s))", rotated])
      (fastforce split: sum.splits)
  with assms show ?thesis by (cases "codec_OnMessage le par mcb ecb b s") auto
qed

lemma unat_of_nat_self: "of_nat (unat (k::u32)) = k"
  by simp

lemma short_length_sint: "k < 4 \<Longrightarrow> sint (k - 4 :: u32) = int (unat k) - 4"
proof -
  assume "k < 4"
  then have "unat k < 4" by (simp add: word_less_nat_alt)
  then have "unat k = 0 \<or> unat k = 1 \<or> unat k = 2 \<or> unat k = 3" by linarith
  then have "k = of_nat 0 \<or> k = of_nat 1 \<or> k = of_nat 2 \<or> k = of_nat 3" by (metis unat_of_nat_self)
  then show ?thesis by auto
qed

lemma Retrieve_0: "buffer_ok b \<Longrightarrow> 0 < ReadableSize b \<Longrightarrow> Retrieve 0 b = Inr b"
  by (simp add: Retrieve_def)

text \<open>For messages of a well-behaved class the codec is a \<open>framed_stream\<close>.\<close>

lemma codec_framed:
  assumes "message_class ser msize par"
  shows "framed_stream (codec_OnMessage le' par (Some (\<lambda>m s. Inr (True, f m s))) ecb)
    (\<lambda>m. frame le (the (ser m))) (\<lambda>m. \<exists>d. ser m = Some d \<and> fits d) f"
proof (rule framed_stream.intro, goal_cases)
  case (2 b ms t s)
  moreover from this have "t = [] \<or> (\<exists>d. fits d \<and> strict_prefix t (frame le d))" by (metis option.sel)
  ultimately show ?case by (intro codec_OnMessage_frames [OF assms])
qed simp

section \<open>Properties\<close>

text \<open>C11: The messages a codec sends, cut into pieces in any way on their way, reach the message callback
  of the receiving codec one by one, complete and in order, on hosts of either byte order; nothing
  is left in the buffer and the loop returns. This for any class whose messages parse back from
  their serialised form and stay below 2 GiB.\<close>

theorem codec_stream_roundtrip:
  assumes "message_class ser msize par"
    and "\<forall>m \<in> set ms. \<exists>d. ser m = Some d \<and> fits d"
    and "map (\<lambda>m. codec_SendMessage le ser msize ecb1 True m) ms = map (\<lambda>w. (True, [Sent w])) wire"
    and "concat chunks = concat wire"
  shows "\<exists>b'. receive (codec_OnMessage le' par (Some (\<lambda>m s. Inr (True, f m s))) ecb) chunks (new_Buffer n) s =
      Some (Inr (b', fold f ms s)) \<and> buffer_ok b' \<and> Peek b' = []"
proof -
  have "map (\<lambda>m. codec_SendMessage le ser msize ecb1 True m) ms =
      map (\<lambda>m. (True, [Sent (frame le (the (ser m)))])) ms"
    using assms(2) by (auto simp: SendMessage_frame [OF assms(1)])
  then have "map (\<lambda>w. (True, [Sent w])) wire = map (\<lambda>w. (True, [Sent w])) (map (\<lambda>m. frame le (the (ser m))) ms)"
    using assms(3) by (simp add: o_def)
  then have "wire = map (\<lambda>m. frame le (the (ser m))) ms"
    by (rule map_injective) (simp add: inj_def)
  then show ?thesis
    using assms(2,4) by (intro framed_stream.receives_all [OF codec_framed [OF assms(1)]]) auto
qed

text \<open>A message class to run the codec with: the message is its text.\<close>

definition text_parse :: "string \<Rightarrow> int \<Rightarrow> string option res" where
  "text_parse mem n = (if n < 0 then Inr None else Inr (Some (take (nat n) mem)))"

lemma text_class: "message_class Some length text_parse"
  by (simp add: message_class_def text_parse_def)

theorem codec_stream_roundtrip_witness:
  "\<exists>b'. receive (codec_OnMessage True text_parse (Some (\<lambda>m s. Inr (True, s @ [m]))) None)
      [frame False ''ab'' @ take 3 (frame False ''c''), drop 3 (frame False ''c'')] (new_Buffer 0) [] =
    Some (Inr (b', [''ab'', ''c''])) \<and> buffer_ok b' \<and> Peek b' = []"
  using codec_stream_roundtrip [of Some length text_parse "[''ab'', ''c'']" False True
      "[frame False ''ab'', frame False ''c'']"
      "[frame False ''ab'' @ take 3 (frame False ''c''), drop 3 (frame False ''c'')]" True "\<lambda>m s. s @ [m]" None 0 "[]"]
  by (simp add: text_class fits_def SendMessage_frame [OF text_class])

text \<open>A frame whose length field is smaller than the header makes the parser run with a negative
  length. When the parser refuses that, the error is reported and the frame stays at the head of
  the buffer, to be met again; when it takes it for an empty message and the field is zero,
  nothing is consumed and \<^verbatim>\<open>OnMessage\<close> never returns.\<close>

theorem codec_short_length:
  assumes "buffer_ok b" and "DecodeFixed32 le (bytes_of_string (Peek b)) = Inr k" and "k < 4"
  shows "(par (drop 4 (Peek b)) (int (unat k) - 4) = Inr None \<longrightarrow>
      codec_OnMessage le par mcb (Some (\<lambda>e s. Inr (g e s))) b s = Some (Inr (b, g kParseError s))) \<and>
    (k = 0 \<and> par (drop 4 (Peek b)) (-4) = Inr (Some m) \<and> (\<forall>s. cb m s = Inr (True, h s)) \<longrightarrow>
      codec_OnMessage le par (Some cb) ecb b s = None)"
proof -
  have readable: "4 \<le> ReadableSize b"
    using assms(1,2) length_Peek [OF assms(1)] by (simp add: DecodeFixed32_def guard_eq_Inr)
  have small: "unat k < 4" using assms(3) by (simp add: word_less_nat_alt)
  have step: "codec_step le par mcb ecb b s =
      rbind (par (drop 4 (Peek b)) (int (unat k) - 4)) (\<lambda>r.
        case r of
          Some message \<Rightarrow>
            rbind (case mcb of None \<Rightarrow> Inr (True, s) | Some cb \<Rightarrow> cb message s) (\<lambda>(res, s).
              rbind (Retrieve (unat k) b) (\<lambda>b. Inr (res, b, s)))
        | None \<Rightarrow> rbind (case ecb of None \<Rightarrow> Inr s | Some cb \<Rightarrow> cb kParseError s) (\<lambda>s. Inr (False, b, s)))"
    for mcb :: "('a, 'b) message_cb" and ecb s
    using assms(2) readable small short_length_sint [OF assms(3)] by (simp add: codec_step_def kHeaderSize_def)
  have "codec_OnMessage le par (Some cb) ecb b s = None"
    if "k = 0" "par (drop 4 (Peek b)) (-4) = Inr (Some m)" "\<forall>s. cb m s = Inr (True, h s)"
    using that readable Retrieve_0 [OF assms(1)] by (intro codec_diverges [where h = h]) (simp add: step)
  then show ?thesis
    by (auto simp: codec_OnMessage.simps [of le par mcb] step)
qed

theorem codec_short_length_witness:
  "codec_OnMessage True text_parse None (Some (\<lambda>e s. Inr (e # s)))
      \<lparr>buf = replicate 4 CHR 0x00, read_index = 0, write_index = 4\<rparr> [] =
    Some (Inr (\<lparr>buf = replicate 4 CHR 0x00, read_index = 0, write_index = 4\<rparr>, [kParseError])) \<and>
   codec_OnMessage True (\<lambda>mem n. if n < 0 then Inr (Some []) else text_parse mem n) (Some (\<lambda>m s. Inr (True, s))) None
      \<lparr>buf = replicate 4 CHR 0x00, read_index = 0, write_index = 4\<rparr> () = None"
proof -
  let ?b = "\<lparr>buf = replicate 4 CHR 0x00, read_index = 0, write_index = 4\<rparr>"
  let ?par = "\<lambda>mem n. if n < 0 then Inr (Some []) else text_parse mem n"
  have b: "buffer_ok ?b" "DecodeFixed32 True (bytes_of_string (Peek ?b)) = Inr 0"
    by (simp_all add: buffer_defs DecodeFixed32_le segment_def bytes_of_string_def byte_of_char_def eval_nat_numeral)
  have k: "(0::u32) < 4" by simp
  show ?thesis
    using codec_short_length [OF b k, of text_parse None "\<lambda>e s. e # s" "[]" "[]" "\<lambda>m s. Inr (True, s)" "\<lambda>s. s" None]
      codec_short_length [OF b k, of ?par None "\<lambda>e s. s" "()" "[]" "\<lambda>m s. Inr (True, s)" "\<lambda>s. s" None]
    by (simp add: text_parse_def)
qed

end
