(* ===== verification/Rpc.thy ===== *)
theory Rpc
  imports Protobuf_Codec "HOL-Library.AList" "HOL-Library.Multiset"
begin

text \<open>
  Remote procedure calls over the protobuf codec: \<^verbatim>\<open>RpcChannel\<close> (\<^verbatim>\<open>voyager/rpc/rpc_channel.cc\<close>), the side
  that calls, and \<^verbatim>\<open>RpcServer\<close> (\<^verbatim>\<open>rpc_server.cc\<close>). Messages are those of \<^verbatim>\<open>rpc.proto\<close>; an \<^verbatim>\<open>int\<close> is a 32-bit
  word. Objects on the heap are numbered, \<open>live\<close> holds those not yet deleted, and deleting or using
  one that is not there is the fault \<open>UseAfterFree\<close>. Serialisation, the services and the two ends of
  the connection are parameters.
\<close>

datatype ErrorCode =
  ERROR_CODE_OK | ERROR_CODE_TIMEOUT | ERROR_CODE_INVALID_SERVICE | ERROR_CODE_INVALID_METHOD
| ERROR_CODE_INVALID_REQUEST | ERROR_CODE_UNKNOWN

record RpcMessage =
  msg_id :: u32
  service_name :: string
  method_name :: string
  msg_data :: string
  msg_error :: ErrorCode

definition RpcMessage_new :: RpcMessage where
  "RpcMessage_new = \<lparr>msg_id = 0, service_name = [], method_name = [], msg_data = [],
     msg_error = ERROR_CODE_OK\<rparr>"

section \<open>The calling side\<close>

record CallData =
  cd_response :: "nat option"
  cd_done :: "nat option"
  cd_timer :: "nat option"

definition CallData_new :: CallData where
  "CallData_new = \<lparr>cd_response = None, cd_done = None, cd_timer = None\<rparr>"

datatype call_result = Completed string | Failed ErrorCode

text \<open>
  \<open>unregistered\<close> are the calls between the sending of their message and the insertion into
  \<^verbatim>\<open>call_map_\<close>, which another thread than that of the event loop may be executing. \<open>fates\<close> records
  what became of a closure: run, with the data of the answer, or deleted without running.
\<close>

record rpc_channel =
  timeout_ms :: nat
  has_error_cb :: bool
  seq :: u32
  call_map :: "(u32 \<times> CallData) list"
  unregistered :: "(u32 \<times> CallData) list"
  timers :: "(nat \<times> u32) list"
  next_timer :: nat
  live :: "nat set"
  fates :: "(nat \<times> call_result) list"
  reported :: "ErrorCode list"
  outputs :: "codec_output list"
  conn_closed :: bool

definition RpcChannel_new :: rpc_channel where
  "RpcChannel_new = \<lparr>timeout_ms = 0, has_error_cb = False, seq = 0, call_map = [], unregistered = [],
     timers = [], next_timer = 0, live = {}, fates = [], reported = [], outputs = [],
     conn_closed = False\<rparr>"

definition SetTimeout :: "nat \<Rightarrow> rpc_channel \<Rightarrow> rpc_channel" where
  "SetTimeout ms c = c\<lparr>timeout_ms := ms\<rparr>"

definition SetErrorCallback :: "rpc_channel \<Rightarrow> rpc_channel" where
  "SetErrorCallback c = c\<lparr>has_error_cb := True\<rparr>"

definition delete_object :: "nat option \<Rightarrow> rpc_channel \<Rightarrow> rpc_channel res" where
  "delete_object q c =
     (case q of
        None \<Rightarrow> Inr c
      | Some n \<Rightarrow> guard UseAfterFree (n \<in> live c) (Inr (c\<lparr>live := live c - {n}\<rparr>)))"

text \<open>A closure made by \<^verbatim>\<open>NewCallback\<close> deletes itself when it has run.\<close>

definition run_closure :: "nat option \<Rightarrow> string \<Rightarrow> rpc_channel \<Rightarrow> rpc_channel res" where
  "run_closure q d c =
     (case q of
        None \<Rightarrow> Inr c
      | Some n \<Rightarrow> guard UseAfterFree (n \<in> live c)
          (Inr (c\<lparr>live := live c - {n}, fates := fates c @ [(n, Completed d)]\<rparr>)))"

definition discard_closure :: "nat option \<Rightarrow> ErrorCode \<Rightarrow> rpc_channel \<Rightarrow> rpc_channel res" where
  "discard_closure q e c =
     rbind (delete_object q c) (\<lambda>c.
       Inr (case q of None \<Rightarrow> c | Some n \<Rightarrow> c\<lparr>fates := fates c @ [(n, Failed e)]\<rparr>))"

definition report :: "ErrorCode \<Rightarrow> rpc_channel \<Rightarrow> rpc_channel" where
  "report e c = (if has_error_cb c then c\<lparr>reported := reported c @ [e]\<rparr> else c)"

text \<open>\<^verbatim>\<open>CallMethod\<close> up to the lock: number the message, send it, start the timer. \<open>conn\<close> tells whether
  \<^verbatim>\<open>conn_\<close> is set.\<close>

definition CallMethod_send ::
  "bool \<Rightarrow> (RpcMessage \<Rightarrow> string option) \<Rightarrow> (RpcMessage \<Rightarrow> nat) \<Rightarrow> bool \<Rightarrow>
     string \<Rightarrow> string \<Rightarrow> string \<Rightarrow> nat option \<Rightarrow> nat option \<Rightarrow> rpc_channel \<Rightarrow> rpc_channel res" where
  "CallMethod_send le ser msize conn service meth request response done c =
     (let cid = seq c + 1;
          msg = \<lparr>msg_id = cid, service_name = service, method_name = meth, msg_data = request,
                 msg_error = ERROR_CODE_OK\<rparr>;
          (sent, outs) = codec_SendMessage le ser msize True conn msg;
          c = c\<lparr>seq := cid, outputs := outputs c @ outs,
                live := live c \<union> set_option response \<union> set_option done\<rparr>
      in if sent then
           let t = (if timeout_ms c > 0 then Some (next_timer c) else None);
               c = (if timeout_ms c > 0
                    then c\<lparr>timers := (next_timer c, cid) # timers c, next_timer := next_timer c + 1\<rparr>
                    else c)
           in Inr (c\<lparr>unregistered := (cid, \<lparr>cd_response = response, cd_done = done, cd_timer = t\<rparr>)
                                       # unregistered c\<rparr>)
         else
           rbind (delete_object response (report ERROR_CODE_UNKNOWN c)) (\<lambda>c.
             discard_closure done ERROR_CODE_UNKNOWN c))"

text \<open>\<^verbatim>\<open>CallMethod\<close> under the lock.\<close>

definition CallMethod_register :: "u32 \<Rightarrow> rpc_channel \<Rightarrow> rpc_channel" where
  "CallMethod_register cid c =
     (case map_of (unregistered c) cid of
        None \<Rightarrow> c
      | Some d \<Rightarrow> c\<lparr>unregistered := AList.delete cid (unregistered c),
                     call_map := AList.update cid d (call_map c)\<rparr>)"

definition OnTimeout :: "u32 \<Rightarrow> rpc_channel \<Rightarrow> rpc_channel res" where
  "OnTimeout cid c =
     rbind (case map_of (call_map c) cid of
              None \<Rightarrow> Inr c
            | Some d \<Rightarrow>
                rbind (delete_object (cd_response d) c) (\<lambda>c.
                  rbind (discard_closure (cd_done d) ERROR_CODE_TIMEOUT c) (\<lambda>c.
                    Inr (c\<lparr>call_map := AList.delete cid (call_map c)\<rparr>))))
       (\<lambda>c. Inr (report ERROR_CODE_TIMEOUT c))"

definition RemoveTimer :: "nat \<Rightarrow> rpc_channel \<Rightarrow> rpc_channel" where
  "RemoveTimer t c = c\<lparr>timers := AList.delete t (timers c)\<rparr>"

definition OnResponse :: "RpcMessage \<Rightarrow> rpc_channel \<Rightarrow> rpc_channel res" where
  "OnResponse msg c =
     (let cid = msg_id msg;
          data = (case map_of (call_map c) cid of None \<Rightarrow> CallData_new | Some d \<Rightarrow> d);
          c = c\<lparr>call_map := AList.delete cid (call_map c)\<rparr>;
          c = (case cd_timer data of None \<Rightarrow> c | Some t \<Rightarrow> RemoveTimer t c)
      in rbind (if msg_error msg = ERROR_CODE_OK then
                  guard UseAfterFree (set_option (cd_response data) \<subseteq> live c)
                    (run_closure (cd_done data) (msg_data msg) c)
                else discard_closure (cd_done data) (msg_error msg) (report (msg_error msg) c))
           (\<lambda>c. delete_object (cd_response data) c))"

text \<open>The error callback of the codec closes the connection when a frame does not parse.\<close>

definition channel_OnError :: "ProtoCodecError \<Rightarrow> rpc_channel \<Rightarrow> rpc_channel res" where
  "channel_OnError code c = Inr (if code = kParseError then c\<lparr>conn_closed := True\<rparr> else c)"

definition channel_OnMessage ::
  "bool \<Rightarrow> (string \<Rightarrow> int \<Rightarrow> RpcMessage option res) \<Rightarrow> buffer \<Rightarrow> rpc_channel \<Rightarrow>
     (buffer \<times> rpc_channel) res option" where
  "channel_OnMessage le par b c =
     codec_OnMessage le par (Some (\<lambda>m c. rbind (OnResponse m c) (\<lambda>c. Inr (True, c))))
       (Some channel_OnError) b c"

fun delete_calls :: "(u32 \<times> CallData) list \<Rightarrow> rpc_channel \<Rightarrow> rpc_channel res" where
  "delete_calls [] c = Inr c"
| "delete_calls ((cid, d) # ds) c =
     rbind (delete_object (cd_response d) c) (\<lambda>c.
       rbind (delete_object (cd_done d) c) (\<lambda>c.
         delete_calls ds (case cd_timer d of None \<Rightarrow> c | Some t \<Rightarrow> RemoveTimer t c)))"

definition RpcChannel_destroy :: "rpc_channel \<Rightarrow> rpc_channel res" where
  "RpcChannel_destroy c = delete_calls (call_map c) c"

section \<open>The serving side\<close>

text \<open>
  A service is a value of \<open>'svc\<close>; the functions of its generated class are the fields of
  \<open>service_class\<close>: its descriptor's name, the lookup of a method, whether the data parses as the
  method's request, and the call, which gives the serialised response when the service runs the
  closure \<^verbatim>\<open>done\<close> before it returns and \<open>None\<close> when it keeps the closure for later.
  \<open>contexts\<close> is the context pointer of each connection, \<open>ints\<close> the \<^verbatim>\<open>int\<close> objects on the heap.
\<close>

record ('svc, 'meth) service_class =
  full_name :: "'svc \<Rightarrow> string"
  FindMethodByName :: "'svc \<Rightarrow> string \<Rightarrow> 'meth option"
  request_parses :: "'svc \<Rightarrow> 'meth \<Rightarrow> string \<Rightarrow> bool"
  service_call :: "'svc \<Rightarrow> 'meth \<Rightarrow> string \<Rightarrow> string option"

record 'svc rpc_server =
  services :: "(string \<times> 'svc) list"
  contexts :: "nat \<Rightarrow> nat option"
  ints :: "nat \<Rightarrow> u32 option"
  next_int :: nat
  kept :: "nat list"
  replies :: "(nat \<times> codec_output list) list"
  closed :: "nat set"

definition RpcServer_new :: "'svc rpc_server" where
  "RpcServer_new = \<lparr>services = [], contexts = (\<lambda>_. None), ints = (\<lambda>_. None), next_int = 0, kept = [],
     replies = [], closed = {}\<rparr>"

definition RegisterService :: "('svc, 'meth) service_class \<Rightarrow> 'svc \<Rightarrow> 'svc rpc_server \<Rightarrow> 'svc rpc_server" where
  "RegisterService cls svc s = s\<lparr>services := AList.update (full_name cls svc) svc (services s)\<rparr>"

definition send_reply ::
  "bool \<Rightarrow> (RpcMessage \<Rightarrow> string option) \<Rightarrow> (RpcMessage \<Rightarrow> nat) \<Rightarrow> nat \<Rightarrow> RpcMessage \<Rightarrow>
     'svc rpc_server \<Rightarrow> 'svc rpc_server" where
  "send_reply le ser msize p m s =
     s\<lparr>replies := replies s @ [(p, snd (codec_SendMessage le ser msize True True m))]\<rparr>"

definition server_Done ::
  "bool \<Rightarrow> (RpcMessage \<Rightarrow> string option) \<Rightarrow> (RpcMessage \<Rightarrow> nat) \<Rightarrow> string \<Rightarrow> nat \<Rightarrow>
     'svc rpc_server \<Rightarrow> 'svc rpc_server res" where
  "server_Done le ser msize response p s =
     (case contexts s p of
        None \<Rightarrow> Inl NullPointer
      | Some q \<Rightarrow>
          (case ints s q of
             None \<Rightarrow> Inl UseAfterFree
           | Some cid \<Rightarrow>
               let s = send_reply le ser msize p (RpcMessage_new\<lparr>msg_id := cid, msg_data := response\<rparr>) s
               in Inr (s\<lparr>ints := (ints s)(q := None)\<rparr>)))"

definition OnRequest ::
  "bool \<Rightarrow> (RpcMessage \<Rightarrow> string option) \<Rightarrow> (RpcMessage \<Rightarrow> nat) \<Rightarrow> ('svc, 'meth) service_class \<Rightarrow>
     nat \<Rightarrow> RpcMessage \<Rightarrow> 'svc rpc_server \<Rightarrow> 'svc rpc_server res" where
  "OnRequest le ser msize cls p msg s =
     (let fail = (\<lambda>error. Inr (send_reply le ser msize p
                    (RpcMessage_new\<lparr>msg_id := msg_id msg, msg_error := error\<rparr>) s))
      in case map_of (services s) (service_name msg) of
           None \<Rightarrow> fail ERROR_CODE_INVALID_SERVICE
         | Some service \<Rightarrow>
             (case FindMethodByName cls service (method_name msg) of
                None \<Rightarrow> fail ERROR_CODE_INVALID_METHOD
              | Some meth \<Rightarrow>
                  if request_parses cls service meth (msg_data msg) then
                    let s = s\<lparr>contexts := (contexts s)(p := Some (next_int s)),
                              ints := (ints s)(next_int s := Some (msg_id msg)),
                              next_int := next_int s + 1\<rparr>
                    in (case service_call cls service meth (msg_data msg) of
                          Some response \<Rightarrow> server_Done le ser msize response p s
                        | None \<Rightarrow> Inr (s\<lparr>kept := kept s @ [p]\<rparr>))
                  else fail ERROR_CODE_INVALID_REQUEST))"

definition server_OnError :: "ProtoCodecError \<Rightarrow> nat \<Rightarrow> 'svc rpc_server \<Rightarrow> 'svc rpc_server res" where
  "server_OnError code p s = Inr (if code = kParseError then s\<lparr>closed := insert p (closed s)\<rparr> else s)"

definition server_OnMessage ::
  "bool \<Rightarrow> (RpcMessage \<Rightarrow> string option) \<Rightarrow> (RpcMessage \<Rightarrow> nat) \<Rightarrow>
     (string \<Rightarrow> int \<Rightarrow> RpcMessage option res) \<Rightarrow> ('svc, 'meth) service_class \<Rightarrow>
     nat \<Rightarrow> buffer \<Rightarrow> 'svc rpc_server \<Rightarrow> (buffer \<times> 'svc rpc_server) res option" where
  "server_OnMessage le ser msize par cls p b s =
     codec_OnMessage le par (Some (\<lambda>m s. rbind (OnRequest le ser msize cls p m s) (\<lambda>s. Inr (True, s))))
       (Some (\<lambda>e s. server_OnError e p s)) b s"

section \<open>Every call ends at most once\<close>

text \<open>
  Histories of a channel: calls, from any thread, in two steps, the answers of the peer, whatever
  they say, and the timers of the loop. The objects handed to the \<open>k\<close>-th call are \<open>2 * k\<close>, the response,
  and \<open>2 * k + 1\<close>, the closure.
\<close>

inductive rpc_run ::
  "bool \<Rightarrow> (RpcMessage \<Rightarrow> string option) \<Rightarrow> (RpcMessage \<Rightarrow> nat) \<Rightarrow> rpc_channel \<Rightarrow> nat \<Rightarrow> bool"
  for le ser msize where
  new: "rpc_run le ser msize RpcChannel_new 0"
| set_timeout: "rpc_run le ser msize c n \<Longrightarrow> rpc_run le ser msize (SetTimeout ms c) n"
| set_error_cb: "rpc_run le ser msize c n \<Longrightarrow> rpc_run le ser msize (SetErrorCallback c) n"
| call: "rpc_run le ser msize c n \<Longrightarrow>
    CallMethod_send le ser msize conn service meth request (Some (2 * n)) (Some (2 * n + 1)) c = Inr c' \<Longrightarrow>
    rpc_run le ser msize c' (Suc n)"
| register: "rpc_run le ser msize c n \<Longrightarrow> rpc_run le ser msize (CallMethod_register cid c) n"
| timer: "rpc_run le ser msize c n \<Longrightarrow> (t, cid) \<in> set (timers c) \<Longrightarrow>
    OnTimeout cid (RemoveTimer t c) = Inr c' \<Longrightarrow> rpc_run le ser msize c' n"
| response: "rpc_run le ser msize c n \<Longrightarrow> OnResponse msg c = Inr c' \<Longrightarrow> rpc_run le ser msize c' n"

definition objects :: "CallData \<Rightarrow> nat set" where
  "objects d = set_option (cd_response d) \<union> set_option (cd_done d)"

definition call_objects :: "nat \<Rightarrow> nat option \<Rightarrow> CallData" where
  "call_objects k t = \<lparr>cd_response = Some (2 * k), cd_done = Some (2 * k + 1), cd_timer = t\<rparr>"

definition pending :: "rpc_channel \<Rightarrow> CallData multiset" where
  "pending c = mset (map snd (unregistered c)) + mset (map snd (call_map c))"

definition closure_of :: "CallData \<Rightarrow> nat" where
  "closure_of d = the (cd_done d)"

definition rpc_ok :: "rpc_channel \<Rightarrow> nat \<Rightarrow> bool" where
  "rpc_ok c n \<longleftrightarrow>
     seq c = of_nat n \<and>
     fst ` set (unregistered c @ call_map c) \<subseteq> of_nat ` {1..n} \<and>
     distinct (map fst (unregistered c @ call_map c)) \<and>
     (\<forall>d \<in># pending c. \<exists>k t. d = call_objects k t) \<and>
     live c = (\<Union>d \<in> set_mset (pending c). objects d) \<and>
     mset (map fst (fates c)) + image_mset closure_of (pending c) = mset (map (\<lambda>k. 2 * k + 1) [0..<n])"

lemma rpc_okD:
  assumes "rpc_ok c n"
  shows "seq c = of_nat n" "fst ` set (unregistered c @ call_map c) \<subseteq> of_nat ` {1..n}"
    "distinct (map fst (unregistered c @ call_map c))"
    "d \<in># pending c \<Longrightarrow> \<exists>k t. d = call_objects k t"
    "live c = (\<Union>d \<in> set_mset (pending c). objects d)"
    "mset (map fst (fates c)) + image_mset closure_of (pending c) = mset (map (\<lambda>k. 2 * k + 1) [0..<n])"
  using assms by (simp_all only: rpc_ok_def)

lemma delete_Cons [simp]:
  "AList.delete k (p # al) = (if k = fst p then AList.delete k al else p # AList.delete k al)"
  by (cases p) (simp add: AList.delete_eq)

lemma delete_absent: "k \<notin> fst ` set al \<Longrightarrow> AList.delete k al = al"
  by (induction al) auto

lemma delete_values:
  assumes "map_of al k = Some v" and "distinct (map fst al)"
  shows "mset (map snd al) = add_mset v (mset (map snd (AList.delete k al)))"
  using assms
proof (induction al)
  case (Cons p al)
  then show ?case by (cases p) (auto simp: delete_absent simp del: mset_map split: if_splits)
qed simp

lemma update_fresh: "k \<notin> fst ` set al \<Longrightarrow> AList.update k v al = al @ [(k, v)]"
  by (induction al) auto

lemma delete_keys:
  "set (AList.delete k al) \<subseteq> set al" "distinct (map fst al) \<Longrightarrow> distinct (map fst (AList.delete k al))"
  by (auto simp: AList.delete_eq distinct_map_filter)

lemma closures_distinct:
  assumes "rpc_ok c n" and "pending c = add_mset d Q"
  shows "closure_of d \<notin># image_mset closure_of Q"
proof
  assume "closure_of d \<in># image_mset closure_of Q"
  then have "2 \<le> count (image_mset closure_of (pending c)) (closure_of d)"
    using assms(2) by (simp add: Suc_le_eq)
  also have "\<dots> \<le> count (mset (map (\<lambda>k. 2 * k + 1) [0..<n])) (closure_of d)"
    using assms(1) unfolding rpc_ok_def by (metis count_union le_add2)
  also have "\<dots> \<le> 1"
    by (rule distinct_count_atmost_1 [THEN iffD1, rule_format, THEN eq_refl, THEN order_trans])
      (simp_all add: distinct_map inj_on_def)
  finally show False by simp
qed

lemma objects_call [simp]: "objects (call_objects k t) = {2 * k, 2 * k + 1}"
  by (auto simp: objects_def call_objects_def)

lemma closure_call [simp]: "closure_of (call_objects k t) = 2 * k + 1"
  by (simp add: closure_of_def call_objects_def)

lemma other_objects:
  assumes "rpc_ok c n" and "pending c = add_mset (call_objects k t) Q" and "d \<in># Q" and "x \<in> objects d"
  shows "x \<noteq> 2 * k" "x \<noteq> 2 * k + 1"
proof -
  have "d \<in># pending c" using assms(2,3) by simp
  then obtain j s where d: "d = call_objects j s" using rpc_okD(4) [OF assms(1)] by metis
  have "closure_of d \<in> closure_of ` set_mset Q" using assms(3) by (rule imageI)
  moreover have "closure_of (call_objects k t) \<notin> closure_of ` set_mset Q"
    using closures_distinct [OF assms(1,2)] by (simp del: closure_call)
  ultimately have "j \<noteq> k" by (metis closure_call d)
  moreover have "x = 2 * j \<or> x = 2 * j + 1" using assms(4) by (simp add: d)
  ultimately show "x \<noteq> 2 * k" "x \<noteq> 2 * k + 1" by presburger+
qed

lemma live_others:
  assumes "rpc_ok c n" and "pending c = add_mset (call_objects k t) Q"
  shows "live c - {2 * k} - {2 * k + 1} = (\<Union>d \<in> set_mset Q. objects d)"
    and "2 * k \<in> live c" "2 * k + 1 \<in> live c"
proof -
  have "live c = (\<Union>d \<in> set_mset (pending c). objects d)" using assms(1) by (rule rpc_okD)
  then have live: "live c = {2 * k, 2 * k + 1} \<union> (\<Union>d \<in> set_mset Q. objects d)"
    unfolding assms(2) by simp
  then show "2 * k \<in> live c" "2 * k + 1 \<in> live c" by simp_all
  show "live c - {2 * k} - {2 * k + 1} = (\<Union>d \<in> set_mset Q. objects d)"
    unfolding live using other_objects [OF assms] by blast
qed

lemma finish_ok:
  assumes "rpc_ok c n" and "pending c = add_mset (call_objects k t) (pending c')"
    and "seq c' = seq c" "live c' = live c - {2 * k} - {2 * k + 1}"
    and "map fst (fates c') = map fst (fates c) @ [2 * k + 1]"
    and "set (unregistered c' @ call_map c') \<subseteq> set (unregistered c @ call_map c)"
    and "distinct (map fst (unregistered c' @ call_map c'))"
  shows "rpc_ok c' n"
proof -
  have "live c' = (\<Union>d \<in> set_mset (pending c'). objects d)"
    using live_others(1) [OF assms(1,2)] assms(4) by simp
  moreover have "fst ` set (unregistered c' @ call_map c') \<subseteq> of_nat ` {1..n}"
    using image_mono [OF assms(6)] rpc_okD(2) [OF assms(1)] by (rule order_trans)
  moreover have "\<forall>d \<in># pending c'. \<exists>k t. d = call_objects k t"
    using rpc_okD(4) [OF assms(1)] assms(2) by (metis union_single_eq_member mset_add add_mset_commute insert_iff set_mset_add_mset_insert)
  moreover have "mset (map fst (fates c')) + image_mset closure_of (pending c') = mset (map (\<lambda>k. 2 * k + 1) [0..<n])"
    using rpc_okD(6) [OF assms(1)] assms(2,5) by simp
  ultimately show ?thesis
    using rpc_okD(1) [OF assms(1)] assms(3,7) by (simp only: rpc_ok_def)
qed

lemma registered_call:
  assumes "rpc_ok c n" and "map_of (call_map c) cid = Some d"
  obtains k t where "d = call_objects k t"
    "pending c = add_mset (call_objects k t)
       (mset (map snd (unregistered c)) + mset (map snd (AList.delete cid (call_map c))))"
    "2 * k \<in> live c" "2 * k + 1 \<in> live c"
    "set (unregistered c @ AList.delete cid (call_map c)) \<subseteq> set (unregistered c @ call_map c)"
    "distinct (map fst (unregistered c @ AList.delete cid (call_map c)))"
proof -
  have dist: "distinct (map fst (unregistered c @ call_map c))" using assms(1) by (rule rpc_okD)
  then have split: "pending c = add_mset d
      (mset (map snd (unregistered c)) + mset (map snd (AList.delete cid (call_map c))))"
    using delete_values [OF assms(2)] by (simp add: pending_def)
  then have "d \<in># pending c" by simp
  then obtain k t where d: "d = call_objects k t" using rpc_okD(4) [OF assms(1)] by metis
  have sub: "set (AList.delete cid (call_map c)) \<subseteq> set (call_map c)" by (rule delete_keys)
  have "distinct (map fst (AList.delete cid (call_map c)))"
    using dist by (intro delete_keys(2)) simp
  moreover have "fst ` set (AList.delete cid (call_map c)) \<subseteq> fst ` set (call_map c)"
    using sub by (rule image_mono)
  ultimately have "distinct (map fst (unregistered c @ AList.delete cid (call_map c)))"
    using dist by (simp del: delete_Cons) blast
  then show thesis
    using sub by (intro that [OF d split [unfolded d] live_others(2,3) [OF assms(1) split [unfolded d]]]) auto
qed

lemma rpc_ok_cong:
  assumes "rpc_ok c n" and "seq c' = seq c" "unregistered c' = unregistered c" "call_map c' = call_map c"
    "live c' = live c" "fates c' = fates c"
  shows "rpc_ok c' n"
  using assms by (simp add: rpc_ok_def pending_def)

lemma report_sel [simp]:
  "seq (report e c) = seq c" "unregistered (report e c) = unregistered c" "call_map (report e c) = call_map c"
  "live (report e c) = live c" "fates (report e c) = fates c" "timers (report e c) = timers c"
  "outputs (report e c) = outputs c" "timeout_ms (report e c) = timeout_ms c"
  by (simp_all add: report_def)

lemma OnTimeout_ok:
  assumes "rpc_ok c n"
  shows "\<exists>c'. OnTimeout cid c = Inr c' \<and> rpc_ok c' n"
proof (cases "map_of (call_map c) cid")
  case None
  then show ?thesis
    using assms by (auto simp: OnTimeout_def intro: rpc_ok_cong)
next
  case (Some d)
  obtain k t where d: "d = call_objects k t"
    and pend: "pending c = add_mset (call_objects k t)
       (mset (map snd (unregistered c)) + mset (map snd (AList.delete cid (call_map c))))"
    and live: "2 * k \<in> live c" "2 * k + 1 \<in> live c"
    and keys: "set (unregistered c @ AList.delete cid (call_map c)) \<subseteq> set (unregistered c @ call_map c)"
      "distinct (map fst (unregistered c @ AList.delete cid (call_map c)))"
    using assms Some by (rule registered_call)
  define c' where "c' = report ERROR_CODE_TIMEOUT (c\<lparr>live := live c - {2 * k} - {2 * k + 1},
    fates := fates c @ [(2 * k + 1, Failed ERROR_CODE_TIMEOUT)], call_map := AList.delete cid (call_map c)\<rparr>)"
  have "2 * k \<noteq> 2 * k + 1" by simp
  then have "OnTimeout cid c = Inr c'"
    using Some live
    by (simp add: OnTimeout_def d call_objects_def delete_object_def discard_closure_def c'_def)
  moreover have "rpc_ok c' n"
    using pend keys
    by (intro finish_ok [OF assms, of k t]) (simp_all add: c'_def pending_def)
  ultimately show ?thesis by blast
qed

lemma OnResponse_ok:
  assumes "rpc_ok c n"
  shows "\<exists>c'. OnResponse msg c = Inr c' \<and> rpc_ok c' n"
proof (cases "map_of (call_map c) (msg_id msg)")
  case None
  then have "AList.delete (msg_id msg) (call_map c) = call_map c"
    by (simp add: delete_absent map_of_eq_None_iff)
  then have "OnResponse msg c = Inr (if msg_error msg = ERROR_CODE_OK then c else report (msg_error msg) c)"
    using None by (simp add: OnResponse_def CallData_new_def Let_def run_closure_def discard_closure_def delete_object_def)
  then show ?thesis using assms by (auto intro: rpc_ok_cong)
next
  case (Some d)
  let ?del = "AList.delete (msg_id msg) (call_map c)"
  obtain k t where d: "d = call_objects k t"
    and pend: "pending c = add_mset (call_objects k t) (mset (map snd (unregistered c)) + mset (map snd ?del))"
    and live: "2 * k \<in> live c" "2 * k + 1 \<in> live c"
    and keys: "set (unregistered c @ ?del) \<subseteq> set (unregistered c @ call_map c)"
      "distinct (map fst (unregistered c @ ?del))"
    using assms Some by (rule registered_call)
  let ?c1 = "case t of None \<Rightarrow> c\<lparr>call_map := ?del\<rparr> | Some t \<Rightarrow> RemoveTimer t (c\<lparr>call_map := ?del\<rparr>)"
  obtain c1 where c1: "?c1 = c1" "live c1 = live c" "fates c1 = fates c" "seq c1 = seq c" "call_map c1 = ?del"
      "unregistered c1 = unregistered c"
    by (cases t) (simp_all add: RemoveTimer_def)
  have neq: "2 * k \<noteq> 2 * k + 1" by simp
  have swap: "live c - {Suc (2 * k)} - {2 * k} = live c - {2 * k} - {Suc (2 * k)}" by blast
  have resp: "OnResponse msg c =
      rbind (if msg_error msg = ERROR_CODE_OK then
               guard UseAfterFree (set_option (Some (2 * k)) \<subseteq> live c1) (run_closure (Some (2 * k + 1)) (msg_data msg) c1)
             else discard_closure (Some (2 * k + 1)) (msg_error msg) (report (msg_error msg) c1))
        (delete_object (Some (2 * k)))"
    unfolding OnResponse_def Let_def Some d option.case c1(1) [symmetric]
    by (simp add: call_objects_def)
  show ?thesis
  proof (cases "msg_error msg = ERROR_CODE_OK")
    case True
    let ?c' = "c1\<lparr>live := live c - {2 * k + 1} - {2 * k}, fates := fates c @ [(2 * k + 1, Completed (msg_data msg))]\<rparr>"
    have "OnResponse msg c = Inr ?c'"
      using True live neq c1 by (simp add: resp run_closure_def delete_object_def)
    moreover have "rpc_ok ?c' n"
      using pend keys c1
      by (intro finish_ok [OF assms, of k t]) (simp_all add: pending_def swap)
    ultimately show ?thesis by blast
  next
    case False
    let ?c' = "(report (msg_error msg) c1)\<lparr>live := live c - {2 * k + 1} - {2 * k},
      fates := fates c @ [(2 * k + 1, Failed (msg_error msg))]\<rparr>"
    have "OnResponse msg c = Inr ?c'"
      using False live neq c1 by (simp add: resp discard_closure_def delete_object_def)
    moreover have "rpc_ok ?c' n"
      using pend keys c1
      by (intro finish_ok [OF assms, of k t]) (simp_all add: pending_def swap)
    ultimately show ?thesis by blast
  qed
qed


lemma register_ok:
  assumes "rpc_ok c n"
  shows "rpc_ok (CallMethod_register cid c) n"
proof (cases "map_of (unregistered c) cid")
  case None
  then show ?thesis using assms by (simp add: CallMethod_register_def)
next
  case (Some d)
  note ok = rpc_okD [OF assms]
  have key: "cid \<in> fst ` set (unregistered c)" using Some by (metis domI dom_map_of_conv_image_fst)
  then have fresh: "cid \<notin> fst ` set (call_map c)" using ok(3) by auto
  let ?u = "AList.delete cid (unregistered c)" and ?c' = "CallMethod_register cid c"
  have c': "unregistered ?c' = ?u" "call_map ?c' = call_map c @ [(cid, d)]" "seq ?c' = seq c"
      "live ?c' = live c" "fates ?c' = fates c"
    using Some fresh by (simp_all add: CallMethod_register_def update_fresh)
  have pend: "pending ?c' = pending c"
    using delete_values [OF Some] ok(3) by (simp add: pending_def c')
  have sub: "fst ` set ?u \<subseteq> fst ` set (unregistered c)" by (intro image_mono delete_keys)
  have "cid \<notin> fst ` set ?u" by (auto simp: AList.delete_eq)
  moreover have "distinct (map fst ?u)" using ok(3) by (intro delete_keys(2)) simp
  ultimately have "distinct (map fst (unregistered ?c' @ call_map ?c'))"
    using ok(3) sub fresh by (simp add: c' del: delete_Cons) blast
  moreover have "fst ` set (unregistered ?c' @ call_map ?c') \<subseteq> of_nat ` {1..n}"
    using ok(2) sub key by (simp add: c' del: delete_Cons) blast
  ultimately show ?thesis
    using ok rpc_okD(4) [OF assms] unfolding rpc_ok_def pend c'(3-5) by blast
qed

lemma pending_closures:
  assumes "rpc_ok c n" and "call_objects k t \<in># pending c"
  shows "k < n"
proof -
  have "closure_of (call_objects k t) \<in># image_mset closure_of (pending c)" using assms(2) by (simp del: closure_call)
  then have "2 * k + 1 \<in># mset (map (\<lambda>k. 2 * k + 1) [0..<n])"
    using rpc_okD(6) [OF assms(1)] by (metis closure_call union_iff)
  then show ?thesis by auto
qed

lemma fresh_objects:
  assumes "rpc_ok c n"
  shows "2 * n \<notin> live c" "2 * n + 1 \<notin> live c"
proof -
  have "x \<noteq> 2 * n \<and> x \<noteq> 2 * n + 1" if "x \<in> live c" for x
  proof -
    have "x \<in> (\<Union>d \<in> set_mset (pending c). objects d)" using that rpc_okD(5) [OF assms] by simp
    then obtain d where d: "d \<in># pending c" "x \<in> objects d" by (elim UN_E)
    then obtain k t where k: "d = call_objects k t" using rpc_okD(4) [OF assms] by metis
    then have "k < n" "x = 2 * k \<or> x = 2 * k + 1" using pending_closures [OF assms] d by auto
    then show ?thesis by presburger
  qed
  then show "2 * n \<notin> live c" "2 * n + 1 \<notin> live c" by blast+
qed

lemma fresh_number:
  assumes "Suc n < 2 ^ 32"
  shows "(of_nat (Suc n) :: u32) \<notin> of_nat ` {1..n}"
proof
  assume "(of_nat (Suc n) :: u32) \<in> of_nat ` {1..n}"
  then obtain k where "k \<le> n" "(of_nat (Suc n) :: u32) = of_nat k" by auto
  then show False
    using assms by (simp only: word_of_nat_eq_iff) (simp add: take_bit_nat_eq_self)
qed

lemma keys_mono: "A \<subseteq> (of_nat ` {1..n} :: u32 set) \<Longrightarrow> A \<subseteq> of_nat ` {1..Suc n}"
  by (metis atLeastAtMostSuc_conv image_mono le_add1 order_trans plus_1_eq_Suc subset_insertI)

lemma call_cases:
  fixes c :: rpc_channel and n :: nat
  defines "cid \<equiv> seq c + 1"
  assumes fresh: "2 * n \<notin> live c" "2 * n + 1 \<notin> live c"
  obtains c' t where
      "CallMethod_send le ser msize conn service meth request (Some (2 * n)) (Some (2 * n + 1)) c = Inr c'"
      "seq c' = cid" "unregistered c' = (cid, call_objects n t) # unregistered c" "call_map c' = call_map c"
      "live c' = live c \<union> {2 * n, 2 * n + 1}" "fates c' = fates c"
  | c' where
      "CallMethod_send le ser msize conn service meth request (Some (2 * n)) (Some (2 * n + 1)) c = Inr c'"
      "seq c' = cid" "unregistered c' = unregistered c" "call_map c' = call_map c"
      "live c' = live c" "fates c' = fates c @ [(2 * n + 1, Failed ERROR_CODE_UNKNOWN)]"
proof -
  let ?msg = "\<lparr>msg_id = seq c + 1, service_name = service, method_name = meth, msg_data = request,
    msg_error = ERROR_CODE_OK\<rparr>"
  obtain sent outs where s: "codec_SendMessage le ser msize True conn ?msg = (sent, outs)" by (cases "codec_SendMessage le ser msize True conn ?msg")
  let ?c = "c\<lparr>seq := seq c + 1, outputs := outputs c @ outs, live := live c \<union> {2 * n} \<union> {2 * n + 1}\<rparr>"
  show thesis
  proof (cases sent)
    case True
    let ?t = "if timeout_ms c > 0 then Some (next_timer c) else None"
    let ?d = "if timeout_ms c > 0
      then ?c\<lparr>timers := (next_timer c, seq c + 1) # timers c, next_timer := next_timer c + 1\<rparr> else ?c"
    show thesis
      by (rule that(1) [of "?d\<lparr>unregistered := (seq c + 1, call_objects n ?t) # unregistered c\<rparr>" ?t])
        (use True s in \<open>auto simp: CallMethod_send_def Let_def call_objects_def cid_def\<close>)
  next
    case False
    have restored: "insert (Suc (2 * n)) (insert (2 * n) (live c)) - {2 * n} - {Suc (2 * n)} = live c"
      using fresh by auto
    show thesis
      by (rule that(2) [of "(report ERROR_CODE_UNKNOWN ?c)\<lparr>live := live c, fates := fates c @ [(2 * n + 1, Failed ERROR_CODE_UNKNOWN)]\<rparr>"])
        (use False s fresh in \<open>auto simp: CallMethod_send_def Let_def cid_def delete_object_def discard_closure_def restored\<close>)
  qed
qed

lemma call_ok:
  assumes ok: "rpc_ok c n" and n: "Suc n < 2 ^ 32"
  shows "\<exists>c'. CallMethod_send le ser msize conn service meth request (Some (2 * n)) (Some (2 * n + 1)) c = Inr c'
    \<and> rpc_ok c' (Suc n)"
proof -
  note D = rpc_okD [OF ok]
  have cid: "seq c + 1 = of_nat (Suc n)" using D(1) by simp
  have keys: "fst ` set (unregistered c @ call_map c) \<subseteq> of_nat ` {1..Suc n}" using D(2) by (rule keys_mono)
  have last: "(of_nat (Suc n) :: u32) \<in> of_nat ` {1..Suc n}" by (rule imageI) simp
  show ?thesis
  proof (cases rule: call_cases [OF fresh_objects [OF ok], of le ser msize conn service meth request])
    case (1 c' t)
    have pend: "pending c' = add_mset (call_objects n t) (pending c)" by (simp add: pending_def 1)
    have "distinct (map fst (unregistered c' @ call_map c'))"
      using D(2,3) fresh_number [OF n] by (auto simp: 1 cid)
    moreover have "fst ` set (unregistered c' @ call_map c') \<subseteq> of_nat ` {1..Suc n}"
      using keys last by (simp add: 1 cid del: of_nat_Suc)
    moreover have "\<forall>d \<in># pending c'. \<exists>k t. d = call_objects k t" using D(4) by (auto simp: pend)
    moreover have "live c' = (\<Union>d \<in> set_mset (pending c'). objects d)" using D(5) by (auto simp: pend 1)
    moreover have "mset (map fst (fates c')) + image_mset closure_of (pending c') = mset (map (\<lambda>k. 2 * k + 1) [0..<Suc n])"
      using D(6) by (simp add: pend 1)
    ultimately have "rpc_ok c' (Suc n)" using 1(2) cid by (simp only: rpc_ok_def)
    then show ?thesis using 1(1) by blast
  next
    case (2 c')
    have pend: "pending c' = pending c" by (simp add: pending_def 2)
    have "mset (map fst (fates c')) + image_mset closure_of (pending c') = mset (map (\<lambda>k. 2 * k + 1) [0..<Suc n])"
      using D(6) by (simp add: pend 2)
    then have "rpc_ok c' (Suc n)"
      using D keys cid unfolding rpc_ok_def pend 2(2-5) by blast
    then show ?thesis using 2(1) by blast
  qed
qed

lemma rpc_run_ok: "rpc_run le ser msize c n \<Longrightarrow> n < 2 ^ 32 \<Longrightarrow> rpc_ok c n"
proof (induction rule: rpc_run.induct)
  case new
  then show ?case by (simp add: rpc_ok_def RpcChannel_new_def pending_def)
next
  case (set_timeout c n ms)
  then show ?case by (auto simp: SetTimeout_def intro: rpc_ok_cong)
next
  case (set_error_cb c n)
  then show ?case by (auto simp: SetErrorCallback_def intro: rpc_ok_cong)
next
  case (call c n conn service meth request c')
  then show ?case using call_ok [of c n le ser msize conn service meth request] by auto
next
  case (register c n cid)
  then show ?case by (simp add: register_ok)
next
  case (timer c n t cid c')
  then have "rpc_ok (RemoveTimer t c) n" by (auto simp: RemoveTimer_def intro: rpc_ok_cong)
  then show ?case using OnTimeout_ok [of "RemoveTimer t c" n cid] timer by auto
next
  case (response c n msg c')
  then show ?case using OnResponse_ok [of c n msg] by auto
qed


section \<open>Properties\<close>

text \<open>C7: Whatever the interleaving of calls from several threads, answers of the peer and timers, and
  whatever the answers say, every one of up to \<open>2 ^ 32 - 1\<close> calls has either been ended exactly once,
  its closure run or discarded, or is still pending; and no step deletes or uses an object twice.\<close>

theorem rpc_ends_calls_once:
  assumes "rpc_run le ser msize c n" and "n < 2 ^ 32"
  shows "mset (map fst (fates c)) + mset (map (\<lambda>(_, d). the (cd_done d)) (unregistered c @ call_map c)) =
      mset (map (\<lambda>k. 2 * k + 1) [0..<n]) \<and>
    (\<exists>c'. OnResponse msg c = Inr c') \<and> (\<exists>c'. OnTimeout cid c = Inr c') \<and>
    (\<exists>c'. CallMethod_send le ser msize conn service meth request (Some (2 * n)) (Some (2 * n + 1)) c = Inr c')"
proof -
  have ok: "rpc_ok c n" using assms by (rule rpc_run_ok)
  have "mset (map (\<lambda>(_, d). the (cd_done d)) (unregistered c @ call_map c)) = image_mset closure_of (pending c)"
    by (simp add: pending_def closure_of_def case_prod_beta' multiset.map_comp o_def)
  moreover have "\<exists>c'. CallMethod_send le ser msize conn service meth request (Some (2 * n)) (Some (2 * n + 1)) c = Inr c'"
    by (cases rule: call_cases [OF fresh_objects [OF ok], of le ser msize conn service meth request]) blast+
  ultimately show ?thesis
    using rpc_okD(6) [OF ok] OnResponse_ok [OF ok, of msg] OnTimeout_ok [OF ok, of cid] by auto
qed

text \<open>A call that was answered.\<close>

definition answered_channel :: rpc_channel where
  "answered_channel = RpcChannel_new\<lparr>seq := 1, fates := [(1, Completed ''x'')],
     outputs := [Sent (string_of_bytes (EncodeFixed32 True 4))]\<rparr>"

lemma answered_run: "rpc_run True (\<lambda>_. Some []) (\<lambda>_. 0) answered_channel (Suc 0)"
proof -
  let ?c1 = "RpcChannel_new\<lparr>seq := 1, live := {0, 1}, unregistered := [(1, call_objects 0 None)],
     outputs := [Sent (string_of_bytes (EncodeFixed32 True 4))]\<rparr>"
  let ?c2 = "?c1\<lparr>unregistered := [], call_map := [(1, call_objects 0 None)]\<rparr>"
  have "rpc_run True (\<lambda>_. Some []) (\<lambda>_. 0) ?c1 (Suc 0)"
    by (rule rpc_run.call [OF rpc_run.new, of _ _ _ True "[]" "[]" "[]"])
      (auto simp: CallMethod_send_def codec_SendMessage_def RpcChannel_new_def kHeaderSize_def PutFixed32_def
        call_objects_def Let_def)
  from rpc_run.register [OF this, of 1] have "rpc_run True (\<lambda>_. Some []) (\<lambda>_. 0) ?c2 (Suc 0)"
    by (simp add: CallMethod_register_def RpcChannel_new_def)
  then show ?thesis
    by (rule rpc_run.response [where msg = "RpcMessage_new\<lparr>msg_id := 1, msg_data := ''x''\<rparr>"])
      (auto simp: OnResponse_def RpcMessage_new_def RpcChannel_new_def call_objects_def run_closure_def delete_object_def
        answered_channel_def Let_def insert_Diff_if)
qed

theorem rpc_ends_calls_once_witness:
  "mset (map fst (fates answered_channel)) + mset (map (\<lambda>(_, d). the (cd_done d)) (unregistered answered_channel @ call_map answered_channel)) =
     mset (map (\<lambda>k. 2 * k + 1) [0..<Suc 0]) \<and> (\<exists>c'. OnTimeout 1 answered_channel = Inr c')"
  using rpc_ends_calls_once [OF answered_run, of RpcMessage_new 1 True "[]" "[]" "[]"] by simp

text \<open>\<^verbatim>\<open>CallMethod\<close> enters a call into \<^verbatim>\<open>call_map_\<close> only after its message is on the way. When the answer
  arrives in between, it is thrown away, and without a timeout nothing is left that would ever
  end the call.\<close>

theorem rpc_early_answer_lost:
  assumes "fst (codec_SendMessage le ser msize True conn
      \<lparr>msg_id = seq c + 1, service_name = service, method_name = meth, msg_data = request,
       msg_error = ERROR_CODE_OK\<rparr>)"
    and "timeout_ms c = 0" and "seq c + 1 \<notin> fst ` set (call_map c)" and "msg_id answer = seq c + 1"
    and "msg_error answer = ERROR_CODE_OK"
  shows "\<exists>c1 c2. CallMethod_send le ser msize conn service meth request (Some r) (Some d) c = Inr c1 \<and>
    OnResponse answer c1 = Inr c2 \<and>
    fates (CallMethod_register (seq c + 1) c2) = fates c \<and>
    timers (CallMethod_register (seq c + 1) c2) = timers c \<and>
    map_of (call_map (CallMethod_register (seq c + 1) c2)) (seq c + 1) =
      Some \<lparr>cd_response = Some r, cd_done = Some d, cd_timer = None\<rparr>"
proof -
  let ?msg = "\<lparr>msg_id = seq c + 1, service_name = service, method_name = meth, msg_data = request,
    msg_error = ERROR_CODE_OK\<rparr>"
  let ?d = "\<lparr>cd_response = Some r, cd_done = Some d, cd_timer = None\<rparr>"
  obtain outs where s: "codec_SendMessage le ser msize True conn ?msg = (True, outs)"
    using assms(1) by (cases "codec_SendMessage le ser msize True conn ?msg") simp
  define c1 where "c1 = c\<lparr>seq := seq c + 1, outputs := outputs c @ outs, live := live c \<union> {r} \<union> {d},
    unregistered := (seq c + 1, ?d) # unregistered c\<rparr>"
  have none: "map_of (call_map c) (seq c + 1) = None" using assms(3) by (simp add: map_of_eq_None_iff)
  have "CallMethod_send le ser msize conn service meth request (Some r) (Some d) c = Inr c1"
    using s assms(2) by (simp add: CallMethod_send_def Let_def c1_def)
  moreover have "OnResponse answer c1 = Inr c1"
    using none assms(3-5)
    by (simp add: OnResponse_def c1_def Let_def CallData_new_def run_closure_def delete_object_def delete_absent)
  ultimately show ?thesis
    by (auto simp: CallMethod_register_def c1_def update_conv')
qed

theorem rpc_early_answer_lost_witness:
  "\<exists>c1 c2. CallMethod_send True (\<lambda>_. Some []) (\<lambda>_. 0) True ''s'' ''m'' [] (Some 0) (Some 1) RpcChannel_new = Inr c1 \<and>
    OnResponse (RpcMessage_new\<lparr>msg_id := 1\<rparr>) c1 = Inr c2 \<and>
    fates (CallMethod_register 1 c2) = [] \<and>
    map_of (call_map (CallMethod_register 1 c2)) 1 = Some \<lparr>cd_response = Some 0, cd_done = Some 1, cd_timer = None\<rparr>"
  using rpc_early_answer_lost [of True "\<lambda>_. Some []" "\<lambda>_. 0" True RpcChannel_new "''s''" "''m''" "[]"
      "RpcMessage_new\<lparr>msg_id := 1\<rparr>" 0 1]
  by (auto simp: codec_SendMessage_def RpcChannel_new_def RpcMessage_new_def)

text \<open>The answer a request deserves.\<close>

definition expected_reply ::
  "('svc, 'meth) service_class \<Rightarrow> 'svc rpc_server \<Rightarrow> RpcMessage \<Rightarrow> RpcMessage" where
  "expected_reply cls s msg =
     (let fail = (\<lambda>e. RpcMessage_new\<lparr>msg_id := msg_id msg, msg_error := e\<rparr>)
      in case map_of (services s) (service_name msg) of
           None \<Rightarrow> fail ERROR_CODE_INVALID_SERVICE
         | Some svc \<Rightarrow>
             (case FindMethodByName cls svc (method_name msg) of
                None \<Rightarrow> fail ERROR_CODE_INVALID_METHOD
              | Some m \<Rightarrow>
                  if request_parses cls svc m (msg_data msg)
                  then RpcMessage_new\<lparr>msg_id := msg_id msg, msg_data := the (service_call cls svc m (msg_data msg))\<rparr>
                  else fail ERROR_CODE_INVALID_REQUEST))"

text \<open>C29: A server whose services answer before they return sends exactly one reply per request, on the
  connection of the request and with its number: the service's answer, or the error that says
  what was wrong with the request; the number it keeps on the heap meanwhile is freed.\<close>

theorem rpc_server_answers:
  assumes "\<forall>svc m d. service_call cls svc m d \<noteq> None" and "ints s (next_int s) = None"
  shows "\<exists>s'. OnRequest le ser msize cls p msg s = Inr s' \<and>
    replies s' = replies s @ [(p, snd (codec_SendMessage le ser msize True True (expected_reply cls s msg)))] \<and>
    ints s' = ints s \<and> services s' = services s"
proof -
  have "(ints s)(next_int s := None) = ints s" using assms(2) by (simp add: fun_upd_idem)
  moreover have "service_call cls svc m d = Some (the (service_call cls svc m d))" for svc m d
    using assms(1) by (metis option.collapse)
  ultimately show ?thesis
    by (auto simp: OnRequest_def expected_reply_def Let_def send_reply_def server_Done_def
        split: option.splits) (metis option.distinct(1))+
qed

definition echo_service :: "bool \<Rightarrow> (string, unit) service_class" where
  "echo_service at_once = \<lparr>full_name = (\<lambda>s. s), FindMethodByName = (\<lambda>s m. if m = ''echo'' then Some () else None),
     request_parses = (\<lambda>s m d. True), service_call = (\<lambda>s m d. if at_once then Some d else None)\<rparr>"

theorem rpc_server_answers_witness:
  "\<exists>s'. OnRequest True (\<lambda>m. Some (msg_data m)) (\<lambda>m. length (msg_data m)) (echo_service True) 7
      \<lparr>msg_id = 5, service_name = ''e'', method_name = ''echo'', msg_data = ''hi'', msg_error = ERROR_CODE_OK\<rparr>
      (RegisterService (echo_service True) ''e'' RpcServer_new) = Inr s' \<and>
    replies s' = [(7, [Sent (string_of_bytes (EncodeFixed32 True 6) @ ''hi'')])]"
  using rpc_server_answers [of "echo_service True" "RegisterService (echo_service True) ''e'' RpcServer_new"
      True "\<lambda>m. Some (msg_data m)" "\<lambda>m. length (msg_data m)" 7
      "\<lparr>msg_id = 5, service_name = ''e'', method_name = ''echo'', msg_data = ''hi'', msg_error = ERROR_CODE_OK\<rparr>"]
  by (auto simp: echo_service_def RegisterService_def RpcServer_new_def expected_reply_def RpcMessage_new_def
      codec_SendMessage_def kHeaderSize_def PutFixed32_def)

definition keeps :: "('svc, 'meth) service_class \<Rightarrow> 'svc rpc_server \<Rightarrow> RpcMessage \<Rightarrow> bool" where
  "keeps cls s msg \<longleftrightarrow> (\<exists>svc m. map_of (services s) (service_name msg) = Some svc \<and>
     FindMethodByName cls svc (method_name msg) = Some m \<and> request_parses cls svc m (msg_data msg) \<and>
     service_call cls svc m (msg_data msg) = None)"

text \<open>C37: The server remembers the number of a request in the one context pointer of the connection. When
  a second request arrives on it before the first is answered, the first answer goes out under the
  number of the second request, and the second answer uses freed memory.\<close>

theorem rpc_overlapping_requests:
  assumes "keeps cls s m1" and "keeps cls s m2"
  shows "\<exists>s1 s2 s3. OnRequest le ser msize cls p m1 s = Inr s1 \<and> OnRequest le ser msize cls p m2 s1 = Inr s2 \<and>
    server_Done le ser msize r1 p s2 = Inr s3 \<and>
    replies s3 = replies s @
      [(p, snd (codec_SendMessage le ser msize True True (RpcMessage_new\<lparr>msg_id := msg_id m2, msg_data := r1\<rparr>)))] \<and>
    server_Done le ser msize r2 p s3 = Inl UseAfterFree"
  using assms by (auto simp: keeps_def OnRequest_def server_Done_def send_reply_def Let_def)

theorem rpc_overlapping_requests_witness:
  "\<exists>s1 s2 s3. OnRequest True (\<lambda>m. Some (msg_data m)) (\<lambda>m. length (msg_data m)) (echo_service False) 7
      \<lparr>msg_id = 5, service_name = ''e'', method_name = ''echo'', msg_data = ''a'', msg_error = ERROR_CODE_OK\<rparr>
      (RegisterService (echo_service False) ''e'' RpcServer_new) = Inr s1 \<and>
    OnRequest True (\<lambda>m. Some (msg_data m)) (\<lambda>m. length (msg_data m)) (echo_service False) 7
      \<lparr>msg_id = 6, service_name = ''e'', method_name = ''echo'', msg_data = ''b'', msg_error = ERROR_CODE_OK\<rparr> s1 = Inr s2 \<and>
    server_Done True (\<lambda>m. Some (msg_data m)) (\<lambda>m. length (msg_data m)) ''A'' 7 s2 = Inr s3 \<and>
    server_Done True (\<lambda>m. Some (msg_data m)) (\<lambda>m. length (msg_data m)) ''B'' 7 s3 = Inl UseAfterFree"
  using rpc_overlapping_requests [of "echo_service False" "RegisterService (echo_service False) ''e'' RpcServer_new"
      "\<lparr>msg_id = 5, service_name = ''e'', method_name = ''echo'', msg_data = ''a'', msg_error = ERROR_CODE_OK\<rparr>"
      "\<lparr>msg_id = 6, service_name = ''e'', method_name = ''echo'', msg_data = ''b'', msg_error = ERROR_CODE_OK\<rparr>"
      True "\<lambda>m. Some (msg_data m)" "\<lambda>m. length (msg_data m)" 7 "''A''" "''B''"]
  by (auto simp: keeps_def echo_service_def RegisterService_def RpcServer_new_def)

end
