(* ===== verification/Sudoku.thy ===== *)
theory Sudoku
  imports Voyager_Prelude
begin

text \<open>
  The solver of the sudoku example (\<^verbatim>\<open>examples/sudoku/sudoku_solver.cc\<close>): a backtracking search that
  marks in three tables which digit a row, a column and a block already has. The tables and the
  board are the arrays of the class, as lists of lists. \<^verbatim>\<open>Solve(row, col)\<close> and its inner loop are
  mutually recursive functions on the state; they are total. \<^verbatim>\<open>InitSudoku\<close> subscripts the tables
  with the character of the board less \<^verbatim>\<open>'1'\<close>, which may be outside of them: that is a fault.

  The specification is a relation between boards: \<open>solves g b\<close> says that \<open>g\<close> is filled with
  digits, that no row, column or block of it repeats one, and that it keeps what is given in \<open>b\<close>.
  The search is shown to terminate, to find a board that solves the given one exactly when there is
  one, and to leave its tables as it found them when there is none.
\<close>

section \<open>The solver\<close>

record solver =
  rows :: "bool list list"
  cols :: "bool list list"
  subboard :: "bool list list"
  board :: "string list"

definition kSize :: nat where
  "kSize = 9"

text \<open>\<open>a[i][j] = v\<close> for indices in range.\<close>

definition set2 :: "nat \<Rightarrow> nat \<Rightarrow> 'a \<Rightarrow> 'a list list \<Rightarrow> 'a list list" where
  "set2 i j v a = a[i := (a ! i)[j := v]]"

definition blank :: char where
  "blank = CHR ''.''"

text \<open>\<^verbatim>\<open>i + '1'\<close>, converted to \<^verbatim>\<open>char\<close>.\<close>

definition digit :: "nat \<Rightarrow> char" where
  "digit n = char_of (n + 49)"

definition block :: "nat \<Rightarrow> nat \<Rightarrow> nat" where
  "block i j = i div 3 * 3 + j div 3"

text \<open>The loop of the constructors fills the board row by row; a space counts as a blank. The array
  is uninitialised where the loop does not come, which is nowhere when the assertion holds.\<close>

definition board_of :: "string \<Rightarrow> string list" where
  "board_of s = map (\<lambda>i. map (\<lambda>j. let c = s ! (i * kSize + j) in if c \<noteq> CHR '' '' then c else blank)
                          [0..<kSize]) [0..<kSize]"

definition SudokuSolver_new :: "string \<Rightarrow> solver res" where
  "SudokuSolver_new s =
     guard AssertionFailed (length s = kSize * kSize)
       (let none = replicate kSize (replicate kSize False)
        in Inr \<lparr>rows = none, cols = none, subboard = none, board = board_of s\<rparr>)"

definition taken :: "nat \<Rightarrow> nat \<Rightarrow> nat \<Rightarrow> solver \<Rightarrow> bool" where
  "taken row col i st \<longleftrightarrow>
     rows st ! row ! i \<or> cols st ! col ! i \<or> subboard st ! block row col ! i"

definition mark :: "nat \<Rightarrow> nat \<Rightarrow> nat \<Rightarrow> bool \<Rightarrow> solver \<Rightarrow> solver" where
  "mark row col i v st =
     st\<lparr>rows := set2 row i v (rows st), cols := set2 col i v (cols st),
        subboard := set2 (block row col) i v (subboard st)\<rparr>"

definition put :: "nat \<Rightarrow> nat \<Rightarrow> char \<Rightarrow> solver \<Rightarrow> solver" where
  "put row col c st = st\<lparr>board := set2 row col c (board st)\<rparr>"

text \<open>\<^verbatim>\<open>InitSudoku\<close>, over the cells in the order of its loops. The character is a signed \<^verbatim>\<open>char\<close>.\<close>

definition clue :: "char \<Rightarrow> int" where
  "clue c = sint (byte_of_char c) - 49"

fun init_cells :: "(nat \<times> nat) list \<Rightarrow> solver \<Rightarrow> (bool \<times> solver) res" where
  "init_cells [] st = Inr (True, st)"
| "init_cells ((i, j) # cs) st =
     (if board st ! i ! j = blank then init_cells cs st
      else let n = clue (board st ! i ! j) in
        guard OutOfBounds (0 \<le> n \<and> n < int kSize)
          (if taken i j (nat n) st then Inr (False, st)
           else init_cells cs (mark i j (nat n) True st)))"

definition cells :: "(nat \<times> nat) list" where
  "cells = List.product [0..<kSize] [0..<kSize]"

definition InitSudoku :: "solver \<Rightarrow> (bool \<times> solver) res" where
  "InitSudoku st = init_cells cells st"

text \<open>\<^verbatim>\<open>Solve(row, col)\<close>, and its loop from \<open>i\<close> on.\<close>

function (sequential)
  Solve_from :: "nat \<Rightarrow> nat \<Rightarrow> solver \<Rightarrow> bool \<times> solver" and
  try_digits :: "nat \<Rightarrow> nat \<Rightarrow> nat \<Rightarrow> solver \<Rightarrow> bool \<times> solver" where
  "Solve_from row col st =
     (if row \<ge> kSize then (True, st)
      else if col \<ge> kSize then Solve_from (row + 1) 0 st
      else if board st ! row ! col \<noteq> blank then Solve_from row (col + 1) st
      else try_digits row col 0 st)"
| "try_digits row col i st =
     (if i \<ge> kSize then (False, st)
      else if taken row col i st then try_digits row col (i + 1) st
      else (case Solve_from row (col + 1) (put row col (digit i) (mark row col i True st)) of
              (True, st') \<Rightarrow> (True, st')
            | (False, st') \<Rightarrow> try_digits row col (i + 1) (put row col blank (mark row col i False st'))))"
  by pat_completeness auto
termination
proof (relation "measures [
    case_sum (\<lambda>(row, col, st). kSize - row) (\<lambda>(row, col, i, st). kSize - row),
    case_sum (\<lambda>(row, col, st). if kSize \<le> col then 0 else 2 + (kSize - col))
             (\<lambda>(row, col, i, st). if kSize \<le> col then 1 else 2 + (kSize - col)),
    case_sum (\<lambda>(row, col, st). 1 + kSize) (\<lambda>(row, col, i, st). kSize - i)]")
qed auto

declare Solve_from.simps [simp del] try_digits.simps [simp del]

text \<open>The loops that copy the board into the result.\<close>

definition flat :: "string list \<Rightarrow> string" where
  "flat b = map (\<lambda>k. b ! (k div kSize) ! (k mod kSize)) [0..<kSize * kSize]"

definition Sudoku_Solve :: "solver \<Rightarrow> (string \<times> solver) res" where
  "Sudoku_Solve st =
     rbind (InitSudoku st) (\<lambda>(ok, st).
       if ok then
         (case Solve_from 0 0 st of
            (True, st) \<Rightarrow> Inr (flat (board st), st)
          | (False, st) \<Rightarrow> Inr (''invalid sudoku!'', st))
       else Inr ('''', st))"

section \<open>Boards\<close>

definition shape :: "'a list list \<Rightarrow> bool" where
  "shape a \<longleftrightarrow> length a = kSize \<and> (\<forall>r \<in> set a. length r = kSize)"

definition same_unit :: "nat \<times> nat \<Rightarrow> nat \<times> nat \<Rightarrow> bool" where
  "same_unit c d \<longleftrightarrow> fst c = fst d \<or> snd c = snd d \<or> block (fst c) (snd c) = block (fst d) (snd d)"

definition at :: "'a list list \<Rightarrow> nat \<times> nat \<Rightarrow> 'a" where
  "at b c = b ! fst c ! snd c"

definition digits :: "char set" where
  "digits = digit ` {..<kSize}"

text \<open>No two of the cells in \<open>P\<close> that share a row, a column or a block have the same digit.\<close>

definition no_clash :: "(nat \<times> nat) set \<Rightarrow> string list \<Rightarrow> bool" where
  "no_clash P b \<longleftrightarrow>
     (\<forall>c \<in> P. \<forall>d \<in> P. c \<noteq> d \<longrightarrow> same_unit c d \<longrightarrow> at b c = at b d \<longrightarrow> at b c \<notin> digits)"

definition solves :: "string list \<Rightarrow> string list \<Rightarrow> bool" where
  "solves g b \<longleftrightarrow> shape g \<and> (\<forall>c \<in> set cells. at g c \<in> digits) \<and> no_clash (set cells) g \<and>
     (\<forall>c \<in> set cells. at b c \<noteq> blank \<longrightarrow> at g c = at b c)"

lemma kSize_numeral [simp]: "kSize = 9"
  by (simp add: kSize_def)

declare kSize_numeral [simp del]

lemma in_cells: "c \<in> set cells \<longleftrightarrow> fst c < kSize \<and> snd c < kSize"
  by (cases c) (auto simp: cells_def)

lemma distinct_cells [simp]: "distinct cells"
  by (simp add: cells_def distinct_product)

lemma block_less: "i < kSize \<Longrightarrow> j < kSize \<Longrightarrow> block i j < kSize"
  using div_less_iff_less_mult [of 3 i 3] div_less_iff_less_mult [of 3 j 3]
  by (simp add: block_def kSize_def)

lemma below_kSize: "n < kSize \<longleftrightarrow> n \<in> {0, 1, 2, 3, 4, 5, 6, 7, 8}"
  by (auto simp: kSize_def)

lemma digit_inj: "m < kSize \<Longrightarrow> n < kSize \<Longrightarrow> digit m = digit n \<longleftrightarrow> m = n"
  by (simp add: digit_def kSize_def char_of_eq_iff take_bit_nat_eq_self)

lemma digit_not_blank [simp]: "n < kSize \<Longrightarrow> digit n \<noteq> blank"
  by (auto simp: digit_def blank_def below_kSize char_of_def)

lemma digit_in_digits [simp]: "n < kSize \<Longrightarrow> digit n \<in> digits"
  by (simp add: digits_def)

lemma blank_not_digit [simp]: "blank \<notin> digits"
  by (auto simp: digits_def dest: digit_not_blank [symmetric])

lemma space_not_digit [simp]: "CHR '' '' \<notin> digits"
  by (auto simp: digits_def digit_def below_kSize char_of_def)

lemma clue_digit: "n < kSize \<Longrightarrow> clue (digit n) = int n"
  by (auto simp: below_kSize digit_def clue_def byte_of_char_def)

lemma shape_set2 [simp]:
  assumes "shape a"
  shows "shape (set2 i j v a)"
proof (cases "i < length a")
  case True
  then have "length (a ! i) = kSize" using assms by (auto simp: shape_def)
  then show ?thesis
    using assms set_update_subset_insert [of a i "(a ! i)[j := v]"] by (auto simp: shape_def set2_def)
next
  case False
  then show ?thesis using assms by (simp add: set2_def list_update_beyond)
qed

lemma at_set2:
  assumes "shape a" and "i < kSize" "j < kSize" "d \<in> set cells"
  shows "at (set2 i j v a) d = (if d = (i, j) then v else at a d)"
  using assms by (cases d) (auto simp: shape_def set2_def at_def in_cells nth_list_update)

lemma set2_undo:
  assumes "shape a" and "i < kSize" "j < kSize" and "at a (i, j) = v"
  shows "set2 i j v (set2 i j w a) = a"
  using assms list_update_id [of "a ! i" j] list_update_id [of a i] by (auto simp: set2_def at_def shape_def)

section \<open>The tables\<close>

definition block_of :: "nat \<times> nat \<Rightarrow> nat" where
  "block_of c = block (fst c) (snd c)"

definition tracks :: "bool list list \<Rightarrow> (nat \<times> nat \<Rightarrow> nat) \<Rightarrow> (nat \<times> nat) set \<Rightarrow> string list \<Rightarrow> bool" where
  "tracks A u P b \<longleftrightarrow> shape A \<and>
     (\<forall>k < kSize. \<forall>n < kSize. at A (k, n) \<longleftrightarrow> (\<exists>c \<in> P. u c = k \<and> at b c = digit n))"

lemma tracks_insert:
  assumes A: "tracks A u P b" and "u c < kSize" "n < kSize" and b: "at b c = digit n"
  shows "tracks (set2 (u c) n True A) u (insert c P) b"
proof -
  have "at (set2 (u c) n True A) (k, m) \<longleftrightarrow> (\<exists>d \<in> insert c P. u d = k \<and> at b d = digit m)"
    if "k < kSize" "m < kSize" for k m
    using assms that by (auto simp: tracks_def at_set2 in_cells digit_inj)
  then show ?thesis using A by (simp add: tracks_def)
qed

lemma tracks_blank: "tracks A u P b \<Longrightarrow> at b c = blank \<Longrightarrow> tracks A u (insert c P) b"
  by (auto simp: tracks_def dest: digit_not_blank)

lemma tracks_put:
  assumes "tracks A u (set cells) b" and "at b (i, j) = blank" and b: "shape b" "i < kSize" "j < kSize"
  shows "tracks A u (set cells - {(i, j)}) (set2 i j x b)"
proof -
  have "(\<exists>c \<in> set cells. u c = k \<and> at b c = digit n) \<longleftrightarrow>
      (\<exists>c \<in> set cells - {(i, j)}. u c = k \<and> at (set2 i j x b) c = digit n)" if "n < kSize" for k n
    using assms(2) that digit_not_blank [OF that] by (auto simp: at_set2 [OF b])
  then show ?thesis using assms(1) by (simp add: tracks_def)
qed

text \<open>The invariant, when the cells in \<open>P\<close> are entered in the tables.\<close>

definition solver_ok :: "(nat \<times> nat) set \<Rightarrow> solver \<Rightarrow> bool" where
  "solver_ok P st \<longleftrightarrow> tracks (rows st) fst P (board st) \<and> tracks (cols st) snd P (board st) \<and>
     tracks (subboard st) block_of P (board st) \<and> shape (board st) \<and> no_clash P (board st)"

lemma taken_iff:
  assumes "solver_ok P st" and "i < kSize" "j < kSize" "n < kSize"
  shows "taken i j n st \<longleftrightarrow> (\<exists>d \<in> P. same_unit d (i, j) \<and> at (board st) d = digit n)"
  using assms block_less [of i j]
  by (auto simp: solver_ok_def tracks_def taken_def same_unit_def at_def block_of_def)

lemma no_clash_insert:
  assumes "no_clash P b" and "\<And>d. d \<in> P \<Longrightarrow> same_unit d c \<Longrightarrow> at b d \<noteq> at b c"
  shows "no_clash (insert c P) b"
  using assms unfolding no_clash_def same_unit_def by (metis insert_iff)

lemma mark_ok:
  assumes ok: "solver_ok P st" and c: "i < kSize" "j < kSize" "n < kSize"
    and b: "at (board st) (i, j) = digit n" and free: "\<not> taken i j n st"
  shows "solver_ok (insert (i, j) P) (mark i j n True st)"
proof -
  have "no_clash (insert (i, j) P) (board st)"
    using ok free taken_iff [OF ok c] b by (auto simp: solver_ok_def intro!: no_clash_insert)
  then show ?thesis
    using ok c b block_less [OF c(1,2)]
      tracks_insert [of _ fst P "board st" "(i, j)" n] tracks_insert [of _ snd P "board st" "(i, j)" n]
      tracks_insert [of _ block_of P "board st" "(i, j)" n]
    by (simp add: solver_ok_def mark_def block_of_def)
qed

lemma blank_ok:
  assumes "solver_ok P st" and "at (board st) c = blank"
  shows "solver_ok (insert c P) st"
  using assms by (auto simp: solver_ok_def no_clash_def intro: tracks_blank)

lemma put_ok:
  assumes ok: "solver_ok (set cells) st" and c: "i < kSize" "j < kSize" "n < kSize"
    and b: "at (board st) (i, j) = blank" and free: "\<not> taken i j n st"
  shows "solver_ok (set cells) (put i j (digit n) (mark i j n True st))"
proof -
  let ?st = "put i j (digit n) st"
  have shp: "shape (board st)" using ok by (simp add: solver_ok_def)
  have "no_clash (set cells - {(i, j)}) (set2 i j (digit n) (board st))"
    using ok by (auto simp: solver_ok_def no_clash_def at_set2 [OF shp c(1,2)])
  then have "solver_ok (set cells - {(i, j)}) ?st"
    using ok tracks_put [OF _ b shp c(1,2)] shp by (simp add: solver_ok_def put_def)
  moreover have "\<not> taken i j n ?st" using free by (simp add: taken_def put_def)
  moreover have "at (board ?st) (i, j) = digit n"
    using at_set2 [OF shp c(1,2), of "(i, j)"] c by (simp add: put_def in_cells)
  ultimately have "solver_ok (insert (i, j) (set cells - {(i, j)})) (mark i j n True ?st)"
    using c by (intro mark_ok)
  moreover have "insert (i, j) (set cells - {(i, j)}) = set cells"
    using c by (auto simp: in_cells)
  moreover have "mark i j n True ?st = put i j (digit n) (mark i j n True st)"
    by (simp add: mark_def put_def)
  ultimately show ?thesis by simp
qed

lemma put_undo:
  assumes ok: "solver_ok P st" and c: "i < kSize" "j < kSize" "n < kSize"
    and b: "at (board st) (i, j) = blank" and free: "\<not> taken i j n st"
  shows "put i j blank (mark i j n False (put i j x (mark i j n True st))) = st"
proof -
  have "shape (rows st)" "shape (cols st)" "shape (subboard st)" "shape (board st)"
    using ok by (simp_all add: solver_ok_def tracks_def)
  then show ?thesis
    using free b block_less [OF c(1,2)] c by (simp add: put_def mark_def set2_undo taken_def at_def)
qed

section \<open>The search\<close>

definition legal :: "string list \<Rightarrow> bool" where
  "legal b \<longleftrightarrow> (\<forall>c \<in> set cells. at b c = blank \<or> at b c \<in> digits)"

definition filled_before :: "nat \<Rightarrow> nat \<Rightarrow> string list \<Rightarrow> bool" where
  "filled_before row col b \<longleftrightarrow>
     (\<forall>c \<in> set cells. fst c < row \<or> fst c = row \<and> snd c < col \<longrightarrow> at b c \<noteq> blank)"

lemma filled_before_row: "filled_before row col b \<Longrightarrow> kSize \<le> col \<Longrightarrow> filled_before (Suc row) 0 b"
  by (auto simp: filled_before_def in_cells less_Suc_eq)

lemma filled_before_col: "filled_before row col b \<Longrightarrow> b ! row ! col \<noteq> blank \<Longrightarrow> filled_before row (Suc col) b"
  by (auto simp: filled_before_def at_def less_Suc_eq)

lemma filled_solves:
  assumes "solver_ok (set cells) st" "legal (board st)" "filled_before row col (board st)" "kSize \<le> row"
  shows "solves (board st) (board st)"
  using assms by (fastforce simp: solves_def solver_ok_def legal_def filled_before_def in_cells)

lemma solves_put:
  assumes "shape b" and "i < kSize" "j < kSize" and "b ! i ! j = blank"
  shows "solves g (set2 i j x b) \<longleftrightarrow> solves g b \<and> (x \<noteq> blank \<longrightarrow> at g (i, j) = x)"
  using assms(4) in_cells [of "(i, j)"] assms(2,3)
  by (auto simp: solves_def at_set2 [OF assms(1-3)] at_def [of b "(i, j)"] split: if_splits)

lemma legal_put: "legal b \<Longrightarrow> shape b \<Longrightarrow> i < kSize \<Longrightarrow> j < kSize \<Longrightarrow> n < kSize \<Longrightarrow> legal (set2 i j (digit n) b)"
  by (auto simp: legal_def at_set2)

lemma filled_before_put:
  assumes "filled_before i j b" "shape b" "i < kSize" "j < kSize" "n < kSize"
  shows "filled_before i (Suc j) (set2 i j (digit n) b)"
  using assms by (auto simp: filled_before_def at_set2 less_Suc_eq prod_eq_iff)

lemma taken_unsolvable:
  assumes ok: "solver_ok (set cells) st" and c: "i < kSize" "j < kSize" "n < kSize"
    and b: "board st ! i ! j = blank" and t: "taken i j n st" and g: "solves g (board st)"
  shows "at g (i, j) \<noteq> digit n"
proof
  assume gn: "at g (i, j) = digit n"
  obtain d where d: "d \<in> set cells" "same_unit d (i, j)" "at (board st) d = digit n"
    using t taken_iff [OF ok c] by blast
  then have "at (board st) d \<noteq> blank" using c by simp
  then have "d \<noteq> (i, j)" "at g d = digit n" using b d g by (auto simp: at_def [of _ "(i, j)"] solves_def)
  moreover have "no_clash (set cells) g" "(i, j) \<in> set cells" using g c by (simp_all add: solves_def in_cells)
  ultimately show False using gn d(1,2) c(3) unfolding no_clash_def by (metis digit_in_digits)
qed

text \<open>What a call leaves: with \<^verbatim>\<open>true\<close> a board that solves the given one; with \<^verbatim>\<open>false\<close> the state it
  was called with, which then has no solution among those the call had to try.\<close>

definition search_result :: "(string list \<Rightarrow> bool) \<Rightarrow> solver \<Rightarrow> bool \<times> solver \<Rightarrow> bool" where
  "search_result G st r \<longleftrightarrow>
     (if fst r then solves (board (snd r)) (board st)
      else snd r = st \<and> (\<forall>g. solves g (board st) \<longrightarrow> \<not> G g))"

definition search_pre :: "nat \<Rightarrow> nat \<Rightarrow> solver \<Rightarrow> bool" where
  "search_pre row col st \<longleftrightarrow>
     solver_ok (set cells) st \<and> legal (board st) \<and> filled_before row col (board st)"

definition open_cell :: "nat \<Rightarrow> nat \<Rightarrow> solver \<Rightarrow> bool" where
  "open_cell row col st \<longleftrightarrow> row < kSize \<and> col < kSize \<and> board st ! row ! col = blank"

lemma search_pre_put:
  assumes "search_pre row col st" "open_cell row col st" "n < kSize" "\<not> taken row col n st"
  shows "search_pre row (Suc col) (put row col (digit n) (mark row col n True st))"
proof -
  have shp: "shape (board st)" using assms(1) by (simp add: search_pre_def solver_ok_def)
  have "solver_ok (set cells) (put row col (digit n) (mark row col n True st))"
    using assms by (intro put_ok) (simp_all add: search_pre_def open_cell_def at_def)
  moreover have "board (put row col (digit n) (mark row col n True st)) = set2 row col (digit n) (board st)"
    by (simp add: put_def mark_def)
  ultimately show ?thesis
    using assms shp by (simp add: search_pre_def open_cell_def legal_put filled_before_put)
qed

definition from_digit :: "nat \<Rightarrow> nat \<Rightarrow> nat \<Rightarrow> string list \<Rightarrow> bool" where
  "from_digit row col i g \<longleftrightarrow> (\<exists>n<kSize. i \<le> n \<and> at g (row, col) = digit n)"

lemma search_result_next:
  assumes "search_result (from_digit row col (Suc i)) st r"
    and "\<And>g. solves g (board st) \<Longrightarrow> at g (row, col) \<noteq> digit i"
  shows "search_result (from_digit row col i) st r"
proof -
  have "from_digit row col (Suc i) g" if "solves g (board st)" "from_digit row col i g" for g
    using that assms(2) by (metis from_digit_def not_less_eq_eq le_antisym)
  then show ?thesis using assms(1) by (auto simp: search_result_def split: if_splits)
qed

lemma try_digits_step:
  assumes pre: "search_pre row col st" "open_cell row col st" and n: "i < kSize" and free: "\<not> taken row col i st"
    and rec: "search_result (\<lambda>_. True) (put row col (digit i) (mark row col i True st))
      (Solve_from row (Suc col) (put row col (digit i) (mark row col i True st)))"
    and loop: "\<And>st'. Solve_from row (Suc col) (put row col (digit i) (mark row col i True st)) = (False, st') \<Longrightarrow>
      put row col blank (mark row col i False st') = st \<Longrightarrow>
      search_result (from_digit row col (Suc i)) st (try_digits row col (Suc i) st)"
  shows "search_result (from_digit row col i) st (try_digits row col i st)"
proof -
  let ?st = "put row col (digit i) (mark row col i True st)"
  have cell: "row < kSize" "col < kSize" "board st ! row ! col = blank" "shape (board st)"
    using pre by (simp_all add: search_pre_def solver_ok_def open_cell_def)
  have "board ?st = set2 row col (digit i) (board st)" by (simp add: put_def mark_def)
  then have solves_st: "solves g (board ?st) \<longleftrightarrow> solves g (board st) \<and> at g (row, col) = digit i" for g
    using n by (simp add: solves_put [OF cell(4,1,2,3)])
  obtain ok st' where r: "Solve_from row (Suc col) ?st = (ok, st')" by (cases "Solve_from row (Suc col) ?st")
  show ?thesis
  proof (cases ok)
    case True
    then show ?thesis
      using n free r rec solves_st by (subst try_digits.simps) (simp add: search_result_def)
  next
    case False
    have "st' = ?st" and none: "\<And>g. solves g (board st) \<Longrightarrow> at g (row, col) \<noteq> digit i"
      using False rec solves_st by (auto simp: search_result_def r)
    then have undo: "put row col blank (mark row col i False st') = st"
      using put_undo [of "set cells" st row col i "digit i"] pre n free cell by (simp add: search_pre_def at_def)
    then have "try_digits row col i st = try_digits row col (Suc i) st"
      using n free r False by (subst try_digits.simps) simp
    then show ?thesis using search_result_next [OF loop none] False r undo by simp
  qed
qed

lemma search_correct:
  "search_pre row col st \<Longrightarrow> search_result (\<lambda>_. True) st (Solve_from row col st)"
  "search_pre row col st \<Longrightarrow> open_cell row col st \<Longrightarrow>
     search_result (from_digit row col i) st (try_digits row col i st)"
proof (induction row col st and row col i st rule: Solve_from_try_digits.induct)
  case (1 row col st)
  consider "kSize \<le> row" | "row < kSize" "kSize \<le> col" | "row < kSize" "col < kSize" "board st ! row ! col \<noteq> blank"
    | "row < kSize" "col < kSize" "board st ! row ! col = blank" by fastforce
  then show ?case
  proof cases
    case 1
    then show ?thesis
      using \<open>search_pre row col st\<close> filled_solves
      by (subst Solve_from.simps) (auto simp: search_pre_def search_result_def)
  next
    case 2
    then show ?thesis
      using 1 filled_before_row by (subst Solve_from.simps) (auto simp: search_pre_def)
  next
    case 3
    then show ?thesis
      using 1 filled_before_col by (subst Solve_from.simps) (auto simp: search_pre_def)
  next
    case 4
    then have "search_result (from_digit row col 0) st (try_digits row col 0 st)"
      using 1 by (simp add: open_cell_def)
    moreover have "from_digit row col 0 g" if "solves g (board st)" for g
      using that 4 in_cells [of "(row, col)"] by (auto simp: solves_def digits_def from_digit_def)
    ultimately show ?thesis
      using 4 by (subst Solve_from.simps) (auto simp: search_result_def split: if_splits)
  qed
next
  case (2 row col i st)
  consider "kSize \<le> i" | "i < kSize" "taken row col i st" | "i < kSize" "\<not> taken row col i st" by fastforce
  then show ?case
  proof cases
    case 1
    then show ?thesis by (subst try_digits.simps) (auto simp: search_result_def from_digit_def)
  next
    case taken: 2
    then have "at g (row, col) \<noteq> digit i" if "solves g (board st)" for g
      using taken_unsolvable [OF _ _ _ taken(1) _ taken(2) that] "2.prems" by (simp add: search_pre_def open_cell_def)
    moreover have "try_digits row col i st = try_digits row col (Suc i) st"
      using taken by (subst try_digits.simps) simp
    ultimately show ?thesis
      using search_result_next [of row col i st] 2 taken by simp
  next
    case free: 3
    have "search_result (\<lambda>_. True) (put row col (digit i) (mark row col i True st))
        (Solve_from row (Suc col) (put row col (digit i) (mark row col i True st)))"
      using "2.IH"(2) free search_pre_put [OF "2.prems" free] by simp
    moreover have "search_result (from_digit row col (Suc i)) st (try_digits row col (Suc i) st)"
      if "Solve_from row (Suc col) (put row col (digit i) (mark row col i True st)) = (False, st')"
        and "put row col blank (mark row col i False st') = st" for st'
      using "2.IH"(3) [of False st'] free "2.prems" that by simp
    ultimately show ?thesis using try_digits_step [OF "2.prems" free] by blast
  qed
qed

section \<open>The initial tables\<close>

lemma no_clashD:
  "no_clash P b \<Longrightarrow> c \<in> P \<Longrightarrow> d \<in> P \<Longrightarrow> c \<noteq> d \<Longrightarrow> same_unit c d \<Longrightarrow> at b c = at b d \<Longrightarrow> at b c \<notin> digits"
  by (simp add: no_clash_def)

lemma init_cells_ok:
  assumes "solver_ok P st" and "\<forall>c \<in> set cs. at (board st) c = blank \<or> at (board st) c \<in> digits" and "set cs \<subseteq> set cells" and "distinct cs" and "P \<inter> set cs = {}"
  shows "\<exists>st'. init_cells cs st = Inr (no_clash (P \<union> set cs) (board st), st') \<and> board st' = board st \<and>
    (no_clash (P \<union> set cs) (board st) \<longrightarrow> solver_ok (P \<union> set cs) st')"
  using assms
proof (induction cs arbitrary: P st)
  case Nil
  then show ?case by (simp add: solver_ok_def)
next
  case (Cons c cs)
  obtain i j where c: "c = (i, j)" "i < kSize" "j < kSize" using Cons.prems(3) by (cases c) (auto simp: in_cells)
  have rest: "set cs \<subseteq> set cells" "distinct cs" "insert c P \<inter> set cs = {}" using Cons.prems by auto
  have union: "P \<union> set (c # cs) = insert c P \<union> set cs" by simp
  show ?case
  proof (cases "board st ! i ! j = blank")
    case True
    then have "solver_ok (insert c P) st" using Cons.prems(1) c by (simp add: blank_ok at_def)
    then show ?thesis using Cons.IH [of "insert c P" st] Cons.prems(2) rest True c(1) by simp
  next
    case False
    then obtain n where n: "n < kSize" "board st ! i ! j = digit n"
      using Cons.prems(2,3) c(1) by (auto simp: at_def digits_def)
    show ?thesis
    proof (cases "taken i j n st")
      case True
      then obtain d where d: "d \<in> P" "same_unit d c" "at (board st) d = digit n"
        using taken_iff [OF Cons.prems(1) c(2,3) n(1)] c(1) by blast
      moreover have "c \<noteq> d" using Cons.prems(5) d(1) by auto
      ultimately have "\<not> no_clash (P \<union> set (c # cs)) (board st)"
        using n c(1) no_clashD [of "P \<union> set (c # cs)" "board st" d c] by (auto simp: at_def)
      then show ?thesis using False True n c(1) by (simp add: clue_digit)
    next
      case free: False
      have "solver_ok (insert c P) (mark i j n True st)"
        using Cons.prems(1) c n free by (simp add: mark_ok at_def)
      moreover have "board (mark i j n True st) = board st" by (simp add: mark_def)
      ultimately show ?thesis
        using Cons.IH [of "insert c P" "mark i j n True st"] Cons.prems(2) rest False free n c(1)
        by (simp add: clue_digit)
    qed
  qed
qed

text \<open>A character that is neither a digit, nor a blank or a space, is a fault as soon as the loop
  reaches it.\<close>

lemma clue_range: "0 \<le> clue c \<and> clue c < int kSize \<longleftrightarrow> c \<in> digits"
proof
  assume c: "0 \<le> clue c \<and> clue c < int kSize"
  have "c = char_of_byte (word_of_int (sint (byte_of_char c)))" by simp
  also have "sint (byte_of_char c) = clue c + 49" by (simp add: clue_def)
  finally have "c = char_of_byte (word_of_int (clue c + 49))" .
  moreover have "char_of_byte (word_of_int (clue c + 49)) = digit (nat (clue c))"
  proof -
    obtain n where "clue c = int n" "n < kSize" using c zero_le_imp_eq_int by force
    then show ?thesis by (auto simp: below_kSize char_of_byte_def digit_def)
  qed
  ultimately show "c \<in> digits" using c by (metis digit_in_digits nat_less_iff)
qed (auto simp: digits_def clue_digit)

lemma init_cells_append:
  "init_cells (cs @ ds) st = rbind (init_cells cs st) (\<lambda>(ok, st). if ok then init_cells ds st else Inr (False, st))"
  by (induction cs st rule: init_cells.induct) (auto simp: Let_def guard_def)

section \<open>The result\<close>

definition puzzle_char :: "char \<Rightarrow> bool" where
  "puzzle_char c \<longleftrightarrow> c = CHR '' '' \<or> c = blank \<or> c \<in> digits"

lemma at_board_of:
  assumes "c \<in> set cells"
  shows "at (board_of s) c = (let x = s ! (fst c * kSize + snd c) in if x \<noteq> CHR '' '' then x else blank)"
  using assms by (simp add: at_def board_of_def in_cells)

lemma shape_board_of [simp]: "shape (board_of s)"
  by (auto simp: shape_def board_of_def)

lemma cell_index: "c \<in> set cells \<Longrightarrow> fst c * kSize + snd c < kSize * kSize"
  by (simp add: in_cells kSize_def)

lemma board_of_legal:
  assumes "length s = kSize * kSize" and "\<forall>c \<in> set s. puzzle_char c" and "c \<in> set cells"
  shows "at (board_of s) c = blank \<or> at (board_of s) c \<in> digits"
  using assms cell_index [OF assms(3)] by (auto simp: at_board_of puzzle_char_def Let_def dest!: bspec [OF _ nth_mem])

lemma board_of_flat:
  assumes "solves g b"
  shows "board_of (flat g) = g"
proof (rule nth_equalityI)
  have shp: "shape g" using assms by (simp add: solves_def)
  then show len: "length (board_of (flat g)) = length g" by (simp add: shape_def board_of_def)
  fix i assume i: "i < length (board_of (flat g))"
  show "board_of (flat g) ! i = g ! i"
  proof (rule nth_equalityI)
    show "length (board_of (flat g) ! i) = length (g ! i)"
      using i len shp by (auto simp: shape_def board_of_def)
    fix j assume "j < length (board_of (flat g) ! i)"
    then have ij: "(i, j) \<in> set cells" using i by (simp add: board_of_def in_cells)
    then have "flat g ! (i * kSize + j) = g ! i ! j"
      using cell_index [OF ij] by (simp add: flat_def in_cells)
    moreover have "g ! i ! j \<in> digits" using assms ij by (auto simp: solves_def at_def)
    ultimately show "board_of (flat g) ! i ! j = g ! i ! j"
      using at_board_of [OF ij, of "flat g"] by (auto simp: at_def Let_def)
  qed
qed

definition solver_of :: "string list \<Rightarrow> solver" where
  "solver_of b = \<lparr>rows = replicate kSize (replicate kSize False), cols = replicate kSize (replicate kSize False),
     subboard = replicate kSize (replicate kSize False), board = b\<rparr>"

lemma SudokuSolver_new_ok: "length s = kSize * kSize \<Longrightarrow> SudokuSolver_new s = Inr (solver_of (board_of s))"
  by (simp add: SudokuSolver_new_def solver_of_def Let_def)

lemma solver_of_ok: "shape b \<Longrightarrow> solver_ok {} (solver_of b)"
  by (simp add: solver_ok_def solver_of_def tracks_def shape_def no_clash_def at_def)

lemma Sudoku_Solve_result:
  assumes "shape b" and "legal b"
  shows "\<exists>r st. Sudoku_Solve (solver_of b) = Inr (r, st) \<and>
    (if \<not> no_clash (set cells) b then r = ''''
     else if \<exists>g. solves g b then \<exists>g. solves g b \<and> r = flat g
     else r = ''invalid sudoku!'')"
proof -
  have b: "board (solver_of b) = b" by (simp add: solver_of_def)
  obtain st where init: "InitSudoku (solver_of b) = Inr (no_clash (set cells) b, st)" "board st = b"
    and ok: "no_clash (set cells) b \<Longrightarrow> solver_ok (set cells) st"
    using init_cells_ok [OF solver_of_ok [OF assms(1)], of cells] assms(2)
    by (auto simp: InitSudoku_def legal_def b)
  show ?thesis
  proof (cases "no_clash (set cells) b")
    case True
    then have "search_result (\<lambda>_. True) st (Solve_from 0 0 st)"
      using ok assms(2) by (intro search_correct) (simp add: search_pre_def init(2) filled_before_def)
    moreover obtain found st' where r: "Solve_from 0 0 st = (found, st')" by (cases "Solve_from 0 0 st")
    ultimately have "if found then solves (board st') b else \<forall>g. \<not> solves g b"
      by (simp add: search_result_def init(2) split: if_splits)
    then show ?thesis
      using init True r by (cases found) (auto simp: Sudoku_Solve_def)
  qed (use init in \<open>simp add: Sudoku_Solve_def\<close>)
qed

text \<open>A character outside of the tables ends in a fault as soon as the loop reaches it.\<close>

lemma cells_nth: "k < kSize * kSize \<Longrightarrow> cells ! k = (k div kSize, k mod kSize)"
  by (simp add: cells_def product_nth kSize_def)

lemma length_cells [simp]: "length cells = kSize * kSize"
  by (simp add: cells_def)

lemma Sudoku_Solve_bad_char:
  assumes s: "length s = kSize * kSize" and k: "k < kSize * kSize" "\<not> puzzle_char (s ! k)"
    and before: "\<forall>j < k. puzzle_char (s ! j)" and clash: "no_clash (set (take k cells)) (board_of s)"
  shows "Sudoku_Solve (solver_of (board_of s)) = Inl OutOfBounds"
proof -
  let ?b = "board_of s" and ?c = "cells ! k"
  have at_nth: "at ?b (cells ! j) = (if s ! j \<noteq> CHR '' '' then s ! j else blank)" if "j < kSize * kSize" for j
    using that at_board_of [OF nth_mem, of j s] by (simp add: cells_nth Let_def)
  have "at ?b c = blank \<or> at ?b c \<in> digits" if "c \<in> set (take k cells)" for c
    using that before k(1) by (auto simp: in_set_conv_nth at_nth puzzle_char_def split: if_splits)
  then obtain st where st: "init_cells (take k cells) (solver_of ?b) = Inr (True, st)" "board st = ?b"
    using init_cells_ok [OF solver_of_ok [OF shape_board_of], of "take k cells" s] clash set_take_subset [of k cells]
    by (auto simp: solver_of_def)
  have "at ?b ?c = s ! k" "s ! k \<noteq> blank" "s ! k \<notin> digits" using k at_nth [OF k(1)] by (auto simp: puzzle_char_def)
  then have "init_cells (?c # drop (Suc k) cells) st = Inl OutOfBounds"
    using clue_range [of "s ! k"] st(2) by (cases ?c) (auto simp: at_def guard_def Let_def)
  then have "init_cells (take k cells @ ?c # drop (Suc k) cells) (solver_of ?b) = Inl OutOfBounds"
    using st(1) by (simp add: init_cells_append)
  moreover have "take k cells @ ?c # drop (Suc k) cells = cells" using k by (intro id_take_nth_drop [symmetric]) simp
  ultimately show ?thesis by (simp add: Sudoku_Solve_def InitSudoku_def)
qed

text \<open>What a puzzle is to be answered with: the empty string when two given digits clash, a solved
  board when there is one, and a message when there is none.\<close>

definition right_answer :: "string \<Rightarrow> string \<Rightarrow> bool" where
  "right_answer s r \<longleftrightarrow>
    (if \<not> no_clash (set cells) (board_of s) then r = ''''
     else if \<exists>g. solves g (board_of s) then length r = kSize * kSize \<and> solves (board_of r) (board_of s)
     else r = ''invalid sudoku!'')"

lemma solver_answers:
  assumes "length s = kSize * kSize" and "\<forall>c \<in> set s. puzzle_char c"
  shows "\<exists>r st. rbind (SudokuSolver_new s) Sudoku_Solve = Inr (r, st) \<and> right_answer s r"
proof -
  have "legal (board_of s)" using board_of_legal [OF assms] by (simp add: legal_def)
  then show ?thesis
    using Sudoku_Solve_result [of "board_of s"] SudokuSolver_new_ok [OF assms(1)] board_of_flat
    by (fastforce simp: flat_def right_answer_def split: if_splits)
qed

section \<open>Properties\<close>

text \<open>C13: For every puzzle of 81 characters that are digits, blanks or spaces the solver returns. When
  two given digits clash it returns the empty string; otherwise, when there is a way to fill the
  board, it returns one, with the given digits kept; and when there is none it says so.\<close>

theorem sudoku_solver_correct:
  assumes "length s = kSize * kSize" and "\<forall>c \<in> set s. puzzle_char c"
  shows "\<exists>r st. rbind (SudokuSolver_new s) Sudoku_Solve = Inr (r, st) \<and>
    (if \<not> no_clash (set cells) (board_of s) then r = ''''
     else if \<exists>g. solves g (board_of s) then length r = kSize * kSize \<and> solves (board_of r) (board_of s)
     else r = ''invalid sudoku!'')"
  using solver_answers [OF assms] by (simp add: right_answer_def)

definition example_puzzle :: string where
  "example_puzzle =
     ''53  7    6  195    98    6 8   6   34  8 3  17   2   6 6    28    419  5    8  79''"

lemma example_puzzle_ok: "length example_puzzle = kSize * kSize" "\<forall>c \<in> set example_puzzle. puzzle_char c"
  by code_simp+

definition example_solution :: "string list" where
  "example_solution = board_of ''534678912672195348198342567859761423426853791713924856961537284287419635345286179''"

lemma example_solution_ok: "solves example_solution (board_of example_puzzle)"
  by code_simp

lemma solves_no_clash:
  assumes "solves g b" and "legal b"
  shows "no_clash (set cells) b"
proof -
  have "at g c = at b c" if "c \<in> set cells" "at b c \<in> digits" for c
    using that assms(1) blank_not_digit by (force simp: solves_def)
  then show ?thesis
    using assms(1) unfolding solves_def no_clash_def by metis
qed

theorem sudoku_solver_correct_witness:
  "\<exists>r st. rbind (SudokuSolver_new example_puzzle) Sudoku_Solve = Inr (r, st) \<and>
     length r = kSize * kSize \<and> solves (board_of r) (board_of example_puzzle)"
proof -
  have "legal (board_of example_puzzle)" using board_of_legal [OF example_puzzle_ok] by (simp add: legal_def)
  then have "no_clash (set cells) (board_of example_puzzle)" by (rule solves_no_clash [OF example_solution_ok])
  then show ?thesis
    using sudoku_solver_correct [OF example_puzzle_ok] example_solution_ok by (auto split: if_splits)
qed

end
