(* ===== verification/Sudoku_Server.thy ===== *)
theory Sudoku_Server
  imports Sudoku Framing String_Util
begin

text \<open>
  The server and the client of the sudoku example (\<^verbatim>\<open>examples/sudoku/sudoku_server.cc\<close> and
  \<^verbatim>\<open>sudoku_client.cc\<close>). Both take lines out of the input buffer in the same loop, which waits until
  the buffer holds at least a puzzle and a line end; what they do with a line is the argument
  \<open>handle\<close> of the loop, which says whether to go on. The server sends answers and closes its
  sending side after a bad request; the client counts the answers and closes after the last one.

  The loop is related to a total function on the text. From it follows that the server answers
  every well-formed request in order, however the text was cut in transit, and what the two
  programs do with the other inputs.
\<close>

section \<open>The loop over lines\<close>

definition kCells :: nat where
  "kCells = 81"

type_synonym 's line_handler = "string \<Rightarrow> 's \<Rightarrow> (bool \<times> 's) res"

partial_function (option) read_lines :: "'s line_handler \<Rightarrow> buffer \<Rightarrow> 's \<Rightarrow> (buffer \<times> 's) res option" where
  "read_lines handle b s =
     (if ReadableSize b \<ge> kCells + 2 then
        (case FindCRLF b of
           None \<Rightarrow> Some (Inr (b, s))
         | Some crlf \<Rightarrow>
             (case RetrieveUntil (crlf + 2) b of
                Inl e \<Rightarrow> Some (Inl e)
              | Inr b' \<Rightarrow>
                  (case handle (take crlf (Peek b)) s of
                     Inl e \<Rightarrow> Some (Inl e)
                   | Inr (go, s') \<Rightarrow> if go then read_lines handle b' s' else Some (Inr (b', s')))))
      else Some (Inr (b, s)))"

declare read_lines.simps [code]

section \<open>The server\<close>

datatype action = Send string | ShutDownWrite

definition Slove :: "string \<Rightarrow> action list \<Rightarrow> (bool \<times> action list) res" where
  "Slove s out =
     (let v = SplitStringUsing s '':'' [];
          (id', puzzle) = (if length v > 1 then (v ! 0, v ! 1) else ('''', s))
      in if length puzzle \<noteq> kCells then Inr (False, out)
         else rbind (SudokuSolver_new puzzle) (\<lambda>solver.
           rbind (Sudoku_Solve solver) (\<lambda>(res, _).
             Inr (True, out @ [Send (if id' = [] then res @ kCRLF else id' @ '':'' @ res @ kCRLF)]))))"

definition server_handle :: "action list line_handler" where
  "server_handle s out =
     rbind (Slove s out) (\<lambda>(ok, out).
       Inr (ok, if ok then out else out @ [Send (''Bad Request!'' @ kCRLF), ShutDownWrite]))"

definition server_MessageCallback :: "buffer \<Rightarrow> action list \<Rightarrow> (buffer \<times> action list) res option" where
  "server_MessageCallback b out = read_lines server_handle b out"

section \<open>The client\<close>

record sudoku_client =
  num :: nat
  vec :: "string list"
  results :: "string list"
  closes :: nat

definition SudokuClient_new :: "string list \<Rightarrow> sudoku_client" where
  "SudokuClient_new v = \<lparr>num = 0, vec = v, results = [], closes = 0\<rparr>"

definition client_ConnectCallback :: "sudoku_client \<Rightarrow> action list" where
  "client_ConnectCallback c = map Send (vec c)"

text \<open>The results that are logged are kept in \<open>results\<close>, and \<open>closes\<close> counts the calls of \<^verbatim>\<open>Close\<close>.\<close>

definition client_handle :: "sudoku_client line_handler" where
  "client_handle res c =
     (let c = c\<lparr>results := results c @ [res], num := num c + 1\<rparr>
      in Inr (True, if num c = length (vec c) then c\<lparr>closes := closes c + 1\<rparr> else c))"

definition client_MessageCallback :: "buffer \<Rightarrow> sudoku_client \<Rightarrow> (buffer \<times> sudoku_client) res option" where
  "client_MessageCallback b c = read_lines client_handle b c"

section \<open>The loop on text\<close>

function text_lines :: "'s line_handler \<Rightarrow> string \<Rightarrow> 's \<Rightarrow> (string \<times> 's) res" where
  "text_lines handle t s =
     (if length t \<ge> kCells + 2 then
        (case search_from kCRLF t of
           None \<Rightarrow> Inr (t, s)
         | Some crlf \<Rightarrow>
             rbind (handle (take crlf t) s) (\<lambda>(go, s').
               if go then text_lines handle (drop (crlf + 2) t) s' else Inr (drop (crlf + 2) t, s')))
      else Inr (t, s))"
  by pat_completeness auto
termination
  by (relation "measure (\<lambda>(handle, t, s). length t)") (auto simp: kCells_def)

declare text_lines.simps [simp del]

lemma read_lines_text:
  assumes "buffer_ok b"
  shows "case text_lines handle (Peek b) s of
      Inl e \<Rightarrow> read_lines handle b s = Some (Inl e)
    | Inr (t, s') \<Rightarrow> \<exists>b'. read_lines handle b s = Some (Inr (b', s')) \<and> buffer_ok b' \<and> Peek b' = t"
  using assms
proof (induction handle "Peek b" s arbitrary: b rule: text_lines.induct)
  case (1 handle s b)
  consider "ReadableSize b < kCells + 2" | "kCells + 2 \<le> ReadableSize b" "FindCRLF b = None"
    | i where "kCells + 2 \<le> ReadableSize b" "FindCRLF b = Some i" by fastforce
  then show ?case
  proof cases
    case (3 i)
    obtain b' where b': "RetrieveUntil (i + 2) b = Inr b'" "buffer_ok b'" "Peek b' = drop (i + 2) (Peek b)"
      using RetrieveUntil_line [OF 1(2) 3(2)] by blast
    have step: "read_lines handle b s = (case handle (take i (Peek b)) s of
        Inl e \<Rightarrow> Some (Inl e)
      | Inr (go, s') \<Rightarrow> if go then read_lines handle b' s' else Some (Inr (b', s')))"
      using 3 b'(1) by (subst read_lines.simps) simp
    have spec: "text_lines handle (Peek b) s = rbind (handle (take i (Peek b)) s) (\<lambda>(go, s').
        if go then text_lines handle (Peek b') s' else Inr (Peek b', s'))"
      using 3 1(2) unfolding b'(3) by (subst text_lines.simps) (simp add: FindCRLF_def)
    show ?thesis
    proof (cases "handle (take i (Peek b)) s")
      case (Inr r)
      obtain go s1 where r: "r = (go, s1)" by (cases r)
      show ?thesis
      proof (cases go)
        case True
        have "read_lines handle b s = read_lines handle b' s1"
          and "text_lines handle (Peek b) s = text_lines handle (Peek b') s1"
          using True Inr r by (simp_all add: step spec)
        moreover have "case text_lines handle (Peek b') s1 of
            Inl e \<Rightarrow> read_lines handle b' s1 = Some (Inl e)
          | Inr (t, s') \<Rightarrow> \<exists>b''. read_lines handle b' s1 = Some (Inr (b'', s')) \<and> buffer_ok b'' \<and> Peek b'' = t"
          using True 3 1(2) b'(2,3) Inr r by (intro 1(1) [of i r go s1 b']) (simp_all add: FindCRLF_def)
        ultimately show ?thesis by (auto split: sum.splits)
      qed (simp add: step spec Inr r b'(2))
    qed (simp add: step spec)
  qed (use 1(2) in \<open>auto simp: read_lines.simps text_lines.simps FindCRLF_def\<close>)
qed

definition line_text :: "string \<Rightarrow> string" where
  "line_text l = l @ kCRLF"

lemma search_begun_line:
  assumes "kLF \<notin> set l" and "strict_prefix t (line_text l)"
  shows "search_from kCRLF t = None"
proof (cases "search_from kCRLF t")
  case (Some i)
  obtain u where u: "line_text l = t @ u" "u \<noteq> []" using assms(2) by (auto elim: strict_prefixE')
  have "search_from kCRLF (line_text l) = Some i" using search_from_append [OF Some, of u] by (simp add: u(1))
  moreover have "search_from kCRLF (line_text l) = Some (length l)"
    using search_line [OF assms(1), of "[]"] by (simp add: line_text_def)
  moreover have "length l + 2 = length t + length u" using arg_cong [OF u(1), of length] by (simp add: line_text_def)
  ultimately show ?thesis using search_from_bound [OF Some] u(2) by simp
qed

lemma read_lines_messages:
  assumes "\<And>m s. m \<in> set ms \<Longrightarrow> handle (line m) s = Inr (True, f m s)"
    and "\<And>m. m \<in> set ms \<Longrightarrow> kLF \<notin> set (line m) \<and> kCells \<le> length (line m)"
    and "buffer_ok b" and "Peek b = concat (map (\<lambda>m. line_text (line m)) ms) @ t"
    and "t = [] \<or> (\<exists>l. kLF \<notin> set l \<and> strict_prefix t (line_text l))"
  shows "\<exists>b'. read_lines handle b s = Some (Inr (b', fold f ms s)) \<and> buffer_ok b' \<and> Peek b' = t"
proof -
  have "text_lines handle (concat (map (\<lambda>m. line_text (line m)) ms) @ t) s = Inr (t, fold f ms s)"
    using assms(1,2)
  proof (induction ms arbitrary: s)
    case Nil
    have "search_from kCRLF t = None" using assms(5) search_begun_line by (auto simp: kCRLF_def)
    then show ?case by (simp add: text_lines.simps)
  next
    case (Cons m ms)
    let ?r = "concat (map (\<lambda>m. line_text (line m)) ms) @ t" and ?l = "line m"
    have "search_from kCRLF (?l @ kCRLF @ ?r) = Some (length ?l)" using Cons.prems(2) by (intro search_line) simp
    then have "text_lines handle (?l @ kCRLF @ ?r) s = text_lines handle ?r (f m s)"
      using Cons.prems(1) [of m s] Cons.prems(2) [of m] drop_line [of ?l ?r]
      by (subst text_lines.simps) simp
    moreover have "concat (map (\<lambda>m. line_text (line m)) (m # ms)) @ t = ?l @ kCRLF @ ?r" by (simp add: line_text_def)
    ultimately show ?case using Cons by simp
  qed
  then show ?thesis using read_lines_text [OF assms(3), of handle s] assms(4) by simp
qed

section \<open>Requests and replies\<close>

definition request_line :: "string \<times> string \<Rightarrow> string" where
  "request_line m = fst m @ '':'' @ snd m"

definition request_ok :: "string \<times> string \<Rightarrow> bool" where
  "request_ok m \<longleftrightarrow> fst m \<noteq> [] \<and> CHR '':'' \<notin> set (fst m) \<and> kLF \<notin> set (fst m) \<and>
     length (snd m) = kCells \<and> (\<forall>c \<in> set (snd m). puzzle_char c)"

text \<open>What the solver makes of a puzzle.\<close>

definition answer :: "string \<Rightarrow> string" where
  "answer p = (case rbind (SudokuSolver_new p) Sudoku_Solve of Inl e \<Rightarrow> [] | Inr (r, _) \<Rightarrow> r)"

definition reply :: "string \<times> string \<Rightarrow> string" where
  "reply m = fst m @ '':'' @ answer (snd m)"

lemma puzzle_char_no_sep [simp]: "\<not> puzzle_char (CHR '':'')" "\<not> puzzle_char kLF"
  by (auto simp: puzzle_char_def blank_def digits_def digit_def below_kSize char_of_def kLF_def)

lemma tokens_pair:
  assumes "x \<noteq> []" "y \<noteq> []" "c \<notin> set x" "c \<notin> set y"
  shows "tokens_of (\<lambda>d. d = c) (x @ c # y) = [x, y]"
proof -
  have "pieces_of (\<lambda>d. d = c) y = [y]" using assms(4) by (induction y) auto
  then have "pieces_of (\<lambda>d. d = c) (x @ c # y) = [x, y]" using assms(3) by (induction x) auto
  then show ?thesis using assms(1,2) by (simp add: tokens_of_def)
qed

lemma split_request:
  assumes "x \<noteq> []" "y \<noteq> []" "CHR '':'' \<notin> set x" "CHR '':'' \<notin> set y"
  shows "SplitStringUsing (x @ '':'' @ y) '':'' [] = [x, y]"
  using tokens_pair [OF assms] split_char_tokens [of 0 "x @ CHR '':'' # y" "CHR '':''" "[]"]
  by (simp add: SplitStringUsing_def SplitStringToIteratorUsing_def)

lemma kCells_kSize: "kCells = kSize * kSize"
  by (simp add: kCells_def kSize_def)

lemma answer_result:
  assumes "length p = kCells" "\<forall>c \<in> set p. puzzle_char c"
  shows "\<exists>st. rbind (SudokuSolver_new p) Sudoku_Solve = Inr (answer p, st)" "right_answer p (answer p)"
  using solver_answers [of p] assms by (auto simp: answer_def kCells_kSize)

lemma server_handle_split:
  assumes "SplitStringUsing l '':'' [] = [x, p]" and "x \<noteq> []" and "length p = kCells"
  shows "server_handle l out =
    rbind (rbind (SudokuSolver_new p) Sudoku_Solve) (\<lambda>(r, _). Inr (True, out @ [Send (line_text (x @ '':'' @ r))]))"
proof -
  obtain q where q: "rbind (SudokuSolver_new p) Sudoku_Solve = q" by blast
  have "SudokuSolver_new p = Inr (solver_of (board_of p))" using assms(3) by (simp add: SudokuSolver_new_ok kCells_kSize)
  with q show ?thesis
    using assms by (cases q) (auto simp: server_handle_def Slove_def line_text_def)
qed

lemma split_request_line:
  assumes "fst m \<noteq> []" "CHR '':'' \<notin> set (fst m)" "snd m \<noteq> []" "CHR '':'' \<notin> set (snd m)"
  shows "SplitStringUsing (request_line m) '':'' [] = [fst m, snd m]"
  unfolding request_line_def using assms by (intro split_request)

lemma request_puzzle:
  assumes "request_ok m"
  shows "length (snd m) = kCells" "\<forall>c \<in> set (snd m). puzzle_char c" "CHR '':'' \<notin> set (snd m)"
    "kLF \<notin> set (snd m)" "snd m \<noteq> []"
  using assms by (auto simp: request_ok_def kCells_def)

lemma request_id:
  assumes "request_ok m"
  shows "fst m \<noteq> []" "CHR '':'' \<notin> set (fst m)" "kLF \<notin> set (fst m)"
  using assms by (simp_all add: request_ok_def)

lemma colon_not_LF [simp]: "kLF \<noteq> CHR '':''" "CHR '':'' \<noteq> kLF"
  by (simp_all add: kLF_def)

definition request_wire :: "string \<times> string \<Rightarrow> string" where
  "request_wire m = line_text (request_line m)"

definition server_effect :: "string \<times> string \<Rightarrow> action list \<Rightarrow> action list" where
  "server_effect m out = out @ [Send (line_text (reply m))]"

lemma server_handle_request:
  assumes "request_ok m"
  shows "server_handle (request_line m) out = Inr (True, server_effect m out)"
proof -
  note p = request_puzzle [OF assms]
  note x = request_id [OF assms]
  obtain st where "rbind (SudokuSolver_new (snd m)) Sudoku_Solve = Inr (answer (snd m), st)"
    using answer_result(1) [OF p(1,2)] by blast
  then show ?thesis
    using server_handle_split [OF split_request_line [OF x(1,2) p(5,3)] x(1) p(1)]
    by (simp add: server_effect_def reply_def)
qed

lemma request_line_ok: "request_ok m \<Longrightarrow> kLF \<notin> set (request_line m) \<and> kCells \<le> length (request_line m)"
  using request_puzzle(1,4) [of m] request_id(3) [of m] by (simp add: request_line_def)

interpretation sudoku_server: framed_stream server_MessageCallback request_wire request_ok server_effect
proof (rule framed_stream.intro, goal_cases)
  case (1 m)
  then show ?case by (simp add: request_wire_def line_text_def kCRLF_def)
next
  case (2 b ms t s)
  then have "t = [] \<or> (\<exists>l. kLF \<notin> set l \<and> strict_prefix t (line_text l))"
    using request_line_ok by (auto simp: request_wire_def)
  moreover have "map request_wire ms = map (\<lambda>m. line_text (request_line m)) ms" by (simp add: request_wire_def)
  with 2(3) have "Peek b = concat (map (\<lambda>m. line_text (request_line m)) ms) @ t" by simp
  moreover have "server_handle (request_line m) out = Inr (True, server_effect m out)"
    "kLF \<notin> set (request_line m) \<and> kCells \<le> length (request_line m)" if "m \<in> set ms" for m out
    using that 2(2) server_handle_request request_line_ok by blast+
  ultimately show ?case
    unfolding server_MessageCallback_def using 2(1) by (intro read_lines_messages)
qed

section \<open>The client reads the replies\<close>

definition client_effect :: "string \<Rightarrow> sudoku_client \<Rightarrow> sudoku_client" where
  "client_effect res c =
     c\<lparr>num := num c + 1, results := results c @ [res],
       closes := closes c + (if num c + 1 = length (vec c) then 1 else 0)\<rparr>"

definition result_ok :: "string \<Rightarrow> bool" where
  "result_ok l \<longleftrightarrow> kLF \<notin> set l \<and> kCells \<le> length l"

interpretation sudoku_client: framed_stream client_MessageCallback line_text result_ok client_effect
proof (rule framed_stream.intro, goal_cases)
  case (1 m)
  then show ?case by (simp add: line_text_def kCRLF_def)
next
  case (2 b ms t s)
  then have "t = [] \<or> (\<exists>l. kLF \<notin> set l \<and> strict_prefix t (line_text l))" by (auto simp: result_ok_def)
  moreover have "client_handle l c = Inr (True, client_effect l c)" for l c
    by (simp add: client_handle_def client_effect_def Let_def)
  ultimately show ?case
    unfolding client_MessageCallback_def
    using 2 by (intro read_lines_messages [where line = "\<lambda>l. l"]) (auto simp: result_ok_def)
qed

lemma fold_client_effect:
  "fold client_effect ls c = c\<lparr>num := num c + length ls, results := results c @ ls,
     closes := closes c + (if num c < length (vec c) \<and> length (vec c) \<le> num c + length ls then 1 else 0)\<rparr>"
  by (induction ls arbitrary: c) (auto simp: client_effect_def)

lemma fold_server_effect: "fold server_effect ms out = out @ map (\<lambda>m. Send (line_text (reply m))) ms"
  by (induction ms arbitrary: out) (simp_all add: server_effect_def)

lemma flat_digits:
  assumes "solves (board_of r) b" and "length r = kSize * kSize" and "c \<in> set r"
  shows "c \<in> digits"
proof -
  obtain k where k: "k < kSize * kSize" "c = r ! k" using assms(2,3) by (auto simp: in_set_conv_nth)
  then have "cells ! k \<in> set cells" by simp
  then have "at (board_of r) (cells ! k) \<in> digits" "at (board_of r) (cells ! k) = (if c \<noteq> CHR '' '' then c else blank)"
    using assms(1) k at_board_of [of "cells ! k" r] by (auto simp: solves_def cells_nth Let_def)
  then show ?thesis by (auto split: if_splits)
qed

lemma reply_ok:
  assumes "request_ok m" and "\<exists>g. solves g (board_of (snd m))"
  shows "result_ok (reply m)" "length (answer (snd m)) = kCells" "solves (board_of (answer (snd m))) (board_of (snd m))"
proof -
  note p = request_puzzle [OF assms(1)]
  have "legal (board_of (snd m))" using board_of_legal [of "snd m"] p by (simp add: legal_def kCells_kSize)
  then have "no_clash (set cells) (board_of (snd m))" using assms(2) solves_no_clash by blast
  then show r: "length (answer (snd m)) = kCells" "solves (board_of (answer (snd m))) (board_of (snd m))"
    using answer_result(2) [OF p(1,2)] assms(2) by (auto simp: right_answer_def kCells_kSize)
  have "kLF \<notin> digits" using puzzle_char_no_sep(2) by (auto simp: puzzle_char_def)
  then have "kLF \<notin> set (answer (snd m))" using flat_digits [OF r(2)] r(1) by (auto simp: kCells_kSize)
  then show "result_ok (reply m)"
    using request_id(3) [OF assms(1)] r(1) by (simp add: result_ok_def reply_def)
qed

section \<open>Properties\<close>

definition sent :: "action list \<Rightarrow> string" where
  "sent out = concat (map (\<lambda>a. case a of Send t \<Rightarrow> t | ShutDownWrite \<Rightarrow> []) out)"

lemma sent_map [simp]: "sent (map (\<lambda>m. Send (h m)) ms) = concat (map h ms)"
  by (simp add: sent_def o_def)

lemma server_receives:
  assumes "\<forall>m \<in> set ms. request_ok m" and "concat chunks = concat (map request_wire ms)"
  shows "\<exists>b. receive server_MessageCallback chunks (new_Buffer n) [] =
      Some (Inr (b, map (\<lambda>m. Send (line_text (reply m))) ms)) \<and> buffer_ok b \<and> Peek b = []"
  using sudoku_server.receives_all [of "new_Buffer n" ms chunks "[]"] assms by (simp add: fold_server_effect)

lemma client_receives:
  assumes "\<forall>l \<in> set ls. result_ok l" and "concat chunks = concat (map line_text ls)"
  shows "\<exists>b. receive client_MessageCallback chunks (new_Buffer n) c = Some (Inr (b, fold client_effect ls c))
    \<and> buffer_ok b \<and> Peek b = []"
  using sudoku_client.receives_all [of "new_Buffer n" ls chunks c] assms by simp

text \<open>C12: A session between client and server. The client sends its requests when it is connected; cut
  into any pieces they reach the server, which answers all of them; cut into any pieces the
  answers reach the client, which logs one result per request, in order, with the number of the
  request and a board that solves its puzzle, and closes once. This for numbers without colon and
  line feed and puzzles that can be solved.\<close>

theorem sudoku_session:
  assumes "\<forall>m \<in> set ms. request_ok m \<and> (\<exists>g. solves g (board_of (snd m)))" and "ms \<noteq> []"
    and "concat to_server = sent (client_ConnectCallback (SudokuClient_new (map request_wire ms)))"
  shows "\<exists>b out. receive server_MessageCallback to_server (new_Buffer n) [] = Some (Inr (b, out)) \<and> Peek b = [] \<and>
    (\<forall>to_client. concat to_client = sent out \<longrightarrow>
      (\<exists>b c. receive client_MessageCallback to_client (new_Buffer k) (SudokuClient_new (map request_wire ms)) =
          Some (Inr (b, c)) \<and> Peek b = [] \<and> num c = length ms \<and> closes c = 1 \<and>
        list_all2 (\<lambda>m res. \<exists>r. res = fst m @ '':'' @ r \<and> length r = kCells \<and> solves (board_of r) (board_of (snd m)))
          ms (results c)))"
proof -
  let ?c = "SudokuClient_new (map request_wire ms)"
  let ?out = "map (\<lambda>m. Send (line_text (reply m))) ms"
  have "concat to_server = concat (map request_wire ms)"
    using assms(3) by (simp add: client_ConnectCallback_def SudokuClient_new_def o_def)
  then obtain b where b: "receive server_MessageCallback to_server (new_Buffer n) [] = Some (Inr (b, ?out))" "Peek b = []"
    using server_receives assms(1) by blast
  have replies: "\<forall>l \<in> set (map reply ms). result_ok l" using reply_ok(1) assms(1) by auto
  have results: "list_all2 (\<lambda>m res. \<exists>r. res = fst m @ '':'' @ r \<and> length r = kCells \<and>
      solves (board_of r) (board_of (snd m))) ms (map reply ms)"
    using reply_ok(2,3) assms(1) by (auto simp: list_all2_conv_all_nth reply_def)
  let ?done_c = "fold client_effect (map reply ms) ?c"
  have fin: "num ?done_c = length ms" "closes ?done_c = 1" "results ?done_c = map reply ms"
    using assms(2) by (simp_all add: fold_client_effect SudokuClient_new_def)
  have "\<exists>b. receive client_MessageCallback to_client (new_Buffer k) ?c = Some (Inr (b, ?done_c)) \<and> buffer_ok b \<and> Peek b = []"
    if "concat to_client = sent ?out" for to_client
    using that client_receives [OF replies, of to_client k ?c] by (simp add: o_def)
  then have "\<exists>b c. receive client_MessageCallback to_client (new_Buffer k) ?c = Some (Inr (b, c)) \<and> Peek b = [] \<and>
      num c = length ms \<and> closes c = 1 \<and> list_all2 (\<lambda>m res. \<exists>r. res = fst m @ '':'' @ r \<and> length r = kCells \<and>
      solves (board_of r) (board_of (snd m))) ms (results c)"
    if "concat to_client = sent ?out" for to_client
    using that fin results by fastforce
  then show ?thesis using b by blast
qed

definition example_request :: "string \<times> string" where
  "example_request = (''1'', example_puzzle)"

lemma sudoku_request_ok: "request_ok example_request"
  using example_puzzle_ok by (simp add: request_ok_def example_request_def kCells_kSize kLF_def)

theorem sudoku_session_witness:
  "\<exists>b out. receive server_MessageCallback [request_wire example_request] (new_Buffer 0) [] = Some (Inr (b, out)) \<and>
    (\<exists>b c. receive client_MessageCallback [sent out] (new_Buffer 0) (SudokuClient_new [request_wire example_request]) =
      Some (Inr (b, c)) \<and> num c = 1 \<and> closes c = 1)"
proof -
  have h1: "\<forall>m \<in> set [example_request]. request_ok m \<and> (\<exists>g. solves g (board_of (snd m)))"
    using sudoku_request_ok example_solution_ok by (auto simp: example_request_def)
  have h2: "concat [request_wire example_request] =
      sent (client_ConnectCallback (SudokuClient_new (map request_wire [example_request])))"
    by (simp add: sent_def client_ConnectCallback_def SudokuClient_new_def)
  obtain b out where r: "receive server_MessageCallback [request_wire example_request] (new_Buffer 0) [] = Some (Inr (b, out))"
    and c: "\<And>to_client. concat to_client = sent out \<Longrightarrow>
      \<exists>b c. receive client_MessageCallback to_client (new_Buffer 0) (SudokuClient_new (map request_wire [example_request])) =
        Some (Inr (b, c)) \<and> num c = length [example_request] \<and> closes c = 1"
    using sudoku_session [OF h1 _ h2, of 0 0] by blast
  show ?thesis using r c [of "[sent out]"] by auto
qed

lemma server_first_line_fault:
  assumes "buffer_ok b" and "Peek b = line_text l @ rest" and "kLF \<notin> set l" and "kCells \<le> length l"
    and "server_handle l out = Inl e"
  shows "server_MessageCallback b out = Some (Inl e)"
proof -
  have "search_from kCRLF (Peek b) = Some (length l)"
    using search_line [OF assms(3), of rest] by (simp add: assms(2) line_text_def)
  then have "text_lines server_handle (Peek b) out = Inl e"
    using assms(4,5) by (subst text_lines.simps) (simp add: assms(2) line_text_def)
  then show ?thesis
    using read_lines_text [OF assms(1), of server_handle out] by (simp add: server_MessageCallback_def)
qed

lemma client_waits:
  assumes "buffer_ok b" and "length (Peek b @ concat chunks) < kCells + 2"
  shows "\<exists>b'. receive client_MessageCallback chunks b c = Some (Inr (b', c)) \<and> Peek b' = Peek b @ concat chunks"
  using assms
proof (induction chunks arbitrary: b)
  case (Cons x xs)
  obtain b1 where b1: "Append x b = Inr b1" "buffer_ok b1" "Peek b1 = Peek b @ x"
    using Cons.prems(1) by (rule Append_ok)
  have "ReadableSize b1 < kCells + 2" using Cons.prems(2) length_Peek [OF b1(2)] by (simp add: b1(3))
  then have "client_MessageCallback b1 c = Some (Inr (b1, c))"
    by (simp add: client_MessageCallback_def read_lines.simps)
  then show ?case using Cons.IH [OF b1(2)] Cons.prems(2) by (simp add: b1)
qed simp

lemma server_bad_character:
  assumes "request_line (x, p) = l" "x \<noteq> []" "CHR '':'' \<notin> set x" "length p = kCells" "CHR '':'' \<notin> set p"
    and "k < kCells" "\<not> puzzle_char (p ! k)" "\<forall>j < k. puzzle_char (p ! j)" "no_clash (set (take k cells)) (board_of p)"
  shows "server_handle l out = Inl OutOfBounds"
proof -
  have "Sudoku_Solve (solver_of (board_of p)) = Inl OutOfBounds"
    using assms(4,6-9) by (intro Sudoku_Solve_bad_char) (simp_all add: kCells_kSize)
  moreover have "p \<noteq> []" using assms(4) by (auto simp: kCells_def)
  ultimately show ?thesis
    using server_handle_split [of l x p out] split_request_line [of "(x, p)"] assms SudokuSolver_new_ok [of p]
    by (simp add: kCells_kSize)
qed

lemma unsolved_reply:
  assumes "request_ok m" and "\<not> (\<exists>g. solves g (board_of (snd m)))"
  shows "length (reply m) \<le> length (fst m) + 16"
  using answer_result(2) [OF request_puzzle(1,2) [OF assms(1)]] assms(2)
  by (auto simp: reply_def right_answer_def split: if_splits)

text \<open>What the example does with other requests. A puzzle with a character that is neither digit,
  blank nor space makes the server subscript its tables out of their bounds, as soon as no clash
  among the cells before it ends the check. And a puzzle whose given digits clash, or that cannot
  be solved, is answered with a line that is shorter than the client waits for: the client never
  logs it and, when it is the last answer, never closes.\<close>

theorem sudoku_bad_requests:
  assumes "x \<noteq> []" "CHR '':'' \<notin> set x" "kLF \<notin> set x" and "length p = kCells" and "buffer_ok b"
    and "Peek b = line_text (request_line (x, p)) @ rest"
  shows "(k < kCells \<and> \<not> puzzle_char (p ! k) \<and> CHR '':'' \<notin> set p \<and> kLF \<notin> set p \<and> (\<forall>j < k. puzzle_char (p ! j)) \<and>
      no_clash (set (take k cells)) (board_of p) \<longrightarrow> server_MessageCallback b out = Some (Inl OutOfBounds)) \<and>
    ((\<forall>c \<in> set p. puzzle_char c) \<and> \<not> (\<exists>g. solves g (board_of p)) \<and> length x < 65 \<and> rest = [] \<longrightarrow>
      (\<exists>b' t. server_MessageCallback b [] = Some (Inr (b', [Send t])) \<and>
        (\<forall>to_client. concat to_client = t \<longrightarrow>
          (\<exists>b. receive client_MessageCallback to_client (new_Buffer n) c = Some (Inr (b, c)) \<and> Peek b = t))))"
proof (intro conjI impI, goal_cases)
  case 1
  have "kLF \<notin> set (request_line (x, p))" "kCells \<le> length (request_line (x, p))"
    using 1 assms by (simp_all add: request_line_def)
  with 1 assms show ?case
    by (intro server_first_line_fault [of b "request_line (x, p)" rest] server_bad_character [of x p _ k]) auto
next
  case 2
  then have m: "request_ok (x, p)" using assms by (simp add: request_ok_def)
  then obtain b' where b': "server_MessageCallback b [] = Some (Inr (b', [Send (line_text (reply (x, p)))]))"
    using sudoku_server.takes_messages [OF assms(5), of "[(x, p)]" "[]" "[]"] assms(6) 2
    by (auto simp: request_wire_def server_effect_def)
  have "length (line_text (reply (x, p))) < kCells + 2"
    using unsolved_reply [OF m] 2 by (simp add: line_text_def kCells_def)
  then have "\<exists>b. receive client_MessageCallback to_client (new_Buffer n) c = Some (Inr (b, c)) \<and> Peek b = line_text (reply (x, p))"
    if "concat to_client = line_text (reply (x, p))" for to_client
    using client_waits [of "new_Buffer n" to_client c] that by simp
  with b' show ?case by blast
qed

definition clashing_puzzle :: string where
  "clashing_puzzle = ''55'' @ replicate 79 blank"

lemma clashing_unsolvable: "\<not> (\<exists>g. solves g (board_of clashing_puzzle))"
proof
  assume "\<exists>g. solves g (board_of clashing_puzzle)"
  then obtain g where g: "solves g (board_of clashing_puzzle)" by blast
  have cells: "(0, 0) \<in> set cells" "(0, 1) \<in> set cells" by (simp_all add: in_cells kSize_def)
  have "at (board_of clashing_puzzle) (0, 0) = CHR ''5''" "at (board_of clashing_puzzle) (0, 1) = CHR ''5''"
    using cells by (simp_all add: at_board_of clashing_puzzle_def Let_def kSize_def)
  then have "at g (0, 0) = CHR ''5''" "at g (0, 1) = CHR ''5''" "CHR ''5'' \<in> digits"
    using g cells by (auto simp: solves_def blank_def)
  then show False
    using g cells no_clashD [of "set cells" g "(0, 0)" "(0, 1)"] by (auto simp: solves_def same_unit_def)
qed

theorem sudoku_bad_requests_witness:
  "server_MessageCallback \<lparr>buf = ''1:x'' @ replicate 80 blank @ kCRLF, read_index = 0, write_index = 85\<rparr> [] =
     Some (Inl OutOfBounds) \<and>
   (\<exists>b' t. server_MessageCallback \<lparr>buf = ''1:'' @ clashing_puzzle @ kCRLF, read_index = 0, write_index = 85\<rparr> [] =
       Some (Inr (b', [Send t])) \<and>
     (\<exists>b. receive client_MessageCallback [t] (new_Buffer 0) (SudokuClient_new [''1:'' @ clashing_puzzle @ kCRLF]) =
       Some (Inr (b, SudokuClient_new [''1:'' @ clashing_puzzle @ kCRLF]))))"
proof -
  let ?p = "CHR ''x'' # replicate 80 blank" and ?c = "SudokuClient_new [''1:'' @ clashing_puzzle @ kCRLF]"
  let ?b = "\<lambda>p. \<lparr>buf = ''1:'' @ p @ kCRLF, read_index = 0, write_index = 85\<rparr>"
  have peek: "buffer_ok (?b p)" "Peek (?b p) = line_text (request_line (''1'', p)) @ []" if "length p = 81" for p
    using that by (simp_all add: buffer_defs segment_def kCRLF_def line_text_def request_line_def)
  have no_sep: "blank \<noteq> CHR '':''" "blank \<noteq> kLF" "CHR ''x'' \<noteq> kLF" "CHR ''1'' \<noteq> kLF" "puzzle_char blank"
    "puzzle_char (CHR ''5'')" "\<not> puzzle_char (CHR ''x'')"
    by code_simp+
  have "server_MessageCallback (?b ?p) [] = Some (Inl OutOfBounds)"
    using sudoku_bad_requests [of "''1''" ?p "?b ?p" "[]" 0 "[]"] peek [of ?p] no_sep
    by (simp add: kCells_def no_clash_def)
  moreover have "\<exists>b' t. server_MessageCallback (?b clashing_puzzle) [] = Some (Inr (b', [Send t])) \<and>
     (\<forall>to_client. concat to_client = t \<longrightarrow>
       (\<exists>b. receive client_MessageCallback to_client (new_Buffer 0) ?c = Some (Inr (b, ?c)) \<and> Peek b = t))"
    using sudoku_bad_requests [of "''1''" clashing_puzzle "?b clashing_puzzle" "[]" 0 "[]" 0 ?c] clashing_unsolvable
      peek [of clashing_puzzle] no_sep by (simp add: kCells_def clashing_puzzle_def)
  ultimately show ?thesis by (metis append_Cons append_Nil concat.simps append_Nil2)
qed

end
