(* ===== verification/Echo_Server.thy ===== *)
theory Echo_Server
  imports Tcp_Connection
begin

text \<open>
  The echo server of the ping-pong example (\<^verbatim>\<open>examples/pingpong/echo_server.cc\<close>) on top of the model of a
  connection: its message callback passes the input buffer itself to \<^verbatim>\<open>SendMessage(Buffer*)\<close>, so that the
  buffer that is sent from is a part of the connection. The other callbacks do nothing.
\<close>

section \<open>The server\<close>

definition quiet :: callbacks where
  "quiet e c = Inr c"

text \<open>\<^verbatim>\<open>TcpConnection::SendMessage(Buffer*)\<close>, called with the input buffer of the connection.\<close>

definition SendMessage_Buffer :: "callbacks \<Rightarrow> bool \<Rightarrow> write_result \<Rightarrow> conn \<Rightarrow> conn res" where
  "SendMessage_Buffer cb in_loop wr c =
     (if conn_state c = kConnected then
        if in_loop then
          rbind (SendInLoop cb wr (Peek (readbuf c)) c) (\<lambda>c. Inr (c\<lparr>readbuf := RetrieveAll (readbuf c)\<rparr>))
        else rbind (RetrieveAllAsString (readbuf c)) (\<lambda>(s, b).
          Inr (c\<lparr>readbuf := b, tasks := tasks c @ [SendTask s]\<rparr>))
      else Inr c)"

definition echo_server :: "write_result \<Rightarrow> callbacks" where
  "echo_server wr e c = (if e = OnMessage then SendMessage_Buffer quiet True wr c else quiet e c)"

text \<open>The life of a connection of the server, with the bytes that were read from it: the loop calls the
  read and write handlers while it is open, whatever the system calls return.\<close>

inductive echo_run :: "int \<Rightarrow> conn \<Rightarrow> string \<Rightarrow> bool" for f where
  start: "StartWorking quiet (TcpConnection_new f) = Inr c \<Longrightarrow> echo_run f c []"
| read: "echo_run f c r \<Longrightarrow> is_open c \<Longrightarrow> read_fits c (ReadBytes s) \<Longrightarrow>
    HandleRead (echo_server wr) (ReadBytes s) c = Inr c' \<Longrightarrow> echo_run f c' (r @ s)"
| read_error: "echo_run f c r \<Longrightarrow> is_open c \<Longrightarrow> HandleRead (echo_server wr) (ReadError e) c = Inr c' \<Longrightarrow> echo_run f c' r"
| wrote: "echo_run f c r \<Longrightarrow> is_open c \<Longrightarrow> HandleWrite (echo_server wr) wr' c = Inr c' \<Longrightarrow> echo_run f c' r"

section \<open>What the handlers leave alone\<close>

lemma quiet_ok: "cb_ok quiet"
  by (simp add: cb_ok_def quiet_def)

lemma HandleClose_keeps:
  assumes "HandleClose quiet c = Inr c'"
  shows "accepted c' = accepted c \<and> readbuf c' = readbuf c \<and> conn_state c' = kDisconnected"
  using assms by (auto simp: HandleClose_def conn_RemoveEvents_def quiet_def res_elims)

lemma send_direct_keeps:
  assumes "send_direct quiet wr data c = Inr (n, rem, fault, c')"
  shows "accepted c' = accepted c \<and> readbuf c' = readbuf c \<and> (conn_state c' = conn_state c \<or> conn_state c' = kDisconnected)"
  using assms HandleClose_keeps [of c]
  by (auto simp: send_direct_def quiet_def [of OnWriteComplete] Let_def res_elims split: if_splits write_result.splits)

lemma send_buffered_keeps:
  assumes "send_buffered rest c = Inr c'"
  shows "accepted c' = accepted c \<and> readbuf c' = readbuf c \<and> conn_state c' = conn_state c"
  using assms by (auto simp: send_buffered_def conn_EnableWrite_def Let_def res_elims split: if_splits)

lemma SendInLoop_keeps:
  assumes "SendInLoop quiet wr data c = Inr c'" and "conn_state c = kConnected"
  shows "accepted c' = accepted c @ data \<and> readbuf c' = readbuf c \<and> (conn_state c' = kConnected \<or> conn_state c' = kDisconnected)"
proof -
  obtain n r fault c1 where d: "send_direct quiet wr data (c\<lparr>accepted := accepted c @ data\<rparr>) = Inr (n, r, fault, c1)"
    and c': "(if \<not> fault \<and> r > 0 then send_buffered (drop n data) c1 else Inr c1) = Inr c'"
    using assms by (auto simp: SendInLoop_def res_elims)
  from send_direct_keeps [OF d] send_buffered_keeps [of "drop n data" c1 c'] c' assms(2) show ?thesis
    by (auto split: if_splits)
qed

lemma echo_server_other: "e \<noteq> OnMessage \<Longrightarrow> echo_server wr e c = Inr c"
  by (simp add: echo_server_def quiet_def)

lemma HandleClose_echo: "HandleClose (echo_server wr) c = HandleClose quiet c"
  by (simp add: HandleClose_def echo_server_other quiet_def)

lemma HandleWrite_keeps:
  assumes "HandleWrite (echo_server wr) wr' c = Inr c'" and "conn_state c = kConnected"
  shows "accepted c' = accepted c \<and> readbuf c' = readbuf c \<and> (conn_state c' = kConnected \<or> conn_state c' = kDisconnected)"
  using assms HandleClose_keeps [of c c']
  by (auto simp: HandleWrite_def HandleClose_echo echo_server_other conn_DisableWrite_def Let_def res_elims
      split: if_splits write_result.splits)

lemma echo_server_ok: "cb_ok (echo_server wr)"
  unfolding cb_ok_def
proof (intro allI impI)
  fix e c assume c: "conn_ok c" "conn_state c \<noteq> kConnecting"
  have "live (c'\<lparr>readbuf := RetrieveAll (readbuf c')\<rparr>)" if "live c'" for c'
    using that by (simp add: conn_ok_def split: ConnectState.splits)
  then have "stays_live (rbind (SendInLoop quiet wr (Peek (readbuf c)) c) (\<lambda>c. Inr (c\<lparr>readbuf := RetrieveAll (readbuf c)\<rparr>)))"
    using SendInLoop_ok [OF quiet_ok c] by (intro stays_live_rbind) simp_all
  then have "stays_live (SendMessage_Buffer quiet True wr c)"
    using c by (simp add: SendMessage_Buffer_def)
  then show "\<exists>c'. echo_server wr e c = Inr c' \<and> conn_ok c' \<and> conn_state c' \<noteq> kConnecting \<and>
      (conn_state c = kDisconnected \<longrightarrow> conn_state c' = kDisconnected)"
    using c by (auto simp: echo_server_def stays_live_def quiet_def SendMessage_Buffer_def)
qed


section \<open>The echo\<close>

definition echo_ok :: "conn \<Rightarrow> string \<Rightarrow> bool" where
  "echo_ok c r \<longleftrightarrow> live c \<and> accepted c = r \<and>
     (conn_state c = kConnected \<and> Peek (readbuf c) = [] \<or> conn_state c = kDisconnected)"

lemma echo_message:
  assumes "live (c\<lparr>readbuf := b\<rparr>)" and "conn_state c = kConnected" and "Peek b = s" and "accepted c = r"
    and "echo_server wr OnMessage (c\<lparr>readbuf := b\<rparr>) = Inr c'"
  shows "echo_ok c' (r @ s)"
proof -
  let ?c = "c\<lparr>readbuf := b\<rparr>"
  obtain c1 where c1: "SendInLoop quiet wr s ?c = Inr c1" "c' = c1\<lparr>readbuf := RetrieveAll (readbuf c1)\<rparr>"
    using assms(2,3,5) by (auto simp: echo_server_def SendMessage_Buffer_def res_elims)
  moreover have "live c'" using echo_server_ok assms(1,5) by (metis cb_ok_def sum.inject(2))
  ultimately show ?thesis
    using SendInLoop_keeps [OF c1(1)] assms(2,4) by (auto simp: echo_ok_def)
qed

lemma HandleRead_echo:
  assumes ok: "echo_ok c r" and "is_open c" and fits: "read_fits c (ReadBytes s)"
    and run: "HandleRead (echo_server wr) (ReadBytes s) c = Inr c'"
  shows "echo_ok c' (r @ s)"
proof -
  have c: "live c" "accepted c = r" "conn_state c = kConnected" "Peek (readbuf c) = []"
    using ok assms(2) by (auto simp: echo_ok_def)
  have "length s \<le> readv_capacity (readbuf c)" using fits by (simp add: read_fits_def)
  then obtain b where b: "ReadV (Some s) (readbuf c) = Inr (int (length s), b)" "buffer_ok b" "Peek b = s"
    using ReadV_ok [OF conn_okD(1), of c s] c(1,4) by auto
  have live: "live (c\<lparr>readbuf := b\<rparr>)" using c(1) b(2) by (simp add: conn_ok_def split: ConnectState.splits)
  show ?thesis
  proof (cases "s = []")
    case True
    then have "HandleClose quiet (c\<lparr>readbuf := b\<rparr>) = Inr c'" using run b(1) by (simp add: HandleRead_def HandleClose_echo)
    moreover from this have "live c'"
      using HandleClose_ok [OF quiet_ok closable_open [of "c\<lparr>readbuf := b\<rparr>"]] live c(3) by simp
    ultimately show ?thesis using HandleClose_keeps c(2) True by (auto simp: echo_ok_def)
  next
    case False
    then have "echo_server wr OnMessage (c\<lparr>readbuf := b\<rparr>) = Inr c'" using run b(1) by (simp add: HandleRead_def)
    then show ?thesis using echo_message [OF live c(3) b(3) c(2)] by simp
  qed
qed

lemma echo_run_ok:
  assumes "0 \<le> f" and "echo_run f c r"
  shows "echo_ok c r"
  using assms(2)
proof induction
  case (start c)
  moreover have "stays_live (StartWorking quiet (TcpConnection_new f))"
    using TcpConnection_new_ok [OF assms(1)] by (intro StartWorking_ok quiet_ok) (simp_all add: TcpConnection_new_def)
  ultimately show ?case
    by (auto simp: echo_ok_def StartWorking_def TcpConnection_new_def conn_EnableRead_def quiet_def Let_def res_elims)
next
  case (read c r s wr c')
  then show ?case by (intro HandleRead_echo)
next
  case (read_error c r wr e c')
  then have c: "live c" "accepted c = r" "conn_state c = kConnected" "Peek (readbuf c) = []" by (auto simp: echo_ok_def)
  then have "live c'"
    using read_error HandleRead_ok [OF echo_server_ok, of c "ReadError e" wr] by simp
  then show ?case
    using read_error(3) c HandleClose_keeps [of c c']
    by (auto simp: echo_ok_def HandleRead_def HandleClose_echo split: if_splits)
next
  case (wrote c r wr wr' c')
  then have c: "live c" "accepted c = r" "conn_state c = kConnected" "Peek (readbuf c) = []" by (auto simp: echo_ok_def)
  then have "live c'" using wrote HandleWrite_ok [OF echo_server_ok, of c wr wr'] by simp
  then show ?case using HandleWrite_keeps [OF wrote(3) c(3)] c by (auto simp: echo_ok_def)
qed

text \<open>C2: The echo server returns what it reads, byte for byte and in order, whatever the sizes of the reads and
  writes: what is on the wire is a prefix of what was read, and while the connection is open the
  rest waits in the write buffer, with the poller asked to report when it can be written, and
  nothing waits in the read buffer. No step of it fails.\<close>

theorem echo_is_exact:
  assumes "0 \<le> f" and "echo_run f c r"
  shows "prefix (wire c) r \<and>
    (is_open c \<longrightarrow> r = wire c @ Peek (writebuf c) \<and> Peek (readbuf c) = [] \<and>
      (IsWriting (disp c) \<longleftrightarrow> Peek (writebuf c) \<noteq> []) \<and>
      (\<exists>c'. HandleWrite (echo_server wr) wr' c = Inr c') \<and>
      (read_fits c rd \<longrightarrow> (\<exists>c'. HandleRead (echo_server wr) rd c = Inr c')))"
proof -
  have ok: "live c" "accepted c = r" "is_open c \<Longrightarrow> Peek (readbuf c) = []"
    using echo_run_ok [OF assms] by (auto simp: echo_ok_def)
  have "\<exists>c'. HandleWrite (echo_server wr) wr' c = Inr c'"
    using HandleWrite_ok [OF echo_server_ok, of c wr wr'] ok(1) by (auto simp: stays_live_def)
  moreover have "\<exists>c'. HandleRead (echo_server wr) rd c = Inr c'" if "is_open c" "read_fits c rd"
    using HandleRead_ok [OF echo_server_ok, of c rd wr] ok(1) that by (auto simp: stays_live_def read_fits_def)
  ultimately show ?thesis
    using ok live_open [of c] conn_okD(4) [of c] by auto
qed

theorem echo_is_exact_witness:
  "\<exists>c. echo_run 3 c ''ab'' \<and> prefix (wire c) ''ab'' \<and> (is_open c \<longrightarrow> ''ab'' = wire c @ Peek (writebuf c))"
proof -
  have "stays_live (StartWorking quiet (TcpConnection_new 3))"
    using TcpConnection_new_ok [of 3] by (intro StartWorking_ok quiet_ok) (simp_all add: TcpConnection_new_def)
  then obtain c where c: "StartWorking quiet (TcpConnection_new 3) = Inr c" "live c" by (auto simp: stays_live_def)
  have run: "echo_run 3 c []" using c(1) by (rule echo_run.start)
  have o: "is_open c"
    using c(1) by (auto simp: StartWorking_def TcpConnection_new_def conn_EnableRead_def quiet_def Let_def res_elims)
  have fits: "read_fits c (ReadBytes ''ab'')"
    by (simp add: read_fits_def readv_capacity_def kBackupBufferSize_def)
  then have "stays_live (HandleRead (echo_server (Wrote 1)) (ReadBytes ''ab'') c)"
    using HandleRead_ok [OF echo_server_ok, of c "ReadBytes ''ab''"] c(2) o by (simp add: read_fits_def)
  then obtain c' where c': "HandleRead (echo_server (Wrote 1)) (ReadBytes ''ab'') c = Inr c'" by (auto simp: stays_live_def)
  have "echo_run 3 c' ''ab''" using echo_run.read [OF run o fits c'] by simp
  then show ?thesis using echo_is_exact [of 3 c' "''ab''"] by auto
qed

end
