(* ===== verification/Bg_Loop.thy ===== *)
theory Bg_Loop
  imports Event_Loop
begin

text \<open>
  A loop in a thread of its own, \<^verbatim>\<open>voyager/core/bg_eventloop.cc\<close>, as the schedule of a server uses it. Two
  threads take part: the owner, which calls \<^verbatim>\<open>Loop()\<close> and later destroys the object, and the new thread,
  which runs \<^verbatim>\<open>ThreadFunc\<close>. Their statements interleave; what is done under the mutex is one step, and so is
  every access to \<^verbatim>\<open>eventloop_\<close> outside of it. The loop itself is the one of \<open>Event_Loop\<close>, which other
  threads may use while it is alive. \<open>ptr\<close> says whether \<^verbatim>\<open>eventloop_\<close> is set, \<open>ev_alive\<close> whether the loop,
  a local variable of \<^verbatim>\<open>ThreadFunc\<close>, exists.
\<close>

section \<open>Two threads\<close>

datatype owner_pc = Created | Waiting | Leaving | Returned bool
  | DtorLoad | DtorCall | DtorWake | Joining | Destroyed | Terminated | Crashed fault

datatype thread_pc = NoThread | Starting | Published | Running | Ended | Cleared | Finished

record 'f bg_loop =
  owner :: owner_pc
  thr :: thread_pc
  ptr :: bool
  ev_alive :: bool
  ev :: "'f event_loop"
  early :: bool

definition BGEventLoop_new :: "'f bg_loop" where
  "BGEventLoop_new = \<lparr>owner = Created, thr = NoThread, ptr = False, ev_alive = False, ev = EventLoop_new, early = False\<rparr>"

text \<open>\<^verbatim>\<open>Loop()\<close>: the thread is started; the wait ends when the pointer is set; the pointer is read again for
  the result, without the mutex.\<close>

definition bg_Loop_start :: "'f bg_loop \<Rightarrow> 'f bg_loop" where
  "bg_Loop_start s = s\<lparr>owner := Waiting, thr := Starting\<rparr>"

definition bg_Loop_wait :: "'f bg_loop \<Rightarrow> 'f bg_loop" where
  "bg_Loop_wait s = (if ptr s then s\<lparr>owner := Leaving\<rparr> else s)"

definition bg_Loop_return :: "'f bg_loop \<Rightarrow> 'f bg_loop" where
  "bg_Loop_return s = s\<lparr>owner := Returned (ptr s)\<rparr>"

text \<open>\<^verbatim>\<open>ThreadFunc\<close>: the loop is made and published; it is entered and runs; after it ended the pointer is
  cleared, and at the end of the function the loop is destroyed.\<close>

definition ThreadFunc_publish :: "'f bg_loop \<Rightarrow> 'f bg_loop" where
  "ThreadFunc_publish s = s\<lparr>thr := Published, ev := EventLoop_new, ev_alive := True, ptr := True\<rparr>"

definition ThreadFunc_enter :: "'f bg_loop \<Rightarrow> 'f bg_loop" where
  "ThreadFunc_enter s = s\<lparr>thr := Running, ev := Loop_enter (ev s)\<rparr>"

definition ThreadFunc_leave :: "'f bg_loop \<Rightarrow> 'f bg_loop" where
  "ThreadFunc_leave s = s\<lparr>thr := Ended\<rparr>"

definition ThreadFunc_clear :: "'f bg_loop \<Rightarrow> 'f bg_loop" where
  "ThreadFunc_clear s = s\<lparr>thr := Cleared, ptr := False\<rparr>"

definition ThreadFunc_return :: "'f bg_loop \<Rightarrow> 'f bg_loop" where
  "ThreadFunc_return s = s\<lparr>thr := Finished, ev_alive := False\<rparr>"

text \<open>The destructor: when the pointer is null it ends without a join, and destroying a \<^verbatim>\<open>std::thread\<close> that was
  not joined ends the program. Otherwise the pointer is read again and \<^verbatim>\<open>Exit\<close> is called through it, which
  sets the flag and then wakes the loop; then the thread is joined. \<open>early\<close> records that \<^verbatim>\<open>Exit\<close> came before
  the thread entered \<^verbatim>\<open>EventLoop::Loop\<close>.\<close>

definition dtor_test :: "'f bg_loop \<Rightarrow> 'f bg_loop" where
  "dtor_test s = s\<lparr>owner := (if ptr s then DtorLoad else Terminated)\<rparr>"

definition dtor_load :: "'f bg_loop \<Rightarrow> 'f bg_loop" where
  "dtor_load s = s\<lparr>owner := (if ptr s then DtorCall else Crashed NullPointer)\<rparr>"

definition dtor_exit :: "'f bg_loop \<Rightarrow> 'f bg_loop" where
  "dtor_exit s = (if ev_alive s then s\<lparr>owner := DtorWake, ev := Exit_other (ev s), early := (thr s = Published)\<rparr>
     else s\<lparr>owner := Crashed UseAfterFree\<rparr>)"

definition dtor_wake :: "'f bg_loop \<Rightarrow> 'f bg_loop" where
  "dtor_wake s = (if ev_alive s then s\<lparr>owner := Joining, ev := WakeUp_other (ev s)\<rparr>
     else s\<lparr>owner := Crashed UseAfterFree\<rparr>)"

definition dtor_join :: "'f bg_loop \<Rightarrow> 'f bg_loop" where
  "dtor_join s = (if thr s = Finished then s\<lparr>owner := Destroyed\<rparr> else s)"

text \<open>A step of the two threads, or of the loop and its other users: what the loop does between entering and
  leaving, and what others ask of it while it is alive. Whether anybody but the destructor asks it to exit
  is the parameter \<open>others_exit\<close>.\<close>

inductive bg_step :: "bool \<Rightarrow> 'f bg_loop \<Rightarrow> 'f bg_loop \<Rightarrow> bool" for others_exit where
  call: "owner s = Created \<Longrightarrow> bg_step others_exit s (bg_Loop_start s)"
| wait: "owner s = Waiting \<Longrightarrow> bg_step others_exit s (bg_Loop_wait s)"
| ret: "owner s = Leaving \<Longrightarrow> bg_step others_exit s (bg_Loop_return s)"
| publish: "thr s = Starting \<Longrightarrow> bg_step others_exit s (ThreadFunc_publish s)"
| enter: "thr s = Published \<Longrightarrow> bg_step others_exit s (ThreadFunc_enter s)"
| run: "thr s = Running \<Longrightarrow> pc (ev s) \<noteq> Outside \<Longrightarrow> loop_step (ev s) e \<Longrightarrow>
    others_exit \<or> exit_flag e = exit_flag (ev s) \<Longrightarrow> bg_step others_exit s (s\<lparr>ev := e\<rparr>)"
| ask: "thr s \<in> {Published, Ended, Cleared} \<Longrightarrow> loop_step (ev s) e \<Longrightarrow> pc e = Outside \<Longrightarrow>
    others_exit \<or> exit_flag e = exit_flag (ev s) \<Longrightarrow> bg_step others_exit s (s\<lparr>ev := e\<rparr>)"
| leave: "thr s = Running \<Longrightarrow> pc (ev s) = Outside \<Longrightarrow> bg_step others_exit s (ThreadFunc_leave s)"
| clear: "thr s = Ended \<Longrightarrow> bg_step others_exit s (ThreadFunc_clear s)"
| finish: "thr s = Cleared \<Longrightarrow> bg_step others_exit s (ThreadFunc_return s)"
| destroy: "owner s = Returned b \<Longrightarrow> bg_step others_exit s (dtor_test s)"
| load: "owner s = DtorLoad \<Longrightarrow> bg_step others_exit s (dtor_load s)"
| exit: "owner s = DtorCall \<Longrightarrow> bg_step others_exit s (dtor_exit s)"
| wake: "owner s = DtorWake \<Longrightarrow> bg_step others_exit s (dtor_wake s)"
| join: "owner s = Joining \<Longrightarrow> bg_step others_exit s (dtor_join s)"

inductive bg_reach :: "bool \<Rightarrow> 'f bg_loop \<Rightarrow> bool" for others_exit where
  new: "bg_reach others_exit BGEventLoop_new"
| step: "bg_reach others_exit s \<Longrightarrow> bg_step others_exit s s' \<Longrightarrow> bg_reach others_exit s'"

lemmas bg_op_defs = bg_Loop_start_def bg_Loop_wait_def bg_Loop_return_def ThreadFunc_publish_def ThreadFunc_enter_def
  ThreadFunc_leave_def ThreadFunc_clear_def ThreadFunc_return_def dtor_test_def dtor_load_def dtor_exit_def dtor_wake_def dtor_join_def

section \<open>Invariant\<close>

text \<open>Where the owner is while the loop has not been asked to exit, and where it is from then on.\<close>

definition before_exit :: "owner_pc \<Rightarrow> bool" where
  "before_exit p \<longleftrightarrow> p \<in> {Waiting, Leaving, Returned True, DtorLoad, DtorCall}"

definition after_exit :: "owner_pc \<Rightarrow> bool" where
  "after_exit p \<longleftrightarrow> p \<in> {DtorWake, Joining, Destroyed, Crashed UseAfterFree}"

text \<open>The loop goes on: it was not entered yet, or it is inside and nobody asked it to exit.\<close>

definition goes_on :: "'f bg_loop \<Rightarrow> bool" where
  "goes_on s \<longleftrightarrow> thr s = Published \<or> (thr s = Running \<and> \<not> exit_flag (ev s) \<and> pc (ev s) \<noteq> Outside)"

definition stops :: "'f bg_loop \<Rightarrow> bool" where
  "stops s \<longleftrightarrow> thr s \<in> {Ended, Cleared, Finished} \<or> (thr s = Running \<and> exit_flag (ev s))"

definition bg_ok :: "'f bg_loop \<Rightarrow> bool" where
  "bg_ok s \<longleftrightarrow>
     (ptr s \<longleftrightarrow> thr s \<in> {Published, Running, Ended}) \<and>
     (ev_alive s \<longleftrightarrow> thr s \<in> {Published, Running, Ended, Cleared}) \<and>
     loop_ok (ev s) \<and> (thr s \<noteq> Running \<longrightarrow> pc (ev s) = Outside) \<and>
     (case thr s of
        NoThread \<Rightarrow> owner s = Created \<and> \<not> early s
      | Starting \<Rightarrow> owner s = Waiting \<and> \<not> early s
      | _ \<Rightarrow> (before_exit (owner s) \<and> \<not> early s \<and> goes_on s) \<or>
             (owner s \<in> {DtorWake, Joining} \<and> early s \<and> goes_on s) \<or>
             (after_exit (owner s) \<and> \<not> early s \<and> stops s \<and>
               (owner s \<in> {Destroyed, Crashed UseAfterFree} \<longrightarrow> thr s = Finished)))"

lemma loop_ok_new: "loop_ok EventLoop_new"
  by (rule loop_reach_ok [OF loop_reach.start])

lemma loop_ok_enter: "loop_ok s \<Longrightarrow> pc s = Outside \<Longrightarrow> loop_ok (Loop_enter s)"
  by (rule loop_step_ok [OF loop_step.enter])

lemma loop_ok_exit: "loop_ok s \<Longrightarrow> loop_ok (Exit_other s)"
  by (rule loop_step_ok [OF loop_step.exit_other])

lemma loop_ok_wake: "loop_ok s \<Longrightarrow> loop_ok (WakeUp_other s)"
  by (auto simp: loop_ok_def WakeUp_other_def WakeUp_def current_funcs_def)

text \<open>The loop leaves \<^verbatim>\<open>Loop\<close> only when it sees the flag.\<close>

lemma loop_step_leaves: "loop_step s s' \<Longrightarrow> pc s \<noteq> Outside \<Longrightarrow> \<not> exit_flag s \<Longrightarrow> pc s' \<noteq> Outside"
  by (induction rule: loop_step.induct) (auto simp: loop_op_defs Let_def)

lemma bg_op_fields [simp]:
  "pc (Loop_enter e) = AtTest" "\<not> exit_flag (Loop_enter e)"
  "pc (Exit_other e) = pc e" "exit_flag (Exit_other e)"
  "pc (WakeUp_other e) = pc e" "exit_flag (WakeUp_other e) = exit_flag e"
  "pc EventLoop_new = Outside"
  by (simp_all add: loop_op_defs)

lemmas bg_inv_defs = bg_ok_def before_exit_def after_exit_def goes_on_def stops_def

lemma bg_new_ok: "bg_ok BGEventLoop_new"
  by (simp add: bg_inv_defs BGEventLoop_new_def loop_ok_new)

lemma bg_step_ok: "bg_step False s s' \<Longrightarrow> bg_ok s \<Longrightarrow> bg_ok s'"
proof (induction rule: bg_step.induct)
  case (run s e)
  then show ?case
    using loop_step_ok [of "ev s" e] loop_step_leaves [of "ev s" e] by (auto simp: bg_inv_defs)
next
  case (ask s e)
  then show ?case
    using loop_step_ok [of "ev s" e] by (auto simp: bg_inv_defs)
qed (auto simp: bg_inv_defs bg_op_defs loop_ok_new loop_ok_enter loop_ok_exit loop_ok_wake split: thread_pc.splits)

lemma bg_reach_ok: "bg_reach False s \<Longrightarrow> bg_ok s"
  by (induction rule: bg_reach.induct) (auto intro: bg_new_ok bg_step_ok)

lemma bg_steps_reach: "(bg_step b)\<^sup>*\<^sup>* s s' \<Longrightarrow> bg_reach b s \<Longrightarrow> bg_reach b s'"
  by (induction rule: rtranclp_induct) (auto intro: bg_reach.step)

text \<open>\<open>early\<close> is never taken back: the owner is behind the call of \<^verbatim>\<open>Exit\<close> for good.\<close>

lemma bg_step_early: "bg_step False s s' \<Longrightarrow> bg_ok s \<Longrightarrow> early s \<Longrightarrow> early s'"
  by (induction rule: bg_step.induct)
    (auto simp: bg_inv_defs bg_op_defs split: thread_pc.splits)

lemma bg_steps_early: "(bg_step False)\<^sup>*\<^sup>* s s' \<Longrightarrow> bg_ok s \<Longrightarrow> early s \<Longrightarrow> early s' \<and> bg_ok s'"
  by (induction rule: rtranclp_induct) (auto intro: bg_step_early bg_step_ok)

text \<open>What the invariant says at the owner's positions.\<close>

lemma bg_ok_owner: "bg_ok s \<Longrightarrow> owner s \<noteq> Terminated \<and> owner s \<noteq> Crashed NullPointer \<and> owner s \<noteq> Returned False"
  by (cases "thr s") (auto simp: bg_inv_defs)

lemma bg_ok_done: "bg_ok s \<Longrightarrow> (owner s \<in> {Leaving, Returned True} \<longrightarrow> ptr s \<and> ev_alive s) \<and>
    (owner s = Destroyed \<longrightarrow> thr s = Finished \<and> \<not> ev_alive s)"
  by (cases "thr s") (auto simp: bg_inv_defs)

lemma loop_ok_polling: "loop_ok e \<Longrightarrow> pc e = Polling t \<Longrightarrow> exit_flag e \<Longrightarrow> 0 < wakeup e + pending e"
  by (simp add: loop_ok_def)

lemma bg_ok_join: "bg_ok s \<Longrightarrow> owner s = Joining \<Longrightarrow> thr s = Running \<Longrightarrow> \<not> early s \<Longrightarrow> exit_flag (ev s) \<and> loop_ok (ev s)"
  by (simp add: bg_inv_defs)

lemma bg_ok_early: "bg_ok s \<Longrightarrow> early s \<Longrightarrow> thr s \<notin> {Ended, Cleared, Finished} \<and> owner s \<in> {DtorWake, Joining}"
  by (cases "thr s") (auto simp: bg_inv_defs)

section \<open>Schedules\<close>

text \<open>An executable schedule: which thread takes its next statement. Of the loop's own statements it knows the
  test of the \<^verbatim>\<open>while\<close>, of its users' the call of \<^verbatim>\<open>Exit\<close>.\<close>

datatype turn = Owner | Thread | Other_exit

fun owner_turn :: "'f bg_loop \<Rightarrow> 'f bg_loop option" where
  "owner_turn s = (case owner s of Created \<Rightarrow> Some (bg_Loop_start s) | Waiting \<Rightarrow> Some (bg_Loop_wait s)
     | Leaving \<Rightarrow> Some (bg_Loop_return s) | Returned _ \<Rightarrow> Some (dtor_test s) | DtorLoad \<Rightarrow> Some (dtor_load s)
     | DtorCall \<Rightarrow> Some (dtor_exit s) | DtorWake \<Rightarrow> Some (dtor_wake s) | Joining \<Rightarrow> Some (dtor_join s) | _ \<Rightarrow> None)"

fun thread_turn :: "'f bg_loop \<Rightarrow> 'f bg_loop option" where
  "thread_turn s = (case thr s of Starting \<Rightarrow> Some (ThreadFunc_publish s) | Published \<Rightarrow> Some (ThreadFunc_enter s)
     | Running \<Rightarrow> (case pc (ev s) of Outside \<Rightarrow> Some (ThreadFunc_leave s)
         | AtTest \<Rightarrow> Some (s\<lparr>ev := Loop_test 0 (ev s)\<rparr>) | _ \<Rightarrow> None)
     | Ended \<Rightarrow> Some (ThreadFunc_clear s) | Cleared \<Rightarrow> Some (ThreadFunc_return s) | _ \<Rightarrow> None)"

fun take_turn :: "turn \<Rightarrow> 'f bg_loop \<Rightarrow> 'f bg_loop option" where
  "take_turn Owner s = owner_turn s"
| "take_turn Thread s = thread_turn s"
| "take_turn Other_exit s = (if thr s = Running \<and> pc (ev s) \<noteq> Outside then Some (s\<lparr>ev := Exit_other (ev s)\<rparr>) else None)"

fun bg_run :: "turn list \<Rightarrow> 'f bg_loop \<Rightarrow> 'f bg_loop option" where
  "bg_run [] s = Some s"
| "bg_run (a # as) s = Option.bind (take_turn a s) (bg_run as)"

lemma owner_turn_step: "owner_turn s = Some s' \<Longrightarrow> bg_step b s s'"
  by (auto intro: bg_step.intros split: owner_pc.splits)

lemma bg_step_test: "thr s = Running \<Longrightarrow> pc (ev s) = AtTest \<Longrightarrow> bg_step b s (s\<lparr>ev := Loop_test t (ev s)\<rparr>)"
  by (rule bg_step.run [OF _ _ loop_step.test]) (auto simp: Loop_test_def)

lemma thread_turn_step: "thread_turn s = Some s' \<Longrightarrow> bg_step b s s'"
  by (auto split: thread_pc.splits loop_pc.splits intro: bg_step.intros bg_step_test)

lemma take_turn_step: "take_turn a s = Some s' \<Longrightarrow> a = Other_exit \<longrightarrow> b \<Longrightarrow> bg_step b s s'"
  by (cases a) (auto intro: owner_turn_step thread_turn_step bg_step.run [OF _ _ loop_step.exit_other]
      simp del: owner_turn.simps thread_turn.simps split: if_splits)

lemma bg_run_steps: "bg_run as s = Some s' \<Longrightarrow> Other_exit \<in> set as \<longrightarrow> b \<Longrightarrow> (bg_step b)\<^sup>*\<^sup>* s s'"
proof (induction as arbitrary: s)
  case (Cons a as)
  then obtain y where y: "take_turn a s = Some y" and r: "bg_run as y = Some s'"
    by (auto simp: bind_eq_Some_conv simp del: take_turn.simps)
  have "bg_step b s y"
    using Cons.prems by (intro take_turn_step [OF y]) auto
  then show ?case
    using Cons.IH [OF r] Cons.prems(2) by (auto intro: converse_rtranclp_into_rtranclp)
qed simp

definition bg_after :: "turn list \<Rightarrow> nat bg_loop" where
  "bg_after as = the (bg_run as BGEventLoop_new)"

lemma bg_after_reach:
  assumes "(bg_run as BGEventLoop_new :: nat bg_loop option) \<noteq> None" and "Other_exit \<in> set as \<longrightarrow> b"
  shows "bg_reach b (bg_after as)"
  using bg_steps_reach [OF bg_run_steps [OF _ assms(2)] bg_reach.new] assms(1) by (auto simp: bg_after_def)

lemmas bg_eval = bg_after_def BGEventLoop_new_def bg_op_defs loop_op_defs

text \<open>The schedules of the examples: \<^verbatim>\<open>Loop()\<close> has returned and the loop is in its first \<^verbatim>\<open>Poll\<close>; the object is
  destroyed before the new thread has entered the loop; the same a moment later, and the thread finishes before
  \<^verbatim>\<open>Exit\<close> wakes it; another thread asks for the exit before \<^verbatim>\<open>Loop()\<close> returned, before the destructor, and in
  the middle of it.\<close>

definition served :: "turn list" where
  "served = [Owner, Thread, Owner, Owner, Thread, Thread]"

definition hasty :: "turn list" where
  "hasty = [Owner, Thread, Owner, Owner, Owner, Owner, Owner, Owner]"

definition overtaken :: "turn list" where
  "overtaken = [Owner, Thread, Owner, Owner, Thread, Owner, Owner, Owner, Thread, Thread, Thread, Thread, Owner]"

definition other_exit_run :: "turn list \<Rightarrow> turn list" where
  "other_exit_run as = [Owner, Thread, Owner] @ as @ [Other_exit, Thread, Thread, Thread, Owner]"

section \<open>Properties\<close>

text \<open>C21: As long as only the destructor asks the loop to exit, \<^verbatim>\<open>Loop()\<close> returns a pointer to a loop that is
  alive, whatever the two threads' order; the destructor neither finds a null pointer nor leaves the thread
  unjoined; when it is done, the thread has ended and the loop is gone; and when it waits for the thread while
  the loop is in \<^verbatim>\<open>Poll\<close>, then either the loop was asked to exit and a wake-up is in its socket or owed, or
  the request came before the loop was entered.\<close>
theorem bg_loop_lifetime:
  assumes "bg_reach False s"
  shows "owner s \<noteq> Terminated \<and> owner s \<noteq> Crashed NullPointer \<and> owner s \<noteq> Returned False \<and>
    (owner s \<in> {Leaving, Returned True} \<longrightarrow> ptr s \<and> ev_alive s) \<and>
    (owner s = Destroyed \<longrightarrow> thr s = Finished \<and> \<not> ev_alive s) \<and>
    (owner s = Joining \<and> thr s = Running \<and> pc (ev s) = Polling t \<and> \<not> early s \<longrightarrow>
       exit_flag (ev s) \<and> 0 < wakeup (ev s) + pending (ev s))"
proof -
  note ok = bg_reach_ok [OF assms]
  have join: "exit_flag (ev s) \<and> 0 < wakeup (ev s) + pending (ev s)"
    if "owner s = Joining" "thr s = Running" "pc (ev s) = Polling t" "\<not> early s"
    using bg_ok_join [OF ok that(1,2,4)] loop_ok_polling [OF _ that(3)] by simp
  show ?thesis using bg_ok_owner [OF ok] bg_ok_done [OF ok] join by simp
qed

theorem bg_loop_lifetime_witness:
  "owner (bg_after served) = Returned True \<and> ev_alive (bg_after served)"
proof -
  have "bg_reach False (bg_after served)"
    by (rule bg_after_reach) (simp_all add: bg_eval served_def)
  from bg_loop_lifetime [OF this] show ?thesis
    by (simp add: bg_eval served_def)
qed

text \<open>C22: An exit that comes before the thread has entered the loop is lost: from then on the destructor waits
  for the thread for ever, because in no continuation does the thread leave the loop or the owner get past the
  join.\<close>
theorem hasty_destructor_hangs:
  assumes "bg_reach False s" and "early s" and "(bg_step False)\<^sup>*\<^sup>* s s'"
  shows "thr s' \<notin> {Ended, Cleared, Finished} \<and> owner s' \<in> {DtorWake, Joining}"
  using bg_steps_early [OF assms(3) bg_reach_ok [OF assms(1)] assms(2)] bg_ok_early by blast

text \<open>Such a run, with no user of the loop at all.\<close>

lemma hasty_reach: "bg_reach False (bg_after hasty)" "early (bg_after hasty)" "owner (bg_after hasty) = Joining"
proof -
  show "bg_reach False (bg_after hasty)"
    by (rule bg_after_reach) (simp_all add: bg_eval hasty_def)
qed (simp_all add: bg_eval hasty_def)

theorem hasty_destructor_hangs_witness:
  "owner (bg_after hasty) = Joining \<and> thr (ThreadFunc_enter (bg_after hasty)) \<notin> {Ended, Cleared, Finished}"
proof -
  have "bg_step False (bg_after hasty) (ThreadFunc_enter (bg_after hasty))"
    by (rule bg_step.enter) (simp add: bg_eval hasty_def)
  then have "(bg_step False)\<^sup>*\<^sup>* (bg_after hasty) (ThreadFunc_enter (bg_after hasty))" by (rule r_into_rtranclp)
  from hasty_destructor_hangs [OF hasty_reach(1,2) this] hasty_reach(3) show ?thesis by blast
qed

text \<open>When somebody else asks the loop to exit, or the loop's thread is quick, the unguarded reads of the
  pointer go wrong: \<^verbatim>\<open>Loop()\<close> may return null; the destructor may find a null pointer, skip the join and end
  the program with the thread's handle; it may find it null between its test and its call; and \<^verbatim>\<open>Exit\<close> itself
  may wake a loop that is already destroyed, for its first statement lets the loop's thread finish before
  the second.\<close>
theorem bg_loop_races:
  "(\<exists>s :: nat bg_loop. bg_reach True s \<and> owner s = Returned False) \<and>
   (\<exists>s :: nat bg_loop. bg_reach True s \<and> owner s = Terminated \<and> thr s = Cleared) \<and>
   (\<exists>s :: nat bg_loop. bg_reach True s \<and> owner s = Crashed NullPointer) \<and>
   (\<exists>s :: nat bg_loop. bg_reach False s \<and> owner s = Crashed UseAfterFree)"
proof (intro conjI exI)
  show "bg_reach True (bg_after (other_exit_run [Thread]))"
    by (rule bg_after_reach) (simp_all add: bg_eval other_exit_run_def)
  show "owner (bg_after (other_exit_run [Thread])) = Returned False"
    by (simp add: bg_eval other_exit_run_def)
  show "bg_reach True (bg_after (other_exit_run [Owner, Thread]))"
    by (rule bg_after_reach) (simp_all add: bg_eval other_exit_run_def)
  show "owner (bg_after (other_exit_run [Owner, Thread])) = Terminated"
    "thr (bg_after (other_exit_run [Owner, Thread])) = Cleared"
    by (simp_all add: bg_eval other_exit_run_def)
  show "bg_reach True (bg_after (other_exit_run [Owner, Owner, Thread]))"
    by (rule bg_after_reach) (simp_all add: bg_eval other_exit_run_def)
  show "owner (bg_after (other_exit_run [Owner, Owner, Thread])) = Crashed NullPointer"
    by (simp add: bg_eval other_exit_run_def)
  show "bg_reach False (bg_after overtaken)"
    by (rule bg_after_reach) (simp_all add: bg_eval overtaken_def)
  show "owner (bg_after overtaken) = Crashed UseAfterFree"
    by (simp add: bg_eval overtaken_def)
qed

end
