(* ===== verification/Loop_Objects.thy ===== *)
theory Loop_Objects
  imports Event_Loop
begin

text \<open>
  Objects that live on a loop and watch a descriptor of their own for reading: the loop itself, whose constructor
  registers the wake-up socket (\<^verbatim>\<open>voyager/core/eventloop.cc\<close>, with the rule of one loop per thread), and the timer of
  \<^verbatim>\<open>voyager/core/newtimer.cc\<close>, which reads a \<^verbatim>\<open>timerfd\<close>. Their constructors and destructors go through the
  loop's poller, whichever it is.
\<close>

section \<open>A dispatch watched for reading\<close>

definition reader_open :: "bool \<Rightarrow> int \<Rightarrow> event_poller_object poller_op" where
  "reader_open in_loop f a = (\<lambda>(ds, p).
     EnableRead (UpdateDispatch in_loop) a (ds(a \<mapsto> (Dispatch_new f)\<lparr>callbacks := {ReadCb}\<rparr>), p))"

definition reader_close :: "bool \<Rightarrow> event_poller_object poller_op" where
  "reader_close in_loop a s =
     rbind (DisableAll (UpdateDispatch in_loop) a s) (\<lambda>s.
     rbind (RemoveEvents (RemoveDispatch in_loop) a s) (\<lambda>(ds, p).
     rbind (Dispatch_delete a ds) (\<lambda>ds. Inr (ds, p))))"

text \<open>What an open reader is, in a poller's state.\<close>

definition reader_at :: "addr \<Rightarrow> int \<Rightarrow> dstore \<times> event_poller_object \<Rightarrow> bool" where
  "reader_at a f s \<longleftrightarrow> loop_poller_ok s \<and> loop_registered (snd s) f = Some a \<and>
     (\<exists>d. fst s a = Some d \<and> fd d = f \<and> IsReading d \<and> \<not> event_handling d)"

lemma same_but_index_at:
  assumes "same_but_index ds' (ds(a \<mapsto> d))"
  obtains i where "ds' a = Some (d\<lparr>index := i\<rparr>)"
proof -
  have "map_option (\<lambda>d. d\<lparr>index := 0\<rparr>) (ds' a) = Some (d\<lparr>index := 0\<rparr>)"
    using assms by (simp add: same_but_index_def)
  then obtain e where e: "ds' a = Some e" "e\<lparr>index := 0\<rparr> = d\<lparr>index := 0\<rparr>" by auto
  from e(2) have "e = d\<lparr>index := index e\<rparr>" by (metis dispatch.surjective dispatch.update_convs(4))
  with e(1) that show thesis by metis
qed

text \<open>Only the select poller refuses a new dispatch, for a descriptor that does not fit into its sets.\<close>

lemma new_dispatch_refused:
  "loop_refusal p (Dispatch_new f) = (if (\<exists>q. p = SelectPoller q) \<and> FD_SETSIZE \<le> f then Some OutOfBounds else None)"
  by (cases p) (simp_all add: loop_refusal_def select_refusal_def poll_refusal_def no_refusal_def Dispatch_new_def)

lemma reader_change:
  assumes "0 \<le> f"
  shows "dispatch_change (Dispatch_new f) (EnableRead_d ((Dispatch_new f)\<lparr>callbacks := {ReadCb}\<rparr>))"
  using assms by (simp add: dispatch_change_def EnableRead_d_def dispatch_ok_def IsReading_def IsWriting_def
      Dispatch_new_def mask_of_def event_masks)

lemma reader_open_refused:
  assumes "loop_poller_ok (ds, p)" and "ds a = None" and "0 \<le> f" and "loop_registered p f = None"
    and "loop_refusal p (Dispatch_new f) = Some e"
  shows "reader_open True f a (ds, p) = Inl e"
proof -
  have "UpdateDispatch True a ((ds(a \<mapsto> Dispatch_new f))(a \<mapsto> EnableRead_d ((Dispatch_new f)\<lparr>callbacks := {ReadCb}\<rparr>)), p) = Inl e"
    by (rule loop_poller.refusal_law [OF loop_poller.create_law [OF assms(1-3)] _ reader_change [OF assms(3)] _ _ assms(5)])
      (simp_all add: assms(4) Dispatch_new_def [THEN arg_cong [where f = fd], simplified])
  then show ?thesis by (simp add: reader_open_def EnableRead_def on_dispatch_def)
qed

lemma reader_open_ok:
  assumes "loop_poller_ok (ds, p)" and "ds a = None" and "0 \<le> f" and "loop_registered p f = None"
    and "loop_refusal p (Dispatch_new f) = None"
  shows "\<exists>s'. reader_open True f a (ds, p) = Inr s' \<and> reader_at a f s' \<and>
    loop_registered (snd s') = (loop_registered p)(f \<mapsto> a) \<and> loop_watched (snd s') = (loop_watched p)(f := (True, False))"
proof -
  let ?d = "Dispatch_new f" and ?d' = "EnableRead_d ((Dispatch_new f)\<lparr>callbacks := {ReadCb}\<rparr>)"
  have w: "watch_of ?d' = (True, False)" and fld: "fd ?d' = f" "index ?d = -1" "\<not> event_handling ?d'"
    by (simp_all add: EnableRead_d_def Dispatch_new_def IsReading_def IsWriting_def event_masks)
  note ch = reader_change [OF assms(3)]
  have inv: "loop_poller_ok (ds(a \<mapsto> ?d), p)" by (rule loop_poller.create_law [OF assms(1-3)])
  have fd: "fd ?d = f" by (simp add: Dispatch_new_def)
  have upd: "updatable loop_registered loop_refusal p a ?d ?d'"
    using assms(4,5) fld w dispatch_change_ok [OF ch] IsNoneEvent_mask [of ?d'] by (simp add: updatable_def fd)
  from loop_poller.update_law [OF inv _ ch upd] obtain ds' p' where
    u: "UpdateDispatch True a (ds(a \<mapsto> ?d'), p) = Inr (ds', p')" "loop_poller_ok (ds', p')"
      "loop_registered p' = (loop_registered p)(f \<mapsto> a)" "loop_watched p' = (loop_watched p)(f := watch_of ?d')"
      "same_but_index ds' (ds(a \<mapsto> ?d'))"
    by (auto simp: fd)
  obtain i where "ds' a = Some (?d'\<lparr>index := i\<rparr>)" by (rule same_but_index_at [OF u(5)])
  with u w fld have "reader_at a f (ds', p')" by (simp add: reader_at_def)
  with u w show ?thesis by (auto simp: reader_open_def EnableRead_def on_dispatch_def)
qed

lemma reader_close_ok:
  assumes "reader_at a f (ds, p)"
  shows "\<exists>s'. reader_close True a (ds, p) = Inr s' \<and> loop_poller_ok s' \<and> fst s' a = None \<and>
    loop_registered (snd s') = (loop_registered p)(f := None) \<and> loop_watched (snd s') = (loop_watched p)(f := (False, False))"
proof -
  obtain d where d: "loop_poller_ok (ds, p)" "loop_registered p f = Some a" "ds a = Some d" "fd d = f" "IsReading d" "\<not> event_handling d"
    using assms by (auto simp: reader_at_def)
  note ch = dispatch_changes(9,10) [OF loop_poller.stored_ok [OF d(1,3)]]
  have r: "IsReading d \<or> add_write d" using d(5) by simp
  have u: "updatable loop_registered loop_refusal p a d (DisableAll_d d)" using d by (simp add: updatable_def)
  obtain ds1 p1 where 1: "UpdateDispatch True a (ds(a \<mapsto> DisableAll_d d), p) = Inr (ds1, p1)" "loop_poller_ok (ds1, p1)"
      "loop_registered p1 = (loop_registered p)(f \<mapsto> a)" "loop_watched p1 = (loop_watched p)(f := (False, False))"
      "same_but_index ds1 (ds(a \<mapsto> DisableAll_d d))"
    using loop_poller.update_law [OF d(1,3) ch(1) [OF r] u] d(4) ch(2) by auto
  obtain i where i: "ds1 a = Some ((DisableAll_d d)\<lparr>index := i\<rparr>)" by (rule same_but_index_at [OF 1(5)])
  have fld: "fd (DisableAll_d d) = f" "IsNoneEvent (DisableAll_d d)" "\<not> add_write (DisableAll_d d)" "\<not> event_handling (DisableAll_d d)"
    using d by (simp_all add: DisableAll_d_def IsNoneEvent_def Let_def)
  obtain ds2 p2 where 2: "RemoveDispatch True a (ds1, p1) = Inr (ds2, p2)" "loop_poller_ok (ds2, p2)"
      "loop_registered p2 = (loop_registered p)(f := None)" "loop_watched p2 = loop_watched p1" "same_but_index ds2 ds1"
    using loop_poller.remove_law [OF 1(2) i] 1(3) fld by auto
  have "same_but_index ds2 (ds1(a \<mapsto> (DisableAll_d d)\<lparr>index := i\<rparr>))" using 2(5) i by (simp add: fun_upd_idem)
  then obtain j where j: "ds2 a = Some ((DisableAll_d d)\<lparr>index := i, index := j\<rparr>)" by (rule same_but_index_at)
  have "loop_poller_ok (ds2(a := None), p2)"
    by (rule loop_poller.delete_law [OF 2(2) j]) (simp add: fld 2(3))
  then show ?thesis
    using d r 1 2 i j fld
    by (simp add: reader_close_def DisableAll_def RemoveEvents_def on_dispatch_def Dispatch_delete_def)
qed

lemma reader_close_other_thread: "reader_at a f s \<Longrightarrow> reader_close False a s = Inl Fatal"
  by (cases s) (auto simp: reader_at_def reader_close_def DisableAll_def on_dispatch_def UpdateDispatch_def)

section \<open>One loop per thread\<close>

text \<open>\<open>runloop\<close> is the thread-local pointer, by thread; \<open>sock\<close> is the reading end of the socket pair, when there
  is one.\<close>

type_synonym run_loops = "nat \<rightharpoonup> nat"

definition EventLoop_ctor ::
  "bool \<Rightarrow> PollType \<Rightarrow> nat \<Rightarrow> nat \<Rightarrow> int option \<Rightarrow> addr \<Rightarrow> run_loops \<Rightarrow> (run_loops \<times> dstore \<times> event_poller_object) res" where
  "EventLoop_ctor linux type tid this sock a runloop =
     (case sock of None \<Rightarrow> Inl Fatal
      | Some f \<Rightarrow> guard Fatal (runloop tid = None)
          (rbind (reader_open True f a (Map.empty, CreatePoller linux type)) (\<lambda>s. Inr (runloop(tid \<mapsto> this), s))))"

definition EventLoop_dtor ::
  "nat \<Rightarrow> nat \<Rightarrow> addr \<Rightarrow> run_loops \<times> dstore \<times> event_poller_object \<Rightarrow> (run_loops \<times> dstore \<times> event_poller_object) res" where
  "EventLoop_dtor current tid a = (\<lambda>(runloop, s).
     rbind (reader_close (current = tid) a s) (\<lambda>s. Inr (runloop(current := None), s)))"

definition RunLoop :: "nat \<Rightarrow> run_loops \<Rightarrow> nat option" where
  "RunLoop tid runloop = runloop tid"

lemma new_poller_empty: "loop_registered (CreatePoller linux type) f = None" "loop_watched (CreatePoller linux type) = (\<lambda>f. (False, False))"
proof -
  show r: "loop_registered (CreatePoller linux type) f = None" for f
    by (cases type) (simp_all add: loop_registered_def EventSelect_new_def EventPoll_new_def EventEpoll_new_def EventKqueue_new_def)
  show "loop_watched (CreatePoller linux type) = (\<lambda>f. (False, False))"
    using loop_poller.unregistered_watch [OF loop_poller.initial_law r] by blast
qed

lemma new_poller_refuses:
  "loop_refusal (CreatePoller linux type) (Dispatch_new f) = (if type = kSelect \<and> FD_SETSIZE \<le> f then Some OutOfBounds else None)"
  by (cases type) (simp_all add: new_dispatch_refused)



section \<open>The timer descriptor\<close>

text \<open>\<^verbatim>\<open>struct itimerspec\<close>, what \<^verbatim>\<open>timerfd_settime\<close> does with it, and how many times a timer set so has expired
  \<open>n\<close> nanoseconds later: a zero value disarms, a zero interval makes it expire once.\<close>

record itimerspec =
  interval_sec :: u64
  interval_nsec :: u64
  value_sec :: u64
  value_nsec :: u64

definition kNonasSecondsPerSecond :: u64 where "kNonasSecondsPerSecond = 1000 * 1000 * 1000"

definition spec_valid :: "itimerspec \<Rightarrow> bool" where
  "spec_valid k \<longleftrightarrow> 0 \<le> sint (interval_sec k) \<and> 0 \<le> sint (interval_nsec k) \<and> sint (interval_nsec k) < 10 ^ 9 \<and>
     0 \<le> sint (value_sec k) \<and> 0 \<le> sint (value_nsec k) \<and> sint (value_nsec k) < 10 ^ 9"

definition timerfd_settime :: "bool \<Rightarrow> itimerspec \<Rightarrow> itimerspec \<Rightarrow> int \<times> itimerspec" where
  "timerfd_settime fails new_value old = (if fails \<or> \<not> spec_valid new_value then (-1, old) else (0, new_value))"

definition expirations :: "itimerspec \<Rightarrow> nat \<Rightarrow> nat" where
  "expirations k n =
     (let v = unat (value_sec k) * 10 ^ 9 + unat (value_nsec k); i = unat (interval_sec k) * 10 ^ 9 + unat (interval_nsec k)
      in if v = 0 \<or> n < v then 0 else if i = 0 then 1 else (n - v) div i + 1)"

record timer_object =
  timerfd :: int
  repeat_flag :: bool
  timer_dispatch :: addr
  timerproc_cb :: bool
  timer_spec :: itimerspec

definition NewTimer_new ::
  "bool \<Rightarrow> int option \<Rightarrow> addr \<Rightarrow> bool \<Rightarrow> dstore \<times> event_poller_object \<Rightarrow> (timer_object \<times> dstore \<times> event_poller_object) res" where
  "NewTimer_new in_loop created a cb s =
     (case created of None \<Rightarrow> Inl Fatal
      | Some f \<Rightarrow> rbind (reader_open in_loop f a s) (\<lambda>s.
          Inr (\<lparr>timerfd = f, repeat_flag = False, timer_dispatch = a, timerproc_cb = cb,
            timer_spec = \<lparr>interval_sec = 0, interval_nsec = 0, value_sec = 0, value_nsec = 0\<rparr>\<rparr>, s)))"

definition NewTimer_delete ::
  "bool \<Rightarrow> timer_object \<Rightarrow> dstore \<times> event_poller_object \<Rightarrow> (dstore \<times> event_poller_object) res" where
  "NewTimer_delete in_loop t s = reader_close in_loop (timer_dispatch t) s"

definition itimerspec_of :: "u64 \<Rightarrow> u64 \<Rightarrow> itimerspec" where
  "itimerspec_of nanos_value nanos_interval =
     \<lparr>interval_sec = nanos_interval div kNonasSecondsPerSecond, interval_nsec = nanos_interval mod kNonasSecondsPerSecond,
      value_sec = nanos_value div kNonasSecondsPerSecond, value_nsec = nanos_value mod kNonasSecondsPerSecond\<rparr>"

definition SetTimeInLoop :: "bool \<Rightarrow> bool \<Rightarrow> u64 \<Rightarrow> u64 \<Rightarrow> timer_object \<Rightarrow> timer_object res" where
  "SetTimeInLoop in_loop fails nanos_value nanos_interval t =
     guard Fatal in_loop
       (let t = t\<lparr>timer_spec := snd (timerfd_settime fails (itimerspec_of nanos_value nanos_interval) (timer_spec t))\<rparr>
        in Inr (if nanos_interval \<noteq> 0 then t\<lparr>repeat_flag := True\<rparr> else t))"

text \<open>\<^verbatim>\<open>HandleRead\<close>: whether an error is logged and how often the callback runs; \<open>got\<close> is what \<^verbatim>\<open>read\<close> returned.\<close>

definition NewTimer_HandleRead :: "bool \<Rightarrow> int \<Rightarrow> timer_object \<Rightarrow> (bool \<times> nat) res" where
  "NewTimer_HandleRead in_loop got t = guard Fatal in_loop (Inr (got \<noteq> 8, if timerproc_cb t then 1 else 0))"

definition IsRepeat :: "timer_object \<Rightarrow> bool" where
  "IsRepeat t = repeat_flag t"

lemma sint_small:
  fixes x :: u64
  assumes "unat x < 2 ^ 63"
  shows "sint x = int (unat x)"
proof -
  have "uint x < 2 ^ 63" using assms by (simp only: unat_eq_nat_uint nat_less_iff uint_ge_0) simp
  moreover have "- (2 ^ 63) \<le> uint x" by (rule order_trans [OF _ uint_ge_0]) simp
  ultimately have "signed_take_bit 63 (uint x) = uint x" by (intro signed_take_bit_int_eq_self)
  moreover have "sint x = signed_take_bit 63 (uint x)" by (simp only: sint_uint) simp
  ultimately show ?thesis by (simp only: uint_nat)
qed

lemma split_nanos:
  fixes n :: u64
  shows "unat (n div kNonasSecondsPerSecond) * 10 ^ 9 + unat (n mod kNonasSecondsPerSecond) = unat n"
    "0 \<le> sint (n div kNonasSecondsPerSecond)" "0 \<le> sint (n mod kNonasSecondsPerSecond)" "sint (n mod kNonasSecondsPerSecond) < 10 ^ 9"
proof -
  have k: "unat kNonasSecondsPerSecond = 10 ^ 9" by (simp add: kNonasSecondsPerSecond_def)
  show "unat (n div kNonasSecondsPerSecond) * 10 ^ 9 + unat (n mod kNonasSecondsPerSecond) = unat n"
    by (simp only: unat_div unat_mod k div_mult_mod_eq)
  have "unat n < 2 ^ 64" using unsigned_less [of n, where ?'a = nat] by simp
  then have q: "unat (n div kNonasSecondsPerSecond) < 2 ^ 63" and r: "unat (n mod kNonasSecondsPerSecond) < 10 ^ 9"
    by (simp_all add: unat_div unat_mod k less_mult_imp_div_less)
  have s: "0 \<le> sint x" "unat x < 10 ^ 9 \<Longrightarrow> sint x < 10 ^ 9" if "unat x < 2 ^ 63" for x :: u64
    unfolding sint_small [OF that] by (rule of_nat_0_le_iff) (use of_nat_less_iff [of "unat x" "10 ^ 9", where ?'a = int] in simp)
  show "0 \<le> sint (n div kNonasSecondsPerSecond)" by (rule s(1) [OF q])
  have r': "unat (n mod kNonasSecondsPerSecond) < 2 ^ 63" using r by simp
  show "0 \<le> sint (n mod kNonasSecondsPerSecond)" "sint (n mod kNonasSecondsPerSecond) < 10 ^ 9"
    by (rule s(1) [OF r'], rule s(2) [OF r' r])
qed

lemma itimerspec_of_valid: "spec_valid (itimerspec_of v i)"
  using split_nanos(2-4) by (simp add: spec_valid_def itimerspec_of_def)

lemma itimerspec_of_expirations:
  "expirations (itimerspec_of v i) n =
     (if unat v = 0 \<or> n < unat v then 0 else if unat i = 0 then 1 else (n - unat v) div unat i + 1)"
  unfolding expirations_def itimerspec_of_def Let_def itimerspec.simps split_nanos(1) by simp

text \<open>Setting a timer gives the kernel the nanoseconds that were asked for, split into seconds and a remainder
  that it never rejects: when the call does not fail for another reason, the number of expirations after any time
  is that of a first one after \<open>v\<close> and the others every \<open>i\<close> nanoseconds. A zero \<open>v\<close> disarms the timer also when
  \<open>i\<close> is not zero; and \<^verbatim>\<open>IsRepeat\<close>, once true, stays true whatever is set afterwards.\<close>
theorem timer_set_exactly:
  "\<exists>t'. SetTimeInLoop True fails v i t = Inr t' \<and>
     (IsRepeat t' \<longleftrightarrow> IsRepeat t \<or> i \<noteq> 0) \<and>
     expirations (timer_spec t') n =
       (if fails then expirations (timer_spec t) n
        else if v = 0 \<or> n < unat v then 0
        else if i = 0 then 1 else (n - unat v) div unat i + 1)"
  by (cases "i = 0")
    (simp_all add: SetTimeInLoop_def timerfd_settime_def IsRepeat_def itimerspec_of_valid itimerspec_of_expirations unat_eq_zero)

text \<open>The life of a timer on its loop: on a poller that takes its descriptor it is watched for
  reading while it exists, and leaves no trace.\<close>

theorem timer_leaves_no_trace:
  assumes "loop_poller_ok (ds, p)" and "ds a = None" and "0 \<le> f" and "loop_registered p f = None"
    and "loop_refusal p (Dispatch_new f) = None"
  shows "\<exists>t s s'. NewTimer_new True (Some f) a cb (ds, p) = Inr (t, s) \<and> loop_watched (snd s) f = (True, False) \<and>
    NewTimer_delete True t s = Inr s' \<and> loop_poller_ok s' \<and> loop_watched (snd s') = loop_watched p \<and>
    loop_registered (snd s') = loop_registered p"
proof -
  obtain s where s: "reader_open True f a (ds, p) = Inr s" "reader_at a f s"
      "loop_registered (snd s) = (loop_registered p)(f \<mapsto> a)" "loop_watched (snd s) = (loop_watched p)(f := (True, False))"
    using reader_open_ok [OF assms] by blast
  obtain s' where s': "reader_close True a s = Inr s'" "loop_poller_ok s'"
      "loop_registered (snd s') = (loop_registered (snd s))(f := None)" "loop_watched (snd s') = (loop_watched (snd s))(f := (False, False))"
    using reader_close_ok [of a f "fst s" "snd s"] s(2) by auto
  have "loop_watched p f = (False, False)" by (rule loop_poller.unregistered_watch [OF assms(1,4)])
  then have "loop_watched (snd s') = loop_watched p" "loop_registered (snd s') = loop_registered p"
    using s(3,4) s'(3,4) assms(4) by (auto simp: fun_eq_iff)
  moreover obtain t where "NewTimer_new True (Some f) a cb (ds, p) = Inr (t, s)" "timer_dispatch t = a"
    using s(1) by (simp add: NewTimer_new_def)
  moreover have "loop_watched (snd s) f = (True, False)" using s(4) by simp
  ultimately show ?thesis
    using s'(1,2) unfolding NewTimer_delete_def by metis
qed

section \<open>Setting a timer from another thread\<close>

text \<open>\<^verbatim>\<open>SetTime\<close> hands the loop a functor that holds a plain pointer to the timer.\<close>

type_synonym set_time = "addr \<times> u64 \<times> u64"

definition run_set_time :: "set_time \<Rightarrow> (addr \<rightharpoonup> timer_object) \<Rightarrow> (addr \<rightharpoonup> timer_object) res" where
  "run_set_time = (\<lambda>(a, v, i) ts. case ts a of None \<Rightarrow> Inl UseAfterFree
     | Some t \<Rightarrow> rbind (SetTimeInLoop True False v i t) (\<lambda>t. Inr (ts(a \<mapsto> t))))"

definition SetTime ::
  "bool \<Rightarrow> addr \<Rightarrow> u64 \<Rightarrow> u64 \<Rightarrow> (addr \<rightharpoonup> timer_object) \<times> set_time event_loop \<Rightarrow> ((addr \<rightharpoonup> timer_object) \<times> set_time event_loop) res" where
  "SetTime in_loop a v i = (\<lambda>(ts, ev).
     (case RunInLoop in_loop (a, v, i) ev of (at_once, ev) \<Rightarrow>
        if at_once then rbind (run_set_time (a, v, i) ts) (\<lambda>ts. Inr (ts, ev)) else Inr (ts, ev)))"

fun run_set_times :: "set_time list \<Rightarrow> (addr \<rightharpoonup> timer_object) \<Rightarrow> (addr \<rightharpoonup> timer_object) res" where
  "run_set_times [] ts = Inr ts"
| "run_set_times (f # fs) ts = rbind (run_set_time f ts) (run_set_times fs)"

text \<open>From the loop's thread the timer is set at once; from another thread it is set when the loop runs its
  queue, and when the timer was deleted in between, the functor uses it nevertheless.\<close>

theorem set_time_needs_timer:
  assumes "ts a = Some t" and "funcs ev = []"
  shows "SetTime True a v i (ts, ev) = rbind (SetTimeInLoop True False v i t) (\<lambda>t. Inr (ts(a \<mapsto> t), ev)) \<and>
    (\<exists>ev'. SetTime False a v i (ts, ev) = Inr (ts, ev') \<and> pending ev' = pending ev + 1 \<and>
      run_set_times (funcs ev') ts = rbind (SetTimeInLoop True False v i t) (\<lambda>t. Inr (ts(a \<mapsto> t))) \<and>
      run_set_times (funcs ev') (ts(a := None)) = Inl UseAfterFree)"
  using assms by (auto simp: SetTime_def RunInLoop_def run_set_time_def QueueInLoop_other_def push_func_def SetTimeInLoop_def Let_def)

section \<open>The dispatches of a loop\<close>

text \<open>The objects of a loop keep their types, whichever poller it has. In every state that the operations on
  dispatches reach, each dispatch has a descriptor and one of the four event masks, and the poller's map leads only
  to dispatches that exist and have the descriptor it maps. A further operation faults exactly when it enables an
  unregistered dispatch that the poller refuses: for the poll poller one that was removed before, for the select
  poller one with a descriptor that is too large.\<close>
theorem loop_dispatches_well_formed:
  assumes "dispatch_reach (UpdateDispatch True) (RemoveDispatch True) loop_registered (CreatePoller linux type) (ds, p)"
  shows "(\<forall>a d. ds a = Some d \<longrightarrow> 0 \<le> fd d \<and> events d \<in> {0, kReadEvent, kWriteEvent, kReadEvent OR kWriteEvent} \<and>
      (IsWriting d \<longrightarrow> add_write d)) \<and>
    (\<forall>f a. loop_registered p f = Some a \<longrightarrow> (\<exists>d. ds a = Some d \<and> fd d = f)) \<and>
    (\<forall>r. dispatch_step (UpdateDispatch True) (RemoveDispatch True) loop_registered (ds, p) r \<longrightarrow> (\<exists>s'. r = Inr s') \<or>
      (\<exists>a d e. ds a = Some d \<and> loop_registered p (fd d) = None \<and> loop_refusal p d = Some e \<and> r = Inl e \<and>
         r \<in> {EnableRead (UpdateDispatch True) a (ds, p), EnableWrite (UpdateDispatch True) a (ds, p)}))"
proof -
  note inv = loop_poller.dispatch_reach_inv [OF assms]
  have "0 \<le> fd d \<and> events d \<in> {0, kReadEvent, kWriteEvent, kReadEvent OR kWriteEvent} \<and> (IsWriting d \<longrightarrow> add_write d)"
    if "ds a = Some d" for a d
    using loop_poller.stored_ok [OF inv that] by (auto simp: dispatch_ok_def mask_of_def split: if_splits)
  moreover have "\<exists>d. ds a = Some d \<and> fd d = f" if "loop_registered p f = Some a" for f a
    using loop_poller.registered_watch [OF inv that] by blast
  ultimately show ?thesis
    using loop_poller.step_faults_iff_refused(1) [OF assms] by blast
qed

end
