(* ===== verification/Text_Output.thy ===== *)
theory Text_Output
  imports Sock_Addr Slice_Status
begin

text \<open>
  What the library writes for people: \<^verbatim>\<open>voyager/util/stringprintf.cc\<close> (text of any length through a buffer of
  fixed size), \<^verbatim>\<open>voyager/util/timeops.cc\<close> (time stamps) and \<^verbatim>\<open>voyager/util/logging.cc\<close> (the logger, its handler
  and its level). What \<^verbatim>\<open>printf\<close> makes of a format and its arguments is a text, or nothing when it fails; what
  the uninitialised buffers hold, what the clock says and what \<^verbatim>\<open>localtime_r\<close> makes of it are parameters.
\<close>

section \<open>Formatted strings\<close>

definition kSpaceLength :: int where "kSpaceLength = 128"

text \<open>\<^verbatim>\<open>vsnprintf\<close>: the length of the whole text, cut to the buffer; an error, and a text longer than an
  \<^verbatim>\<open>int\<close> can count, give a negative number.\<close>

definition vsnprintf :: "string option \<Rightarrow> string \<Rightarrow> int \<times> string" where
  "vsnprintf fmt arr = (case fmt of None \<Rightarrow> (-1, arr)
     | Some s \<Rightarrow> if length s < 2 ^ 31 then snprintf s arr else (-1, arr))"

text \<open>\<open>None\<close> is the exception of \<^verbatim>\<open>new char[length]\<close> for a negative length, where \<^verbatim>\<open>result + 1\<close> has wrapped.\<close>

definition StringAppendV :: "string \<Rightarrow> (nat \<Rightarrow> string) \<Rightarrow> string option \<Rightarrow> string \<Rightarrow> string option" where
  "StringAppendV space heap fmt dst =
     (let (result, space) = vsnprintf fmt space in
      if result < kSpaceLength then
        if result \<ge> 0 then Some (dst @ take (nat result) space) else Some dst
      else
        let len = signed_take_bit 31 (result + 1) in
        if len < 0 then None
        else let (result, buf) = vsnprintf fmt (heap (nat len)) in
          if result \<ge> 0 \<and> result < len then Some (dst @ take (nat result) buf) else Some dst)"

text \<open>The three entries. An argument may point into the destination, so that what the format makes depends on
  what the destination holds when it is formatted; \<^verbatim>\<open>SStringPrintf\<close> has emptied it by then.\<close>

definition StringPrintf :: "string \<Rightarrow> (nat \<Rightarrow> string) \<Rightarrow> string option \<Rightarrow> string option" where
  "StringPrintf space heap fmt = StringAppendV space heap fmt []"

definition SStringPrintf :: "string \<Rightarrow> (nat \<Rightarrow> string) \<Rightarrow> (string \<Rightarrow> string option) \<Rightarrow> string \<Rightarrow> string option" where
  "SStringPrintf space heap fmt dst = StringAppendV space heap (fmt []) []"

definition StringAppendF :: "string \<Rightarrow> (nat \<Rightarrow> string) \<Rightarrow> (string \<Rightarrow> string option) \<Rightarrow> string \<Rightarrow> string option" where
  "StringAppendF space heap fmt dst = StringAppendV space heap (fmt dst) dst"

lemma take_put_str: "length s \<le> n \<Longrightarrow> take (length s) (put_str (take n s) arr) = s"
  by (simp add: put_str_eq)

lemma vsnprintf_Some:
  "length s < 2 ^ 31 \<Longrightarrow> arr \<noteq> [] \<Longrightarrow> vsnprintf (Some s) arr = (int (length s), put_str (take (length arr - 1) s) arr)"
  by (simp add: vsnprintf_def snprintf_def)

lemma StringAppendV_Some:
  assumes "length space = 128" and "\<And>n. length (heap n) = n" and "length s < 2 ^ 31"
  shows "StringAppendV space heap (Some s) dst = (if length s = 2 ^ 31 - 1 then None else Some (dst @ s))"
proof -
  have ne: "space \<noteq> []" using assms(1) by auto
  consider "length s < 128" | "128 \<le> length s" "length s < 2 ^ 31 - 1" | "length s = 2 ^ 31 - 1" using assms(3) by linarith
  then show ?thesis
  proof cases
    case 1
    then show ?thesis
      using assms(1,3) ne take_put_str [of s 127 space] by (simp add: StringAppendV_def vsnprintf_Some kSpaceLength_def)
  next
    case 2
    have len: "signed_take_bit 31 (int (length s) + 1) = int (length s) + 1"
      using 2 by (intro signed_take_bit_int_eq_self) simp_all
    have buf: "heap (nat (int (length s) + 1)) \<noteq> []" "length (heap (nat (int (length s) + 1))) = length s + 1"
      using assms(2) [of "nat (int (length s) + 1)"] by auto
    show ?thesis
      using 2 assms(3) ne buf take_put_str [of s "length s" "heap (nat (int (length s) + 1))"]
      by (simp add: StringAppendV_def vsnprintf_Some kSpaceLength_def Let_def len)
  next
    case 3
    then have "int (length s) + 1 = 2147483648" by simp
    then have len: "signed_take_bit 31 (int (length s) + 1) = - 2147483648" by simp
    show ?thesis
      using 3 assms(3) ne by (simp add: StringAppendV_def vsnprintf_Some kSpaceLength_def Let_def len)
  qed
qed

text \<open>C40: Formatting appends the whole text, however long, although it first tries a buffer of 128 characters:
  the second buffer fits. Nothing is appended when \<^verbatim>\<open>printf\<close> fails or when the text is longer than an \<^verbatim>\<open>int\<close>
  counts, without a word to the caller; and for the one length \<^verbatim>\<open>INT_MAX\<close> the size of the second buffer
  overflows.\<close>
theorem formatted_text_whole:
  assumes "length space = 128" and "\<And>n. length (heap n) = n"
  shows "StringAppendF space heap fmt dst = (case fmt dst of None \<Rightarrow> Some dst
     | Some s \<Rightarrow> if length s < 2 ^ 31 - 1 then Some (dst @ s) else if length s = 2 ^ 31 - 1 then None else Some dst) \<and>
   SStringPrintf space heap fmt dst = (case fmt [] of None \<Rightarrow> Some []
     | Some s \<Rightarrow> if length s < 2 ^ 31 - 1 then Some s else if length s = 2 ^ 31 - 1 then None else Some [])"
proof -
  have "StringAppendV space heap f d = (case f of None \<Rightarrow> Some d
     | Some s \<Rightarrow> if length s < 2 ^ 31 - 1 then Some (d @ s) else if length s = 2 ^ 31 - 1 then None else Some d)" for f d
  proof (cases f)
    case (Some s)
    show ?thesis
    proof (cases "length s < 2 ^ 31")
      case True
      then show ?thesis using StringAppendV_Some [OF assms True, of d] by (auto simp: Some)
    qed (simp add: Some StringAppendV_def vsnprintf_def kSpaceLength_def)
  qed (simp add: StringAppendV_def vsnprintf_def kSpaceLength_def)
  then show ?thesis
    by (auto simp: StringAppendF_def SStringPrintf_def split: option.split)
qed

theorem formatted_text_whole_witness:
  "StringAppendF (replicate 128 (CHR ''?'')) (\<lambda>n. replicate n (CHR ''?'')) (\<lambda>d. Some (d @ replicate 200 (CHR ''x''))) ''ab''
     = Some (''abab'' @ replicate 200 (CHR ''x''))"
  using formatted_text_whole [of "replicate 128 (CHR ''?'')" "\<lambda>n. replicate n (CHR ''?'')"
      "\<lambda>d. Some (d @ replicate 200 (CHR ''x''))" "''ab''"] by simp

section \<open>Time stamps\<close>

record tm =
  tm_year :: int
  tm_mon :: int
  tm_mday :: int
  tm_hour :: int
  tm_min :: int
  tm_sec :: int

definition NowMicros :: "u64 \<Rightarrow> u64 \<Rightarrow> u64" where
  "NowMicros tv_sec tv_usec = tv_sec * 1000000 + tv_usec"

text \<open>\<^verbatim>\<open>%d\<close>, and \<^verbatim>\<open>%0wd\<close>: the sign counts for the width.\<close>

definition print_signed :: "int \<Rightarrow> string" where
  "print_signed i = (if i < 0 then ''-'' else []) @ print_nat (nat \<bar>i\<bar>)"

definition print_padded :: "nat \<Rightarrow> int \<Rightarrow> string" where
  "print_padded w i = (if i < 0 then ''-'' else []) @ replicate (w - length (print_signed i)) (CHR ''0'') @ print_nat (nat \<bar>i\<bar>)"

definition timestamp_text :: "tm \<Rightarrow> int \<Rightarrow> string" where
  "timestamp_text t micros =
     print_padded 4 (tm_year t + 1900) @ ''/'' @ print_padded 2 (tm_mon t + 1) @ ''/'' @ print_padded 2 (tm_mday t) @ ''-'' @
     print_padded 2 (tm_hour t) @ '':'' @ print_padded 2 (tm_min t) @ '':'' @ print_padded 2 (tm_sec t) @ ''.'' @ print_padded 6 micros"

definition FormatTimestamp :: "(int \<Rightarrow> tm) \<Rightarrow> string \<Rightarrow> u64 \<Rightarrow> string" where
  "FormatTimestamp localtime buf micros =
     c_str (snd (snprintf (timestamp_text (localtime (uint (micros div 1000000))) (uint (micros mod 1000000))) buf))"

definition tm_ok :: "tm \<Rightarrow> bool" where
  "tm_ok t \<longleftrightarrow> -1900 \<le> tm_year t \<and> tm_year t < 8100 \<and> 0 \<le> tm_mon t \<and> tm_mon t \<le> 11 \<and> 1 \<le> tm_mday t \<and> tm_mday t \<le> 31 \<and>
     0 \<le> tm_hour t \<and> tm_hour t \<le> 23 \<and> 0 \<le> tm_min t \<and> tm_min t \<le> 59 \<and> 0 \<le> tm_sec t \<and> tm_sec t \<le> 60"

text \<open>The fields of a time stamp, and reading them from its fixed columns.\<close>

definition tm_fields :: "tm \<Rightarrow> int \<Rightarrow> int list" where
  "tm_fields t micros = [tm_year t + 1900, tm_mon t + 1, tm_mday t, tm_hour t, tm_min t, tm_sec t, micros]"

definition read_timestamp :: "string \<Rightarrow> int list" where
  "read_timestamp s = map (\<lambda>(i, j). decimal_value (segment i j s)) [(0, 4), (5, 7), (8, 10), (11, 13), (14, 16), (17, 19), (20, 26)]"

lemma decimal_value_zeros [simp]: "decimal_value (replicate n (CHR ''0'') @ s) = decimal_value s"
proof -
  have "foldl (\<lambda>v c. 10 * v + digit_value c) 0 (replicate n (CHR ''0'')) = 0"
    by (induction n) (simp_all add: digit_value_def nat_of_def)
  then show ?thesis by (simp add: decimal_value_def)
qed

lemma print_padded_field:
  assumes "0 < w" and "0 \<le> i" and "i < 10 ^ w"
  shows "length (print_padded w i) = w" "decimal_value (print_padded w i) = i" "\<forall>c \<in> set (print_padded w i). isdigit c"
proof -
  have "nat i < 10 ^ w" using assms by (simp add: nat_less_iff)
  then have "length (print_nat (nat i)) \<le> w" using assms(1) by (simp add: length_print_nat)
  then show "length (print_padded w i) = w" "decimal_value (print_padded w i) = i"
    using assms by (simp_all add: print_padded_def print_signed_def)
  show "\<forall>c \<in> set (print_padded w i). isdigit c"
    using assms(2) print_nat_digits by (auto simp: print_padded_def isdigit_def nat_of_def)
qed

lemma segment_at: "length xs = i \<Longrightarrow> i + length ys = j \<Longrightarrow> segment i j (xs @ ys @ zs) = ys"
  by (auto simp: segment_def)

lemma segment_past: "length xs \<le> i \<Longrightarrow> segment i j (xs @ ys) = segment (i - length xs) (j - length xs) ys"
  by (simp add: segment_def)

lemma tm_fields_padded:
  assumes "tm_ok t" and "0 \<le> m" and "m < 1000000"
  shows "length (print_padded 4 (tm_year t + 1900)) = 4" "decimal_value (print_padded 4 (tm_year t + 1900)) = tm_year t + 1900"
    "length (print_padded 2 (tm_mon t + 1)) = 2" "decimal_value (print_padded 2 (tm_mon t + 1)) = tm_mon t + 1"
    "length (print_padded 2 (tm_mday t)) = 2" "decimal_value (print_padded 2 (tm_mday t)) = tm_mday t"
    "length (print_padded 2 (tm_hour t)) = 2" "decimal_value (print_padded 2 (tm_hour t)) = tm_hour t"
    "length (print_padded 2 (tm_min t)) = 2" "decimal_value (print_padded 2 (tm_min t)) = tm_min t"
    "length (print_padded 2 (tm_sec t)) = 2" "decimal_value (print_padded 2 (tm_sec t)) = tm_sec t"
    "length (print_padded 6 m) = 6" "decimal_value (print_padded 6 m) = m"
  using assms by (simp_all add: tm_ok_def print_padded_field)

lemma timestamp_text_columns:
  assumes "tm_ok t" and "0 \<le> m" and "m < 1000000"
  shows "length (timestamp_text t m) = 26" "read_timestamp (timestamp_text t m) = tm_fields t m"
proof -
  note f = tm_fields_padded [OF assms]
  show "length (timestamp_text t m) = 26" by (simp add: timestamp_text_def f)
  show "read_timestamp (timestamp_text t m) = tm_fields t m"
    by (simp add: read_timestamp_def tm_fields_def timestamp_text_def segment_past segment_at f segment_def)
qed

text \<open>Digit strings of one length are ordered like their numbers, and so are strings built of such columns.\<close>

lemma decimal_value_Cons: "decimal_value (c # s) = digit_value c * 10 ^ length s + decimal_value s"
proof (induction s rule: rev_induct)
  case (snoc d s)
  then show ?case using decimal_value_append [of "c # s" d] decimal_value_append [of s d] by (simp add: algebra_simps)
qed (simp add: decimal_value_def)

lemma decimal_value_bound: "\<forall>c \<in> set s. isdigit c \<Longrightarrow> 0 \<le> decimal_value s \<and> decimal_value s < 10 ^ length s"
proof (induction s)
  case (Cons c s)
  then have b: "0 \<le> decimal_value s" "decimal_value s < 10 ^ length s" by auto
  have d: "0 \<le> digit_value c" "digit_value c \<le> 9" using Cons.prems by (auto simp: isdigit_def digit_value_def)
  from d(2) have "digit_value c * 10 ^ length s \<le> 9 * 10 ^ length s" by (rule mult_right_mono) simp
  with b have "digit_value c * 10 ^ length s + decimal_value s < 10 * 10 ^ length s" by linarith
  with b d show ?case by (simp add: decimal_value_Cons)
qed (simp add: decimal_value_def)

lemma less_digits:
  "length s = length t \<Longrightarrow> \<forall>c \<in> set s. isdigit c \<Longrightarrow> \<forall>c \<in> set t. isdigit c \<Longrightarrow> s < t \<longleftrightarrow> decimal_value s < decimal_value t"
proof (induction s t rule: list_induct2)
  case (Cons c s d t)
  have b: "0 \<le> decimal_value s" "decimal_value s < 10 ^ length s" "0 \<le> decimal_value t" "decimal_value t < 10 ^ length s"
    using decimal_value_bound [of s] decimal_value_bound [of t] Cons.prems Cons.hyps by auto
  have more: "x * P + a < y * P + b" if "x < y" "0 \<le> a" "a < P" "0 \<le> b" for x y a b P :: int
  proof -
    have "(x + 1) * P \<le> y * P" using that by (intro mult_right_mono) simp_all
    with that show ?thesis by (simp add: algebra_simps)
  qed
  have eq: "c = d \<longleftrightarrow> digit_value c = digit_value d" by (simp add: digit_value_def nat_of_def)
  have less: "c < d \<longleftrightarrow> digit_value c < digit_value d" by (simp add: less_char_def digit_value_def nat_of_def)
  consider "digit_value c < digit_value d" | "digit_value c = digit_value d" | "digit_value d < digit_value c" by linarith
  then show ?case
    using Cons.IH Cons.prems Cons.hyps more [OF _ b(1-3)] more [OF _ b(3,4,1)]
    by cases (force simp: decimal_value_Cons eq less)+
qed simp

lemma less_columns:
  "length s = length s' \<Longrightarrow> s @ t < s' @ t' \<longleftrightarrow> s < s' \<or> s = s' \<and> t < (t' :: string)"
  by (induction s s' rule: list_induct2) auto

lemma print_padded_less:
  assumes "0 < w" and "0 \<le> i" and "i < 10 ^ w" and "0 \<le> j" and "j < 10 ^ w"
  shows "(print_padded w i < print_padded w j \<longleftrightarrow> i < j) \<and> (print_padded w i = print_padded w j \<longleftrightarrow> i = j)"
proof
  note f = print_padded_field [OF assms(1-3)] and g = print_padded_field [OF assms(1,4,5)]
  show "print_padded w i < print_padded w j \<longleftrightarrow> i < j"
    using less_digits [OF _ f(3) g(3)] f(1,2) g(1,2) by simp
  show "print_padded w i = print_padded w j \<longleftrightarrow> i = j"
    using f(2) g(2) by metis
qed

lemma less_padded_columns:
  assumes "0 < w" and "0 \<le> i" and "i < 10 ^ w" and "0 \<le> j" and "j < 10 ^ w"
  shows "print_padded w i @ c # s < print_padded w j @ c # t \<longleftrightarrow> i < j \<or> i = j \<and> s < t"
  using print_padded_less [OF assms] print_padded_field(1) [OF assms(1-3)] print_padded_field(1) [OF assms(1,4,5)]
  by (simp add: less_columns)

lemma timestamp_text_less:
  assumes "tm_ok t" and "0 \<le> m" and "m < 1000000" and "tm_ok u" and "0 \<le> n" and "n < 1000000"
  shows "timestamp_text t m < timestamp_text u n \<longleftrightarrow> tm_fields t m < tm_fields u n"
proof -
  have b: "0 \<le> tm_year v + 1900" "tm_year v + 1900 < 10 ^ 4" "0 \<le> tm_mon v + 1" "tm_mon v + 1 < 10 ^ 2"
    "0 \<le> tm_mday v" "tm_mday v < 10 ^ 2" "0 \<le> tm_hour v" "tm_hour v < 10 ^ 2" "0 \<le> tm_min v" "tm_min v < 10 ^ 2"
    "0 \<le> tm_sec v" "tm_sec v < 10 ^ 2" if "tm_ok v" for v
    using that by (simp_all add: tm_ok_def)
  note t = b [OF assms(1)] and u = b [OF assms(4)]
  have m: "m < 10 ^ 6" "n < 10 ^ 6" using assms by simp_all
  show ?thesis
    unfolding timestamp_text_def tm_fields_def append.simps
      less_padded_columns [OF zero_less_numeral t(1,2) u(1,2)] less_padded_columns [OF zero_less_numeral t(3,4) u(3,4)]
      less_padded_columns [OF zero_less_numeral t(5,6) u(5,6)] less_padded_columns [OF zero_less_numeral t(7,8) u(7,8)]
      less_padded_columns [OF zero_less_numeral t(9,10) u(9,10)] less_padded_columns [OF zero_less_numeral t(11,12) u(11,12)]
      print_padded_less [OF zero_less_numeral assms(2) m(1) assms(5) m(2), THEN conjunct1]
    by (simp only: Cons_less_Cons add_less_cancel_right add_right_cancel less_irrefl simp_thms)
qed

lemma timestamp_text_whole:
  assumes "tm_ok t" and "0 \<le> m" and "m < 1000000" and "length buf = 128 \<or> length buf = 64"
  shows "c_str (snd (snprintf (timestamp_text t m) buf)) = timestamp_text t m"
proof -
  have d: "NUL \<notin> set (print_padded w i)" if "0 < w" "0 \<le> i" "i < 10 ^ w" for w i
    using print_padded_field(3) [OF that] by (auto simp: isdigit_def NUL_def nat_of_def)
  have s: "NUL \<noteq> CHR ''/''" "NUL \<noteq> CHR ''-''" "NUL \<noteq> CHR '':''" "NUL \<noteq> CHR ''.''" by (simp_all add: NUL_def)
  have "NUL \<notin> set (timestamp_text t m)"
    using assms(1-3) by (simp add: timestamp_text_def tm_ok_def d s)
  moreover have "length (timestamp_text t m) \<le> length buf - 1" "buf \<noteq> []"
    using timestamp_text_columns(1) [OF assms(1-3)] assms(4) by auto
  ultimately show ?thesis by (simp add: snprintf_def)
qed

text \<open>Time stamps can be read back and sorted. For a clock whose years have four digits a stamp has 26
  characters, its columns hold the fields of the local time and the microseconds, and of two stamps the
  earlier one, by these fields, is the lesser string.\<close>
theorem timestamps_read_and_sort:
  assumes "\<And>s. tm_ok (localtime s)" and "length buf = 128" and "length buf' = 128"
  shows "length (FormatTimestamp localtime buf a) = 26 \<and>
    read_timestamp (FormatTimestamp localtime buf a) = tm_fields (localtime (uint a div 1000000)) (uint a mod 1000000) \<and>
    (FormatTimestamp localtime buf a < FormatTimestamp localtime buf' b \<longleftrightarrow>
      tm_fields (localtime (uint a div 1000000)) (uint a mod 1000000) < tm_fields (localtime (uint b div 1000000)) (uint b mod 1000000))"
proof -
  have eq: "FormatTimestamp localtime f x = timestamp_text (localtime (uint x div 1000000)) (uint x mod 1000000)"
    if "length f = 128" for f x
    using timestamp_text_whole [OF assms(1), of "uint x mod 1000000" f "uint x div 1000000"] that
    by (simp add: FormatTimestamp_def uint_div uint_mod)
  have m: "0 \<le> uint x mod 1000000" "uint x mod 1000000 < 1000000" for x :: u64 by simp_all
  show ?thesis
    using timestamp_text_columns [OF assms(1) m] timestamp_text_less [OF assms(1) m assms(1) m]
    by (simp add: eq assms(2,3))
qed

text \<open>A clock for the example: the time of day, always on the first of January 1970.\<close>

definition day_clock :: "int \<Rightarrow> tm" where
  "day_clock s = \<lparr>tm_year = 70, tm_mon = 0, tm_mday = 1, tm_hour = s div 3600 mod 24, tm_min = s div 60 mod 60, tm_sec = s mod 60\<rparr>"

lemma day_clock_ok: "tm_ok (day_clock s)"
proof -
  have "s div 3600 mod 24 < 24" "s div 60 mod 60 < 60" "s mod 60 < 60" by (rule pos_mod_bound; simp)+
  then show ?thesis by (auto simp: tm_ok_def day_clock_def)
qed

theorem timestamps_read_and_sort_witness:
  "read_timestamp (FormatTimestamp day_clock (replicate 128 (CHR ''?'')) 3661000042) = [1970, 1, 1, 1, 1, 1, 42]"
  using timestamps_read_and_sort [of day_clock, OF day_clock_ok, of "replicate 128 (CHR ''?'')" "replicate 128 (CHR ''?'')" 3661000042 0]
  by (simp add: day_clock_def tm_fields_def)

section \<open>The logger\<close>

datatype LogLevel = LOGLEVEL_DEBUG | LOGLEVEL_INFO | LOGLEVEL_WARN | LOGLEVEL_ERROR | LOGLEVEL_FATAL

fun level_value :: "LogLevel \<Rightarrow> nat" where
  "level_value LOGLEVEL_DEBUG = 0"
| "level_value LOGLEVEL_INFO = 1"
| "level_value LOGLEVEL_WARN = 2"
| "level_value LOGLEVEL_ERROR = 3"
| "level_value LOGLEVEL_FATAL = 4"

lemma level_value_inj: "level_value a = level_value b \<Longrightarrow> a = b"
  by (cases a; cases b) simp_all

instantiation LogLevel :: linorder
begin

definition less_eq_LogLevel :: "LogLevel \<Rightarrow> LogLevel \<Rightarrow> bool" where
  "less_eq_LogLevel a b \<longleftrightarrow> level_value a \<le> level_value b"

definition less_LogLevel :: "LogLevel \<Rightarrow> LogLevel \<Rightarrow> bool" where
  "less_LogLevel a b \<longleftrightarrow> level_value a < level_value b"

instance
  by standard (auto simp: less_eq_LogLevel_def less_LogLevel_def dest: level_value_inj)

end

lemma fatal_is_top: "level \<le> LOGLEVEL_FATAL"
  by (cases level) (simp_all add: less_eq_LogLevel_def)

definition kLogLevelNames :: "string list" where
  "kLogLevelNames = [''DEBUG'', ''INFO '', ''WARN '', ''ERROR'', ''FATAL'']"

text \<open>The handler is a function pointer; the state also has what went to standard error and the calls that a
  user's handler saw.\<close>

datatype log_handler = DefaultLogHandler | NullLogHandler | UserHandler nat

type_synonym log_call = "nat \<times> LogLevel \<times> string \<times> int \<times> string"

record log_state =
  handler :: log_handler
  min_level :: LogLevel
  stderr_text :: string
  user_calls :: "log_call list"

definition log_init :: log_state where
  "log_init = \<lparr>handler = DefaultLogHandler, min_level = LOGLEVEL_WARN, stderr_text = [], user_calls = []\<rparr>"

record log_clock =
  clock_sec :: int
  clock_usec :: int
  clock_local :: "int \<Rightarrow> tm"
  clock_buf :: string

definition default_log :: "log_clock \<Rightarrow> LogLevel \<Rightarrow> string \<Rightarrow> int \<Rightarrow> string \<Rightarrow> string" where
  "default_log c level filename line message =
     (let log_time = snd (snprintf (timestamp_text (clock_local c (clock_sec c)) (clock_usec c)) (clock_buf c))
      in ''['' @ c_str log_time @ ''][''  @ kLogLevelNames ! level_value level @ '' '' @ c_str filename @ '':'' @
         print_signed line @ ''] '' @ c_str message @ [CHR 0x0A])"

fun call_handler :: "log_clock \<Rightarrow> LogLevel \<Rightarrow> string \<Rightarrow> int \<Rightarrow> string \<Rightarrow> log_state \<Rightarrow> log_state" where
  "call_handler c level filename line message s = (case handler s of
     DefaultLogHandler \<Rightarrow> s\<lparr>stderr_text := stderr_text s @ default_log c level filename line message\<rparr>
   | NullLogHandler \<Rightarrow> s
   | UserHandler n \<Rightarrow> s\<lparr>user_calls := user_calls s @ [(n, level, filename, line, message)]\<rparr>)"

record logger =
  level :: LogLevel
  filename :: string
  line :: int
  message :: string

definition Logger_new :: "LogLevel \<Rightarrow> string \<Rightarrow> int \<Rightarrow> logger" where
  "Logger_new lv f n = \<lparr>level = lv, filename = f, line = n, message = []\<rparr>"

text \<open>What is streamed. The integer types go through \<^verbatim>\<open>%d\<close>, \<^verbatim>\<open>%u\<close> and their long forms; the text of a
  \<^verbatim>\<open>double\<close>, of a pointer and of a thread's id is what the library prints.\<close>

datatype log_item = Log_cstr string | Log_slice slice | Log_string string | Log_moved string | Log_status status
  | Log_thread_id string | Log_char char | Log_int int | Log_printed string

text \<open>The operators declared by the macro: a buffer of 128 characters, cut, ended by a NUL and read as a C string.\<close>

definition stream_printed :: "string \<Rightarrow> string \<Rightarrow> string \<Rightarrow> string" where
  "stream_printed junk s msg = (let buffer = (snd (snprintf s junk))[127 := NUL] in msg @ c_str buffer)"

fun log_put :: "bool \<Rightarrow> string \<Rightarrow> log_item \<Rightarrow> logger \<Rightarrow> logger" where
  "log_put le junk (Log_cstr v) l = l\<lparr>message := message l @ c_str v\<rparr>"
| "log_put le junk (Log_slice v) l = l\<lparr>message := message l @ take (ssize v) (sdata v)\<rparr>"
| "log_put le junk (Log_string v) l = l\<lparr>message := message l @ v\<rparr>"
| "log_put le junk (Log_moved v) l = (if message l = [] then l\<lparr>message := v\<rparr> else l\<lparr>message := message l @ v\<rparr>)"
| "log_put le junk (Log_status v) l = l\<lparr>message := message l @ status_ToString le v\<rparr>"
| "log_put le junk (Log_thread_id v) l = l\<lparr>message := message l @ v\<rparr>"
| "log_put le junk (Log_char v) l = l\<lparr>message := stream_printed junk [v] (message l)\<rparr>"
| "log_put le junk (Log_int v) l = l\<lparr>message := stream_printed junk (print_signed v) (message l)\<rparr>"
| "log_put le junk (Log_printed v) l = l\<lparr>message := stream_printed junk v (message l)\<rparr>"

text \<open>\<^verbatim>\<open>Finish\<close>; the second result says that the program was aborted.\<close>

definition Logger_Finish :: "log_clock \<Rightarrow> logger \<Rightarrow> log_state \<Rightarrow> log_state \<times> bool" where
  "Logger_Finish c l s =
     (let s = (if level l \<ge> min_level s then call_handler c (level l) (filename l) (line l) (message l) s else s)
      in (s, level l = LOGLEVEL_FATAL))"

text \<open>The statement \<^verbatim>\<open>VOYAGER_LOG(level) << ... << ...;\<close>\<close>

definition VOYAGER_LOG :: "bool \<Rightarrow> string \<Rightarrow> log_clock \<Rightarrow> LogLevel \<Rightarrow> string \<Rightarrow> int \<Rightarrow> log_item list \<Rightarrow> log_state \<Rightarrow> log_state \<times> bool" where
  "VOYAGER_LOG le junk c lv f n items s = Logger_Finish c (fold (log_put le junk) items (Logger_new lv f n)) s"

definition CheckNotNull :: "bool \<Rightarrow> string \<Rightarrow> log_clock \<Rightarrow> string \<Rightarrow> 'p option \<Rightarrow> log_state \<Rightarrow> log_state \<times> bool" where
  "CheckNotNull le junk c logmessage p s =
     (case p of None \<Rightarrow> VOYAGER_LOG le junk c LOGLEVEL_FATAL ''voyager/util/logging.h'' 72 [Log_cstr logmessage] s | Some _ \<Rightarrow> (s, False))"

text \<open>A null pointer stands for the handler that does nothing.\<close>

definition SetLogHandler :: "log_handler option \<Rightarrow> log_state \<Rightarrow> log_handler option \<times> log_state" where
  "SetLogHandler new_func s =
     (let old = (if handler s = NullLogHandler then None else Some (handler s))
      in (old, s\<lparr>handler := (case new_func of None \<Rightarrow> NullLogHandler | Some h \<Rightarrow> h)\<rparr>))"

definition SetLogLevel :: "LogLevel \<Rightarrow> log_state \<Rightarrow> LogLevel \<times> log_state" where
  "SetLogLevel new_level s = (min_level s, s\<lparr>min_level := new_level\<rparr>)"

text \<open>What an item should add to the message.\<close>

fun item_text :: "bool \<Rightarrow> log_item \<Rightarrow> string" where
  "item_text le (Log_cstr v) = c_str v"
| "item_text le (Log_slice v) = slice_ToString v"
| "item_text le (Log_string v) = v"
| "item_text le (Log_moved v) = v"
| "item_text le (Log_status v) = status_ToString le v"
| "item_text le (Log_thread_id v) = v"
| "item_text le (Log_char v) = (if v = NUL then [] else [v])"
| "item_text le (Log_int v) = print_signed v"
| "item_text le (Log_printed v) = v"

fun item_ok :: "log_item \<Rightarrow> bool" where
  "item_ok (Log_int v) \<longleftrightarrow> - (2 ^ 63) \<le> v \<and> v < 2 ^ 64"
| "item_ok (Log_printed v) \<longleftrightarrow> length v < 128 \<and> NUL \<notin> set v"
| "item_ok _ \<longleftrightarrow> True"

lemma c_str_stops: "c_str (s @ NUL # t) = c_str s"
  by (induction s) (auto simp: c_str_def NUL_def)

lemma stream_printed_text:
  assumes "length junk = 128" and "length s < 128"
  shows "stream_printed junk s msg = msg @ c_str s"
proof -
  have "snd (snprintf s junk) = s @ NUL # drop (Suc (length s)) junk"
    using assms by (auto simp: snprintf_def put_str_eq)
  moreover have "c_str ((s @ NUL # drop (Suc (length s)) junk)[127 := NUL]) = c_str s"
  proof (cases "length s = 127")
    case True
    then show ?thesis by (simp add: list_update_append c_str_stops)
  next
    case False
    with assms(2) have "127 - length s = Suc (126 - length s)" by simp
    with assms(2) have "(s @ NUL # drop (Suc (length s)) junk)[127 := NUL]
      = s @ NUL # (drop (Suc (length s)) junk)[126 - length s := NUL]"
      by (simp add: list_update_append)
    then show ?thesis by (simp add: c_str_stops)
  qed
  ultimately show ?thesis by (simp add: stream_printed_def)
qed

lemma print_signed_text: "- (2 ^ 63) \<le> v \<Longrightarrow> v < 2 ^ 64 \<Longrightarrow> length (print_signed v) < 128 \<and> c_str (print_signed v) = print_signed v"
proof -
  assume "- (2 ^ 63) \<le> v" "v < 2 ^ 64"
  then have "nat \<bar>v\<bar> < 10 ^ 20" by (simp add: nat_less_iff)
  then have "length (print_nat (nat \<bar>v\<bar>)) \<le> 20" by (intro length_print_nat) simp_all
  moreover have "NUL \<notin> set (print_signed v)"
    using NUL_not_digit(1) [of "nat \<bar>v\<bar>"] by (simp add: print_signed_def) (simp add: NUL_def)
  ultimately show ?thesis
    by (auto simp: print_signed_def c_str_id)
qed

lemma log_put_text:
  assumes "length junk = 128" and "item_ok i"
  shows "log_put le junk i l = l\<lparr>message := message l @ item_text le i\<rparr>"
proof (cases i)
  case (Log_int v)
  with assms print_signed_text [of v] show ?thesis by (simp add: stream_printed_text)
next
  case (Log_printed v)
  with assms show ?thesis by (simp add: stream_printed_text c_str_id)
qed (use assms in \<open>simp_all add: stream_printed_text slice_ToString_def c_str_def NUL_def\<close>)

lemma log_put_fold:
  "length junk = 128 \<Longrightarrow> \<forall>i \<in> set items. item_ok i \<Longrightarrow>
   fold (log_put le junk) items l = l\<lparr>message := message l @ concat (map (item_text le) items)\<rparr>"
  by (induction items arbitrary: l) (simp_all add: log_put_text)

text \<open>C39: A log statement gives its handler the whole text of what was streamed into it, in order: integers of
  every width fit their buffer, and only a NUL character disappears. The handler is called once when the level
  is at least the minimum and not otherwise, and a fatal statement ends the program in either case, so that even
  a minimum that nothing else reaches does not silence it.\<close>
theorem log_statement:
  assumes "length junk = 128" and "\<forall>i \<in> set items. item_ok i"
  shows "VOYAGER_LOG le junk c lv f n items s =
    (if min_level s \<le> lv then call_handler c lv f n (concat (map (item_text le) items)) s else s, lv = LOGLEVEL_FATAL) \<and>
    (handler s = UserHandler k \<longrightarrow> user_calls (fst (VOYAGER_LOG le junk c LOGLEVEL_FATAL f n items s))
      = user_calls s @ [(k, LOGLEVEL_FATAL, f, n, concat (map (item_text le) items))])"
  using log_put_fold [OF assms] by (simp add: VOYAGER_LOG_def Logger_Finish_def Logger_new_def fatal_is_top)

definition log_example :: "log_item list" where
  "log_example = [Log_cstr ''fd = '', Log_int (-1), Log_char (CHR '';''), Log_status None]"

definition example_clock :: log_clock where
  "example_clock = \<lparr>clock_sec = 0, clock_usec = 0, clock_local = day_clock, clock_buf = replicate 64 (CHR ''?'')\<rparr>"

theorem log_statement_witness:
  "snd (VOYAGER_LOG True (replicate 128 (CHR ''?'')) example_clock LOGLEVEL_ERROR ''a.cc'' 7 log_example
     (log_init\<lparr>handler := UserHandler 1\<rparr>)) = False \<and>
   user_calls (fst (VOYAGER_LOG True (replicate 128 (CHR ''?'')) example_clock LOGLEVEL_ERROR ''a.cc'' 7 log_example
     (log_init\<lparr>handler := UserHandler 1\<rparr>))) = [(1, LOGLEVEL_ERROR, ''a.cc'', 7, ''fd = -1;OK'')]"
proof -
  have "print_nat 1 = ''1''" by code_simp
  then have t: "concat (map (item_text True) log_example) = ''fd = -1;OK''"
    by (simp add: log_example_def c_str_def print_signed_def NUL_def status_ToString_def)
  show ?thesis
    using log_statement [of "replicate 128 (CHR ''?'')" log_example True example_clock LOGLEVEL_ERROR "''a.cc''" 7 "log_init\<lparr>handler := UserHandler 1\<rparr>"]
    unfolding t by (simp add: log_example_def log_init_def less_eq_LogLevel_def)
qed

text \<open>Handler and level can be replaced for a while and put back: giving \<^verbatim>\<open>SetLogHandler\<close> and \<^verbatim>\<open>SetLogLevel\<close>
  what they returned restores the state, also when there was no handler. In between, a null handler stays silent
  whatever is logged.\<close>
theorem log_settings_restored:
  "snd (SetLogHandler (fst (SetLogHandler h s)) (snd (SetLogHandler h s))) = s \<and>
   snd (SetLogLevel (fst (SetLogLevel v s)) (snd (SetLogLevel v s))) = s \<and>
   fst (VOYAGER_LOG le junk c lv f n items (snd (SetLogHandler None s))) = snd (SetLogHandler None s)"
  by (auto simp: SetLogHandler_def SetLogLevel_def VOYAGER_LOG_def Logger_Finish_def Let_def)

text \<open>The default handler's line: a time stamp whole, and the message up to its first NUL.\<close>

lemma default_log_line:
  assumes "tm_ok (clock_local c (clock_sec c))" and "0 \<le> clock_usec c" and "clock_usec c < 1000000" and "length (clock_buf c) = 64"
  shows "default_log c lv f n msg = ''['' @ timestamp_text (clock_local c (clock_sec c)) (clock_usec c) @ ''][''  @
    kLogLevelNames ! level_value lv @ '' '' @ c_str f @ '':'' @ print_signed n @ ''] '' @ c_str msg @ [CHR 0x0A]"
  using timestamp_text_whole [OF assms(1-3)] assms(4) by (simp add: default_log_def)

end
