(* ===== verification/Spec2Isabelle.thy ===== *)
theory Spec2Isabelle
  imports Buffer Coding Crc32c Hash Event_Loop Http_Exchange Http_Client Slice_Status Json_Correct Base64_Big_Endian
    String_Util Rpc Sudoku_Server Echo_Server Bg_Loop Loop_Objects Text_Output
begin

text \<open>
  A verification development of Voyager, a C++11 network library built on the reactor pattern, as it stands under
  \<^verbatim>\<open>src/voyager\<close>, with the example programs under \<^verbatim>\<open>src/examples\<close>.

  \<^bold>\<open>The program.\<close> A thread runs one \<^verbatim>\<open>EventLoop\<close>, which waits in a poller (epoll, poll, select or kqueue) for
  events on descriptors, runs the timers that are due, lets the \<^verbatim>\<open>Dispatch\<close> of each ready descriptor call its owner,
  and runs the functors other threads have queued. On top of it are connections (\<^verbatim>\<open>TcpConnection\<close>, with a read and a
  write \<^verbatim>\<open>Buffer\<close>), what makes them (\<^verbatim>\<open>TcpAcceptor\<close> and \<^verbatim>\<open>TcpServer\<close> on one side, \<^verbatim>\<open>TcpConnector\<close> and \<^verbatim>\<open>TcpClient\<close> on the
  other, \<^verbatim>\<open>Schedule\<close> and \<^verbatim>\<open>BGEventLoop\<close> for the threads, \<^verbatim>\<open>TcpMonitor\<close> for limits), and the protocols: HTTP, the
  protobuf codec and the remote procedure calls over it. Beside them stand the utilities: integer coding, checksums,
  hashes, Base64, JSON, strings, slices, status values, logging, formatted text and time stamps.

  \<^bold>\<open>Conventions\<close> (\<open>Voyager_Prelude\<close>, \<open>Std_Text\<close>). A class is a record, an enumeration a datatype, a machine integer a
  word of its width, or an int where the C++ type is a signed one that cannot overflow in the code; \<^verbatim>\<open>static_cast<int>\<close>
  of a size is \<open>to_int\<close>, which keeps the low 32 bits. An operation that may end the program returns a sum with a
  \<open>fault\<close>: a failed assertion, an access out of bounds, a null pointer, a fatal log message, a use after free. A C++
  object reached through a pointer lives in a map from addresses, and a freed object is absent from it. Uninitialised
  memory, the clock, what a system call returns and the code of user callbacks are parameters. Loops are structural
  recursion or have a termination proof; the three loops of the sources that need not end (\<^verbatim>\<open>ParseBuffer\<close> of the HTTP
  parsers, \<^verbatim>\<open>OnMessage\<close> of the protobuf codec, the line loops of the sudoku programs) are partial functions into
  option, with theorems that say when they return. The JSON reader has fuel, twice the length of the text and two,
  and \<open>Json_Correct\<close> proves that this is always enough.

  \<^bold>\<open>The theories, by component.\<close>

  \<^item> \<open>Buffer\<close> (\<^verbatim>\<open>core/buffer.h\<close>, \<^verbatim>\<open>buffer.cc\<close>): every operation of the byte buffer, \<^verbatim>\<open>readv\<close> included. The locale
    \<open>byte_queue\<close> is the contract of a queue of bytes, interpreted on the buffer; any sequence of appends and
    retrievals refines it.
  \<^item> \<open>Timer_List\<close> (\<^verbatim>\<open>core/timerlist.cc\<close>): timers as heap objects in two sets ordered by time and by address; no
    timer is used after it was freed, whatever the callbacks do, and what is due fires in order, also when the clock was
    set back.
  \<^item> \<open>Dispatch\<close> (\<^verbatim>\<open>core/dispatch.cc\<close>) with the locale \<open>event_poller\<close>, the contract of a poller: the kernel watches for
    each descriptor what its dispatch asks for. \<open>Event_Epoll\<close>, \<open>Event_Poll\<close>, \<open>Event_Select\<close>, \<open>Event_Kqueue\<close> model the
    four pollers and interpret it, and \<open>Event_Loop\<close> interprets it once more on the loop's calls. A parameter of the
    locale, \<open>refusal\<close>, says which dispatches a poller refuses to enable and with which fault, and its law that the calls
    fault exactly then: epoll and kqueue refuse none; poll refuses a dispatch that was removed before, whose index it
    never resets; select has no test for descriptors of \<^verbatim>\<open>FD_SETSIZE\<close> or more and writes outside of its sets.
  \<^item> \<open>Event_Loop\<close> (\<^verbatim>\<open>core/eventloop.cc\<close>): the loop's thread and any number of other threads as interleaved steps; no
    wake-up is lost, but for functors that the loop's own thread queues before it enters \<^verbatim>\<open>Loop\<close> (the ghost field
    \<open>early_funcs\<close>), which may wait for the first poll to time out; and functors run once and in order. \<open>Loop_Objects\<close>: constructor and destructor of the loop, one
    loop per thread, the types of its dispatches, and the timer descriptor of \<^verbatim>\<open>core/newtimer.cc\<close>. \<open>Bg_Loop\<close>
    (\<^verbatim>\<open>core/bg_eventloop.cc\<close>): the loop in a thread of its own, as an interleaving of owner and thread.
  \<^item> \<open>Tcp_Connection\<close> (\<^verbatim>\<open>core/tcp_connection.cc\<close>): the state machine of a connection and its streams; what was given
    to \<^verbatim>\<open>SendMessage\<close> is what has been written and what waits in the buffer, in order. Its steps include every event
    mask and a \<^verbatim>\<open>StartRead\<close> that runs after the close; an assertion fails only when a closed connection is hit
    again, and \<open>hits_closed\<close> says for which events. \<open>Sock_Addr\<close>
    (\<^verbatim>\<open>core/sockaddr.cc\<close>), \<open>Sockets\<close> (\<^verbatim>\<open>core/base_socket.cc\<close>, \<^verbatim>\<open>server_socket.cc\<close>, \<^verbatim>\<open>client_socket.cc\<close>,
    \<^verbatim>\<open>tcp_acceptor.cc\<close>), \<open>Tcp_Endpoints\<close> (\<^verbatim>\<open>core/tcp_connector.cc\<close>, \<^verbatim>\<open>tcp_client.cc\<close>, \<^verbatim>\<open>tcp_server.cc\<close>, \<^verbatim>\<open>schedule.cc\<close>,
    \<^verbatim>\<open>tcp_monitor.cc\<close>): addresses as text and back, descriptors accounted for (also when the
    acceptor cannot open its spare one again), connections within their limits.
  \<^item> \<open>Http_Message\<close>, \<open>Http_Parser\<close> (\<^verbatim>\<open>http/http_message.cc\<close>, \<^verbatim>\<open>http_request.cc\<close>, \<^verbatim>\<open>http_response.cc\<close> and the two
    parsers): the locale \<open>message_parser\<close> says that reading a body refines its reading on text; both parsers interpret
    it. Printed messages are read back (the body of a request only if it is a POST with the right
    \<^verbatim>\<open>Content-Length\<close>; else it stays in the buffer or the request is refused), and pieces do not matter before the body. \<open>Http_Server\<close>
    (\<^verbatim>\<open>http/http_server.cc\<close>): the wheel of idle connections against a clock. \<open>Http_Client\<close> (\<^verbatim>\<open>http/http_client.cc\<close>):
    callbacks in order, with the requests that callbacks make while they run; one made during a close invalidates the
    iterator of the close. \<open>Http_Exchange\<close>: parser, server and buffer together, for the theorem below.
  \<^item> \<open>Framing\<close>: the locale \<open>framed_stream\<close>, the contract of a message callback that takes messages out of a stream cut
    in any way; \<open>Protobuf_Codec\<close> (\<^verbatim>\<open>protobuf/protobuf_codec.h\<close>) and \<open>Sudoku_Server\<close> provide it. \<open>Rpc\<close>
    (\<^verbatim>\<open>rpc/rpc_channel.cc\<close>, \<^verbatim>\<open>rpc_server.cc\<close>): every call ends once, by an answer or by its timeout; call ids are 32-bit
    numbers, and the theorems are about fewer than 2 to the power 32 calls.
  \<^item> \<open>Sudoku\<close>, \<open>Sudoku_Server\<close>, \<open>Echo_Server\<close> (\<^verbatim>\<open>examples/sudoku\<close>, \<^verbatim>\<open>examples/pingpong\<close>): the solver finds a solution
    exactly when there is one; a session of client and server over fragmented streams; an echo that is exact, on the
    model of a connection.
  \<^item> \<open>Coding\<close> (\<^verbatim>\<open>util/coding.cc\<close>) with the locale \<open>wire_format\<close> for five encodings; \<open>Crc32c_Tables\<close>, \<open>Crc32c\<close>
    (\<^verbatim>\<open>util/crc32c.cc\<close>, \<^verbatim>\<open>crc32c_accelerate.cc\<close>) against the bitwise definition; \<open>Hash\<close> (\<^verbatim>\<open>util/hash.cc\<close>);
    \<open>Base64_Tables\<close>, \<open>Base64\<close>, \<open>Base64_Correct\<close> (\<^verbatim>\<open>util/base64\<close>) against RFC 4648, and \<open>Base64_Big_Endian\<close>, the decoder
    for big-endian machines and why it is wrong; \<open>Json\<close>, \<open>Json_Correct\<close> (\<^verbatim>\<open>util/json\<close>): the parser returns, what is
    written is read back; \<open>String_Util\<close> (\<^verbatim>\<open>util/string_util.cc\<close>); \<open>Slice_Status\<close> (\<^verbatim>\<open>util/slice.h\<close>, \<^verbatim>\<open>status.cc\<close>);
    \<open>Text_Output\<close> (\<^verbatim>\<open>util/stringprintf.cc\<close>, \<^verbatim>\<open>timeops.cc\<close>, \<^verbatim>\<open>logging.cc\<close>).

  \<^bold>\<open>Bounds.\<close> Sizes are natural numbers; where the code casts a size to \<^verbatim>\<open>int\<close> the theorems have the hypothesis that it
  fits, and separate theorems say what happens beyond (Base64, formatted text, the HTTP body). The JSON reader counts the characters
  of a string in 32 bits; the round trip is about strings below that, and \<open>json_long_string_cut\<close> says what becomes of others. Socket constants and
  layouts are those of Linux. Byte order is a parameter of the coding and status theories.

  \<^bold>\<open>Findings.\<close> Where the code does not do what it means to, the model does what the code does, and a theorem shows it:
  among others an exit requested before \<^verbatim>\<open>Loop\<close> is lost and the destructor of \<^verbatim>\<open>BGEventLoop\<close> then hangs; a closed HTTP
  connection that receives data hangs its loop; a body in pieces is refused; \<^verbatim>\<open>ShrinkToFit\<close> exposes old bytes; an RPC
  answer before its registration is lost; IPv6 endpoints cannot be set up; the big-endian Base64 decoder reverses bytes.

  \<^bold>\<open>Not modelled.\<close> The inside of the kernel, of the C++ memory model (accesses to one variable are atomic steps) and of
  protobuf, whose serialisation is a parameter; the capacity of the wake-up socket; allocation failure; the query
  \<^verbatim>\<open>HasDispatch\<close>; strings that only name a state for a log message; the sources under \<^verbatim>\<open>docs\<close>, which the build does not
  use; the test harness, the tests, the benchmarks, the tutorial and the build files, which hold no logic of the library.
\<close>

section \<open>Properties of several components\<close>

text \<open>C3: A request gets its answer, however the network cuts it. On a connection of a reachable server whose
  parser is fresh, let the text that \<^verbatim>\<open>HttpRequest::RequestMessage\<close> printed for a request without a body arrive
  in any pieces, \<^verbatim>\<open>OnMessage\<close> being called after each. Nothing is sent before the last piece; then the
  callback's response to exactly this request is sent, nothing is left in the buffer, the connection stays open
  unless the response closes it, and a kept connection is ready for the next request.\<close>
theorem http_exchange:
  assumes "http_run m0 (Some f) n srv now act" and "connected (conns srv c)"
    and "http_context (conns srv c) = Some (HttpRequestParser_new m0)"
    and "Http_Parser.request_ok r" and "body r = []" and "buffer_ok (request_message r)" and "Peek (request_message r) = []"
    and "RequestMessage r = Inr (out, r')" and "Peek out = concat (pieces @ [final])" and "final \<noteq> []"
    and "ResponseMessage (f (received_request r) (HttpResponse_new\<lparr>close_state := wants_close (received_request r)\<rparr>)) = Inr (rb, resp)"
  shows "\<exists>b1 srv1 b2 srv2.
    receive (http_on_message m0 (Some f) c) pieces (new_Buffer kInitBufferSize) srv = Some (Inr (b1, srv1)) \<and>
    http_conn.sent (conns srv1 c) = http_conn.sent (conns srv c) \<and>
    receive (http_on_message m0 (Some f) c) (pieces @ [final]) (new_Buffer kInitBufferSize) srv = Some (Inr (b2, srv2)) \<and>
    http_conn.sent (conns srv2 c) = http_conn.sent (conns srv c) @ Peek rb \<and> Peek b2 = [] \<and>
    (connected (conns srv2 c) \<longleftrightarrow> \<not> close_state resp) \<and>
    (\<not> wants_close (received_request r) \<longrightarrow> http_context (conns srv2 c) = Some (HttpRequestParser_new m0))"
proof -
  have head: "request_head r = ([] @ concat pieces) @ final"
    using RequestMessage_ok [OF assms(6)] assms(5,7,8,9) request_text [of r] by (auto simp: request_head_def)
  obtain b1 srv1 act1 where w: "receive (http_on_message m0 (Some f) c) pieces (new_Buffer kInitBufferSize) srv = Some (Inr (b1, srv1))"
      "server_ok n srv1 now act1" "taken_up m0 c ([] @ concat pieces) b1 srv1" "http_conn.sent (conns srv1 c) = http_conn.sent (conns srv c)"
      "connected (conns srv1 c)"
    using receive_waits [OF taken_up_start [OF assms(3)] http_run_ok [OF assms(1)] assms(4) head assms(10)] assms(2) by blast
  obtain p2 k where a: "answer_request m0 (Some f) \<lparr>pstate = kEnd, pmsg = received_request r\<rparr> (conns srv1 c) = Inr (p2, k)"
      "http_conn.sent k = http_conn.sent (conns srv1 c) @ Peek rb" "connected k \<longleftrightarrow> \<not> close_state resp"
      "\<not> wants_close (received_request r) \<longrightarrow> p2 = HttpRequestParser_new m0"
    using answer_request_sends [of "conns srv1 c" f "received_request r" rb resp m0, OF w(5) assms(11)] by blast
  obtain b2 srv2 where l: "receive (http_on_message m0 (Some f) c) [final] b1 srv1 = Some (Inr (b2, srv2))" "Peek b2 = []"
      "conns srv2 c = k\<lparr>http_context := Some p2\<rparr>"
    using taken_up_last [OF w(3,2) assms(4,5) head a(1)] by blast
  have "receive (http_on_message m0 (Some f) c) (pieces @ [final]) (new_Buffer kInitBufferSize) srv = Some (Inr (b2, srv2))"
    using w(1) l(1) by (simp add: receive_append)
  with w(1,4) l(2,3) a show ?thesis by auto
qed

definition hello_request :: http_request where
  "hello_request = (HttpRequest_new kGet)\<lparr>version := kHttp11, path := ''/''\<rparr>"

lemma hello_request_ok:
  "Http_Parser.request_ok hello_request" "body hello_request = []" "buffer_ok (request_message hello_request)" "Peek (request_message hello_request) = []"
  "request_head hello_request = concat ([''GET / HT''] @ [''TP/1.1'' @ kCRLF @ kCRLF])"
  by (simp_all add: hello_request_def HttpRequest_new_def Http_Parser.request_ok_def smap_ok_def isspace_def nat_of_def
      request_head_def Http_Parser.request_line_def headers_text_def)

theorem http_exchange_witness:
  "\<exists>srv srv2 b2. HttpServer_OnConnection kGet 7 example_server = Inr srv \<and>
     receive (http_on_message kGet (Some (\<lambda>q p. p)) 7) ([''GET / HT''] @ [''TP/1.1'' @ kCRLF @ kCRLF]) (new_Buffer kInitBufferSize) srv
       = Some (Inr (b2, srv2)) \<and> http_conn.sent (conns srv2 7) = concat (response_chunks HttpResponse_new)"
proof -
  define srv where "srv = projr (HttpServer_OnConnection kGet 7 example_server)"
  have srv: "HttpServer_OnConnection kGet 7 example_server = Inr srv"
    and sel: "connected (conns srv 7)" "http_context (conns srv 7) = Some (HttpRequestParser_new kGet)" "http_conn.sent (conns srv 7) = []"
    using example_server_sel
    by (auto simp: srv_def HttpServer_OnConnection_def UpdateBuckets_def upd_conn_def example_conn_def
        split: prod.splits)
  have run: "http_run kGet (Some (\<lambda>q p. p)) 1 srv (\<lambda>_. 0) (Map.empty(7 \<mapsto> 0))"
    using http_run.conn [OF example_server_run _ _ srv, of "Some (\<lambda>q p. p)"] example_server_sel
    by (simp add: example_conn_def)
  obtain out where out: "RequestMessage hello_request = Inr (out, hello_request\<lparr>request_message := out\<rparr>)"
      "Peek out = concat ([''GET / HT''] @ [''TP/1.1'' @ kCRLF @ kCRLF])"
    using RequestMessage_ok [OF hello_request_ok(3)] hello_request_ok(2,4,5) request_text [of hello_request]
    by (auto simp: request_head_def)
  have keep: "wants_close (received_request hello_request) = False"
    by (simp add: wants_close_def received_request_def hello_request_def HttpRequest_new_def Value_def strcaseeq_def c_str_def)
  have new: "HttpResponse_new\<lparr>close_state := False\<rparr> = HttpResponse_new" by (simp add: HttpResponse_new_def)
  have "buffer_ok (response_message HttpResponse_new)" "Peek (response_message HttpResponse_new) = []"
    by (simp_all add: HttpResponse_new_def)
  then obtain rb where rb: "ResponseMessage HttpResponse_new = Inr (rb, HttpResponse_new\<lparr>response_message := rb\<rparr>)"
      "Peek rb = concat (response_chunks HttpResponse_new)"
    using ResponseMessage_ok [of HttpResponse_new] by auto
  have last: "''TP/1.1'' @ kCRLF @ kCRLF \<noteq> []" by simp
  show ?thesis
    using http_exchange [OF run sel(1,2) hello_request_ok(1-4) out last] keep new rb srv sel(3) by auto
qed

end
